(* ===== verification/Prelude.thy ===== *)
theory Prelude imports Main "HOL-Library.AList" begin

text \<open>
  What every other theory of the development uses: the error values of
  \<^verbatim>\<open>packages/core-common/src/types.ts\<close>, a result type for operations that throw, and the
  JavaScript collections of the source. A JavaScript \<^verbatim>\<open>Map\<close> is an association list in insertion
  order: \<open>AList.update\<close> overwrites a key in place and appends a new one, exactly as
  \<^verbatim>\<open>Map.prototype.set\<close> does, and \<open>AList.delete\<close> is \<^verbatim>\<open>Map.prototype.delete\<close>.
\<close>

section \<open>Errors and results\<close>

datatype core_error_code =
  E_ENVELOPE | E_UNKNOWN_EVENT | E_SURFACE_RANGE | E_WRITER_LEASE | E_CLOSED | E_STORAGE_FAULT
| E_WORKSPACE_CLOSED | E_LEDGER_INTEGRITY | E_EXECUTE_PERMIT | E_JOB_POLL_TIMEOUT | E_LANE_BUSY
| E_REGISTRY_DUPLICATE | E_TOOLDEF_META | E_SEAM_MISSING | E_FS_UNENFORCED | E_FS_POLICY_INVALID
| E_REQUEST_FROZEN | E_RELATION | E_CAS | E_SCAN_UNBOUNDED | E_SCAN_TRUNCATED | E_DEPTH_EXCEEDED
| E_NONCE | E_REQUEST_KIND | E_MODEL_UNKNOWN | E_LOOP_MISSING | E_LOOP_TIMEOUT | E_CHILD_LIMIT
| E_BUDGET | E_CHILD_NOT_FOUND | E_UNSUPPORTED | E_CHILD_CONFLICT | E_FORMAT | E_FORMAT_NEWER
| E_FORMAT_OLDER | E_FORMAT_CORRUPT | E_DATA_DIR_STALE | E_DATA_DIR_NEWER

text \<open>
  A thrown error. \<open>CoreError\<close> is the source's class: its code and the fixed part of its message
  (interpolated operands and the \<^verbatim>\<open>detail\<close> record are left out). \<open>PlainError\<close> is any other
  \<^verbatim>\<open>Error\<close> the modelled code throws.
\<close>

datatype js_error = CoreError core_error_code string | PlainError string

type_synonym 'a res = "js_error + 'a"

definition throw :: "core_error_code \<Rightarrow> string \<Rightarrow> 'a res" where
  "throw c m = Inl (CoreError c m)"

definition rbind :: "'a res \<Rightarrow> ('a \<Rightarrow> 'b res) \<Rightarrow> 'b res" where
  "rbind r f = (case r of Inl e \<Rightarrow> Inl e | Inr x \<Rightarrow> f x)"

definition require :: "bool \<Rightarrow> core_error_code \<Rightarrow> string \<Rightarrow> unit res" where
  "require ok c m = (if ok then Inr () else throw c m)"

fun error_code :: "'a res \<Rightarrow> core_error_code option" where
  "error_code (Inl (CoreError c m)) = Some c"
| "error_code _ = None"

named_theorems res_simps \<open>unfolding of the result combinators\<close>

lemma rbind_Inl [simp]: "rbind (Inl e) f = Inl e"
  by (simp add: rbind_def)

lemma rbind_Inr [simp]: "rbind (Inr x) f = f x"
  by (simp add: rbind_def)

lemma rbind_eq_Inr_iff [res_simps]:
  "rbind r f = Inr y \<longleftrightarrow> (\<exists>x. r = Inr x \<and> f x = Inr y)"
  by (cases r) auto

lemma require_eq_Inr_iff [res_simps]: "require ok c m = Inr u \<longleftrightarrow> ok"
  by (simp add: require_def throw_def)

lemma require_True [simp]: "require True c m = Inr ()"
  by (simp add: require_def)

lemma require_False [simp]: "require False c m = throw c m"
  by (simp add: require_def)

lemma throw_neq_Inr [simp]: "throw c m \<noteq> Inr x" "Inr x \<noteq> throw c m"
  by (simp_all add: throw_def)

lemma rbind_throw [simp]: "rbind (throw c m) f = throw c m"
  by (simp add: throw_def)

lemma error_code_throw [simp]: "error_code (throw c m) = Some c"
  by (simp add: throw_def)

lemma rbindE:
  assumes "rbind r f = Inr y"
  obtains x where "r = Inr x" "f x = Inr y"
  using assms by (auto simp: res_simps)

section \<open>JavaScript maps\<close>

type_synonym ('k, 'v) jsmap = "('k \<times> 'v) list"

abbreviation jm_get :: "('k, 'v) jsmap \<Rightarrow> 'k \<Rightarrow> 'v option" where
  "jm_get m k \<equiv> map_of m k"

abbreviation jm_set :: "('k, 'v) jsmap \<Rightarrow> 'k \<Rightarrow> 'v \<Rightarrow> ('k, 'v) jsmap" where
  "jm_set m k v \<equiv> AList.update k v m"

abbreviation jm_delete :: "('k, 'v) jsmap \<Rightarrow> 'k \<Rightarrow> ('k, 'v) jsmap" where
  "jm_delete m k \<equiv> AList.delete k m"

abbreviation jm_has :: "('k, 'v) jsmap \<Rightarrow> 'k \<Rightarrow> bool" where
  "jm_has m k \<equiv> map_of m k \<noteq> None"

abbreviation jm_values :: "('k, 'v) jsmap \<Rightarrow> 'v list" where
  "jm_values m \<equiv> map snd m"

abbreviation jm_keys :: "('k, 'v) jsmap \<Rightarrow> 'k list" where
  "jm_keys m \<equiv> map fst m"

definition jm_wf :: "('k, 'v) jsmap \<Rightarrow> bool" where
  "jm_wf m \<longleftrightarrow> distinct (jm_keys m)"

lemma jm_wf_Nil [simp, intro]: "jm_wf []"
  by (simp add: jm_wf_def)

lemma jm_wf_set [simp, intro]: "jm_wf m \<Longrightarrow> jm_wf (jm_set m k v)"
  by (simp add: jm_wf_def distinct_update)

lemma jm_wf_delete [simp, intro]: "jm_wf m \<Longrightarrow> jm_wf (jm_delete m k)"
  by (simp add: jm_wf_def distinct_delete)

lemma jm_get_set [simp]: "jm_get (jm_set m k v) k' = (if k = k' then Some v else jm_get m k')"
  by (simp add: update_conv')

lemma jm_get_delete [simp]: "jm_get (jm_delete m k) k' = (if k = k' then None else jm_get m k')"
  by (simp add: delete_conv')

lemma jm_wf_get_iff: "jm_wf m \<Longrightarrow> jm_get m k = Some v \<longleftrightarrow> (k, v) \<in> set m"
  by (simp add: jm_wf_def)

text \<open>Mutating every record stored in a map, as the source does through the references it holds.\<close>

definition jm_map_values :: "('v \<Rightarrow> 'v) \<Rightarrow> ('k, 'v) jsmap \<Rightarrow> ('k, 'v) jsmap" where
  "jm_map_values f m = map (\<lambda>(k, v). (k, f v)) m"

lemma jm_get_map_values [simp]: "jm_get (jm_map_values f m) k = map_option f (jm_get m k)"
  by (induction m) (auto simp: jm_map_values_def)

lemma jm_keys_map_values [simp]: "jm_keys (jm_map_values f m) = jm_keys m"
  by (simp add: jm_map_values_def case_prod_beta')

lemma jm_wf_map_values [simp]: "jm_wf (jm_map_values f m) = jm_wf m"
  by (simp add: jm_wf_def)

lemma jm_values_map_values [simp]: "jm_values (jm_map_values f m) = map f (jm_values m)"
  by (simp add: jm_map_values_def case_prod_beta')

text \<open>
  Counting and summing over the values of a map: what one write does to the total. These carry the
  accounting invariants of the budget scopes and of the active child states.
\<close>

definition jm_sum :: "('v \<Rightarrow> int) \<Rightarrow> ('k, 'v) jsmap \<Rightarrow> int" where
  "jm_sum f m = sum_list (map f (jm_values m))"

lemma jm_sum_Nil [simp]: "jm_sum f [] = 0"
  by (simp add: jm_sum_def)

lemma jm_sum_set:
  assumes "jm_wf m"
  shows "jm_sum f (jm_set m k v) =
    jm_sum f m + f v - (case jm_get m k of None \<Rightarrow> 0 | Some w \<Rightarrow> f w)"
  using assms
  by (induction m) (auto simp: jm_sum_def jm_wf_def split: option.splits dest: map_of_SomeD)

lemma jm_sum_cong:
  assumes "\<And>v. v \<in> set (jm_values m) \<Longrightarrow> f v = g v"
  shows "jm_sum f m = jm_sum g m"
  using assms unfolding jm_sum_def by (metis map_cong)

lemma jm_sum_nonneg:
  assumes "\<And>v. v \<in> set (jm_values m) \<Longrightarrow> 0 \<le> f v"
  shows "0 \<le> jm_sum f m"
  unfolding jm_sum_def by (rule sum_list_nonneg) (use assms in force)

lemma set_jm_values_set:
  "set (jm_values (jm_set m k v)) \<subseteq> insert v (set (jm_values m))"
  by (induction m) auto

section \<open>Reachable states\<close>

lemma reachable_invariant:
  assumes "r\<^sup>*\<^sup>* s t" "I s" "\<And>x y. r x y \<Longrightarrow> I x \<Longrightarrow> I y"
  shows "I t"
  using assms(1,2) by (induction rule: rtranclp_induct) (auto intro: assms(3))

section \<open>Interfaces\<close>

text \<open>
  The contract of a JavaScript map as the ledger code uses it: what a read returns after a write,
  and that a write of another key is not seen. The client lemma folds a list of writes.
\<close>

locale keyed_store =
  fixes empty :: "'m"
    and put :: "'m \<Rightarrow> 'k \<Rightarrow> 'v \<Rightarrow> 'm"
    and look :: "'m \<Rightarrow> 'k \<Rightarrow> 'v option"
    and ok :: "'m \<Rightarrow> bool"
  assumes ok_empty: "ok empty"
    and look_empty: "look empty k = None"
    and ok_put: "ok m \<Longrightarrow> ok (put m k v)"
    and look_put: "ok m \<Longrightarrow> look (put m k v) k' = (if k = k' then Some v else look m k')"
begin

definition put_all :: "'m \<Rightarrow> ('k \<times> 'v) list \<Rightarrow> 'm" where
  "put_all = foldl (\<lambda>m (k, v). put m k v)"

lemma ok_put_all: "ok m \<Longrightarrow> ok (put_all m kvs)"
  unfolding put_all_def by (induction kvs arbitrary: m) (auto intro: ok_put)

lemma look_put_all:
  "ok m \<Longrightarrow> look (put_all m kvs) k = (case map_of (rev kvs) k of None \<Rightarrow> look m k | Some v \<Rightarrow> Some v)"
  unfolding put_all_def
proof (induction kvs arbitrary: m)
  case Nil
  then show ?case by simp
next
  case (Cons p kvs)
  obtain k0 v0 where p: "p = (k0, v0)" by force
  have "ok (put m k0 v0)" using Cons.prems by (rule ok_put)
  from Cons.IH [OF this] Cons.prems show ?case
    by (auto simp: p look_put map_add_def split: option.splits)
qed

lemma put_all_last_write_wins: "ok m \<Longrightarrow> look (put_all m (kvs @ [(k, v)])) k = Some v"
  by (simp add: look_put_all)

end

interpretation jsmap_store: keyed_store "[]" "\<lambda>m k v. jm_set m k v" "\<lambda>m k. jm_get m k" jm_wf
  by unfold_locales auto

end
