(* ===== verification/Js.thy ===== *)
theory Js imports Prelude Complex_Main begin

text \<open>
  The JavaScript values the modelled code reads. \<open>json\<close> is the payload of a ledger row
  (\<^verbatim>\<open>JsonValue\<close> of \<^verbatim>\<open>packages/protocol\<close>); an absent member is \<open>None\<close>, the
  \<^verbatim>\<open>undefined\<close> of the source. The numbers of a payload are integers here: every number the
  modelled code reads from a row is an integer by its schema (sequences, turns, steps, revisions,
  counts), and fractional credit amounts are outside the model. \<open>jsnum\<close> is a JavaScript number
  where the code tests for non-integers, infinities and \<^verbatim>\<open>NaN\<close>.
\<close>

section \<open>Numbers\<close>

datatype jsnum = NaN | Infinity bool | Fin rat

definition max_safe_integer :: int where
  "max_safe_integer = 2 ^ 53 - 1"

definition is_integral :: "rat \<Rightarrow> bool" where
  "is_integral q \<longleftrightarrow> of_int \<lfloor>q\<rfloor> = q"

definition is_safe_integer :: "jsnum \<Rightarrow> bool" where
  "is_safe_integer x =
     (case x of Fin q \<Rightarrow> is_integral q \<and> \<bar>q\<bar> \<le> of_int max_safe_integer | _ \<Rightarrow> False)"

fun js_lt :: "jsnum \<Rightarrow> jsnum \<Rightarrow> bool" where
  "js_lt NaN _ = False"
| "js_lt _ NaN = False"
| "js_lt (Fin a) (Fin b) = (a < b)"
| "js_lt (Fin _) (Infinity pos) = pos"
| "js_lt (Infinity pos) (Fin _) = (\<not> pos)"
| "js_lt (Infinity a) (Infinity b) = (\<not> a \<and> b)"

definition num_of_int :: "int \<Rightarrow> jsnum" where
  "num_of_int i = Fin (of_int i)"

definition int_of_num :: "jsnum \<Rightarrow> int" where
  "int_of_num x = (case x of Fin q \<Rightarrow> \<lfloor>q\<rfloor> | _ \<Rightarrow> 0)"

lemma is_integral_of_int [simp]: "is_integral (of_int i)"
  by (simp add: is_integral_def)

lemma is_safe_integer_of_int [simp]: "is_safe_integer (num_of_int i) \<longleftrightarrow> \<bar>i\<bar> \<le> max_safe_integer"
proof -
  have "\<bar>of_int i :: rat\<bar> \<le> of_int max_safe_integer \<longleftrightarrow> \<bar>i\<bar> \<le> max_safe_integer"
    by (metis of_int_abs of_int_le_iff)
  then show ?thesis by (simp add: is_safe_integer_def num_of_int_def)
qed

lemma int_of_num_of_int [simp]: "int_of_num (num_of_int i) = i"
  by (simp add: int_of_num_def num_of_int_def)

lemma is_safe_integerE:
  assumes "is_safe_integer x"
  obtains i where "x = num_of_int i" "\<bar>i\<bar> \<le> max_safe_integer"
proof (cases x)
  case (Fin q)
  with assms have q: "of_int \<lfloor>q\<rfloor> = q" "\<bar>q\<bar> \<le> of_int max_safe_integer"
    by (simp_all add: is_safe_integer_def is_integral_def)
  have x: "x = num_of_int \<lfloor>q\<rfloor>" unfolding num_of_int_def q(1) by (rule Fin)
  with assms have "\<bar>\<lfloor>q\<rfloor>\<bar> \<le> max_safe_integer" by simp
  with x show ?thesis by (rule that)
qed (use assms in \<open>simp_all add: is_safe_integer_def\<close>)

lemma js_lt_of_int [simp]: "js_lt (num_of_int a) (num_of_int b) \<longleftrightarrow> a < b"
  by (simp add: num_of_int_def)

section \<open>JSON payloads\<close>

datatype json =
  JNull | JBool bool | JNum int | JStr string | JArr "json list" | JObj "(string \<times> json) list"

text \<open>\<^verbatim>\<open>d?.k\<close>: undefined on anything but an object that has the member.\<close>

definition jget :: "json option \<Rightarrow> string \<Rightarrow> json option" where
  "jget d k = (case d of Some (JObj kvs) \<Rightarrow> map_of kvs k | _ \<Rightarrow> None)"

definition jstr :: "json option \<Rightarrow> string option" where
  "jstr v = (case v of Some (JStr s) \<Rightarrow> Some s | _ \<Rightarrow> None)"

definition jnum :: "json option \<Rightarrow> int option" where
  "jnum v = (case v of Some (JNum n) \<Rightarrow> Some n | _ \<Rightarrow> None)"

text \<open>\<^verbatim>\<open>typeof v === 'object'\<close>, which holds of \<^verbatim>\<open>null\<close> and of arrays as well.\<close>

definition is_typeof_object :: "json \<Rightarrow> bool" where
  "is_typeof_object v = (case v of JNull \<Rightarrow> True | JArr _ \<Rightarrow> True | JObj _ \<Rightarrow> True | _ \<Rightarrow> False)"

definition is_array :: "json \<Rightarrow> bool" where
  "is_array v = (case v of JArr _ \<Rightarrow> True | _ \<Rightarrow> False)"

definition is_plain_object :: "json \<Rightarrow> bool" where
  "is_plain_object v = (case v of JObj _ \<Rightarrow> True | _ \<Rightarrow> False)"

definition js_truthy :: "json option \<Rightarrow> bool" where
  "js_truthy v = (case v of None \<Rightarrow> False | Some JNull \<Rightarrow> False | Some (JBool b) \<Rightarrow> b
     | Some (JNum n) \<Rightarrow> n \<noteq> 0 | Some (JStr s) \<Rightarrow> s \<noteq> '''' | Some (JArr _) \<Rightarrow> True | Some (JObj _) \<Rightarrow> True)"

lemma jget_None [simp]: "jget None k = None"
  by (simp add: jget_def)

lemma jget_JObj [simp]: "jget (Some (JObj kvs)) k = map_of kvs k"
  by (simp add: jget_def)

lemma jget_JNull [simp]: "jget (Some JNull) k = None"
  by (simp add: jget_def)

section \<open>The conversions \<^verbatim>\<open>String(v)\<close> and \<^verbatim>\<open>Number(v)\<close>\<close>

fun nat_digits :: "nat \<Rightarrow> string" where
  "nat_digits n = (if n < 10 then [char_of (48 + n)]
     else nat_digits (n div 10) @ [char_of (48 + n mod 10)])"

declare nat_digits.simps [simp del]

definition int_string :: "int \<Rightarrow> string" where
  "int_string i = (if i < 0 then CHR ''-'' # nat_digits (nat (- i)) else nat_digits (nat i))"

fun join_strings :: "string \<Rightarrow> string list \<Rightarrow> string" where
  "join_strings sep [] = ''''"
| "join_strings sep [s] = s"
| "join_strings sep (s # t # ss) = s @ sep @ join_strings sep (t # ss)"

fun js_string_of :: "json \<Rightarrow> string" where
  "js_string_of JNull = ''null''"
| "js_string_of (JBool b) = (if b then ''true'' else ''false'')"
| "js_string_of (JNum n) = int_string n"
| "js_string_of (JStr s) = s"
| "js_string_of (JArr xs) =
     join_strings '','' (map (\<lambda>x. if x = JNull then '''' else js_string_of x) xs)"
| "js_string_of (JObj _) = ''[object Object]''"

definition js_string :: "json option \<Rightarrow> string" where
  "js_string v = (case v of None \<Rightarrow> ''undefined'' | Some x \<Rightarrow> js_string_of x)"

text \<open>
  \<^verbatim>\<open>Number(s)\<close> of a string: surrounding blanks are dropped, the empty string is 0, a decimal
  integer literal is its value; every other string reads as \<^verbatim>\<open>NaN\<close> here, which leaves out the
  literals with a fraction, an exponent or a radix prefix.
\<close>

definition is_digit :: "char \<Rightarrow> bool" where
  "is_digit c \<longleftrightarrow> (of_char c :: nat) \<ge> 48 \<and> (of_char c :: nat) \<le> 57"

definition is_js_space :: "char \<Rightarrow> bool" where
  "is_js_space c \<longleftrightarrow> (of_char c :: nat) \<in> {9, 10, 11, 12, 13, 32}"

definition trim :: "string \<Rightarrow> string" where
  "trim s = rev (dropWhile is_js_space (rev (dropWhile is_js_space s)))"

definition digits_value :: "string \<Rightarrow> int" where
  "digits_value = foldl (\<lambda>n c. 10 * n + (of_char c - 48)) 0"

definition number_of_string :: "string \<Rightarrow> jsnum" where
  "number_of_string s0 = (let s = trim s0 in
     if s = '''' then num_of_int 0
     else if list_all is_digit s then num_of_int (digits_value s)
     else case s of
       c # ds \<Rightarrow>
         if ds \<noteq> '''' \<and> list_all is_digit ds \<and> c = CHR ''-'' then num_of_int (- digits_value ds)
         else if ds \<noteq> '''' \<and> list_all is_digit ds \<and> c = CHR ''+'' then num_of_int (digits_value ds)
         else NaN
     | [] \<Rightarrow> NaN)"

definition js_number :: "json option \<Rightarrow> jsnum" where
  "js_number v = (case v of
       None \<Rightarrow> NaN
     | Some JNull \<Rightarrow> num_of_int 0
     | Some (JBool b) \<Rightarrow> num_of_int (if b then 1 else 0)
     | Some (JNum n) \<Rightarrow> num_of_int n
     | Some (JStr s) \<Rightarrow> number_of_string s
     | Some (JArr xs) \<Rightarrow> number_of_string (js_string_of (JArr xs))
     | Some (JObj _) \<Rightarrow> NaN)"

lemma js_number_JNum [simp]: "js_number (Some (JNum n)) = num_of_int n"
  by (simp add: js_number_def)

lemma num_of_int_inject [simp]: "num_of_int a = num_of_int b \<longleftrightarrow> a = b"
  by (simp add: num_of_int_def)

lemma js_string_JStr [simp]: "js_string (Some (JStr s)) = s"
  by (simp add: js_string_def)

subsection \<open>Printed integers\<close>

lemma of_char_digit: "n < 10 \<Longrightarrow> (of_char (char_of (48 + n :: nat)) :: int) = 48 + int n"
proof -
  assume "n < 10"
  have "(of_char (char_of (48 + n)) :: int) = int (of_char (char_of (48 + n)))"
    by (simp only: of_nat_of_char)
  also have "(of_char (char_of (48 + n)) :: nat) = 48 + n"
    using \<open>n < 10\<close> by simp
  finally show ?thesis by simp
qed

lemma digits_value_snoc: "digits_value (ds @ [c]) = 10 * digits_value ds + (of_char c - 48)"
  by (simp add: digits_value_def)

lemma digits_value_nat_digits [simp]: "digits_value (nat_digits n) = int n"
proof (induction n rule: nat_digits.induct)
  case (1 n)
  show ?case
  proof (cases "n < 10")
    case True
    then show ?thesis by (simp add: nat_digits.simps [of n] digits_value_def of_char_digit)
  next
    case False
    have "int n = 10 * int (n div 10) + int (n mod 10)" by presburger
    with False "1.IH" show ?thesis
      by (simp add: nat_digits.simps [of n] digits_value_snoc of_char_digit)
  qed
qed

lemma nat_digits_inject: "nat_digits m = nat_digits n \<longleftrightarrow> m = n"
  by (metis digits_value_nat_digits of_nat_eq_iff)

lemma nat_digits_digits: "list_all is_digit (nat_digits n)"
proof (induction n rule: nat_digits.induct)
  case (1 n)
  have d: "is_digit (char_of (48 + k :: nat))" if "k < 10" for k
    using that by (simp add: is_digit_def of_char_of take_bit_eq_mod)
  show ?case
    using 1 d by (cases "n < 10") (simp_all add: nat_digits.simps [of n])
qed

lemma nat_digits_ne [simp]: "nat_digits n \<noteq> []"
  by (subst nat_digits.simps) simp

lemma digit_not_minus: "is_digit c \<Longrightarrow> c \<noteq> CHR ''-''"
  by (auto simp: is_digit_def)

lemma int_string_inject: "int_string i = int_string j \<longleftrightarrow> i = j"
proof -
  have minus: "nat_digits n \<noteq> CHR ''-'' # xs" for n xs
    using nat_digits_digits [of n] digit_not_minus [of "CHR ''-''"] by auto
  show ?thesis
    using minus minus [symmetric] by (auto simp: int_string_def nat_digits_inject)
qed

lemma dropWhile_none: "list_all (\<lambda>c. \<not> P c) s \<Longrightarrow> dropWhile P s = s"
  by (cases s) auto

lemma trim_id: "list_all (\<lambda>c. \<not> is_js_space c) s \<Longrightarrow> trim s = s"
  by (simp add: trim_def dropWhile_none)

lemma digit_not_space: "is_digit c \<Longrightarrow> \<not> is_js_space c"
  by (auto simp: is_digit_def is_js_space_def)

text \<open>Printing a number and reading it back: \<^verbatim>\<open>Number(String(n))\<close>.\<close>

lemma number_of_int_string: "number_of_string (int_string i) = num_of_int i"
proof (cases "i < 0")
  case True
  have "list_all (\<lambda>c. \<not> is_js_space c) (int_string i)"
    using nat_digits_digits [of "nat (- i)"] digit_not_space True
    by (auto simp: int_string_def list_all_iff is_js_space_def)
  then show ?thesis
    using True nat_digits_digits [of "nat (- i)"] by (simp add: number_of_string_def trim_id int_string_def Let_def is_digit_def)
next
  case False
  have "list_all (\<lambda>c. \<not> is_js_space c) (int_string i)"
    using nat_digits_digits [of "nat i"] digit_not_space False
    by (auto simp: int_string_def list_all_iff)
  then show ?thesis
    using False nat_digits_digits [of "nat i"] by (simp add: number_of_string_def trim_id int_string_def Let_def)
qed

end
