(* ===== verification/Storage.thy ===== *)
theory Storage imports Js begin

text \<open>
  The ledger rows and the materialized registers: the event envelope of
  \<^verbatim>\<open>packages/protocol\<close> and \<^verbatim>\<open>packages/core-ledger/src/log/storage.ts\<close>. A
  register cell is addressed by a register name and a key, joined by one NUL character into the key
  of a single JavaScript map; \<open>cacheKey_inject\<close> is what makes that sound. Timestamps, actors and
  surface operations are carried as the JSON they are.
\<close>

section \<open>Rows\<close>

record prepared_event =
  e_ts :: string
  e_id :: string
  e_type :: string
  e_data :: json
  e_actor :: json
  e_origin :: string
  e_trusted :: bool
  e_lane :: "string option"
  e_v :: "int option"
  e_register :: "string option"
  e_ignorable :: bool
  e_surfaceOp :: "json option"
  e_sourceEventSeqs :: "int list option"

record event = prepared_event +
  e_seq :: int

definition stamp :: "int \<Rightarrow> prepared_event \<Rightarrow> event" where
  "stamp n e = prepared_event.extend e (event.fields n)"

definition lane_of :: "('a) prepared_event_scheme \<Rightarrow> string" where
  "lane_of e = (case e_lane e of Some l \<Rightarrow> l | None \<Rightarrow> ''main'')"

lemma stamp_sel [simp]:
  "e_seq (stamp n e) = n" "e_type (stamp n e) = e_type e" "e_data (stamp n e) = e_data e"
  "e_lane (stamp n e) = e_lane e" "e_register (stamp n e) = e_register e"
  by (simp_all add: stamp_def prepared_event.extend_def event.fields_def)

section \<open>Register cells\<close>

record register_row =
  r_register :: string
  r_key :: string
  r_seq :: int
  r_data :: json

definition NUL :: char where
  "NUL = CHR 0x00"

definition cacheKey :: "string \<Rightarrow> string \<Rightarrow> string" where
  "cacheKey reg key = reg @ NUL # key"

definition isRegisterTombstone :: "string \<Rightarrow> json \<Rightarrow> bool" where
  "isRegisterTombstone reg data =
     (if data = JNull then True
      else reg = ''harness/entry'' \<and> is_typeof_object data
           \<and> jget (Some data) ''tombstone'' = Some (JBool True))"

definition nullish :: "json option \<Rightarrow> bool" where
  "nullish v \<longleftrightarrow> v = None \<or> v = Some JNull"

definition string_or_empty :: "json option \<Rightarrow> string" where
  "string_or_empty v = (if nullish v then '''' else js_string v)"

definition registerKey :: "('a) prepared_event_scheme \<Rightarrow> string" where
  "registerKey e =
     (let d = Some (e_data e) in
      if e_register e = Some ''decision/state'' then string_or_empty (jget (jget d ''handle'') ''id'')
      else if e_register e = Some ''artifact/job'' then string_or_empty (jget d ''jobId'')
      else if e_register e = Some ''harness/entry'' then
        string_or_empty (jget d ''kind'') @ NUL # string_or_empty (jget d ''id'')
      else lane_of e)"

definition row_of :: "event \<Rightarrow> register_row option" where
  "row_of e = (case e_register e of None \<Rightarrow> None
     | Some reg \<Rightarrow> if reg = [] then None
         else Some \<lparr>r_register = reg, r_key = registerKey e, r_seq = e_seq e, r_data = e_data e\<rparr>)"

section \<open>The register map\<close>

record register_map =
  rm_cells :: "(string, register_row) jsmap"
  rm_opLanes :: "string list"

definition set_add :: "'a list \<Rightarrow> 'a \<Rightarrow> 'a list" where
  "set_add xs x = (if x \<in> set xs then xs else xs @ [x])"

definition rm_empty :: register_map where
  "rm_empty = \<lparr>rm_cells = [], rm_opLanes = []\<rparr>"

definition rm_get :: "register_map \<Rightarrow> string \<Rightarrow> string \<Rightarrow> register_row option" where
  "rm_get m reg key = jm_get (rm_cells m) (cacheKey reg key)"

definition rm_apply :: "register_map \<Rightarrow> register_row \<Rightarrow> register_map" where
  "rm_apply m row =
     (let k = cacheKey (r_register row) (r_key row);
          gone = isRegisterTombstone (r_register row) (r_data row);
          cells = (if gone then jm_delete (rm_cells m) k else jm_set (rm_cells m) k row);
          lanes = (if r_register row = ''op.state'' then
                     (if gone then removeAll (r_key row) (rm_opLanes m)
                      else set_add (rm_opLanes m) (r_key row))
                   else rm_opLanes m)
      in \<lparr>rm_cells = cells, rm_opLanes = lanes\<rparr>)"

definition rm_applyAll :: "register_map \<Rightarrow> register_row list \<Rightarrow> register_map" where
  "rm_applyAll m rows = foldl rm_apply m rows"

definition rm_replaceAll :: "register_map \<Rightarrow> register_row list \<Rightarrow> register_map" where
  "rm_replaceAll m rows = rm_applyAll rm_empty rows"

definition rm_values :: "register_map \<Rightarrow> register_row list" where
  "rm_values m = jm_values (rm_cells m)"

definition rm_hasOpLane :: "register_map \<Rightarrow> bool" where
  "rm_hasOpLane m = (length (rm_opLanes m) > 0)"

text \<open>Folding the register writes of a list of rows, as every rebuild of the cells does.\<close>

definition rm_fold_events :: "register_map \<Rightarrow> event list \<Rightarrow> register_map" where
  "rm_fold_events m es = rm_applyAll m (List.map_filter row_of es)"

lemma set_set_add [simp]: "set (set_add xs x) = insert x (set xs)"
  by (auto simp: set_add_def)

lemma distinct_set_add [simp]: "distinct (set_add xs x) = distinct xs"
  by (simp add: set_add_def)

lemma rm_applyAll_Nil [simp]: "rm_applyAll m [] = m"
  by (simp add: rm_applyAll_def)

lemma rm_applyAll_Cons [simp]: "rm_applyAll m (r # rs) = rm_applyAll (rm_apply m r) rs"
  by (simp add: rm_applyAll_def)

lemma rm_applyAll_append [simp]: "rm_applyAll m (rs @ ss) = rm_applyAll (rm_applyAll m rs) ss"
  by (simp add: rm_applyAll_def)

lemma rm_fold_events_append: "rm_fold_events m (es @ fs) = rm_fold_events (rm_fold_events m es) fs"
  by (simp add: rm_fold_events_def map_filter_def)

lemma rm_fold_events_Nil [simp]: "rm_fold_events m [] = m"
  by (simp add: rm_fold_events_def map_filter_def)

lemma rm_get_empty [simp]: "rm_get rm_empty reg key = None"
  by (simp add: rm_get_def rm_empty_def)

subsection \<open>Keys do not collide\<close>

definition nul_free :: "string \<Rightarrow> bool" where
  "nul_free s \<longleftrightarrow> NUL \<notin> set s"

lemma append_NUL_inject:
  assumes "nul_free a" "nul_free b"
  shows "a @ NUL # x = b @ NUL # y \<longleftrightarrow> a = b \<and> x = y"
  using assms
proof (induction a arbitrary: b)
  case Nil
  then show ?case by (cases b) (auto simp: nul_free_def)
next
  case (Cons c a)
  then show ?case by (cases b) (auto simp: nul_free_def)
qed

lemma cacheKey_inject:
  assumes "nul_free r" "nul_free s"
  shows "cacheKey r k = cacheKey s l \<longleftrightarrow> r = s \<and> k = l"
  unfolding cacheKey_def using assms by (rule append_NUL_inject)

lemma nul_free_op_state [simp]: "nul_free ''op.state''"
  by (simp add: nul_free_def NUL_def)

subsection \<open>What a read returns after a write\<close>

lemma rm_get_apply:
  assumes "nul_free (r_register row)" "nul_free reg"
  shows "rm_get (rm_apply m row) reg key =
    (if r_register row = reg \<and> r_key row = key then
       (if isRegisterTombstone reg (r_data row) then None else Some row)
     else rm_get m reg key)"
  using assms by (auto simp: rm_get_def rm_apply_def Let_def cacheKey_inject)

text \<open>The last row for an address decides its cell.\<close>

definition last_row :: "register_row list \<Rightarrow> string \<Rightarrow> string \<Rightarrow> register_row option" where
  "last_row rows reg key = find (\<lambda>r. r_register r = reg \<and> r_key r = key) (rev rows)"

lemma find_append: "find P (xs @ ys) = (case find P xs of None \<Rightarrow> find P ys | Some x \<Rightarrow> Some x)"
  by (induction xs) auto

lemma rm_get_applyAll:
  assumes "list_all (\<lambda>r. nul_free (r_register r)) rows" "nul_free reg"
  shows "rm_get (rm_applyAll m rows) reg key =
    (case last_row rows reg key of
       None \<Rightarrow> rm_get m reg key
     | Some r \<Rightarrow> if isRegisterTombstone reg (r_data r) then None else Some r)"
  using assms(1)
proof (induction rows arbitrary: m)
  case Nil
  then show ?case by (simp add: last_row_def)
next
  case (Cons r rows)
  then show ?case
    by (auto simp: rm_get_apply assms(2) last_row_def find_append split: option.splits)
qed

subsection \<open>The lane set is the set of program-counter cells\<close>

definition rm_wf :: "register_map \<Rightarrow> bool" where
  "rm_wf m \<longleftrightarrow> jm_wf (rm_cells m) \<and> distinct (rm_opLanes m)
     \<and> list_all (\<lambda>(k, r). k = cacheKey (r_register r) (r_key r)
                    \<and> \<not> isRegisterTombstone (r_register r) (r_data r)) (rm_cells m)
     \<and> set (rm_opLanes m) =
         {r_key r | r. r \<in> set (rm_values m) \<and> r_register r = ''op.state''}"

definition rows_nul_free :: "register_map \<Rightarrow> bool" where
  "rows_nul_free m \<longleftrightarrow> list_all (\<lambda>r. nul_free (r_register r)) (rm_values m)"

lemma rm_wf_empty [simp]: "rm_wf rm_empty"
  by (simp add: rm_wf_def rm_empty_def rm_values_def)

lemma rows_nul_free_empty [simp]: "rows_nul_free rm_empty"
  by (simp add: rows_nul_free_def rm_empty_def rm_values_def)

lemma set_update_eq:
  assumes "jm_wf m"
  shows "set (jm_set m k v) = insert (k, v) {p \<in> set m. fst p \<noteq> k}"
  using assms by (induction m) (auto simp: jm_wf_def image_iff)

lemma rows_nul_free_apply:
  assumes "rm_wf m" "rows_nul_free m" "nul_free (r_register row)"
  shows "rows_nul_free (rm_apply m row)"
  using assms
  by (auto simp: rows_nul_free_def rm_apply_def Let_def rm_values_def list_all_iff rm_wf_def
      set_update_eq AList.delete_eq)

lemma rm_wf_apply:
  assumes wf: "rm_wf m" and nf: "rows_nul_free m" "nul_free (r_register row)"
  shows "rm_wf (rm_apply m row)"
proof -
  let ?k = "cacheKey (r_register row) (r_key row)"
  let ?gone = "isRegisterTombstone (r_register row) (r_data row)"
  let ?m = "rm_apply m row"
  have jw: "jm_wf (rm_cells m)" using wf by (simp add: rm_wf_def)
  have keyed: "k = cacheKey (r_register r) (r_key r) \<and> nul_free (r_register r)"
    if "(k, r) \<in> set (rm_cells m)" for k r
    using wf nf that by (force simp: rm_wf_def list_all_iff rows_nul_free_def rm_values_def)
  have cells: "set (rm_cells ?m) = (if ?gone then {} else {(?k, row)}) \<union> {p \<in> set (rm_cells m). fst p \<noteq> ?k}"
    using jw by (auto simp: rm_apply_def Let_def set_update_eq AList.delete_eq)
  have kept: "set (rm_values ?m) = (if ?gone then {} else {row})
      \<union> {r \<in> set (rm_values m). \<not> (r_register r = r_register row \<and> r_key r = r_key row)}"
    using keyed nf(2) by (auto simp: rm_values_def cells cacheKey_inject image_iff; force simp: cacheKey_inject)
  have lanes: "set (rm_opLanes ?m) = {r_key r | r. r \<in> set (rm_values ?m) \<and> r_register r = ''op.state''}"
    using wf unfolding kept by (auto simp: rm_wf_def rm_apply_def Let_def)
  have "list_all (\<lambda>(k, r). k = cacheKey (r_register r) (r_key r)
      \<and> \<not> isRegisterTombstone (r_register r) (r_data r)) (rm_cells ?m)"
    using wf by (auto simp: list_all_iff cells rm_wf_def)
  moreover have "jm_wf (rm_cells ?m)" "distinct (rm_opLanes ?m)"
    using wf by (auto simp: rm_wf_def rm_apply_def Let_def distinct_removeAll)
  ultimately show ?thesis unfolding rm_wf_def using lanes by blast
qed

lemma rm_wf_applyAll:
  assumes "rm_wf m" "rows_nul_free m" "list_all (\<lambda>r. nul_free (r_register r)) rows"
  shows "rm_wf (rm_applyAll m rows) \<and> rows_nul_free (rm_applyAll m rows)"
  using assms by (induction rows arbitrary: m) (auto simp: rm_wf_apply rows_nul_free_apply)

lemma op_lane_iff:
  assumes "rm_wf m" "rows_nul_free m"
  shows "lane \<in> set (rm_opLanes m) \<longleftrightarrow> rm_get m ''op.state'' lane \<noteq> None"
proof -
  have jw: "jm_wf (rm_cells m)" using assms by (simp add: rm_wf_def)
  have keyed: "k = cacheKey (r_register r) (r_key r) \<and> nul_free (r_register r)"
    if "(k, r) \<in> set (rm_cells m)" for k r
    using assms that by (force simp: rm_wf_def list_all_iff rows_nul_free_def rm_values_def)
  have "rm_get m ''op.state'' lane \<noteq> None \<longleftrightarrow>
      (\<exists>r. (cacheKey ''op.state'' lane, r) \<in> set (rm_cells m))"
    using jw by (auto simp: rm_get_def jm_wf_get_iff)
  also have "\<dots> \<longleftrightarrow> (\<exists>r \<in> set (rm_values m). r_register r = ''op.state'' \<and> r_key r = lane)"
    using keyed by (force simp: rm_values_def cacheKey_inject)
  finally show ?thesis using assms by (auto simp: rm_wf_def)
qed

section \<open>Scan queries\<close>

definition SCAN_PAGE_MAX :: int where
  "SCAN_PAGE_MAX = 500"

record scan_query =
  q_fromSeq :: "int option"
  q_toSeq :: "int option"
  q_type :: "string list option"
  q_lane :: "string option"
  q_desc :: bool
  q_limit :: "jsnum option"

definition scanTruncated :: "scan_query \<Rightarrow> js_error" where
  "scanTruncated q = CoreError E_SCAN_TRUNCATED ''scan matched more than 500 rows''"

record integrity_metadata =
  im_mode :: string
  im_previousDigest :: "string option"
  im_digest :: string

record integrity_row =
  ir_sessionKey :: string
  ir_event :: event
  ir_integrity :: "integrity_metadata option"

record lease_claim =
  lc_ttlMs :: int
  lc_expectedLastSeq :: int

record commit_tx =
  tx_events :: "prepared_event list"
  tx_integrity :: "(int \<times> integrity_metadata) list option"
  tx_expectedWriterRunId :: string
  tx_expectedRegisterSeq :: "(string \<times> string \<times> int option) option"
  tx_claim :: "lease_claim option"
  tx_opState :: "(string \<times> json) option"

record commit_receipt =
  cr_firstSeq :: "int option"
  cr_seqs :: "int list"
  cr_opState :: "int option"

record open_result =
  or_lastSeq :: int
  or_formatVersion :: int
  or_created :: bool
  or_parent :: "(string \<times> int) option"

end
