(* ===== verification/LedgerStore.thy ===== *)
theory LedgerStore imports Storage begin

text \<open>
  \<^verbatim>\<open>packages/core-ledger/src/log/memory-storage.ts\<close> and
  \<^verbatim>\<open>memory-storage-base.ts\<close>: the in-process reference implementation of the storage
  contract, its ledger half. The state is the record \<open>ledger_store\<close>; the child-control half extends
  it in \<open>ChildStore\<close>. Every operation takes the reading \<open>now\<close> of the clock for the whole of its
  (synchronous) run and returns the state it leaves together with its result, so what an operation
  changed before it threw is kept.
\<close>

section \<open>State\<close>

record lease =
  l_runId :: string
  l_until :: int
  l_ttlMs :: int

record book =
  b_events :: "event list"
  b_integrity :: "(int, integrity_metadata) jsmap"
  b_registers :: register_map
  b_opened :: bool
  b_lease :: "lease option"
  b_parent :: "(string \<times> int) option"
  b_opCells :: "(string, register_row) jsmap option"

record verified_head =
  vh_sessionKey :: string
  vh_algorithm :: string
  vh_throughSeq :: int
  vh_headDigest :: string
  vh_legacyThroughSeq :: int
  vh_verifiedFullAtMs :: int
  vh_writtenAtMs :: int
  vh_checkpointDigest :: string

record ledger_store =
  books :: "(string, book) jsmap"
  controlFormat :: int
  integrityFailures :: "(string, int option) jsmap"
  verifiedHeads :: "(string, verified_head) jsmap"

definition new_book :: book where
  "new_book = \<lparr>b_events = [], b_integrity = [], b_registers = rm_empty, b_opened = False,
     b_lease = None, b_parent = None, b_opCells = None\<rparr>"

definition get_book :: "'a ledger_store_scheme \<Rightarrow> string \<Rightarrow> book" where
  "get_book st key = (case jm_get (books st) key of Some b \<Rightarrow> b | None \<Rightarrow> new_book)"

definition put_book :: "'a ledger_store_scheme \<Rightarrow> string \<Rightarrow> book \<Rightarrow> 'a ledger_store_scheme" where
  "put_book st key b = st\<lparr>books := jm_set (books st) key b\<rparr>"

text \<open>\<^verbatim>\<open>book(key)\<close> creates the entry it does not find.\<close>

definition touch_book :: "'a ledger_store_scheme \<Rightarrow> string \<Rightarrow> 'a ledger_store_scheme" where
  "touch_book st key = (if jm_has (books st) key then st else put_book st key new_book)"

section \<open>The writer lease\<close>

definition lastSeq :: "book \<Rightarrow> int" where
  "lastSeq b = (if b_events b \<noteq> [] then e_seq (last (b_events b))
     else case b_parent b of Some (_, boundary) \<Rightarrow> boundary | None \<Rightarrow> 0)"

definition assertLease :: "int \<Rightarrow> book \<Rightarrow> string \<Rightarrow> unit res" where
  "assertLease now b runId =
     (case b_lease b of
        None \<Rightarrow> throw E_WRITER_LEASE ''writer lease not held''
      | Some l \<Rightarrow> if l_runId l \<noteq> runId \<or> l_until l < now
                  then throw E_WRITER_LEASE ''writer lease not held'' else Inr ())"

definition holdLease :: "int \<Rightarrow> book \<Rightarrow> string \<Rightarrow> lease_claim option \<Rightarrow> book res" where
  "holdLease now b runId claim =
     rbind (case assertLease now b runId of
              Inr _ \<Rightarrow> Inr (map_option l_ttlMs (b_lease b))
            | Inl e \<Rightarrow>
               (case claim of
                  None \<Rightarrow> Inl e
                | Some c \<Rightarrow>
                    if (\<exists>l \<in> set_option (b_lease b). l_runId l \<noteq> runId) \<or> lastSeq b \<noteq> lc_expectedLastSeq c
                    then Inl e else Inr (Some (lc_ttlMs c))))
       (\<lambda>ttl. Inr (case (claim, ttl) of
                (Some c, Some t) \<Rightarrow> b\<lparr>b_lease := Some \<lparr>l_runId = runId, l_until = now + t, l_ttlMs = t\<rparr>\<rparr>
              | _ \<Rightarrow> b))"

section \<open>The read path: a child ledger splices its parent's prefix\<close>

text \<open>
  The recursion over parents has no bound in the source. Here it takes fuel, and \<open>None\<close> is the
  recursion that does not end: it stands for the stack overflow the source throws. A store of \<open>n\<close>
  books needs at most \<open>n + 2\<close> levels (\<open>prefixed_total\<close>).
\<close>

fun prefixed :: "nat \<Rightarrow> 'a ledger_store_scheme \<Rightarrow> book \<Rightarrow> ('a ledger_store_scheme \<times> event list) option" where
  "prefixed 0 st b = None"
| "prefixed (Suc n) st b =
     (case b_parent b of
        None \<Rightarrow> Some (st, b_events b)
      | Some (pk, boundary) \<Rightarrow>
         (case prefixed n (touch_book st pk) (get_book st pk) of
            None \<Rightarrow> None
          | Some (st', es) \<Rightarrow> Some (st', filter (\<lambda>e. e_seq e \<le> boundary) es @ b_events b)))"

fun prefixedIntegrity ::
  "nat \<Rightarrow> 'a ledger_store_scheme \<Rightarrow> string \<Rightarrow> book \<Rightarrow> ('a ledger_store_scheme \<times> integrity_row list) option" where
  "prefixedIntegrity 0 st key b = None"
| "prefixedIntegrity (Suc n) st key b =
     (let own = map (\<lambda>e. \<lparr>ir_sessionKey = key, ir_event = e, ir_integrity = jm_get (b_integrity b) (e_seq e)\<rparr>)
                  (b_events b) in
      case b_parent b of
        None \<Rightarrow> Some (st, own)
      | Some (pk, boundary) \<Rightarrow>
         (case prefixedIntegrity n (touch_book st pk) pk (get_book st pk) of
            None \<Rightarrow> None
          | Some (st', rows) \<Rightarrow>
              Some (st', filter (\<lambda>r. e_seq (ir_event r) \<le> boundary) rows @ own)))"

definition chain_fuel :: "'a ledger_store_scheme \<Rightarrow> nat" where
  "chain_fuel st = length (books st) + 2"

definition stack_overflow :: js_error where
  "stack_overflow = PlainError ''Maximum call stack size exceeded''"

definition opCell_rows :: "book \<Rightarrow> register_row list" where
  "opCell_rows b = (case b_opCells b of Some m \<Rightarrow> jm_values m | None \<Rightarrow> [])"

definition registerView ::
  "'a ledger_store_scheme \<Rightarrow> book \<Rightarrow> ('a ledger_store_scheme \<times> register_map) option" where
  "registerView st b =
     (if b_parent b = None then Some (st, b_registers b)
      else case prefixed (chain_fuel st) st b of
        None \<Rightarrow> None
      | Some (st', es) \<Rightarrow> Some (st', rm_applyAll (rm_fold_events rm_empty es) (opCell_rows b)))"

definition setOpCell :: "book \<Rightarrow> register_row \<Rightarrow> book" where
  "setOpCell b row =
     (let cells = (case b_opCells b of Some m \<Rightarrow> m | None \<Rightarrow> []);
          cells' = (if r_data row = JNull then jm_delete cells (r_key row)
                    else jm_set cells (r_key row) row)
      in b\<lparr>b_opCells := Some cells', b_registers := rm_apply (b_registers b) row\<rparr>)"

section \<open>Operations\<close>

definition open_session ::
  "int \<Rightarrow> 'a ledger_store_scheme \<Rightarrow> string \<Rightarrow> string \<Rightarrow> int \<Rightarrow> 'a ledger_store_scheme \<times> open_result res" where
  "open_session now st key runId ttl =
     (let created = (case jm_get (books st) key of Some b \<Rightarrow> \<not> b_opened b | None \<Rightarrow> True);
          st1 = touch_book st key;
          b = get_book st key in
      if (\<exists>l \<in> set_option (b_lease b). l_runId l \<noteq> runId \<and> l_until l \<ge> now)
      then (st1, throw E_WRITER_LEASE ''session held by another writer'')
      else let b' = b\<lparr>b_lease := Some \<lparr>l_runId = runId, l_until = now + ttl, l_ttlMs = ttl\<rparr>, b_opened := True\<rparr> in
        (put_book st1 key b',
         Inr \<lparr>or_lastSeq = lastSeq b', or_formatVersion = 1, or_created = created, or_parent = b_parent b'\<rparr>))"

fun stamp_from :: "int \<Rightarrow> prepared_event list \<Rightarrow> event list" where
  "stamp_from n [] = []"
| "stamp_from n (e # es) = stamp (n + 1) e # stamp_from (n + 1) es"

definition integrity_mismatch :: "(int \<times> integrity_metadata) list \<Rightarrow> event list \<Rightarrow> bool" where
  "integrity_mismatch ints stamped \<longleftrightarrow>
     length ints \<noteq> length stamped \<or> list_ex (\<lambda>((s, _), e). s \<noteq> e_seq e) (zip ints stamped)"

definition apply_rows :: "book \<Rightarrow> event list \<Rightarrow> (int \<times> integrity_metadata) list \<Rightarrow> book" where
  "apply_rows b stamped ints =
     b\<lparr>b_registers := rm_fold_events (b_registers b) stamped,
       b_events := b_events b @ stamped,
       b_integrity := foldl (\<lambda>m (s, md). jm_set m s md) (b_integrity b) ints\<rparr>"

definition finish_commit :: "book \<Rightarrow> commit_tx \<Rightarrow> book \<times> commit_receipt res" where
  "finish_commit b tx =
     (let stamped = stamp_from (lastSeq b) (tx_events tx);
          seqs = map e_seq stamped;
          seq = lastSeq b + int (length (tx_events tx));
          first = (case seqs of [] \<Rightarrow> None | s # _ \<Rightarrow> Some s);
          ints = (case tx_integrity tx of Some l \<Rightarrow> l | None \<Rightarrow> []) in
      if tx_integrity tx \<noteq> None \<and> integrity_mismatch ints stamped
      then (b, throw E_STORAGE_FAULT ''integrity metadata does not match assigned sequences'')
      else let b' = apply_rows b stamped ints in
        (case tx_opState tx of
           Some (lane, data) \<Rightarrow>
             (setOpCell b' \<lparr>r_register = ''op.state'', r_key = lane, r_seq = seq, r_data = data\<rparr>,
              Inr \<lparr>cr_firstSeq = first, cr_seqs = seqs, cr_opState = Some seq\<rparr>)
         | None \<Rightarrow> (b', Inr \<lparr>cr_firstSeq = first, cr_seqs = seqs, cr_opState = None\<rparr>)))"

definition commit ::
  "int \<Rightarrow> 'a ledger_store_scheme \<Rightarrow> string \<Rightarrow> commit_tx \<Rightarrow> 'a ledger_store_scheme \<times> commit_receipt res" where
  "commit now st key tx =
     (if tx_opState tx \<noteq> None \<and> tx_events tx = []
      then (st, throw E_STORAGE_FAULT ''an op write needs at least one row in its batch'')
      else
       let st1 = touch_book st key; b = get_book st key in
       case holdLease now b (tx_expectedWriterRunId tx) (tx_claim tx) of
         Inl e \<Rightarrow> (st1, Inl e)
       | Inr b1 \<Rightarrow>
          (let st2 = put_book st1 key b1;
               write = (\<lambda>s. case finish_commit b1 tx of (b', r) \<Rightarrow> (put_book s key b', r)) in
           case tx_expectedRegisterSeq tx of
             None \<Rightarrow> write st2
           | Some (reg, rk, seq) \<Rightarrow>
              (case registerView st2 b1 of
                 None \<Rightarrow> (st2, Inl stack_overflow)
               | Some (st3, view) \<Rightarrow>
                   if map_option r_seq (rm_get view reg rk) \<noteq> seq
                   then (put_book st3 key b, throw E_CAS ''register seq mismatch'')
                   else write st3)))"

definition renew ::
  "int \<Rightarrow> 'a ledger_store_scheme \<Rightarrow> string \<Rightarrow> string \<Rightarrow> lease_claim option \<Rightarrow> 'a ledger_store_scheme \<times> unit res" where
  "renew now st key runId claim =
     (let st1 = touch_book st key; b = get_book st key in
      case claim of
        Some c \<Rightarrow>
          (case holdLease now b runId (Some c) of
             Inl e \<Rightarrow> (st1, Inl e)
           | Inr b' \<Rightarrow> (put_book st1 key b', Inr ()))
      | None \<Rightarrow>
          (case assertLease now b runId of
             Inl e \<Rightarrow> (st1, Inl e)
           | Inr _ \<Rightarrow>
               (case b_lease b of
                  Some l \<Rightarrow> (put_book st1 key
                     (b\<lparr>b_lease := Some \<lparr>l_runId = runId, l_until = now + l_ttlMs l, l_ttlMs = l_ttlMs l\<rparr>\<rparr>), Inr ())
                | None \<Rightarrow> (st1, Inr ()))))"

definition release :: "'a ledger_store_scheme \<Rightarrow> string \<Rightarrow> string \<Rightarrow> 'a ledger_store_scheme" where
  "release st key runId =
     (let st1 = touch_book st key; b = get_book st key in
      if map_option l_runId (b_lease b) = Some runId then put_book st1 key (b\<lparr>b_lease := None\<rparr>) else st1)"

definition scan_row_ok :: "scan_query \<Rightarrow> event \<Rightarrow> bool" where
  "scan_row_ok q e \<longleftrightarrow>
     (case q_fromSeq q of None \<Rightarrow> True | Some s \<Rightarrow> e_seq e \<ge> s) \<and>
     (case q_toSeq q of None \<Rightarrow> True | Some s \<Rightarrow> e_seq e \<le> s) \<and>
     (case q_type q of None \<Rightarrow> True | Some ts \<Rightarrow> e_type e \<in> set ts) \<and>
     (case q_lane q of None \<Rightarrow> True | Some l \<Rightarrow> lane_of e = l)"

definition scan_page :: "scan_query \<Rightarrow> event list \<Rightarrow> event list res" where
  "scan_page q es =
     (let matching = filter (scan_row_ok q) es;
          rows = (if q_desc q then rev matching else matching) in
      case q_limit q of
        Some l \<Rightarrow>
          if \<not> js_lt (num_of_int SCAN_PAGE_MAX) l then Inr (take (nat (int_of_num l)) rows)
          else if int (length rows) > SCAN_PAGE_MAX then Inl (scanTruncated q) else Inr rows
      | None \<Rightarrow> if int (length rows) > SCAN_PAGE_MAX then Inl (scanTruncated q) else Inr rows)"

definition scan ::
  "'a ledger_store_scheme \<Rightarrow> string \<Rightarrow> scan_query \<Rightarrow> 'a ledger_store_scheme \<times> event list res" where
  "scan st key q =
     (if q_toSeq q = None \<and> q_limit q = None
      then (st, throw E_SCAN_UNBOUNDED ''scan needs toSeq or limit'')
      else if (\<exists>l \<in> set_option (q_limit q). \<not> is_safe_integer l \<or> \<not> js_lt (num_of_int 0) l)
      then (st, throw E_SCAN_UNBOUNDED ''scan limit must be a positive integer'')
      else let st1 = touch_book st key in
        case prefixed (chain_fuel st1) st1 (get_book st key) of
          None \<Rightarrow> (st1, Inl stack_overflow)
        | Some (st2, es) \<Rightarrow> (st2, scan_page q es))"

definition scanIntegrity ::
  "'a ledger_store_scheme \<Rightarrow> string \<Rightarrow> int \<Rightarrow> int \<Rightarrow> jsnum \<Rightarrow> 'a ledger_store_scheme \<times> integrity_row list res" where
  "scanIntegrity st key fromSeq toSeq limit =
     (if \<not> is_safe_integer limit \<or> \<not> js_lt (num_of_int 0) limit
      then (st, throw E_SCAN_UNBOUNDED ''integrity scan needs a positive limit'')
      else let st1 = touch_book st key in
        case prefixedIntegrity (chain_fuel st1) st1 key (get_book st key) of
          None \<Rightarrow> (st1, Inl stack_overflow)
        | Some (st2, rows) \<Rightarrow>
            (st2, Inr (take (nat (int_of_num limit))
              (filter (\<lambda>r. e_seq (ir_event r) \<ge> fromSeq \<and> e_seq (ir_event r) \<le> toSeq) rows))))"

definition registers :: "'a ledger_store_scheme \<Rightarrow> string \<Rightarrow> 'a ledger_store_scheme \<times> register_row list res" where
  "registers st key =
     (let st1 = touch_book st key in
      case registerView st1 (get_book st key) of
        None \<Rightarrow> (st1, Inl stack_overflow)
      | Some (st2, view) \<Rightarrow> (st2, Inr (rm_values view)))"

definition createChild ::
  "'a ledger_store_scheme \<Rightarrow> string \<Rightarrow> int \<Rightarrow> string \<Rightarrow> 'a ledger_store_scheme \<times> unit res" where
  "createChild st parent boundarySeq child =
     (case jm_get (books st) child of
        Some b \<Rightarrow>
          if b_parent b = Some (parent, boundarySeq) then (st, Inr ())
          else (st, throw E_STORAGE_FAULT ''child key exists'')
      | None \<Rightarrow>
         (let st1 = touch_book st parent; p = get_book st parent in
          if boundarySeq > lastSeq p then (st1, throw E_STORAGE_FAULT ''boundary beyond parent'')
          else (put_book st1 child
                 (new_book\<lparr>b_opened := True, b_parent := Some (parent, boundarySeq)\<rparr>), Inr ())))"

definition discardNewSession ::
  "int \<Rightarrow> 'a ledger_store_scheme \<Rightarrow> string \<Rightarrow> string \<Rightarrow> lease_claim option \<Rightarrow> 'a ledger_store_scheme \<times> unit res" where
  "discardNewSession now st key runId claim =
     (let st1 = touch_book st key in
      case holdLease now (get_book st key) runId claim of
        Inl e \<Rightarrow> (st1, Inl e)
      | Inr _ \<Rightarrow> (st1\<lparr>books := jm_delete (books st1) key,
                       verifiedHeads := jm_delete (verifiedHeads st1) key\<rparr>, Inr ()))"

definition close_store :: "'a ledger_store_scheme \<Rightarrow> 'a ledger_store_scheme" where
  "close_store st = st\<lparr>books := jm_map_values (\<lambda>b. b\<lparr>b_lease := None\<rparr>) (books st)\<rparr>"

definition clearWriterLease :: "'a ledger_store_scheme \<Rightarrow> string \<Rightarrow> 'a ledger_store_scheme" where
  "clearWriterLease st key =
     (case jm_get (books st) key of
        Some b \<Rightarrow> put_book st key (b\<lparr>b_lease := None\<rparr>)
      | None \<Rightarrow> st)"

definition existsSession :: "'a ledger_store_scheme \<Rightarrow> string \<Rightarrow> bool" where
  "existsSession st key \<longleftrightarrow> jm_has (books st) key"

text \<open>\<^verbatim>\<open>fromEvents\<close>: the crash fixture, its rows as given and its cells folded from them.\<close>

fun seed_op_cells :: "book \<Rightarrow> register_row list \<Rightarrow> book res" where
  "seed_op_cells b [] = Inr b"
| "seed_op_cells b (row # rows) =
     (if r_register row \<noteq> ''op.state'' then throw E_ENVELOPE ''fixture op cell names a register other than op.state''
      else seed_op_cells (setOpCell b row) rows)"

definition fromEvents ::
  "int \<Rightarrow> string \<Rightarrow> event list \<Rightarrow> (string \<times> jsnum) option \<Rightarrow> register_row list \<Rightarrow> ledger_store res" where
  "fromEvents now key es lease_opt cells =
     (let b = new_book\<lparr>b_opened := True, b_events := es, b_registers := rm_fold_events rm_empty es\<rparr> in
      rbind (seed_op_cells b cells) (\<lambda>b.
      rbind (case lease_opt of
               None \<Rightarrow> Inr b
             | Some (runId, ttl) \<Rightarrow>
                 if \<not> is_safe_integer ttl \<or> \<not> js_lt (num_of_int 0) ttl
                 then throw E_WRITER_LEASE ''fixture lease ttl must be a positive integer''
                 else Inr (b\<lparr>b_lease := Some \<lparr>l_runId = runId, l_until = now + int_of_num ttl,
                                               l_ttlMs = int_of_num ttl\<rparr>\<rparr>)) (\<lambda>b.
      Inr \<lparr>books = [(key, b)], controlFormat = 1, integrityFailures = [], verifiedHeads = []\<rparr>)))"

section \<open>Verified heads and recorded failures\<close>

definition integrityRowsOf ::
  "'a ledger_store_scheme \<Rightarrow> string \<Rightarrow> 'a ledger_store_scheme \<times> integrity_row list option res" where
  "integrityRowsOf st key =
     (case jm_get (books st) key of
        None \<Rightarrow> (st, Inr None)
      | Some b \<Rightarrow>
         (case prefixedIntegrity (chain_fuel st) st key b of
            None \<Rightarrow> (st, Inl stack_overflow)
          | Some (st', rows) \<Rightarrow> (st', Inr (Some rows))))"

definition readIntegrityFailure :: "'a ledger_store_scheme \<Rightarrow> string \<Rightarrow> int option option" where
  "readIntegrityFailure st key = jm_get (integrityFailures st) key"

definition writeIntegrityFailure :: "'a ledger_store_scheme \<Rightarrow> string \<Rightarrow> int option \<Rightarrow> 'a ledger_store_scheme" where
  "writeIntegrityFailure st key f = st\<lparr>integrityFailures := jm_set (integrityFailures st) key f\<rparr>"

definition readVerifiedHead :: "'a ledger_store_scheme \<Rightarrow> string \<Rightarrow> verified_head option" where
  "readVerifiedHead st key = jm_get (verifiedHeads st) key"

definition writeVerifiedHead :: "'a ledger_store_scheme \<Rightarrow> verified_head \<Rightarrow> bool \<Rightarrow> 'a ledger_store_scheme" where
  "writeVerifiedHead st head force =
     (case jm_get (verifiedHeads st) (vh_sessionKey head) of
        Some current \<Rightarrow>
          if vh_throughSeq current > vh_throughSeq head \<and> \<not> force then st
          else st\<lparr>verifiedHeads := jm_set (verifiedHeads st) (vh_sessionKey head) head\<rparr>
      | None \<Rightarrow> st\<lparr>verifiedHeads := jm_set (verifiedHeads st) (vh_sessionKey head) head\<rparr>)"

definition deleteVerifiedHead :: "'a ledger_store_scheme \<Rightarrow> string \<Rightarrow> 'a ledger_store_scheme" where
  "deleteVerifiedHead st key = st\<lparr>verifiedHeads := jm_delete (verifiedHeads st) key\<rparr>"

text \<open>None: no such row; \<open>Some None\<close>: a legacy row without a digest.\<close>

definition integrityDigestAt ::
  "'a ledger_store_scheme \<Rightarrow> string \<Rightarrow> int \<Rightarrow> 'a ledger_store_scheme \<times> string option option res" where
  "integrityDigestAt st key seq =
     (case integrityRowsOf st key of
        (st', Inl e) \<Rightarrow> (st', Inl e)
      | (st', Inr None) \<Rightarrow> (st', Inr None)
      | (st', Inr (Some rs)) \<Rightarrow>
          (st', Inr (case find (\<lambda>r. e_seq (ir_event r) = seq) rs of
             None \<Rightarrow> None
           | Some r \<Rightarrow> Some (map_option im_digest (ir_integrity r)))))"

end
