(* ===== verification/LedgerStoreFacts.thy ===== *)
theory LedgerStoreFacts imports LedgerStore begin

text \<open>
  What keeps the reference storage correct: the invariant of a book (its rows strictly increasing
  and above its fork boundary, its register cells those of a replay), the invariant of the store
  (every parent link reaches an older book that already held the boundary row), their preservation
  by every operation, and the read path through the chain of parents.
\<close>

section \<open>The invariant of one book\<close>

definition base_seq :: "book \<Rightarrow> int" where
  "base_seq b = (case b_parent b of Some (_, boundary) \<Rightarrow> boundary | None \<Rightarrow> 0)"

definition rows_increasing :: "book \<Rightarrow> bool" where
  "rows_increasing b \<longleftrightarrow> sorted_wrt (<) (base_seq b # map e_seq (b_events b))"

definition plain_row :: "('a) prepared_event_scheme \<Rightarrow> bool" where
  "plain_row e \<longleftrightarrow> (case e_register e of None \<Rightarrow> True | Some r \<Rightarrow> nul_free r \<and> r \<noteq> ''op.state'')"

definition cells_ok :: "book \<Rightarrow> bool" where
  "cells_ok b \<longleftrightarrow> (case b_opCells b of None \<Rightarrow> True | Some m \<Rightarrow> jm_wf m
     \<and> list_all (\<lambda>(k, r). r_key r = k \<and> r_register r = ''op.state'' \<and> r_data r \<noteq> JNull) m)"

text \<open>The cells a replay of the book gives: its rows in order, then its own program counters.\<close>

definition own_view :: "book \<Rightarrow> register_map" where
  "own_view b = rm_applyAll (rm_fold_events rm_empty (b_events b)) (opCell_rows b)"

definition view_agrees :: "register_map \<Rightarrow> register_map \<Rightarrow> bool" where
  "view_agrees m m' \<longleftrightarrow> (\<forall>reg key. nul_free reg \<longrightarrow> rm_get m reg key = rm_get m' reg key)"

definition book_ok :: "book \<Rightarrow> bool" where
  "book_ok b \<longleftrightarrow> rows_increasing b \<and> list_all plain_row (b_events b) \<and> cells_ok b
     \<and> rm_wf (b_registers b) \<and> rows_nul_free (b_registers b) \<and> view_agrees (b_registers b) (own_view b)"

lemma lastSeq_alt: "lastSeq b = last (base_seq b # map e_seq (b_events b))"
  by (auto simp: lastSeq_def base_seq_def last_map split: option.splits)

lemma new_book_ok [simp]: "book_ok new_book"
  by (simp add: book_ok_def new_book_def rows_increasing_def cells_ok_def view_agrees_def own_view_def
      opCell_rows_def)

lemma lastSeq_new [simp]: "lastSeq new_book = 0"
  by (simp add: lastSeq_def new_book_def)

lemma parent_new [simp]: "b_parent new_book = None" "b_events new_book = []"
  by (simp_all add: new_book_def)

subsection \<open>Appending stamped rows\<close>

lemma stamp_from_seqs: "map e_seq (stamp_from n es) = map (\<lambda>i. n + 1 + int i) [0..<length es]"
proof (induction es arbitrary: n)
  case Nil
  then show ?case by simp
next
  case (Cons e es)
  have "map e_seq (stamp_from n (e # es)) = (n + 1) # map (\<lambda>i. n + 1 + 1 + int i) [0..<length es]"
    by (simp add: Cons.IH)
  also have "\<dots> = map (\<lambda>i. n + 1 + int i) (0 # map Suc [0..<length es])" by simp
  also have "0 # map Suc [0..<length es] = [0..<length (e # es)]"
    by (simp only: map_Suc_upt upt_conv_Cons list.size) simp
  finally show ?case .
qed

lemma length_stamp_from [simp]: "length (stamp_from n es) = length es"
  by (induction es arbitrary: n) auto

lemma stamp_from_plain: "list_all plain_row es \<Longrightarrow> list_all plain_row (stamp_from n es)"
  by (induction es arbitrary: n) (auto simp: plain_row_def)

lemma sorted_stamp_from: "sorted_wrt (<) (n # map e_seq (stamp_from n es))"
  unfolding stamp_from_seqs by (auto simp: sorted_wrt_map intro: sorted_wrt_mono_rel [OF _ sorted_wrt_upt])

lemma stamp_from_above: "e \<in> set (stamp_from n es) \<Longrightarrow> n < e_seq e"
  using sorted_stamp_from [of n es] by auto

lemma last_stamp_from: "last (n # map e_seq (stamp_from n es)) = n + int (length es)"
  by (induction es arbitrary: n) auto

lemma sorted_wrt_le_last:
  assumes "sorted_wrt (<) (x # xs)" "a \<in> set (x # xs)"
  shows "a \<le> (last (x # xs) :: int)"
proof -
  have "x # xs = butlast (x # xs) @ [last (x # xs)]" by simp
  with assms show ?thesis
    by (metis Un_iff empty_iff empty_set in_set_butlastD less_eq_int_def linorder_le_less_linear list.set(2)
        insert_iff order_less_imp_le set_append sorted_wrt_append)
qed

lemma sorted_wrt_append_last:
  assumes "sorted_wrt (<) (x # xs)" "sorted_wrt (<) (last (x # xs) # ys)"
  shows "sorted_wrt (<) ((x # xs) @ (ys :: int list))"
proof -
  have "a \<le> last (x # xs)" if "a \<in> set (x # xs)" for a
    using assms(1) that by (rule sorted_wrt_le_last)
  with assms show ?thesis by (fastforce simp: sorted_wrt_append)
qed

lemma rows_increasing_append:
  assumes "rows_increasing b"
  shows "rows_increasing (apply_rows b (stamp_from (lastSeq b) es) ints)"
proof -
  have "sorted_wrt (<) ((base_seq b # map e_seq (b_events b)) @ map e_seq (stamp_from (lastSeq b) es))"
    by (rule sorted_wrt_append_last)
       (use assms sorted_stamp_from [of "lastSeq b" es] in \<open>simp_all add: rows_increasing_def lastSeq_alt\<close>)
  then show ?thesis by (simp add: rows_increasing_def apply_rows_def base_seq_def)
qed

lemma lastSeq_append: "lastSeq (apply_rows b (stamp_from (lastSeq b) es) ints) = lastSeq b + int (length es)"
proof (cases es)
  case Nil
  then show ?thesis by (simp add: lastSeq_def apply_rows_def)
next
  case (Cons e es')
  then have ne: "stamp_from (lastSeq b) es \<noteq> []" by simp
  have "lastSeq (apply_rows b (stamp_from (lastSeq b) es) ints) = e_seq (last (stamp_from (lastSeq b) es))"
    unfolding lastSeq_def [of "apply_rows _ _ _"] using ne by (simp add: apply_rows_def)
  also have "\<dots> = last (lastSeq b # map e_seq (stamp_from (lastSeq b) es))"
    using ne by (simp add: last_map)
  also have "\<dots> = lastSeq b + int (length es)" by (rule last_stamp_from)
  finally show ?thesis .
qed

subsection \<open>Register cells after an append\<close>

lemma map_filter_row_of_nul_free:
  "list_all plain_row es \<Longrightarrow> list_all (\<lambda>r. nul_free (r_register r)) (List.map_filter row_of es)"
  by (induction es) (auto simp: map_filter_def row_of_def plain_row_def split: option.splits if_splits)

lemma row_of_not_op:
  "list_all plain_row es \<Longrightarrow> list_all (\<lambda>r. r_register r \<noteq> ''op.state'') (List.map_filter row_of es)"
  by (induction es) (auto simp: map_filter_def row_of_def plain_row_def split: option.splits if_splits)

lemma cells_nul_free: "cells_ok b \<Longrightarrow> list_all (\<lambda>r. nul_free (r_register r)) (opCell_rows b)"
  by (auto simp: cells_ok_def opCell_rows_def list_all_iff split: option.splits)

lemma last_row_None_iff:
  "last_row rows reg key = None \<longleftrightarrow> (\<forall>r \<in> set rows. \<not> (r_register r = reg \<and> r_key r = key))"
  by (auto simp: last_row_def find_None_iff)

lemma last_row_cells_other:
  "cells_ok b \<Longrightarrow> reg \<noteq> ''op.state'' \<Longrightarrow> last_row (opCell_rows b) reg key = None"
  by (auto simp: last_row_None_iff cells_ok_def opCell_rows_def list_all_iff split: option.splits)

lemma last_row_not_op:
  "list_all plain_row es \<Longrightarrow> last_row (List.map_filter row_of es) ''op.state'' key = None"
  using row_of_not_op [of es] by (auto simp: last_row_None_iff list_all_iff)

lemma rm_get_own_view:
  assumes "list_all plain_row (b_events b)" "cells_ok b" "nul_free reg"
  shows "rm_get (own_view b) reg key =
    (if reg = ''op.state'' then (case last_row (opCell_rows b) reg key of
         None \<Rightarrow> None | Some r \<Rightarrow> if isRegisterTombstone reg (r_data r) then None else Some r)
     else (case last_row (List.map_filter row_of (b_events b)) reg key of
         None \<Rightarrow> None | Some r \<Rightarrow> if isRegisterTombstone reg (r_data r) then None else Some r))"
  unfolding own_view_def rm_fold_events_def
  using assms
  by (auto simp: rm_get_applyAll cells_nul_free map_filter_row_of_nul_free last_row_cells_other
      last_row_not_op split: option.splits)

lemma last_row_append:
  "last_row (xs @ ys) reg key = (case last_row ys reg key of None \<Rightarrow> last_row xs reg key | Some r \<Rightarrow> Some r)"
  by (simp add: last_row_def find_append split: option.split)

lemma apply_rows_view:
  assumes ok: "list_all plain_row (b_events b)" "cells_ok b" "view_agrees (b_registers b) (own_view b)"
    and plain: "list_all plain_row es"
  shows "view_agrees (b_registers (apply_rows b es ints)) (own_view (apply_rows b es ints))"
  unfolding view_agrees_def
proof (intro allI impI)
  fix reg key
  assume nf: "nul_free reg"
  let ?b = "apply_rows b es ints"
  have b: "list_all plain_row (b_events b)" "cells_ok b" "cells_ok ?b"
    "list_all plain_row (b_events ?b)"
    using ok plain by (simp_all add: apply_rows_def cells_ok_def)
  have cells: "opCell_rows ?b = opCell_rows b" by (simp add: apply_rows_def opCell_rows_def)
  have rows: "List.map_filter row_of (b_events ?b)
      = List.map_filter row_of (b_events b) @ List.map_filter row_of es"
    by (simp add: apply_rows_def map_filter_def)
  have "rm_get (b_registers ?b) reg key =
      (case last_row (List.map_filter row_of es) reg key of
         None \<Rightarrow> rm_get (b_registers b) reg key
       | Some r \<Rightarrow> if isRegisterTombstone reg (r_data r) then None else Some r)"
    by (simp add: apply_rows_def rm_fold_events_def rm_get_applyAll nf map_filter_row_of_nul_free plain)
  also have "rm_get (b_registers b) reg key = rm_get (own_view b) reg key"
    using ok(3) nf by (simp add: view_agrees_def)
  finally show "rm_get (b_registers ?b) reg key = rm_get (own_view ?b) reg key"
    using last_row_not_op [OF plain, of key]
    by (auto simp: rm_get_own_view b nf cells rows last_row_append split: option.splits)
qed

lemma apply_rows_book_ok:
  assumes ok: "book_ok b" and plain: "list_all plain_row es"
  shows "book_ok (apply_rows b (stamp_from (lastSeq b) es) ints)"
proof -
  let ?s = "stamp_from (lastSeq b) es"
  have p: "list_all plain_row ?s" using plain by (rule stamp_from_plain)
  have "rm_wf (rm_fold_events (b_registers b) ?s) \<and> rows_nul_free (rm_fold_events (b_registers b) ?s)"
    unfolding rm_fold_events_def
    by (rule rm_wf_applyAll) (use ok map_filter_row_of_nul_free [OF p] in \<open>simp_all add: book_ok_def\<close>)
  moreover have "rows_increasing (apply_rows b ?s ints)"
    using ok by (intro rows_increasing_append) (simp add: book_ok_def)
  moreover have "view_agrees (b_registers (apply_rows b ?s ints)) (own_view (apply_rows b ?s ints))"
    using ok p by (intro apply_rows_view) (simp_all add: book_ok_def)
  ultimately show ?thesis
    using ok p by (simp add: book_ok_def apply_rows_def cells_ok_def)
qed

subsection \<open>Writing a program-counter cell\<close>

lemma find_rev_values:
  assumes "jm_wf m" "\<forall>(k, r) \<in> set m. r_key r = k \<and> r_register r = reg"
  shows "find (\<lambda>r. r_register r = reg \<and> r_key r = key) (rev (jm_values m)) = jm_get m key"
  using assms
proof (induction m)
  case Nil
  then show ?case by simp
next
  case (Cons p m)
  obtain k r where p: "p = (k, r)" by force
  have "jm_wf m" "jm_get m k = None"
    using Cons.prems(1) by (auto simp: jm_wf_def p map_of_eq_None_iff)
  with Cons p show ?case by (cases "k = key") (auto simp: find_append split: option.split)
qed

lemma opCell_rows_get:
  assumes "cells_ok b"
  shows "last_row (opCell_rows b) ''op.state'' key =
    (case b_opCells b of None \<Rightarrow> None | Some m \<Rightarrow> jm_get m key)"
  using assms find_rev_values [where reg = "''op.state''" and key = key]
  by (auto simp: opCell_rows_def last_row_def cells_ok_def list_all_iff split: option.splits)

lemma tombstone_op_state [simp]: "isRegisterTombstone ''op.state'' d \<longleftrightarrow> d = JNull"
  by (simp add: isRegisterTombstone_def)

lemma jm_wf_single [simp]: "jm_wf [p]"
  by (simp add: jm_wf_def)

lemma in_set_delete: "(k', v) \<in> set (jm_delete m k) \<longleftrightarrow> (k', v) \<in> set m \<and> k' \<noteq> k"
  by (auto simp: AList.delete_eq)

lemma cells_ok_setOpCell:
  assumes "cells_ok b" "r_register row = ''op.state''"
  shows "cells_ok (setOpCell b row)"
  using assms
  by (auto simp: cells_ok_def setOpCell_def Let_def list_all_iff set_update_eq in_set_delete
      split: option.splits)

lemma nonnull_of:
  "cells_ok b \<Longrightarrow> b_opCells b = Some m \<Longrightarrow> jm_get m key = Some r \<Longrightarrow> r_data r \<noteq> JNull"
  by (auto simp: cells_ok_def list_all_iff dest!: map_of_SomeD)

lemma setOpCell_view:
  assumes ok: "list_all plain_row (b_events b)" "cells_ok b" "view_agrees (b_registers b) (own_view b)"
    and op: "r_register row = ''op.state''"
  shows "view_agrees (b_registers (setOpCell b row)) (own_view (setOpCell b row))"
proof -
  let ?b = "setOpCell b row"
  have c: "cells_ok b" "cells_ok ?b" using ok op by (simp_all add: cells_ok_setOpCell)
  have ev: "b_events ?b = b_events b" "b_registers ?b = rm_apply (b_registers b) row"
    by (simp_all add: setOpCell_def Let_def)
  have p: "list_all plain_row (b_events b)" "list_all plain_row (b_events ?b)"
    using ok ev by simp_all
  have get: "(case b_opCells ?b of None \<Rightarrow> None | Some m \<Rightarrow> jm_get m key) =
      (if key = r_key row then if r_data row = JNull then None else Some row
       else case b_opCells b of None \<Rightarrow> None | Some m \<Rightarrow> jm_get m key)" for key
    by (auto simp: setOpCell_def Let_def split: option.splits)
  show ?thesis
    unfolding view_agrees_def
  proof (intro allI impI)
    fix reg key
    assume nf: "nul_free reg"
    have old: "rm_get (b_registers b) reg key = rm_get (own_view b) reg key"
      using ok(3) nf by (simp add: view_agrees_def)
    show "rm_get (b_registers ?b) reg key = rm_get (own_view ?b) reg key"
    proof (cases "reg = ''op.state''")
      case True
      have "rm_get (own_view b) reg key = (case b_opCells b of None \<Rightarrow> None | Some m \<Rightarrow> jm_get m key)"
        if "list_all plain_row (b_events b)" "cells_ok b" for b :: book
        using that nf nonnull_of [OF that(2), where key = key]
        by (auto simp: True rm_get_own_view opCell_rows_get split: option.splits)
      with p c old get [of key] op True show ?thesis by (simp add: ev rm_get_apply)
    next
      case False
      with nf op show ?thesis by (simp add: ev rm_get_apply old rm_get_own_view p c)
    qed
  qed
qed

lemma setOpCell_book_ok:
  assumes ok: "book_ok b" and op: "r_register row = ''op.state''"
  shows "book_ok (setOpCell b row)"
proof -
  let ?b = "setOpCell b row"
  have ev: "b_events ?b = b_events b" "b_parent ?b = b_parent b"
    "b_registers ?b = rm_apply (b_registers b) row"
    by (simp_all add: setOpCell_def Let_def)
  have "view_agrees (b_registers ?b) (own_view ?b)"
    using ok op by (intro setOpCell_view) (simp_all add: book_ok_def)
  moreover have "cells_ok ?b" using ok op by (simp add: book_ok_def cells_ok_setOpCell)
  moreover have "rm_wf (b_registers ?b) \<and> rows_nul_free (b_registers ?b)"
    using ok op by (simp add: ev book_ok_def rm_wf_apply rows_nul_free_apply)
  ultimately show ?thesis
    using ok by (simp add: book_ok_def ev rows_increasing_def base_seq_def)
qed

end
