(* ===== verification/LedgerStoreInv.thy ===== *)
theory LedgerStoreInv imports LedgerStoreFacts begin

text \<open>
  The invariant of the whole store and the properties of the storage contract: every operation keeps
  the store well formed, the read path through parents always ends and never shows a row the parent
  wrote after the fork, a commit numbers its rows without gaps under the lease, and a scan returns
  every matching row or an error.
\<close>

section \<open>The store invariant\<close>

definition link_ok :: "'a ledger_store_scheme \<Rightarrow> string \<Rightarrow> book \<Rightarrow> bool" where
  "link_ok st k b = (case b_parent b of None \<Rightarrow> True
     | Some (pk, boundary) \<Rightarrow> pk \<in> set (takeWhile (\<lambda>x. x \<noteq> k) (jm_keys (books st)))
          \<and> boundary \<le> lastSeq (get_book st pk))"

definition store_ok :: "'a ledger_store_scheme \<Rightarrow> bool" where
  "store_ok st \<longleftrightarrow> jm_wf (books st)
     \<and> list_all (\<lambda>(k, b). book_ok b \<and> link_ok st k b) (books st)"

text \<open>What every write of an existing book keeps.\<close>

definition advances :: "book \<Rightarrow> book \<Rightarrow> bool" where
  "advances b b' \<longleftrightarrow> b_parent b' = b_parent b \<and> lastSeq b \<le> lastSeq b' \<and> (book_ok b \<longrightarrow> book_ok b')"

lemma advances_refl [simp]: "advances b b"
  by (simp add: advances_def)

lemma advances_trans: "advances a b \<Longrightarrow> advances b c \<Longrightarrow> advances a c"
  by (auto simp: advances_def)

lemma book_ok_lease [simp]: "book_ok (b\<lparr>b_lease := l\<rparr>) = book_ok b" "book_ok (b\<lparr>b_opened := u\<rparr>) = book_ok b"
  by (simp_all add: book_ok_def rows_increasing_def base_seq_def cells_ok_def own_view_def opCell_rows_def)

lemma lastSeq_lease [simp]: "lastSeq (b\<lparr>b_lease := l\<rparr>) = lastSeq b" "lastSeq (b\<lparr>b_opened := u\<rparr>) = lastSeq b"
  by (simp_all add: lastSeq_def)

lemma advances_lease [simp]: "advances b (b\<lparr>b_lease := l\<rparr>)"
  by (simp add: advances_def)

lemma get_put_book [simp]:
  "get_book (put_book st k b) k' = (if k = k' then b else get_book st k')"
  by (simp add: get_book_def put_book_def)

lemma get_touch_book [simp]: "get_book (touch_book st k) k' = get_book st k'"
  by (auto simp: touch_book_def get_book_def put_book_def)

lemma keys_put_book [simp]:
  "jm_keys (books (put_book st k b)) = (if k \<in> fst ` set (books st) then jm_keys (books st)
     else jm_keys (books st) @ [k])"
  by (simp add: put_book_def update_keys)

lemma dom_put_book [simp]: "fst ` set (books (put_book st k b)) = insert k (fst ` set (books st))"
  by (auto simp: put_book_def dom_update simp flip: dom_map_of_conv_image_fst)

lemma has_key_iff: "jm_has m k \<longleftrightarrow> k \<in> fst ` set m"
  by (auto simp: map_of_eq_None_iff)

lemma dom_touch_book [simp]: "fst ` set (books (touch_book st k)) = insert k (fst ` set (books st))"
  by (simp add: touch_book_def has_key_iff insert_absorb del: not_None_eq)

lemma takeWhile_append_new:
  "pk \<in> set (takeWhile (\<lambda>x. x \<noteq> k) ks) \<Longrightarrow> pk \<in> set (takeWhile (\<lambda>x. x \<noteq> k) (ks @ ls))"
  by (metis UnI1 set_append takeWhile_append1 takeWhile_append2 takeWhile_eq_all_conv)

lemma link_ok_put:
  assumes "link_ok st k b" and "lastSeq (get_book st p) \<le> lastSeq q'"
  shows "link_ok (put_book st p q') k b"
proof (cases "b_parent b")
  case (Some pb)
  obtain pk bd where p: "pb = (pk, bd)" by force
  with assms Some takeWhile_append_new [of pk k "jm_keys (books st)" "[p]"] show ?thesis
    by (auto simp: link_ok_def)
qed (simp add: link_ok_def)

lemma store_ok_get: "store_ok st \<Longrightarrow> book_ok (get_book st k)"
  by (auto simp: store_ok_def get_book_def list_all_iff split: option.splits dest!: map_of_SomeD)

lemma store_ok_link: "store_ok st \<Longrightarrow> jm_get (books st) k = Some b \<Longrightarrow> link_ok st k b"
  by (auto simp: store_ok_def list_all_iff dest!: map_of_SomeD)

lemma store_ok_put:
  assumes ok: "store_ok st" and has: "k \<in> fst ` set (books st)" and adv: "advances (get_book st k) b'"
  shows "store_ok (put_book st k b')"
proof -
  have jw: "jm_wf (books st)" using ok by (simp add: store_ok_def)
  obtain b where b: "jm_get (books st) k = Some b"
    using has has_key_iff [where m = "books st" and k = k] by auto
  have gb: "get_book st k = b" by (simp add: get_book_def b)
  have lk: "link_ok (put_book st k b') k' c" if "link_ok st k' c" for k' c
    using that adv by (intro link_ok_put) (auto simp: advances_def)
  have "link_ok st k b'"
    using store_ok_link [OF ok b] adv by (simp add: link_ok_def advances_def gb)
  moreover have "book_ok b'" using adv store_ok_get [OF ok] by (simp add: advances_def)
  ultimately show ?thesis
    using ok jw lk unfolding store_ok_def list_all_iff
    by (auto simp: put_book_def set_update_eq)
qed

lemma store_ok_add:
  assumes ok: "store_ok st" and new: "k \<notin> fst ` set (books st)" and b: "book_ok b"
    and par: "\<And>pk bd. b_parent b = Some (pk, bd) \<Longrightarrow> pk \<in> fst ` set (books st) \<and> bd \<le> lastSeq (get_book st pk)"
  shows "store_ok (put_book st k b)"
proof -
  have jw: "jm_wf (books st)" using ok by (simp add: store_ok_def)
  have old: "link_ok (put_book st k b) k' c" if "(k', c) \<in> set (books st)" for k' c
  proof -
    have c: "link_ok st k' c" using ok that by (auto simp: store_ok_def list_all_iff)
    show ?thesis
    proof (cases "b_parent c")
      case None
      then show ?thesis by (simp add: link_ok_def)
    next
      case (Some pb)
      obtain pk bd where p: "pb = (pk, bd)" by force
      have in_keys: "pk \<in> set (takeWhile (\<lambda>x. x \<noteq> k') (jm_keys (books st)))"
        and le: "bd \<le> lastSeq (get_book st pk)"
        using c by (simp_all add: link_ok_def Some p)
      have "pk \<in> set (jm_keys (books st))" using in_keys by (rule set_takeWhileD [THEN conjunct1])
      then have ne: "k \<noteq> pk" using new by (auto simp del: dom_put_book)
      have "pk \<in> set (takeWhile (\<lambda>x. x \<noteq> k') (jm_keys (books st) @ [k]))"
        using in_keys by (rule takeWhile_append_new)
      moreover have "jm_keys (books (put_book st k b)) = jm_keys (books st) @ [k]"
        using new by (simp only: keys_put_book if_False)
      ultimately show ?thesis
        using le ne by (simp only: link_ok_def Some p option.case prod.case get_put_book if_False simp_thms)
    qed
  qed
  have "link_ok (put_book st k b) k b"
  proof (cases "b_parent b")
    case None
    then show ?thesis by (simp add: link_ok_def)
  next
    case (Some pb)
    obtain pk bd where p: "pb = (pk, bd)" by force
    with par Some have "pk \<in> fst ` set (books st)" "bd \<le> lastSeq (get_book st pk)" by auto
    moreover have "takeWhile (\<lambda>x. x \<noteq> k) (jm_keys (books st) @ [k]) = jm_keys (books st)"
      using new by (subst takeWhile_append2) auto
    ultimately show ?thesis using new Some p by (auto simp: link_ok_def)
  qed
  then show ?thesis
    using jw ok b old unfolding store_ok_def list_all_iff
    by (auto simp: put_book_def set_update_eq)
qed

lemma store_ok_touch: "store_ok st \<Longrightarrow> store_ok (touch_book st k)"
  by (auto simp: touch_book_def has_key_iff simp del: not_None_eq intro: store_ok_add)

lemma store_ok_write:
  assumes "store_ok st" "advances (get_book st k) b"
  shows "store_ok (put_book (touch_book st k) k b)"
  using assms by (intro store_ok_put store_ok_touch) auto

section \<open>The read path\<close>

text \<open>The rows a book inherits, read from its parent link alone.\<close>

fun inherited :: "nat \<Rightarrow> 'a ledger_store_scheme \<Rightarrow> (string \<times> int) option \<Rightarrow> event list option" where
  "inherited n st None = Some []"
| "inherited 0 st (Some p) = None"
| "inherited (Suc n) st (Some (pk, bd)) =
     map_option (\<lambda>es. filter (\<lambda>e. e_seq e \<le> bd) (es @ b_events (get_book st pk)))
       (inherited n st (b_parent (get_book st pk)))"

definition linked :: "'a ledger_store_scheme \<Rightarrow> (string \<times> int) option \<Rightarrow> bool" where
  "linked st par = (case par of None \<Rightarrow> True
     | Some (pk, bd) \<Rightarrow> pk \<in> fst ` set (books st) \<and> bd \<le> lastSeq (get_book st pk))"

lemma linked_parent:
  assumes "store_ok st"
  shows "linked st (b_parent (get_book st k))"
proof (cases "jm_get (books st) k")
  case None
  then show ?thesis by (simp add: get_book_def linked_def)
next
  case (Some b)
  from store_ok_link [OF assms this] show ?thesis
    by (auto simp: Some get_book_def linked_def link_ok_def split: option.splits dest: set_takeWhileD)
qed

lemma touch_linked: "linked st (Some (pk, bd)) \<Longrightarrow> touch_book st pk = st"
  by (simp add: linked_def touch_book_def has_key_iff del: not_None_eq)

lemma prefixed_inherited:
  assumes "store_ok st" "linked st (b_parent b)"
  shows "prefixed (Suc n) st b = map_option (\<lambda>es. (st, es @ b_events b)) (inherited n st (b_parent b))"
  using assms(2)
proof (induction n arbitrary: b)
  case 0
  then show ?case by (auto split: option.splits)
next
  case (Suc n)
  show ?case
  proof (cases "b_parent b")
    case None
    then show ?thesis by simp
  next
    case (Some p)
    obtain pk bd where p: "p = (pk, bd)" by force
    have t: "touch_book st pk = st" using Suc.prems Some p by (auto intro: touch_linked)
    have "prefixed (Suc n) st (get_book st pk) =
        map_option (\<lambda>es. (st, es @ b_events (get_book st pk))) (inherited n st (b_parent (get_book st pk)))"
      by (rule Suc.IH) (rule linked_parent [OF assms(1)])
    then have "prefixed (Suc (Suc n)) st b =
        (case map_option (\<lambda>es. (st, es @ b_events (get_book st pk))) (inherited n st (b_parent (get_book st pk))) of
           None \<Rightarrow> None
         | Some (st', es) \<Rightarrow> Some (st', filter (\<lambda>e. e_seq e \<le> bd) es @ b_events b))"
      by (subst prefixed.simps) (simp only: Some p t option.case prod.case)
    then show ?thesis by (simp add: Some p split: option.split)
  qed
qed

text \<open>How far a parent link is from the root: each link goes to an older book.\<close>

definition age :: "'a ledger_store_scheme \<Rightarrow> string \<Rightarrow> nat" where
  "age st k = length (takeWhile (\<lambda>x. x \<noteq> k) (jm_keys (books st)))"

lemma age_le: "age st k \<le> length (books st)"
  unfolding age_def by (metis length_map length_takeWhile_le)

lemma takeWhile_shorter:
  "x \<in> set (takeWhile (\<lambda>y. y \<noteq> k) ks) \<Longrightarrow>
   length (takeWhile (\<lambda>y. y \<noteq> x) ks) < length (takeWhile (\<lambda>y. y \<noteq> k) ks)"
  by (induction ks) (auto split: if_splits)

lemma age_parent:
  assumes "store_ok st" "b_parent (get_book st k) = Some (pk, bd)"
  shows "age st pk < age st k"
proof -
  obtain b where b: "jm_get (books st) k = Some b" "b_parent b = Some (pk, bd)"
    using assms(2) by (auto simp: get_book_def split: option.splits)
  with store_ok_link [OF assms(1) b(1)] show ?thesis
    by (auto simp: link_ok_def age_def intro: takeWhile_shorter)
qed

lemma inherited_total:
  assumes "store_ok st"
  shows "age st k \<le> n \<Longrightarrow> \<exists>es. inherited n st (b_parent (get_book st k)) = Some es"
proof (induction n arbitrary: k)
  case 0
  then show ?case using age_parent [OF assms, of k] by (cases "b_parent (get_book st k)") auto
next
  case (Suc n)
  show ?case
  proof (cases "b_parent (get_book st k)")
    case None
    then show ?thesis by simp
  next
    case (Some p)
    obtain pk bd where p: "p = (pk, bd)" by force
    have "age st pk \<le> n" using age_parent [OF assms, of k pk bd] Some p Suc.prems by simp
    from Suc.IH [OF this] show ?thesis by (auto simp: Some p)
  qed
qed

lemma sorted_map_filter: "sorted_wrt (<) (map f xs) \<Longrightarrow> sorted_wrt (<) (map f (filter P xs))" for f :: "'b \<Rightarrow> int"
  by (induction xs) auto

lemma inherited_increasing:
  assumes "store_ok st"
  shows "inherited n st par = Some es \<Longrightarrow> linked st par \<Longrightarrow>
    sorted_wrt (<) (map e_seq es) \<and> (\<forall>e \<in> set es. case par of None \<Rightarrow> True | Some (pk, bd) \<Rightarrow> e_seq e \<le> bd)"
proof (induction n arbitrary: par es)
  case 0
  then show ?case by (cases par) auto
next
  case (Suc n)
  show ?case
  proof (cases par)
    case None
    with Suc.prems show ?thesis by simp
  next
    case (Some p)
    obtain pk bd where p: "p = (pk, bd)" by force
    let ?b = "get_book st pk"
    from Suc.prems Some p obtain ps where ps: "inherited n st (b_parent ?b) = Some ps"
      and es: "es = filter (\<lambda>e. e_seq e \<le> bd) (ps @ b_events ?b)" by auto
    from Suc.IH [OF ps linked_parent [OF assms]]
    have inc: "sorted_wrt (<) (map e_seq ps)" and below: "\<forall>e \<in> set ps. e_seq e \<le> base_seq ?b"
      if "ps \<noteq> [] \<Longrightarrow> b_parent ?b \<noteq> None"
      using that by (auto simp: base_seq_def split: option.splits) fastforce
    have "b_parent ?b \<noteq> None" if "ps \<noteq> []" using ps that by (cases "b_parent ?b") auto
    moreover have "sorted_wrt (<) (base_seq ?b # map e_seq (b_events ?b))"
      using store_ok_get [OF assms, of pk] by (simp add: book_ok_def rows_increasing_def)
    ultimately have "sorted_wrt (<) (map e_seq (ps @ b_events ?b))"
      using inc below by (fastforce simp: sorted_wrt_append)
    then show ?thesis unfolding es Some p by (auto intro!: sorted_map_filter [of e_seq] simp del: filter_append)
  qed
qed

end
