(* ===== verification/LedgerStoreOps.thy ===== *)
theory LedgerStoreOps imports LedgerStoreInv begin

text \<open>
  Every operation of the ledger half of the reference storage on a well-formed store: what it keeps,
  what it changes and when it is refused.
\<close>

section \<open>Leases\<close>

definition lease_held :: "int \<Rightarrow> book \<Rightarrow> string \<Rightarrow> bool" where
  "lease_held now b runId = (case b_lease b of None \<Rightarrow> False | Some l \<Rightarrow> l_runId l = runId \<and> now \<le> l_until l)"

text \<open>A lapsed lease of one's own, or none, and a ledger still where the claim says it is.\<close>

definition lease_claimable :: "book \<Rightarrow> string \<Rightarrow> lease_claim \<Rightarrow> bool" where
  "lease_claimable b runId c \<longleftrightarrow>
     (case b_lease b of None \<Rightarrow> True | Some l \<Rightarrow> l_runId l = runId) \<and> lastSeq b = lc_expectedLastSeq c"

definition lease_term :: "int \<Rightarrow> book \<Rightarrow> string \<Rightarrow> lease_claim \<Rightarrow> lease" where
  "lease_term now b runId c =
     (let ttl = (if lease_held now b runId then l_ttlMs (the (b_lease b)) else lc_ttlMs c)
      in \<lparr>l_runId = runId, l_until = now + ttl, l_ttlMs = ttl\<rparr>)"

lemma assertLease_held: "assertLease now b runId =
    (if lease_held now b runId then Inr () else throw E_WRITER_LEASE ''writer lease not held'')"
  by (auto simp: assertLease_def lease_held_def split: option.splits)

lemma holdLease_cases: "holdLease now b runId claim =
    (case claim of
       None \<Rightarrow> if lease_held now b runId then Inr b else throw E_WRITER_LEASE ''writer lease not held''
     | Some c \<Rightarrow> if lease_held now b runId \<or> lease_claimable b runId c
         then Inr (b\<lparr>b_lease := Some (lease_term now b runId c)\<rparr>)
         else throw E_WRITER_LEASE ''writer lease not held'')"
proof (cases "lease_held now b runId")
  case True
  then obtain l where "b_lease b = Some l" by (auto simp: lease_held_def split: option.splits)
  with True show ?thesis
    by (simp add: holdLease_def assertLease_held lease_term_def Let_def split: option.split)
next
  case False
  then show ?thesis
    by (cases claim; cases "b_lease b")
       (simp_all add: holdLease_def assertLease_held lease_term_def lease_claimable_def throw_def Let_def)
qed

lemma holdLease_Inr:
  assumes "holdLease now b runId claim = Inr b'"
  shows "b' = b\<lparr>b_lease := b_lease b'\<rparr>"
  using assms by (auto simp: holdLease_cases split: option.splits if_splits)

lemma holdLease_advances: "holdLease now b runId claim = Inr b' \<Longrightarrow> advances b b'"
  by (metis holdLease_Inr advances_lease)

lemma holdLease_error:
  "holdLease now b runId claim = Inl e \<Longrightarrow> e = CoreError E_WRITER_LEASE ''writer lease not held''"
  by (auto simp: holdLease_cases throw_def split: option.splits if_splits)

lemma holdLease_other_run:
  assumes "b_lease b = Some l" "l_runId l \<noteq> runId"
  shows "holdLease now b runId claim = throw E_WRITER_LEASE ''writer lease not held''"
  using assms by (auto simp: holdLease_cases lease_held_def lease_claimable_def split: option.splits)

lemma holdLease_own:
  assumes "holdLease now b runId claim = Inr b'"
  shows "map_option l_runId (b_lease b') = Some runId"
  using assms
  by (auto simp: holdLease_cases lease_held_def lease_term_def Let_def split: option.splits if_splits)

lemma holdLease_sel:
  assumes "holdLease now b runId claim = Inr b'"
  shows "b_events b' = b_events b" "lastSeq b' = lastSeq b" "b_parent b' = b_parent b"
    "b_registers b' = b_registers b" "b_opCells b' = b_opCells b" "b_integrity b' = b_integrity b"
  using assms by (auto simp: holdLease_cases split: option.splits if_splits)

section \<open>Committing\<close>

lemma setOpCell_sel [simp]:
  "b_events (setOpCell b row) = b_events b" "b_parent (setOpCell b row) = b_parent b"
  "lastSeq (setOpCell b row) = lastSeq b" "b_lease (setOpCell b row) = b_lease b"
  by (simp_all add: setOpCell_def Let_def lastSeq_def)

lemma apply_rows_sel [simp]:
  "b_parent (apply_rows b es ints) = b_parent b" "b_events (apply_rows b es ints) = b_events b @ es"
  "b_lease (apply_rows b es ints) = b_lease b"
  by (simp_all add: apply_rows_def)

lemma finish_commit_Inr:
  assumes "finish_commit b tx = (b', Inr rc)"
  shows "b_events b' = b_events b @ stamp_from (lastSeq b) (tx_events tx)"
    and "lastSeq b' = lastSeq b + int (length (tx_events tx))"
    and "cr_seqs rc = map (\<lambda>i. lastSeq b + 1 + int i) [0..<length (tx_events tx)]"
    and "b_parent b' = b_parent b"
    and "cr_opState rc = map_option (\<lambda>_. lastSeq b + int (length (tx_events tx))) (tx_opState tx)"
  using assms
  by (auto simp: finish_commit_def Let_def stamp_from_seqs lastSeq_append split: if_splits option.splits)

lemma finish_commit_Inl: "finish_commit b tx = (b', Inl e) \<Longrightarrow> b' = b"
  by (auto simp: finish_commit_def Let_def split: if_splits option.splits)

lemma finish_commit_advances:
  assumes "finish_commit b tx = (b', r)" "list_all plain_row (tx_events tx)"
  shows "advances b b'"
proof (cases r)
  case (Inl e)
  with assms finish_commit_Inl [of b tx b' e] show ?thesis by simp
next
  case (Inr rc)
  have ok: "book_ok b'" if "book_ok b"
    using assms(1) that apply_rows_book_ok [OF that assms(2)] Inr
    by (auto simp: finish_commit_def Let_def split: if_splits option.splits intro: setOpCell_book_ok)
  note fin = finish_commit_Inr(2,4) [OF assms(1) [unfolded Inr]]
  show ?thesis unfolding advances_def fin using ok by simp
qed

text \<open>On a well-formed store a register view never fails and changes nothing.\<close>

definition reader_rows :: "'a ledger_store_scheme \<Rightarrow> string \<Rightarrow> event list" where
  "reader_rows st key =
     (case prefixed (chain_fuel (touch_book st key)) (touch_book st key) (get_book st key) of
        None \<Rightarrow> [] | Some (_, es) \<Rightarrow> es)"

definition reader_registers :: "'a ledger_store_scheme \<Rightarrow> string \<Rightarrow> register_map" where
  "reader_registers st key =
     rm_applyAll (rm_fold_events rm_empty (reader_rows st key)) (opCell_rows (get_book st key))"

lemma inherited_mono: "inherited n st par = Some es \<Longrightarrow> n \<le> m \<Longrightarrow> inherited m st par = Some es"
proof (induction n arbitrary: par es m)
  case 0
  then show ?case by (cases par) auto
next
  case (Suc n)
  from Suc.prems(2) obtain m' where m: "m = Suc m'" "n \<le> m'" by (cases m) auto
  show ?case
  proof (cases par)
    case None
    with Suc.prems show ?thesis by simp
  next
    case (Some p)
    obtain pk bd where p: "p = (pk, bd)" by force
    from Suc.prems(1) obtain ps where ps: "inherited n st (b_parent (get_book st pk)) = Some ps"
      by (auto simp: Some p)
    from Suc.IH [OF ps m(2)] Suc.prems(1) ps show ?thesis by (simp add: Some p m(1))
  qed
qed

lemma prefixed_total:
  assumes "store_ok st" "b_parent b = b_parent (get_book st key)"
  shows "\<exists>es. inherited (length (books st)) st (b_parent b) = Some es
    \<and> (\<forall>n \<ge> Suc (length (books st)). prefixed n st b = Some (st, es @ b_events b))"
proof -
  obtain es where es: "inherited (length (books st)) st (b_parent b) = Some es"
    using inherited_total [OF assms(1) age_le] assms(2) by auto
  have "prefixed n st b = Some (st, es @ b_events b)" if "Suc (length (books st)) \<le> n" for n
  proof -
    from that obtain m where m: "n = Suc m" "length (books st) \<le> m" by (cases n) auto
    have "linked st (b_parent b)" using linked_parent [OF assms(1)] assms(2) by simp
    from prefixed_inherited [OF assms(1) this, of m] inherited_mono [OF es m(2)] m(1)
    show ?thesis by simp
  qed
  with es show ?thesis by blast
qed

lemma prefixed_fuel:
  assumes "store_ok st" "b_parent b = b_parent (get_book st key)"
  shows "\<exists>es. prefixed (chain_fuel st) st b = Some (st, es @ b_events b)
    \<and> inherited (length (books st)) st (b_parent b) = Some es"
proof -
  have "Suc (length (books st)) \<le> chain_fuel st" by (simp add: chain_fuel_def)
  with prefixed_total [OF assms] show ?thesis by blast
qed

lemma reader_rows_inherited:
  assumes "store_ok st"
  shows "\<exists>es. inherited (length (books (touch_book st key))) (touch_book st key) (b_parent (get_book st key)) = Some es
    \<and> reader_rows st key = es @ b_events (get_book st key)
    \<and> prefixed (chain_fuel (touch_book st key)) (touch_book st key) (get_book st key)
        = Some (touch_book st key, reader_rows st key)"
  using prefixed_fuel [OF store_ok_touch [OF assms, of key], of "get_book st key" key]
  by (auto simp: reader_rows_def)

lemma reader_rows_increasing:
  assumes ok: "store_ok st"
  shows "sorted_wrt (<) (map e_seq (reader_rows st key))"
proof -
  let ?st = "touch_book st key" and ?b = "get_book st key"
  have ok': "store_ok ?st" using ok by (rule store_ok_touch)
  obtain es where es: "inherited (length (books ?st)) ?st (b_parent ?b) = Some es"
    "reader_rows st key = es @ b_events ?b"
    using reader_rows_inherited [OF ok, of key] by blast
  have linked: "linked ?st (b_parent ?b)" using linked_parent [OF ok', of key] by simp
  note inc = inherited_increasing [OF ok' es(1) linked]
  have "es = []" if "b_parent ?b = None" using es(1) that by simp
  moreover have "sorted_wrt (<) (base_seq ?b # map e_seq (b_events ?b))"
    using store_ok_get [OF ok, of key] by (simp add: book_ok_def rows_increasing_def)
  ultimately show ?thesis
    using inc unfolding es(2) by (fastforce simp: sorted_wrt_append base_seq_def split: option.splits)
qed

lemma registerView_ok:
  assumes ok: "store_ok st" and b: "b_parent b = b_parent (get_book st key)"
  shows "\<exists>m. registerView st b = Some (st, m)"
  using prefixed_fuel [OF ok b] by (auto simp: registerView_def)

lemma commit_store_ok:
  assumes ok: "store_ok st" and plain: "list_all plain_row (tx_events tx)"
  shows "store_ok (fst (commit now st key tx))"
proof -
  let ?b = "get_book st key" and ?st1 = "touch_book st key"
  have ok1: "store_ok ?st1" using ok by (rule store_ok_touch)
  have put: "store_ok (put_book (put_book ?st1 key b1) key b2)" if "advances ?b b1" "advances b1 b2" for b1 b2
    using ok that by (intro store_ok_put store_ok_write) auto
  show ?thesis
  proof (cases "holdLease now ?b (tx_expectedWriterRunId tx) (tx_claim tx)")
    case (Inl e)
    then show ?thesis using ok ok1 by (simp add: commit_def Let_def)
  next
    case (Inr b1)
    have adv: "advances ?b b1" using Inr by (rule holdLease_advances)
    let ?st2 = "put_book ?st1 key b1"
    have ok2: "store_ok ?st2" using ok adv by (rule store_ok_write)
    obtain b2 r where fin: "finish_commit b1 tx = (b2, r)" by force
    have adv2: "advances b1 b2" using fin plain by (rule finish_commit_advances)
    obtain m where view: "registerView ?st2 b1 = Some (?st2, m)"
      using registerView_ok [OF ok2, of b1 key] by auto
    have restored: "store_ok (put_book ?st2 key ?b)"
    proof -
      have "put_book ?st2 key ?b = put_book ?st1 key ?b" by (simp add: put_book_def update_triv)
      then show ?thesis using store_ok_write [OF ok advances_refl] by simp
    qed
    show ?thesis
      using ok ok2 put [OF adv adv2] restored
      by (auto simp: commit_def Let_def Inr fin view split: option.splits)
  qed
qed

end
