(* ===== verification/LedgerStoreProps.thy ===== *)
theory LedgerStoreProps imports LedgerStoreOps begin

text \<open>
  The storage contract as properties: the invariant over every reachable store, numbering, fencing,
  refusals, the frozen parent prefix, complete scans and replayable registers.
\<close>

section \<open>Preservation by the other operations\<close>

lemma store_ok_lease_write:
  "store_ok st \<Longrightarrow> store_ok (put_book (touch_book st key) key (get_book st key\<lparr>b_lease := l\<rparr>))"
  by (intro store_ok_write) auto

lemma open_store_ok: "store_ok st \<Longrightarrow> store_ok (fst (open_session now st key runId ttl))"
  by (auto simp: open_session_def Let_def advances_def intro: store_ok_touch intro!: store_ok_write)

lemma renew_store_ok: "store_ok st \<Longrightarrow> store_ok (fst (renew now st key runId claim))"
  by (auto simp: renew_def Let_def split: option.split sum.split
      intro: store_ok_touch store_ok_write store_ok_lease_write dest: holdLease_advances)

lemma release_store_ok: "store_ok st \<Longrightarrow> store_ok (release st key runId)"
  by (auto simp: release_def Let_def intro: store_ok_touch store_ok_lease_write)

lemma scan_state:
  assumes "store_ok st"
  shows "fst (scan st key q) = st \<or> fst (scan st key q) = touch_book st key"
  using reader_rows_inherited [OF assms, of key] by (auto simp: scan_def Let_def)

lemma scan_store_ok: "store_ok st \<Longrightarrow> store_ok (fst (scan st key q))"
  using scan_state [of st key q] by (auto intro: store_ok_touch)

lemma registers_store_ok:
  assumes "store_ok st"
  shows "store_ok (fst (registers st key))"
proof -
  obtain m where "registerView (touch_book st key) (get_book st key) = Some (touch_book st key, m)"
    using registerView_ok [OF store_ok_touch [OF assms], of "get_book st key" key key] by auto
  then show ?thesis using assms by (simp add: registers_def Let_def store_ok_touch)
qed

lemma createChild_store_ok:
  assumes ok: "store_ok st" and ne: "parent \<noteq> child"
  shows "store_ok (fst (createChild st parent boundarySeq child))"
proof (cases "jm_get (books st) child")
  case (Some b)
  then show ?thesis using ok by (simp add: createChild_def)
next
  case None
  let ?b = "new_book\<lparr>b_opened := True, b_parent := Some (parent, boundarySeq)\<rparr>"
  have new: "child \<notin> fst ` set (books (touch_book st parent))"
    using None ne by (simp add: map_of_eq_None_iff)
  have "book_ok ?b"
    by (simp add: book_ok_def new_book_def rows_increasing_def cells_ok_def view_agrees_def own_view_def
        opCell_rows_def)
  then have "store_ok (put_book (touch_book st parent) child ?b)" if "boundarySeq \<le> lastSeq (get_book st parent)"
    using new that by (intro store_ok_add store_ok_touch [OF ok]) auto
  then show ?thesis using None ok by (auto simp: createChild_def Let_def intro: store_ok_touch)
qed

lemma map_values_store_ok:
  assumes ok: "store_ok st" and adv: "\<And>b. advances b (f b) \<and> lastSeq (f b) = lastSeq b"
  shows "store_ok (st\<lparr>books := jm_map_values f (books st)\<rparr>)"
proof -
  let ?st = "st\<lparr>books := jm_map_values f (books st)\<rparr>"
  have get: "lastSeq (get_book ?st k) = lastSeq (get_book st k)" for k
    using adv by (auto simp: get_book_def split: option.splits)
  have "link_ok ?st k (f b) = link_ok st k b" for k b
    using adv [of b] by (auto simp: link_ok_def get advances_def split: option.splits)
  then show ?thesis
    using ok adv by (auto simp: store_ok_def list_all_iff advances_def)
      (auto simp: jm_map_values_def)
qed

lemma close_store_ok: "store_ok st \<Longrightarrow> store_ok (close_store st)"
  unfolding close_store_def by (rule map_values_store_ok) auto

lemma clear_store_ok:
  assumes "store_ok st"
  shows "store_ok (clearWriterLease st key)"
proof (cases "jm_get (books st) key")
  case (Some b)
  then have "key \<in> fst ` set (books st)" "get_book st key = b"
    by (force simp: get_book_def dest: map_of_SomeD)+
  then show ?thesis
    using store_ok_put [OF assms, of key "b\<lparr>b_lease := None\<rparr>"] Some by (simp add: clearWriterLease_def)
qed (use assms in \<open>simp add: clearWriterLease_def\<close>)

lemma takeWhile_filter_other:
  "k' \<noteq> k \<Longrightarrow> takeWhile (\<lambda>x. x \<noteq> k') (filter (\<lambda>x. x \<noteq> k) ks) = filter (\<lambda>x. x \<noteq> k) (takeWhile (\<lambda>x. x \<noteq> k') ks)"
  by (induction ks) auto

lemma keys_delete: "jm_keys (jm_delete m k) = filter (\<lambda>x. x \<noteq> k) (jm_keys m)"
  by (induction m) (auto simp: AList.delete_eq)

lemma discard_store_ok:
  assumes ok: "store_ok st" and leaf: "\<And>k b bd. jm_get (books st) k = Some b \<Longrightarrow> b_parent b \<noteq> Some (key, bd)"
  shows "store_ok (st\<lparr>books := jm_delete (books st) key, verifiedHeads := h\<rparr>)"
proof -
  let ?st = "st\<lparr>books := jm_delete (books st) key, verifiedHeads := h\<rparr>"
  have wf: "jm_wf (books st)" using ok by (simp add: store_ok_def)
  have "book_ok b \<and> link_ok ?st k b" if kb: "(k, b) \<in> set (jm_delete (books st) key)" for k b
  proof -
    have k: "(k, b) \<in> set (books st)" "k \<noteq> key" using kb by (auto simp: in_set_delete)
    then have get: "jm_get (books st) k = Some b" using wf by (simp add: jm_wf_get_iff)
    have "link_ok ?st k b"
    proof (cases "b_parent b")
      case None
      then show ?thesis by (simp add: link_ok_def)
    next
      case (Some p)
      obtain pk bd where p: "p = (pk, bd)" by force
      have ne: "pk \<noteq> key" using leaf [OF get, of bd] Some p by auto
      from store_ok_link [OF ok get] have
        "pk \<in> set (takeWhile (\<lambda>x. x \<noteq> k) (jm_keys (books st)))" "bd \<le> lastSeq (get_book st pk)"
        by (auto simp: link_ok_def Some p)
      with ne k(2) show ?thesis
        by (simp add: link_ok_def Some p keys_delete takeWhile_filter_other get_book_def)
    qed
    with ok k show ?thesis by (auto simp: store_ok_def list_all_iff)
  qed
  with wf show ?thesis by (auto simp: store_ok_def list_all_iff)
qed

section \<open>Reachable stores\<close>

text \<open>
  One call against the storage. A forked child names another session as its parent, a batch holds
  rows the ledger validation lets through (no \<^verbatim>\<open>op.state\<close> register row, no NUL in a
  register name), and a session that is discarded has no child.
\<close>

inductive ledger_step :: "ledger_store \<Rightarrow> ledger_store \<Rightarrow> bool" where
  step_open: "ledger_step st (fst (open_session now st key runId ttl))"
| step_commit: "list_all plain_row (tx_events tx) \<Longrightarrow> ledger_step st (fst (commit now st key tx))"
| step_renew: "ledger_step st (fst (renew now st key runId claim))"
| step_release: "ledger_step st (release st key runId)"
| step_scan: "ledger_step st (fst (scan st key q))"
| step_registers: "ledger_step st (fst (registers st key))"
| step_createChild: "parent \<noteq> child \<Longrightarrow> ledger_step st (fst (createChild st parent boundarySeq child))"
| step_close: "ledger_step st (close_store st)"
| step_clear: "ledger_step st (clearWriterLease st key)"
| step_discard: "(\<And>k b bd. jm_get (books (touch_book st key)) k = Some b \<Longrightarrow> b_parent b \<noteq> Some (key, bd)) \<Longrightarrow>
    ledger_step st (fst (discardNewSession now st key runId claim))"

inductive_cases ledger_stepE: "ledger_step st st'"

definition empty_store :: ledger_store where
  "empty_store = \<lparr>books = [], controlFormat = 1, integrityFailures = [], verifiedHeads = []\<rparr>"

lemma empty_store_ok [simp]: "store_ok empty_store"
  by (simp add: store_ok_def empty_store_def)

lemma discard_call_store_ok:
  assumes "store_ok st"
    and "\<And>k b bd. jm_get (books (touch_book st key)) k = Some b \<Longrightarrow> b_parent b \<noteq> Some (key, bd)"
  shows "store_ok (fst (discardNewSession now st key runId claim))"
  using assms discard_store_ok [OF store_ok_touch [OF assms(1)] assms(2)]
  by (auto simp: discardNewSession_def Let_def intro: store_ok_touch split: sum.split)

lemmas ledger_op_ok = open_store_ok commit_store_ok renew_store_ok release_store_ok scan_store_ok
  registers_store_ok createChild_store_ok close_store_ok clear_store_ok discard_call_store_ok

lemma ledger_step_ok: "ledger_step st st' \<Longrightarrow> store_ok st \<Longrightarrow> store_ok st'"
  by (induction rule: ledger_step.induct) (blast intro: ledger_op_ok)+


definition row_a :: prepared_event where
  "row_a = \<lparr>e_ts = ''t'', e_id = ''i'', e_type = ''user/message'', e_data = JObj [], e_actor = JNull,
     e_origin = ''principal'', e_trusted = True, e_lane = None, e_v = None, e_register = None,
     e_ignorable = False, e_surfaceOp = None, e_sourceEventSeqs = None\<rparr>"

definition tx_a :: "string \<Rightarrow> prepared_event list \<Rightarrow> commit_tx" where
  "tx_a run es = \<lparr>tx_events = es, tx_integrity = None, tx_expectedWriterRunId = run,
     tx_expectedRegisterSeq = None, tx_claim = None, tx_opState = None\<rparr>"

definition st_a :: ledger_store where
  "st_a = fst (commit 5 (fst (open_session 0 empty_store ''k'' ''w'' 10)) ''k'' (tx_a ''w'' [row_a, row_a]))"

lemma row_a_plain [simp]: "plain_row row_a"
  by (simp add: plain_row_def row_a_def)

lemma tx_a_sel [simp]: "tx_events (tx_a r es) = es" "tx_expectedWriterRunId (tx_a r es) = r"
  "tx_opState (tx_a r es) = None" "tx_claim (tx_a r es) = None" "tx_expectedRegisterSeq (tx_a r es) = None"
  "tx_integrity (tx_a r es) = None"
  by (simp_all add: tx_a_def)

lemma st_a_reachable: "ledger_step\<^sup>*\<^sup>* empty_store st_a"
  unfolding st_a_def by (rule rtranclp_trans) (auto intro!: r_into_rtranclp step_open step_commit)

lemma st_a_last: "lastSeq (get_book st_a ''k'') = 2"
  by code_simp


section \<open>A commit\<close>

text \<open>The two ways a commit can go once the lease is held.\<close>

lemma commit_outcomes:
  assumes ok: "store_ok st" and hold: "holdLease now (get_book st key) (tx_expectedWriterRunId tx) (tx_claim tx) = Inr b1"
    and go: "\<not> (tx_opState tx \<noteq> None \<and> tx_events tx = [])"
  shows "commit now st key tx =
      (put_book (put_book (touch_book st key) key b1) key (get_book st key), throw E_CAS ''register seq mismatch'')
    \<or> commit now st key tx =
      (put_book (put_book (touch_book st key) key b1) key (fst (finish_commit b1 tx)), snd (finish_commit b1 tx))"
proof -
  let ?st2 = "put_book (touch_book st key) key b1"
  have ok2: "store_ok ?st2" using ok holdLease_advances [OF hold] by (rule store_ok_write)
  obtain m where "registerView ?st2 b1 = Some (?st2, m)"
    using registerView_ok [OF ok2, of b1 key] by auto
  then show ?thesis
    using go by (auto simp: commit_def Let_def hold prod.case_eq_if split: option.split)
qed

lemma commit_InrE:
  assumes ok: "store_ok st" and c: "commit now st key tx = (st', Inr rc)"
  obtains b1 b2 where "holdLease now (get_book st key) (tx_expectedWriterRunId tx) (tx_claim tx) = Inr b1"
    and "finish_commit b1 tx = (b2, Inr rc)"
    and "st' = put_book (put_book (touch_book st key) key b1) key b2"
proof -
  have go: "\<not> (tx_opState tx \<noteq> None \<and> tx_events tx = [])"
    using c by (cases "tx_opState tx \<noteq> None \<and> tx_events tx = []") (simp_all add: commit_def throw_def)
  obtain b1 where hold: "holdLease now (get_book st key) (tx_expectedWriterRunId tx) (tx_claim tx) = Inr b1"
  proof (cases "holdLease now (get_book st key) (tx_expectedWriterRunId tx) (tx_claim tx)")
    case (Inl e)
    with c go show ?thesis by (simp add: commit_def Let_def del: not_None_eq)
  qed
  have "finish_commit b1 tx = (fst (finish_commit b1 tx), Inr rc)
      \<and> st' = put_book (put_book (touch_book st key) key b1) key (fst (finish_commit b1 tx))"
    using commit_outcomes [OF ok hold go] c by (auto simp: prod_eq_iff)
  with hold that show ?thesis by blast
qed

text \<open>
  C10. A commit that returns appends exactly its rows to its own session, numbered without a gap from
  the session's last sequence, and returns those numbers; no other session's book changes.
\<close>

theorem commit_appends:
  assumes ok: "store_ok st" and c: "commit now st key tx = (st', Inr rc)"
  shows "b_events (get_book st' key) =
      b_events (get_book st key) @ stamp_from (lastSeq (get_book st key)) (tx_events tx)
    \<and> cr_seqs rc = map (\<lambda>i. lastSeq (get_book st key) + 1 + int i) [0..<length (tx_events tx)]
    \<and> lastSeq (get_book st' key) = lastSeq (get_book st key) + int (length (tx_events tx))
    \<and> (\<forall>k. k \<noteq> key \<longrightarrow> get_book st' k = get_book st k)"
proof -
  from ok c obtain b1 b2 where b1: "holdLease now (get_book st key) (tx_expectedWriterRunId tx) (tx_claim tx) = Inr b1"
    and b2: "finish_commit b1 tx = (b2, Inr rc)"
    and st': "st' = put_book (put_book (touch_book st key) key b1) key b2" by (rule commit_InrE)
  from finish_commit_Inr(1-3) [OF b2] show ?thesis
    by (simp add: st' holdLease_sel [OF b1])
qed

definition st_open :: ledger_store where
  "st_open = fst (open_session 0 empty_store ''k'' ''w'' 10)"

lemma st_open_ok [simp]: "store_ok st_open"
  unfolding st_open_def by (intro open_store_ok) simp

theorem commit_appends_witness:
  "b_events (get_book (fst (commit 5 st_open ''k'' (tx_a ''w'' [row_a, row_a]))) ''k'') = [stamp 1 row_a, stamp 2 row_a]"
proof -
  have "commit 5 st_open ''k'' (tx_a ''w'' [row_a, row_a])
      = (fst (commit 5 st_open ''k'' (tx_a ''w'' [row_a, row_a])),
         Inr \<lparr>cr_firstSeq = Some 1, cr_seqs = [1, 2], cr_opState = None\<rparr>)" by code_simp
  from commit_appends [OF st_open_ok this]
  have "b_events (get_book (fst (commit 5 st_open ''k'' (tx_a ''w'' [row_a, row_a]))) ''k'')
      = b_events (get_book st_open ''k'') @ stamp_from (lastSeq (get_book st_open ''k'')) [row_a, row_a]" by simp
  moreover have "b_events (get_book st_open ''k'') = []" by code_simp
  moreover have "lastSeq (get_book st_open ''k'') = 0" by code_simp
  ultimately show ?thesis by simp
qed

text \<open>
  C11. Fencing: while a session's lease row names another run, lapsed or not, and with or without a
  renew-on-write claim, a commit is refused with the lease error (or, before the lease is looked at,
  as a cell write without rows) and every book is left as it was.
\<close>

theorem commit_fenced:
  assumes l: "b_lease (get_book st key) = Some l" and other: "l_runId l \<noteq> tx_expectedWriterRunId tx"
  shows "snd (commit now st key tx) \<in>
      {throw E_WRITER_LEASE ''writer lease not held'',
       throw E_STORAGE_FAULT ''an op write needs at least one row in its batch''}
    \<and> (\<forall>k. get_book (fst (commit now st key tx)) k = get_book st k)"
  using holdLease_other_run [OF l other, of now "tx_claim tx"]
  by (simp add: commit_def Let_def throw_def)

theorem commit_fenced_witness:
  "snd (commit 100 st_open ''k'' (tx_a ''v'' [row_a])) \<in>
     {throw E_WRITER_LEASE ''writer lease not held'',
      throw E_STORAGE_FAULT ''an op write needs at least one row in its batch''}"
proof -
  have "b_lease (get_book st_open ''k'') = Some \<lparr>l_runId = ''w'', l_until = 10, l_ttlMs = 10\<rparr>" by code_simp
  from commit_fenced [OF this, of "tx_a ''v'' [row_a]" 100] show ?thesis by simp
qed

text \<open>
  A commit that returns was made under its own run's lease: the run held it, unexpired, or it
  took back a lapsed or missing one with a claim whose expected last sequence still is the
  session's; afterwards the lease row names that run.
\<close>

theorem commit_under_lease:
  assumes ok: "store_ok st" and c: "commit now st key tx = (st', Inr rc)"
  shows "(lease_held now (get_book st key) (tx_expectedWriterRunId tx)
      \<or> (\<exists>cl. tx_claim tx = Some cl \<and> lease_claimable (get_book st key) (tx_expectedWriterRunId tx) cl))
    \<and> map_option l_runId (b_lease (get_book st' key)) = Some (tx_expectedWriterRunId tx)"
proof -
  from ok c obtain b1 b2 where b1: "holdLease now (get_book st key) (tx_expectedWriterRunId tx) (tx_claim tx) = Inr b1"
    and b2: "finish_commit b1 tx = (b2, Inr rc)"
    and st': "st' = put_book (put_book (touch_book st key) key b1) key b2" by (rule commit_InrE)
  have "b_lease b2 = b_lease b1"
    using b2 by (auto simp: finish_commit_def Let_def split: if_splits option.splits)
  then have "map_option l_runId (b_lease (get_book st' key)) = Some (tx_expectedWriterRunId tx)"
    using holdLease_own [OF b1] by (simp add: st')
  then show ?thesis
    using b1 by (auto simp: holdLease_cases split: option.splits if_splits)
qed

theorem commit_under_lease_witness:
  "lease_held 5 (get_book st_open ''k'') ''w''"
proof -
  have "commit 5 st_open ''k'' (tx_a ''w'' [row_a])
      = (fst (commit 5 st_open ''k'' (tx_a ''w'' [row_a])),
         Inr \<lparr>cr_firstSeq = Some 1, cr_seqs = [1], cr_opState = None\<rparr>)" by code_simp
  from commit_under_lease [OF st_open_ok this] show ?thesis by simp
qed

text \<open>
  C17. A commit refused because the register cell moved leaves every book exactly as it was, the
  lease it had extended on the way included.
\<close>

theorem commit_cas_refusal_rolls_back:
  assumes ok: "store_ok st" and c: "commit now st key tx = (st', throw E_CAS m)"
  shows "get_book st' k = get_book st k"
proof -
  have go: "\<not> (tx_opState tx \<noteq> None \<and> tx_events tx = [])"
    using c by (cases "tx_opState tx \<noteq> None \<and> tx_events tx = []") (simp_all add: commit_def throw_def)
  show ?thesis
  proof (cases "holdLease now (get_book st key) (tx_expectedWriterRunId tx) (tx_claim tx)")
    case (Inl e)
    with c go show ?thesis by (auto simp: commit_def Let_def simp del: not_None_eq)
  next
    case (Inr b1)
    have "snd (finish_commit b1 tx) \<noteq> throw E_CAS m"
      by (auto simp: finish_commit_def Let_def throw_def split: option.split)
    with commit_outcomes [OF ok Inr go] c show ?thesis by auto
  qed
qed

theorem commit_cas_refusal_rolls_back_witness:
  "get_book (fst (commit 5 st_open ''k''
       (tx_a ''w'' [row_a]\<lparr>tx_expectedRegisterSeq := Some (''op.state'', ''main'', Some 7),
          tx_claim := Some \<lparr>lc_ttlMs = 99, lc_expectedLastSeq = 0\<rparr>\<rparr>))) ''k'' = get_book st_open ''k''"
proof -
  let ?tx = "tx_a ''w'' [row_a]\<lparr>tx_expectedRegisterSeq := Some (''op.state'', ''main'', Some 7),
          tx_claim := Some \<lparr>lc_ttlMs = 99, lc_expectedLastSeq = 0\<rparr>\<rparr>"
  have "commit 5 st_open ''k'' ?tx = (fst (commit 5 st_open ''k'' ?tx), throw E_CAS ''register seq mismatch'')"
    by code_simp
  from commit_cas_refusal_rolls_back [OF st_open_ok this] show ?thesis .
qed

text \<open>
  The refusal of mismatched integrity metadata does not roll back: the lease stays extended to
  the full term although nothing was written.
\<close>

theorem commit_integrity_refusal_keeps_lease:
  "\<exists>(st :: ledger_store) key tx now. store_ok st
     \<and> snd (commit now st key tx)
         = throw E_STORAGE_FAULT ''integrity metadata does not match assigned sequences''
     \<and> map_option l_until (b_lease (get_book st key)) = Some 10
     \<and> map_option l_until (b_lease (get_book (fst (commit now st key tx)) key)) = Some 15"
proof -
  let ?tx = "tx_a ''w'' [row_a]\<lparr>tx_integrity := Some [],
          tx_claim := Some \<lparr>lc_ttlMs = 10, lc_expectedLastSeq = 0\<rparr>\<rparr>"
  have "snd (commit 5 st_open ''k'' ?tx)
      = throw E_STORAGE_FAULT ''integrity metadata does not match assigned sequences''" by code_simp
  moreover have "map_option l_until (b_lease (get_book st_open ''k'')) = Some 10" by code_simp
  moreover have "map_option l_until (b_lease (get_book (fst (commit 5 st_open ''k'' ?tx)) ''k'')) = Some 15"
    by code_simp
  ultimately show ?thesis using st_open_ok by blast
qed

section \<open>Reading\<close>

text \<open>What a commit does to the store, as far as a reader of another session can see.\<close>

lemma commit_others:
  assumes ok: "store_ok st"
  shows "\<exists>b'. (\<forall>k. get_book (fst (commit now st key tx)) k = (if k = key then b' else get_book st k))
    \<and> b_parent b' = b_parent (get_book st key)
    \<and> (\<exists>new. b_events b' = b_events (get_book st key) @ new
           \<and> (\<forall>e \<in> set new. lastSeq (get_book st key) < e_seq e))"
proof (cases "snd (commit now st key tx)")
  case (Inr rc)
  then have c: "commit now st key tx = (fst (commit now st key tx), Inr rc)" by (simp add: prod_eq_iff)
  from ok c obtain b1 b2 where b1: "holdLease now (get_book st key) (tx_expectedWriterRunId tx) (tx_claim tx) = Inr b1"
    and b2: "finish_commit b1 tx = (b2, Inr rc)"
    and st': "fst (commit now st key tx) = put_book (put_book (touch_book st key) key b1) key b2"
    by (rule commit_InrE)
  note fin = finish_commit_Inr(1,4) [OF b2]
  show ?thesis
    by (rule exI [of _ b2]) (use fin stamp_from_above in \<open>auto simp: st' holdLease_sel [OF b1]\<close>)
next
  case (Inl e)
  have go: ?thesis if "tx_opState tx \<noteq> None \<and> tx_events tx = []"
    using that by (intro exI [of _ "get_book st key"]) (auto simp: commit_def)
  show ?thesis
  proof (cases "tx_opState tx \<noteq> None \<and> tx_events tx = []")
    case True
    then show ?thesis by (rule go)
  next
    case False
    show ?thesis
    proof (cases "holdLease now (get_book st key) (tx_expectedWriterRunId tx) (tx_claim tx)")
      case (Inl e')
      with False show ?thesis
        by (intro exI [of _ "get_book st key"]) (auto simp: commit_def Let_def simp del: not_None_eq)
    next
      case (Inr b1)
      note sel = holdLease_sel [OF Inr]
      have fin: "fst (finish_commit b1 tx) = b1" if "snd (finish_commit b1 tx) = Inl e"
        using finish_commit_Inl [of b1 tx _ e] that by (metis prod.collapse)
      from commit_outcomes [OF ok Inr False] Inl fin
      have "(\<forall>k. get_book (fst (commit now st key tx)) k = get_book st k)
          \<or> (\<forall>k. get_book (fst (commit now st key tx)) k = (if k = key then b1 else get_book st k))"
        by auto
      then show ?thesis
      proof
        assume "\<forall>k. get_book (fst (commit now st key tx)) k = get_book st k"
        then show ?thesis by (intro exI [of _ "get_book st key"]) auto
      next
        assume "\<forall>k. get_book (fst (commit now st key tx)) k = (if k = key then b1 else get_book st k)"
        then show ?thesis by (intro exI [of _ b1]) (auto simp: sel)
      qed
    qed
  qed
qed

lemma inherited_frame:
  assumes same: "\<And>k. get_book st' k = (if k = p then b' else get_book st k)"
    and par: "b_parent b' = b_parent (get_book st p)"
    and ev: "b_events b' = b_events (get_book st p) @ new" "\<forall>e \<in> set new. lastSeq (get_book st p) < e_seq e"
    and ok: "store_ok st"
  shows "linked st par \<Longrightarrow> inherited n st' par = inherited n st par"
proof (induction n arbitrary: par)
  case 0
  then show ?case by (cases par) auto
next
  case (Suc n)
  show ?case
  proof (cases par)
    case None
    then show ?thesis by simp
  next
    case (Some pb)
    obtain pk bd where pb: "pb = (pk, bd)" by force
    have par_eq: "b_parent (get_book st' pk) = b_parent (get_book st pk)" by (simp add: same par)
    have bd: "bd \<le> lastSeq (get_book st pk)" using Suc.prems by (simp add: Some pb linked_def)
    have "filter (\<lambda>e. e_seq e \<le> bd) (b_events (get_book st' pk))
        = filter (\<lambda>e. e_seq e \<le> bd) (b_events (get_book st pk))"
    proof (cases "pk = p")
      case True
      have "filter (\<lambda>e. e_seq e \<le> bd) new = []"
        using ev(2) bd True by (auto simp: filter_empty_conv)
      with True show ?thesis by (simp add: same ev(1))
    next
      case False
      then show ?thesis by (simp add: same)
    qed
    with Suc.IH [OF linked_parent [OF ok, of pk]] show ?thesis
      by (simp add: Some pb par_eq)
  qed
qed

lemma reader_rows_alt:
  assumes "store_ok st"
  shows "\<exists>es. reader_rows st key = es @ b_events (get_book st key)
    \<and> (\<forall>n \<ge> length (books st). inherited n st (b_parent (get_book st key)) = Some es)"
proof -
  let ?b = "get_book st key"
  obtain es where es: "inherited (length (books st)) st (b_parent ?b) = Some es"
    and pre: "prefixed (chain_fuel st) st ?b = Some (st, es @ b_events ?b)"
    using prefixed_fuel [OF assms, of ?b key] by auto
  have "reader_rows st key = es @ b_events ?b"
  proof (cases "jm_has (books st) key")
    case True
    then show ?thesis using pre by (simp add: reader_rows_def touch_book_def)
  next
    case False
    then have b: "?b = new_book" by (simp add: get_book_def)
    with es show ?thesis by (simp add: reader_rows_def chain_fuel_def)
  qed
  with es inherited_mono show ?thesis by blast
qed

lemma commit_reader_rows:
  assumes ok: "store_ok st" and plain: "list_all plain_row (tx_events tx)" and ne: "c \<noteq> p"
  shows "reader_rows (fst (commit now st p tx)) c = reader_rows st c"
proof -
  let ?st' = "fst (commit now st p tx)"
  have ok': "store_ok ?st'" using ok plain by (rule commit_store_ok)
  obtain b' new where same: "\<And>k. get_book ?st' k = (if k = p then b' else get_book st k)"
    and par: "b_parent b' = b_parent (get_book st p)"
    and ev: "b_events b' = b_events (get_book st p) @ new" "\<forall>e \<in> set new. lastSeq (get_book st p) < e_seq e"
    using commit_others [OF ok, of now p tx] by metis
  have c: "get_book ?st' c = get_book st c" by (simp add: same ne)
  obtain es where es: "reader_rows st c = es @ b_events (get_book st c)"
    "\<forall>n \<ge> length (books st). inherited n st (b_parent (get_book st c)) = Some es"
    using reader_rows_alt [OF ok] by blast
  obtain es' where es': "reader_rows ?st' c = es' @ b_events (get_book ?st' c)"
    "\<forall>n \<ge> length (books ?st'). inherited n ?st' (b_parent (get_book ?st' c)) = Some es'"
    using reader_rows_alt [OF ok'] by blast
  define n where "n = max (length (books st)) (length (books ?st'))"
  have "inherited n ?st' (b_parent (get_book st c)) = inherited n st (b_parent (get_book st c))"
    by (rule inherited_frame [OF same par ev ok]) (rule linked_parent [OF ok])
  then have "es' = es" using es(2) es'(2) c by (simp add: n_def)
  then show ?thesis using es(1) es'(1) c by simp
qed

lemma scan_reader:
  assumes ok: "store_ok st"
  shows "snd (scan st key q) =
    (if q_toSeq q = None \<and> q_limit q = None then throw E_SCAN_UNBOUNDED ''scan needs toSeq or limit''
     else if (\<exists>l \<in> set_option (q_limit q). \<not> is_safe_integer l \<or> \<not> js_lt (num_of_int 0) l)
     then throw E_SCAN_UNBOUNDED ''scan limit must be a positive integer''
     else scan_page q (reader_rows st key))"
  using reader_rows_inherited [OF ok, of key] by (auto simp: scan_def Let_def)

text \<open>
  The parent prefix is frozen: whatever is committed to another session, its own parent included,
  a scan of a session answers the same rows or the same error afterwards.
\<close>

theorem child_view_frozen:
  assumes "store_ok st" "list_all plain_row (tx_events tx)" "c \<noteq> p"
  shows "snd (scan (fst (commit now st p tx)) c q) = snd (scan st c q)"
  using assms by (simp add: scan_reader commit_store_ok commit_reader_rows)

definition st_fork :: ledger_store where
  "st_fork = fst (createChild st_a ''k'' 1 ''c'')"

definition q_all :: scan_query where
  "q_all = \<lparr>q_fromSeq = None, q_toSeq = Some 100, q_type = None, q_lane = None, q_desc = False, q_limit = None\<rparr>"

lemma st_fork_ok: "store_ok st_fork"
  unfolding st_fork_def st_a_def by (intro createChild_store_ok commit_store_ok open_store_ok) simp_all

theorem child_view_frozen_witness:
  "snd (scan (fst (commit 6 st_fork ''k'' (tx_a ''w'' [row_a]))) ''c'' q_all) = Inr [stamp 1 row_a]
   \<and> snd (scan (fst (commit 6 st_fork ''k'' (tx_a ''w'' [row_a]))) ''k'' q_all)
       = Inr [stamp 1 row_a, stamp 2 row_a, stamp 3 row_a]"
proof -
  have "snd (scan (fst (commit 6 st_fork ''k'' (tx_a ''w'' [row_a]))) ''c'' q_all) = snd (scan st_fork ''c'' q_all)"
    by (rule child_view_frozen [OF st_fork_ok]) simp_all
  moreover have "snd (scan st_fork ''c'' q_all) = Inr [stamp 1 row_a]" by code_simp
  moreover have "snd (scan (fst (commit 6 st_fork ''k'' (tx_a ''w'' [row_a]))) ''k'' q_all)
       = Inr [stamp 1 row_a, stamp 2 row_a, stamp 3 row_a]" by code_simp
  ultimately show ?thesis by simp
qed

text \<open>
  A scan never leaves out a row silently. With a limit of at most the page maximum it returns the
  first rows that match, in its order; otherwise it returns every row that matches, or the
  truncation error when there are more than the maximum. The rows come in strictly increasing
  sequence (strictly decreasing for a descending scan).
\<close>

theorem scan_complete:
  assumes ok: "store_ok st" and s: "snd (scan st key q) = Inr rows"
  shows "rows = take (case q_limit q of
        Some l \<Rightarrow> if js_lt (num_of_int SCAN_PAGE_MAX) l then length rows else nat (int_of_num l)
      | None \<Rightarrow> length rows)
      ((if q_desc q then rev else id) (filter (scan_row_ok q) (reader_rows st key)))
    \<and> (q_limit q = None \<longrightarrow> set rows = {e \<in> set (reader_rows st key). scan_row_ok q e})
    \<and> sorted_wrt (if q_desc q then (>) else (<)) (map e_seq rows)"
proof -
  let ?m = "filter (scan_row_ok q) (reader_rows st key)"
  have sorted: "sorted_wrt (<) (map e_seq ?m)"
    by (rule sorted_map_filter) (rule reader_rows_increasing [OF ok])
  have "sorted_wrt (if q_desc q then (>) else (<)) (map e_seq ((if q_desc q then rev else id) ?m))"
    using sorted by (simp add: sorted_wrt_rev flip: rev_map)
  then have sorted': "sorted_wrt (if q_desc q then (>) else (<))
      (map e_seq (take n ((if q_desc q then rev else id) ?m)))" for n
    by (metis sorted_wrt_take take_map)
  have page: "scan_page q (reader_rows st key) = Inr rows"
    using s by (simp add: scan_reader [OF ok] split: if_splits)
  then show ?thesis
    using sorted' [of "length ?m"] sorted' 
    by (auto simp: scan_page_def Let_def split: option.splits if_splits)
qed

theorem scan_complete_witness:
  "set [stamp 1 row_a, stamp 2 row_a] = {e \<in> set (reader_rows st_a ''k''). scan_row_ok q_all e}"
proof -
  have ok: "store_ok st_a" unfolding st_a_def by (intro commit_store_ok open_store_ok) simp_all
  have "snd (scan st_a ''k'' q_all) = Inr [stamp 1 row_a, stamp 2 row_a]" by code_simp
  moreover have "q_limit q_all = None" by (simp add: q_all_def)
  ultimately show ?thesis using scan_complete [OF ok] by (metis)
qed



text \<open>
  Nothing stops a session from being forked from itself: the call is accepted, and from then on
  every read of that session recurses without end.
\<close>

theorem createChild_self_diverges:
  "snd (createChild empty_store ''k'' 0 ''k'') = Inr ()
   \<and> prefixed n (fst (createChild empty_store ''k'' 0 ''k'')) (get_book (fst (createChild empty_store ''k'' 0 ''k'')) ''k'') = None"
proof -
  let ?st = "fst (createChild empty_store ''k'' 0 ''k'')"
  have par: "b_parent (get_book ?st ''k'') = Some (''k'', 0)" by code_simp
  have touch: "touch_book ?st ''k'' = ?st" by code_simp
  have "prefixed n ?st (get_book ?st ''k'') = None"
  proof (induction n)
    case 0
    then show ?case by simp
  next
    case (Suc n)
    then show ?case by (simp add: par touch)
  qed
  moreover have "snd (createChild empty_store ''k'' 0 ''k'') = Inr ()" by code_simp
  ultimately show ?thesis by blast
qed

end
