(* ===== verification/ScanPages.thy ===== *)
theory ScanPages imports LedgerStoreProps begin

text \<open>
  \<^verbatim>\<open>packages/core-ledger/src/log/scan-pages.ts\<close>: reading a range one bounded page at a
  time. The generator is the list of the pages it yields with the way it ended; its loop takes fuel,
  and \<open>pages_all\<close> shows that one round more than there are rows is enough.
\<close>

section \<open>The page loop\<close>

definition with_cursor :: "scan_query \<Rightarrow> int \<Rightarrow> int option \<Rightarrow> scan_query" where
  "with_cursor q n cursor =
     (let q' = q\<lparr>q_limit := Some (num_of_int n)\<rparr> in
      case cursor of
        None \<Rightarrow> q'
      | Some c \<Rightarrow> if q_desc q then q'\<lparr>q_toSeq := Some c\<rparr> else q'\<lparr>q_fromSeq := Some c\<rparr>)"

definition page_floor :: "scan_query \<Rightarrow> int" where
  "page_floor q = max 1 (case q_fromSeq q of Some s \<Rightarrow> s | None \<Rightarrow> 1)"

definition page_stuck :: "scan_query \<Rightarrow> int option \<Rightarrow> int \<Rightarrow> int \<Rightarrow> bool" where
  "page_stuck q cursor first final \<longleftrightarrow>
     (case cursor of None \<Rightarrow> False
      | Some c \<Rightarrow> if q_desc q then max first final > c else min first final < c)"

definition page_done :: "scan_query \<Rightarrow> int \<Rightarrow> bool" where
  "page_done q cursor \<longleftrightarrow>
     (if q_desc q then cursor < page_floor q
      else case q_toSeq q of None \<Rightarrow> False | Some t \<Rightarrow> cursor > t)"

type_synonym pages_result = "event list list \<times> unit res"

fun pages ::
  "nat \<Rightarrow> (scan_query \<Rightarrow> event list res) \<Rightarrow> scan_query \<Rightarrow> int \<Rightarrow> int option \<Rightarrow> pages_result option" where
  "pages 0 read q n cursor = None"
| "pages (Suc k) read q n cursor =
     (case read (with_cursor q n cursor) of
        Inl e \<Rightarrow> Some ([], Inl e)
      | Inr page \<Rightarrow>
          if page = [] then Some ([], Inr ())
          else let first = e_seq (hd page); lst = e_seq (last page) in
            if page_stuck q cursor first lst
            then Some ([], throw E_STORAGE_FAULT ''scan page did not move past the previous page'')
            else if int (length page) < n then Some ([page], Inr ())
            else let cursor' = (if q_desc q then lst - 1 else lst + 1) in
              if page_done q cursor' then Some ([page], Inr ())
              else map_option (\<lambda>(ps, r). (page # ps, r)) (pages k read q n (Some cursor')))"

definition scanPages ::
  "nat \<Rightarrow> (scan_query \<Rightarrow> event list res) \<Rightarrow> scan_query \<Rightarrow> jsnum \<Rightarrow> pages_result option" where
  "scanPages k read q pageSize =
     (if \<not> is_safe_integer pageSize \<or> \<not> js_lt (num_of_int 0) pageSize
         \<or> js_lt (num_of_int SCAN_PAGE_MAX) pageSize
      then Some ([], Inl (PlainError ''scan page size must be an integer in 1..500''))
      else pages k read q (int_of_num pageSize) (if q_desc q then q_toSeq q else q_fromSeq q))"

definition scanAll :: "nat \<Rightarrow> (scan_query \<Rightarrow> event list res) \<Rightarrow> scan_query \<Rightarrow> event list res option" where
  "scanAll k read q =
     (case scanPages k read q (num_of_int SCAN_PAGE_MAX) of
        None \<Rightarrow> None
      | Some (ps, Inr _) \<Rightarrow> Some (Inr (concat ps))
      | Some (ps, Inl e) \<Rightarrow> Some (Inl e))"

section \<open>Paging over an ordered ledger reads every row once\<close>

definition ordered_rows :: "event list \<Rightarrow> scan_query \<Rightarrow> event list" where
  "ordered_rows es q = (if q_desc q then rev else id) (filter (scan_row_ok q) es)"

definition before :: "scan_query \<Rightarrow> int \<Rightarrow> int \<Rightarrow> bool" where
  "before q a b \<longleftrightarrow> (if q_desc q then a > b else a < b)"

lemma scan_page_limit:
  assumes "q_limit q = Some (num_of_int n)" "n \<le> SCAN_PAGE_MAX"
  shows "scan_page q es = Inr (take (nat n) (ordered_rows es q))"
  using assms by (simp add: scan_page_def Let_def ordered_rows_def)

lemma with_cursor_sel [simp]:
  "q_desc (with_cursor q n c) = q_desc q" "q_limit (with_cursor q n c) = Some (num_of_int n)"
  by (auto simp: with_cursor_def Let_def split: option.split)

lemma ordered_rows_sorted:
  assumes "sorted_wrt (<) (map e_seq es)"
  shows "sorted_wrt (before q) (map e_seq (ordered_rows es q))"
proof -
  have "sorted_wrt (<) (map e_seq (filter (scan_row_ok q) es))"
    using assms by (rule sorted_map_filter)
  then show ?thesis
    by (simp add: ordered_rows_def before_def [abs_def] sorted_wrt_rev flip: rev_map)
qed

lemma set_ordered_rows [simp]: "set (ordered_rows es q) = {e \<in> set es. scan_row_ok q e}"
  by (simp add: ordered_rows_def)

lemma filter_ordered_rows:
  assumes "q_desc q' = q_desc q" "\<And>e. e \<in> set es \<Longrightarrow> scan_row_ok q' e \<longleftrightarrow> scan_row_ok q e \<and> P e"
  shows "ordered_rows es q' = filter P (ordered_rows es q)"
proof -
  have "filter (scan_row_ok q') es = filter P (filter (scan_row_ok q) es)"
    using assms(2) by (auto intro: filter_cong)
  then show ?thesis by (simp add: ordered_rows_def assms(1) rev_filter)
qed

text \<open>On an ordered list the rows past the last row of a page are the rest of the list.\<close>

lemma filter_past_page:
  assumes "sorted_wrt (before q) (map e_seq xs)" "0 < n" "n \<le> length xs"
  shows "filter (\<lambda>e. before q (e_seq (last (take n xs))) (e_seq e)) xs = drop n xs"
proof -
  have last: "last (take n xs) = xs ! (n - 1)"
    using assms(2,3) by (subst last_conv_nth) (auto simp: min_def)
  have lt: "before q (e_seq (xs ! i)) (e_seq (xs ! j))" if "i < j" "j < length xs" for i j
    using assms(1) that by (auto simp: sorted_wrt_iff_nth_less)
  have irr: "\<not> before q a a" and asym: "before q a b \<Longrightarrow> \<not> before q b a" for a b
    by (auto simp: before_def)
  have "filter (\<lambda>e. before q (e_seq (xs ! (n - 1))) (e_seq e)) (take n xs) = []"
  proof -
    have "\<not> before q (e_seq (xs ! (n - 1))) (e_seq (xs ! i))" if "i < n" for i
      using that assms(2,3) lt [of i "n - 1"] irr asym by (cases "i = n - 1") auto
    then show ?thesis by (auto simp: filter_empty_conv in_set_conv_nth)
  qed
  moreover have "filter (\<lambda>e. before q (e_seq (xs ! (n - 1))) (e_seq e)) (drop n xs) = drop n xs"
    using assms(2,3) lt [of "n - 1"] by (auto simp: filter_id_conv in_set_conv_nth)
  ultimately show ?thesis
    unfolding last by (metis append_Nil append_take_drop_id filter_append)
qed

definition within_cursor :: "scan_query \<Rightarrow> int option \<Rightarrow> int \<Rightarrow> bool" where
  "within_cursor q c s \<longleftrightarrow> (case c of None \<Rightarrow> True | Some c \<Rightarrow> if q_desc q then s \<le> c else c \<le> s)"

text \<open>The cursor never moves back over the query's own bound.\<close>

definition cursor_in :: "scan_query \<Rightarrow> int option \<Rightarrow> bool" where
  "cursor_in q c \<longleftrightarrow>
     (if q_desc q
      then (case q_toSeq q of None \<Rightarrow> True | Some t \<Rightarrow> (\<exists>d. c = Some d \<and> d \<le> t))
      else (case q_fromSeq q of None \<Rightarrow> True | Some f \<Rightarrow> (\<exists>d. c = Some d \<and> f \<le> d)))"

lemma with_cursor_row:
  assumes "cursor_in q c"
  shows "scan_row_ok (with_cursor q n c) e \<longleftrightarrow> scan_row_ok q e \<and> within_cursor q c (e_seq e)"
  using assms
  by (auto simp: scan_row_ok_def with_cursor_def Let_def within_cursor_def cursor_in_def
      split: option.splits if_splits)

lemma cursor_in_next:
  assumes "cursor_in q c" "within_cursor q c l"
  shows "cursor_in q (Some (if q_desc q then l - 1 else l + 1))"
  using assms by (auto simp: cursor_in_def within_cursor_def split: option.splits if_splits)

lemma not_stuck: "within_cursor q c a \<Longrightarrow> within_cursor q c b \<Longrightarrow> \<not> page_stuck q c a b"
  by (auto simp: page_stuck_def within_cursor_def split: option.splits if_splits)

lemma pages_collect:
  assumes sorted: "sorted_wrt (<) (map e_seq es)" and pos: "\<forall>e \<in> set es. 1 \<le> e_seq e"
    and n: "0 < n" "n \<le> SCAN_PAGE_MAX" and read: "\<And>q'. q_limit q' = Some (num_of_int n) \<Longrightarrow> read q' = scan_page q' es"
  shows "cursor_in q c \<Longrightarrow> length (ordered_rows es (with_cursor q n c)) < k \<Longrightarrow>
    \<exists>ps. pages k read q n c = Some (ps, Inr ()) \<and> concat ps = ordered_rows es (with_cursor q n c)
       \<and> list_all (\<lambda>p. p \<noteq> [] \<and> int (length p) \<le> n) ps"
proof (induction k arbitrary: c)
  case 0
  then show ?case by simp
next
  case (Suc k)
  let ?q = "with_cursor q n c"
  let ?xs = "ordered_rows es ?q"
  let ?page = "take (nat n) ?xs"
  have rd: "read ?q = Inr ?page" by (simp add: read scan_page_limit n)
  have srt: "sorted_wrt (before q) (map e_seq ?xs)"
    using ordered_rows_sorted [OF sorted, of ?q] by (simp add: before_def [abs_def])
  have within: "within_cursor q c (e_seq e) \<and> scan_row_ok q e" if "e \<in> set ?xs" for e
    using that with_cursor_row [OF Suc.prems(1)] by auto
  show ?case
  proof (cases "?xs = []")
    case True
    then show ?thesis by (auto simp: rd)
  next
    case False
    then have ne: "?page \<noteq> []" using n by simp
    have hd_in: "hd ?page \<in> set ?xs" and last_in: "last ?page \<in> set ?xs"
      using ne by (meson hd_in_set last_in_set in_set_takeD)+
    let ?l = "e_seq (last ?page)"
    have moved: "\<not> page_stuck q c (e_seq (hd ?page)) ?l"
      using within [OF hd_in] within [OF last_in] by (intro not_stuck) auto
    show ?thesis
    proof (cases "int (length ?page) < n")
      case True
      then have "?page = ?xs" by simp
      with ne True rd moved show ?thesis by (intro exI [of _ "[?page]"]) (simp add: Let_def)
    next
      case full: False
      then have len: "nat n \<le> length ?xs" using n by simp
      let ?c = "if q_desc q then ?l - 1 else ?l + 1"
      have cin: "cursor_in q (Some ?c)"
        using cursor_in_next [OF Suc.prems(1)] within [OF last_in] by blast
      have rest: "ordered_rows es (with_cursor q n (Some ?c)) = drop (nat n) ?xs"
      proof -
        have "ordered_rows es (with_cursor q n (Some ?c)) = filter (\<lambda>e. before q ?l (e_seq e)) ?xs"
          using within [OF last_in]
          by (intro filter_ordered_rows)
             (auto simp: with_cursor_row [OF cin] with_cursor_row [OF Suc.prems(1)] within_cursor_def
               before_def split: option.splits if_splits)
        also have "\<dots> = drop (nat n) ?xs"
          using srt n(1) len by (intro filter_past_page) auto
        finally show ?thesis .
      qed
      show ?thesis
      proof (cases "page_done q ?c")
        case True
        have "drop (nat n) ?xs = []"
        proof -
          have "\<not> scan_row_ok q e" if "e \<in> set es" "within_cursor q (Some ?c) (e_seq e)" for e
            using True that pos
            by (auto simp: page_done_def page_floor_def within_cursor_def scan_row_ok_def split: if_splits option.splits)
          then have "set (ordered_rows es (with_cursor q n (Some ?c))) = {}"
            using with_cursor_row [OF cin] by auto
          then show ?thesis by (simp add: rest)
        qed
        then have all: "?page = ?xs" by (metis append_Nil2 append_take_drop_id)
        have "pages (Suc k) read q n c = Some ([?page], Inr ())"
          using ne full rd moved True by (simp add: Let_def)
        moreover have "concat [?page] = ?xs" using all by simp
        moreover have "list_all (\<lambda>p. p \<noteq> [] \<and> int (length p) \<le> n) [?page]" using ne n by simp
        ultimately show ?thesis by blast
      next
        case False
        have "length (ordered_rows es (with_cursor q n (Some ?c))) < k"
          using Suc.prems(2) n(1) len by (simp add: rest)
        from Suc.IH [OF cin this] obtain ps where
          ps: "pages k read q n (Some ?c) = Some (ps, Inr ())" "concat ps = drop (nat n) ?xs"
            "list_all (\<lambda>p. p \<noteq> [] \<and> int (length p) \<le> n) ps"
          by (auto simp: rest)
        have "pages (Suc k) read q n c = Some (?page # ps, Inr ())"
          using ne full rd moved False ps(1) by (simp add: Let_def)
        moreover have "concat (?page # ps) = ?xs" by (simp add: ps(2))
        moreover have "list_all (\<lambda>p. p \<noteq> [] \<and> int (length p) \<le> n) (?page # ps)"
          using ps(3) ne n by simp
        ultimately show ?thesis by blast
      qed
    qed
  qed
qed

lemma bound_within:
  "scan_row_ok q e \<Longrightarrow> within_cursor q (if q_desc q then q_toSeq q else q_fromSeq q) (e_seq e)"
  by (cases "q_desc q") (simp_all add: within_cursor_def scan_row_ok_def split: option.splits)

text \<open>The read the session log hands to the pager: the storage scan of one session.\<close>

definition store_read :: "ledger_store \<Rightarrow> string \<Rightarrow> scan_query \<Rightarrow> event list res" where
  "store_read st key q = snd (scan st key q)"

lemma store_read_page:
  assumes "store_ok st" "q_limit q = Some (num_of_int n)" "0 < n" "n \<le> SCAN_PAGE_MAX"
  shows "store_read st key q = scan_page q (reader_rows st key)"
  using assms by (simp add: store_read_def scan_reader SCAN_PAGE_MAX_def max_safe_integer_def)

text \<open>
  C19. Paging is complete and ends: over a well-formed session, with any page size from 1 to the page
  maximum and one round more than there are rows, the pages the generator yields are non-empty, no
  longer than the page size, end without an error, and together are exactly the matching rows in the
  query's order, each once.
\<close>

theorem scanPages_reads_all:
  assumes ok: "store_ok st" and pos: "\<forall>e \<in> set (reader_rows st key). 1 \<le> e_seq e"
    and n: "0 < n" "n \<le> SCAN_PAGE_MAX" and k: "length (reader_rows st key) < k"
  shows "\<exists>ps. scanPages k (store_read st key) q (num_of_int n) = Some (ps, Inr ())
    \<and> concat ps = ordered_rows (reader_rows st key) q
    \<and> list_all (\<lambda>p. p \<noteq> [] \<and> int (length p) \<le> n) ps"
proof -
  let ?es = "reader_rows st key"
  let ?c = "if q_desc q then q_toSeq q else q_fromSeq q"
  have c: "cursor_in q ?c" by (auto simp: cursor_in_def split: option.split)
  have same: "ordered_rows ?es (with_cursor q n ?c) = ordered_rows ?es q"
  proof -
    have "scan_row_ok (with_cursor q n ?c) e \<longleftrightarrow> scan_row_ok q e \<and> True" for e
      unfolding with_cursor_row [OF c] using bound_within [of q e] by blast
    then have "ordered_rows ?es (with_cursor q n ?c) = filter (\<lambda>_. True) (ordered_rows ?es q)"
      by (intro filter_ordered_rows) simp_all
    then show ?thesis by simp
  qed
  have len: "length (ordered_rows ?es q) \<le> length ?es" by (simp add: ordered_rows_def)
  have "\<exists>ps. pages k (store_read st key) q n ?c = Some (ps, Inr ())
      \<and> concat ps = ordered_rows ?es (with_cursor q n ?c)
      \<and> list_all (\<lambda>p. p \<noteq> [] \<and> int (length p) \<le> n) ps"
  proof (rule pages_collect)
    show "sorted_wrt (<) (map e_seq ?es)" by (rule reader_rows_increasing [OF ok])
    show "\<forall>e \<in> set ?es. 1 \<le> e_seq e" by (rule pos)
    show "length (ordered_rows ?es (with_cursor q n ?c)) < k" using len k by (simp add: same)
  qed (use n c ok in \<open>simp_all add: store_read_page\<close>)
  then show ?thesis
    using n by (simp add: scanPages_def same SCAN_PAGE_MAX_def max_safe_integer_def)
qed

theorem scanPages_reads_all_witness:
  "\<exists>ps. scanPages 3 (store_read st_a ''k'') q_all (num_of_int 1) = Some (ps, Inr ())
    \<and> concat ps = [stamp 1 row_a, stamp 2 row_a]"
proof -
  have ok: "store_ok st_a" unfolding st_a_def by (intro commit_store_ok open_store_ok) simp_all
  have rows: "reader_rows st_a ''k'' = [stamp 1 row_a, stamp 2 row_a]" by code_simp
  have "ordered_rows (reader_rows st_a ''k'') q_all = [stamp 1 row_a, stamp 2 row_a]" by code_simp
  with scanPages_reads_all [OF ok, of "''k''" 1 3 q_all] rows show ?thesis
    by (auto simp: SCAN_PAGE_MAX_def)
qed

end
