(* ===== verification/TurnCaps.thy ===== *)
theory TurnCaps imports ScanPages begin

text \<open>
  What one queued prompt may say about the one turn it opens, \<^verbatim>\<open>step-cap.ts\<close>,
  \<^verbatim>\<open>time-limit.ts\<close>, \<^verbatim>\<open>turn-budget.ts\<close> and \<^verbatim>\<open>inbox.ts\<close> of
  \<^verbatim>\<open>packages/core/src/step\<close>: the checks made when the prompt is queued, the rows that carry
  the credit ceiling, the step cap and the time limit, and the reads that recover them from the
  ledger. The payload of such a row is read through \<open>data_of\<close>, since a credit amount may be
  fractional and \<^typ>\<open>json\<close> holds integers only; a payload that is no object reads as one without
  members. The paged reads take fuel and the lemmas show that one round more than there are rows is
  enough. The \<^verbatim>\<open>WeakMap\<close> of the turns' time limits is a field of the turn memory.
\<close>

section \<open>Rows, events, messages\<close>

datatype field = F_num jsnum | F_str string | F_true | F_other

type_synonym row_data = "(string \<times> field) list"

record 'd event_input =
  ei_type :: string
  ei_register :: "string option"
  ei_lane :: "string option"
  ei_origin :: string
  ei_trust :: string
  ei_actor :: json
  ei_data :: 'd
  ei_ignorable :: bool

record budget_override =
  bo_itemId :: string
  bo_creditsCap :: jsnum
  bo_hard :: bool

record time_limit =
  tl_timeLimitMs :: jsnum
  tl_deadlineAt :: jsnum

text \<open>The members of \<^verbatim>\<open>EnqueueMsg\<close> that \<^verbatim>\<open>validateTurnOverrides\<close> reads.\<close>

record turn_overrides =
  tv_budget :: "jsnum option"
  tv_hardBudget :: "bool option"
  tv_maxSteps :: "jsnum option"
  tv_timeLimitMs :: "jsnum option"

definition INBOX_BUDGET_EVENT :: string where "INBOX_BUDGET_EVENT = ''x/core/inbox-budget''"
definition TURN_BUDGET_EVENT :: string where "TURN_BUDGET_EVENT = ''x/core/turn-budget''"
definition INBOX_STEP_CAP_EVENT :: string where "INBOX_STEP_CAP_EVENT = ''x/core/inbox-step-cap''"
definition TURN_STEP_CAP_EVENT :: string where "TURN_STEP_CAP_EVENT = ''x/core/turn-step-cap''"
definition INBOX_TIME_LIMIT_EVENT :: string where "INBOX_TIME_LIMIT_EVENT = ''x/core/inbox-time-limit''"
definition TURN_TIME_LIMIT_EVENT :: string where "TURN_TIME_LIMIT_EVENT = ''x/core/turn-time-limit''"
definition STEP_CAP_MAX :: int where "STEP_CAP_MAX = 1000"
definition TIME_LIMIT_MAX_MS :: int where "TIME_LIMIT_MAX_MS = 86400000"

lemmas event_names =
  INBOX_BUDGET_EVENT_def TURN_BUDGET_EVENT_def INBOX_STEP_CAP_EVENT_def TURN_STEP_CAP_EVENT_def
  INBOX_TIME_LIMIT_EVENT_def TURN_TIME_LIMIT_EVENT_def

section \<open>Checks\<close>

text \<open>\<^verbatim>\<open>Number.isInteger\<close>, \<^verbatim>\<open>Number.isFinite\<close>, \<^verbatim>\<open><=\<close> and \<^verbatim>\<open>+\<close> of two numbers.\<close>

definition js_is_integer :: "jsnum \<Rightarrow> bool" where
  "js_is_integer x = (case x of Fin q \<Rightarrow> is_integral q | _ \<Rightarrow> False)"

definition js_is_finite :: "jsnum \<Rightarrow> bool" where
  "js_is_finite x = (case x of Fin _ \<Rightarrow> True | _ \<Rightarrow> False)"

definition js_le :: "jsnum \<Rightarrow> jsnum \<Rightarrow> bool" where
  "js_le x y \<longleftrightarrow> x \<noteq> NaN \<and> y \<noteq> NaN \<and> \<not> js_lt y x"

fun js_add :: "jsnum \<Rightarrow> jsnum \<Rightarrow> jsnum" where
  "js_add (Fin a) (Fin b) = Fin (a + b)"
| "js_add NaN _ = NaN"
| "js_add _ NaN = NaN"
| "js_add (Infinity a) (Infinity b) = (if a = b then Infinity a else NaN)"
| "js_add (Infinity a) (Fin _) = Infinity a"
| "js_add (Fin _) (Infinity b) = Infinity b"

definition js_min :: "jsnum \<Rightarrow> jsnum \<Rightarrow> jsnum" where
  "js_min x y = (if x = NaN \<or> y = NaN then NaN else if js_lt y x then y else x)"

definition int_between :: "int \<Rightarrow> int \<Rightarrow> field option \<Rightarrow> bool" where
  "int_between lo hi v = (case v of
     Some (F_num n) \<Rightarrow> js_is_integer n \<and> js_le (num_of_int lo) n \<and> js_le n (num_of_int hi)
   | _ \<Rightarrow> False)"

definition validStepCap :: "field option \<Rightarrow> bool" where
  "validStepCap v = int_between 1 STEP_CAP_MAX v"

definition validTimeLimit :: "field option \<Rightarrow> bool" where
  "validTimeLimit v = int_between 1 TIME_LIMIT_MAX_MS v"

definition effectiveMaxSteps :: "jsnum option \<Rightarrow> jsnum option \<Rightarrow> jsnum option" where
  "effectiveMaxSteps preset cap =
     (case cap of None \<Rightarrow> preset | Some c \<Rightarrow>
        (case preset of None \<Rightarrow> Some c | Some p \<Rightarrow> Some (js_min p c)))"

definition validateTurnOverrides :: "turn_overrides \<Rightarrow> string \<Rightarrow> unit res" where
  "validateTurnOverrides msg target =
     (if tv_hardBudget msg \<noteq> None \<and> (tv_hardBudget msg \<noteq> Some True \<or> tv_budget msg = None)
      then throw E_ENVELOPE ''hard budget requires a credit ceiling''
      else rbind
        (case tv_budget msg of None \<Rightarrow> Inr () | Some b \<Rightarrow>
           if target \<noteq> ''next-turn''
           then throw E_ENVELOPE ''a per-turn budget override requires next-turn input''
           else if \<not> js_is_finite b \<or> js_lt b (num_of_int 0)
           then throw E_ENVELOPE ''a per-turn budget override must be a finite non-negative number''
           else Inr ())
      (\<lambda>_. rbind
        (case tv_maxSteps msg of None \<Rightarrow> Inr () | Some n \<Rightarrow>
           if target \<noteq> ''next-turn''
           then throw E_ENVELOPE ''a per-turn step cap requires next-turn input''
           else if \<not> validStepCap (Some (F_num n))
           then throw E_ENVELOPE ''a per-turn step cap must be an integer from 1 to 1000''
           else Inr ())
      (\<lambda>_. case tv_timeLimitMs msg of None \<Rightarrow> Inr () | Some t \<Rightarrow>
           if target \<noteq> ''next-turn''
           then throw E_ENVELOPE ''a per-turn time limit requires next-turn input''
           else if \<not> validTimeLimit (Some (F_num t))
           then throw E_ENVELOPE ''a per-turn time limit must be an integer number of ms up to one day''
           else Inr ())))"

section \<open>The rows a prompt and its turn write\<close>

definition stepCapEvent :: "string \<Rightarrow> json \<Rightarrow> row_data \<Rightarrow> row_data event_input" where
  "stepCapEvent ty actor data = \<lparr>ei_type = ty, ei_register = None, ei_lane = None,
     ei_origin = ''system'', ei_trust = ''trusted'', ei_actor = actor, ei_data = data, ei_ignorable = True\<rparr>"

definition timeLimitEvent :: "string \<Rightarrow> json \<Rightarrow> row_data \<Rightarrow> row_data event_input" where
  "timeLimitEvent ty actor data = \<lparr>ei_type = ty, ei_register = None, ei_lane = None,
     ei_origin = ''system'', ei_trust = ''trusted'', ei_actor = actor, ei_data = data, ei_ignorable = True\<rparr>"

definition budgetOverrideEvent :: "string \<Rightarrow> json \<Rightarrow> row_data \<Rightarrow> row_data event_input" where
  "budgetOverrideEvent ty actor data = \<lparr>ei_type = ty, ei_register = None, ei_lane = None,
     ei_origin = ''system'', ei_trust = ''trusted'', ei_actor = actor, ei_data = data, ei_ignorable = True\<rparr>"

definition hard_field :: "bool \<Rightarrow> row_data" where
  "hard_field b = (if b then [(''hard'', F_true)] else [])"

definition inboxOverrideEvents ::
  "json \<Rightarrow> string \<Rightarrow> turn_overrides \<Rightarrow> int \<Rightarrow> row_data event_input list" where
  "inboxOverrideEvents actor itemId msg now =
     (case tv_budget msg of None \<Rightarrow> [] | Some b \<Rightarrow>
        [budgetOverrideEvent INBOX_BUDGET_EVENT actor
           ([(''itemId'', F_str itemId), (''creditsCap'', F_num b)]
            @ hard_field (tv_hardBudget msg = Some True))])
   @ (case tv_maxSteps msg of None \<Rightarrow> [] | Some n \<Rightarrow>
        [stepCapEvent INBOX_STEP_CAP_EVENT actor [(''itemId'', F_str itemId), (''maxSteps'', F_num n)]])
   @ (case tv_timeLimitMs msg of None \<Rightarrow> [] | Some t \<Rightarrow>
        [timeLimitEvent INBOX_TIME_LIMIT_EVENT actor
           [(''itemId'', F_str itemId), (''timeLimitMs'', F_num t),
            (''deadlineAt'', F_num (js_add (num_of_int now) t))]])"

definition turnOverrideEvents ::
  "json \<Rightarrow> int \<Rightarrow> budget_override option \<Rightarrow> jsnum option \<Rightarrow> time_limit option \<Rightarrow> row_data event_input list" where
  "turnOverrideEvents actor turn budget stepCap timeLimit =
     (case budget of None \<Rightarrow> [] | Some b \<Rightarrow>
        [budgetOverrideEvent TURN_BUDGET_EVENT actor
           ([(''turn'', F_num (num_of_int turn)), (''itemId'', F_str (bo_itemId b)),
             (''creditsCap'', F_num (bo_creditsCap b))] @ hard_field (bo_hard b))])
   @ (case stepCap of None \<Rightarrow> [] | Some n \<Rightarrow>
        [stepCapEvent TURN_STEP_CAP_EVENT actor
           [(''turn'', F_num (num_of_int turn)), (''maxSteps'', F_num n)]])
   @ (case timeLimit of None \<Rightarrow> [] | Some t \<Rightarrow>
        [timeLimitEvent TURN_TIME_LIMIT_EVENT actor
           [(''turn'', F_num (num_of_int turn)), (''timeLimitMs'', F_num (tl_timeLimitMs t)),
            (''deadlineAt'', F_num (tl_deadlineAt t))]])"

section \<open>Reading them back\<close>

type_synonym row_read = "scan_query \<Rightarrow> event list res"

definition caps_query :: "string \<Rightarrow> int option \<Rightarrow> int option \<Rightarrow> scan_query" where
  "caps_query ty from to = \<lparr>q_fromSeq = from, q_toSeq = to, q_type = Some [ty], q_lane = None,
     q_desc = True, q_limit = Some (num_of_int SCAN_PAGE_MAX)\<rparr>"

text \<open>The loop of \<^verbatim>\<open>readCap\<close> and of \<^verbatim>\<open>readLimit\<close>: the newest matching row decides.\<close>

fun read_desc ::
  "nat \<Rightarrow> row_read \<Rightarrow> (event \<Rightarrow> row_data) \<Rightarrow> string \<Rightarrow> int option \<Rightarrow> (row_data \<Rightarrow> bool)
   \<Rightarrow> (row_data \<Rightarrow> 'a res) \<Rightarrow> int option \<Rightarrow> 'a option res option" where
  "read_desc 0 read data_of ty rng matches decode toSeq = None"
| "read_desc (Suc k) read data_of ty rng matches decode toSeq =
     (case read (caps_query ty rng toSeq) of
        Inl e \<Rightarrow> Some (Inl e)
      | Inr rows \<Rightarrow>
          (case find (\<lambda>e. matches (data_of e)) rows of
             Some e \<Rightarrow> Some (rbind (decode (data_of e)) (\<lambda>v. Inr (Some v)))
           | None \<Rightarrow>
               if int (length rows) < SCAN_PAGE_MAX \<or> rows = [] \<or> e_seq (last rows) \<le> 1
               then Some (Inr None)
               else read_desc k read data_of ty rng matches decode (Some (e_seq (last rows) - 1))))"

definition cap_of_row :: "row_data \<Rightarrow> jsnum res" where
  "cap_of_row d =
     (case map_of d ''maxSteps'' of
        Some (F_num n) \<Rightarrow> (if validStepCap (Some (F_num n)) then Inr n
                          else throw E_ENVELOPE ''stored per-turn step cap is invalid'')
      | _ \<Rightarrow> throw E_ENVELOPE ''stored per-turn step cap is invalid'')"

definition readCap ::
  "nat \<Rightarrow> row_read \<Rightarrow> (event \<Rightarrow> row_data) \<Rightarrow> string \<Rightarrow> int option \<Rightarrow> (row_data \<Rightarrow> bool)
   \<Rightarrow> jsnum option res option" where
  "readCap k read data_of ty rng matches = read_desc k read data_of ty rng matches cap_of_row None"

definition limit_of_row :: "row_data \<Rightarrow> time_limit res" where
  "limit_of_row d =
     (case (map_of d ''timeLimitMs'', map_of d ''deadlineAt'') of
        (Some (F_num t), Some (F_num e)) \<Rightarrow>
          if validTimeLimit (Some (F_num t)) \<and> is_safe_integer e
          then Inr \<lparr>tl_timeLimitMs = t, tl_deadlineAt = e\<rparr>
          else throw E_ENVELOPE ''stored per-turn time limit is invalid''
      | _ \<Rightarrow> throw E_ENVELOPE ''stored per-turn time limit is invalid'')"

definition readLimit ::
  "nat \<Rightarrow> row_read \<Rightarrow> (event \<Rightarrow> row_data) \<Rightarrow> string \<Rightarrow> int option \<Rightarrow> (row_data \<Rightarrow> bool)
   \<Rightarrow> time_limit option res option" where
  "readLimit k read data_of ty rng matches = read_desc k read data_of ty rng matches limit_of_row None"

definition of_item :: "string \<Rightarrow> row_data \<Rightarrow> bool" where
  "of_item itemId d \<longleftrightarrow> map_of d ''itemId'' = Some (F_str itemId)"

definition of_turn :: "int \<Rightarrow> row_data \<Rightarrow> bool" where
  "of_turn turn d \<longleftrightarrow> map_of d ''turn'' = Some (F_num (num_of_int turn))"

definition inboxStepCap :: "nat \<Rightarrow> row_read \<Rightarrow> (event \<Rightarrow> row_data) \<Rightarrow> string \<Rightarrow> jsnum option res option" where
  "inboxStepCap k read data_of itemId =
     readCap k read data_of INBOX_STEP_CAP_EVENT None (of_item itemId)"

text \<open>\<^verbatim>\<open>op.meta\<close>: the sequence of the row that opened the turn, and the turn.\<close>

record op_meta =
  om_triggerSeq :: int
  om_turn :: int

definition rehydratedStepCap :: "nat \<Rightarrow> row_read \<Rightarrow> (event \<Rightarrow> row_data) \<Rightarrow> op_meta \<Rightarrow> jsnum option res option" where
  "rehydratedStepCap k read data_of op =
     readCap k read data_of TURN_STEP_CAP_EVENT (Some (om_triggerSeq op)) (of_turn (om_turn op))"

definition inboxTimeLimit :: "nat \<Rightarrow> row_read \<Rightarrow> (event \<Rightarrow> row_data) \<Rightarrow> string \<Rightarrow> time_limit option res option" where
  "inboxTimeLimit k read data_of itemId =
     readLimit k read data_of INBOX_TIME_LIMIT_EVENT None (of_item itemId)"

definition inboxTurnCaps ::
  "nat \<Rightarrow> row_read \<Rightarrow> (event \<Rightarrow> row_data) \<Rightarrow> string \<Rightarrow> (jsnum option \<times> time_limit option) res option" where
  "inboxTurnCaps k read data_of itemId =
     (case inboxStepCap k read data_of itemId of
        None \<Rightarrow> None
      | Some (Inl e) \<Rightarrow> Some (Inl e)
      | Some (Inr c) \<Rightarrow>
          map_option (\<lambda>r. rbind r (\<lambda>t. Inr (c, t))) (inboxTimeLimit k read data_of itemId))"

text \<open>
  The credit ceilings are read to the end of their rows, so that a second one for the same item or
  turn is refused.
\<close>

fun fold_rows :: "('e \<Rightarrow> 'a \<Rightarrow> 'a res) \<Rightarrow> 'a \<Rightarrow> 'e list \<Rightarrow> 'a res" where
  "fold_rows f acc [] = Inr acc"
| "fold_rows f acc (e # es) = rbind (f e acc) (\<lambda>acc'. fold_rows f acc' es)"

definition valid_credits :: "field option \<Rightarrow> bool" where
  "valid_credits v = (case v of Some (F_num c) \<Rightarrow> js_is_finite c \<and> \<not> js_lt c (num_of_int 0) | _ \<Rightarrow> False)"

definition field_num :: "field option \<Rightarrow> jsnum" where
  "field_num v = (case v of Some (F_num c) \<Rightarrow> c | _ \<Rightarrow> NaN)"

definition inbox_budget_row ::
  "string \<Rightarrow> row_data \<Rightarrow> budget_override option \<Rightarrow> budget_override option res" where
  "inbox_budget_row itemId d found =
     (if \<not> of_item itemId d then Inr found
      else if \<not> valid_credits (map_of d ''creditsCap'')
      then throw E_ENVELOPE ''stored per-turn budget override is invalid''
      else if found \<noteq> None then throw E_RELATION ''duplicate budget override for inbox item''
      else if map_of d ''hard'' \<noteq> None \<and> map_of d ''hard'' \<noteq> Some F_true
      then throw E_ENVELOPE ''stored hard budget marker is invalid''
      else Inr (Some \<lparr>bo_itemId = itemId, bo_creditsCap = field_num (map_of d ''creditsCap''),
                      bo_hard = (map_of d ''hard'' = Some F_true)\<rparr>))"

definition turn_budget_row ::
  "int \<Rightarrow> row_data \<Rightarrow> budget_override option \<Rightarrow> budget_override option res" where
  "turn_budget_row turn d found =
     (if \<not> of_turn turn d then Inr found
      else case map_of d ''itemId'' of
        Some (F_str itemId) \<Rightarrow>
          if \<not> valid_credits (map_of d ''creditsCap'')
          then throw E_ENVELOPE ''stored turn budget override is invalid''
          else if found \<noteq> None then throw E_RELATION ''duplicate budget override for turn''
          else if map_of d ''hard'' \<noteq> None \<and> map_of d ''hard'' \<noteq> Some F_true
          then throw E_ENVELOPE ''stored hard budget marker is invalid''
          else Inr (Some \<lparr>bo_itemId = itemId, bo_creditsCap = field_num (map_of d ''creditsCap''),
                          bo_hard = (map_of d ''hard'' = Some F_true)\<rparr>)
      | _ \<Rightarrow> throw E_ENVELOPE ''stored turn budget override is invalid'')"

fun inbox_budget_from ::
  "nat \<Rightarrow> row_read \<Rightarrow> (event \<Rightarrow> row_data) \<Rightarrow> string \<Rightarrow> budget_override option \<Rightarrow> int option
   \<Rightarrow> budget_override option res option" where
  "inbox_budget_from 0 read data_of itemId found toSeq = None"
| "inbox_budget_from (Suc k) read data_of itemId found toSeq =
     (case read (caps_query INBOX_BUDGET_EVENT None toSeq) of
        Inl e \<Rightarrow> Some (Inl e)
      | Inr rows \<Rightarrow>
          (case fold_rows (\<lambda>e. inbox_budget_row itemId (data_of e)) found rows of
             Inl e \<Rightarrow> Some (Inl e)
           | Inr found' \<Rightarrow>
               if int (length rows) < SCAN_PAGE_MAX then Some (Inr found')
               else if rows = [] \<or> e_seq (last rows) \<le> 1 then Some (Inr found')
               else inbox_budget_from k read data_of itemId found' (Some (e_seq (last rows) - 1))))"

definition inboxBudget ::
  "nat \<Rightarrow> row_read \<Rightarrow> (event \<Rightarrow> row_data) \<Rightarrow> string \<Rightarrow> budget_override option res option" where
  "inboxBudget k read data_of itemId = inbox_budget_from k read data_of itemId None None"

definition turn_budget_query :: "int \<Rightarrow> int \<Rightarrow> scan_query" where
  "turn_budget_query from to = \<lparr>q_fromSeq = Some from, q_toSeq = Some to,
     q_type = Some [TURN_BUDGET_EVENT], q_lane = None, q_desc = False,
     q_limit = Some (num_of_int SCAN_PAGE_MAX)\<rparr>"

fun turn_budget_from ::
  "nat \<Rightarrow> row_read \<Rightarrow> (event \<Rightarrow> row_data) \<Rightarrow> int \<Rightarrow> int \<Rightarrow> budget_override option \<Rightarrow> int
   \<Rightarrow> budget_override option res option" where
  "turn_budget_from 0 read data_of hi turn found fromSeq = None"
| "turn_budget_from (Suc k) read data_of hi turn found fromSeq =
     (case read (turn_budget_query fromSeq hi) of
        Inl e \<Rightarrow> Some (Inl e)
      | Inr rows \<Rightarrow>
          (case fold_rows (\<lambda>e. turn_budget_row turn (data_of e)) found rows of
             Inl e \<Rightarrow> Some (Inl e)
           | Inr found' \<Rightarrow>
               if int (length rows) < SCAN_PAGE_MAX then Some (Inr found')
               else if rows = [] \<or> e_seq (last rows) \<ge> hi then Some (Inr found')
               else turn_budget_from k read data_of hi turn found' (e_seq (last rows) + 1)))"

definition rehydratedBudget ::
  "nat \<Rightarrow> row_read \<Rightarrow> (event \<Rightarrow> row_data) \<Rightarrow> int \<Rightarrow> op_meta \<Rightarrow> budget_override option res option" where
  "rehydratedBudget k read data_of hi op =
     turn_budget_from k read data_of hi (om_turn op) None (om_triggerSeq op)"

section \<open>The turn's memory\<close>

record turn_memory =
  tm_maxStepsCap :: "jsnum option"
  tm_timeLimit :: "time_limit option"

definition setTurnTimeLimit :: "turn_memory \<Rightarrow> time_limit option \<Rightarrow> turn_memory" where
  "setTurnTimeLimit turn limit =
     (case limit of None \<Rightarrow> turn | Some l \<Rightarrow> turn\<lparr>tm_timeLimit := Some l\<rparr>)"

definition turnTimeLimit :: "turn_memory option \<Rightarrow> time_limit option" where
  "turnTimeLimit turn = (case turn of None \<Rightarrow> None | Some t \<Rightarrow> tm_timeLimit t)"

definition applyTurnCaps :: "turn_memory \<Rightarrow> jsnum option \<Rightarrow> time_limit option \<Rightarrow> turn_memory" where
  "applyTurnCaps turn stepCap timeLimit =
     setTurnTimeLimit (case stepCap of None \<Rightarrow> turn | Some c \<Rightarrow> turn\<lparr>tm_maxStepsCap := Some c\<rparr>) timeLimit"

definition rehydrateTimeLimit ::
  "nat \<Rightarrow> row_read \<Rightarrow> (event \<Rightarrow> row_data) \<Rightarrow> op_meta \<Rightarrow> turn_memory \<Rightarrow> (turn_memory \<times> unit res) option" where
  "rehydrateTimeLimit k read data_of op turn =
     map_option (\<lambda>r. case r of Inl e \<Rightarrow> (turn, Inl e) | Inr l \<Rightarrow> (setTurnTimeLimit turn l, Inr ()))
       (readLimit k read data_of TURN_TIME_LIMIT_EVENT (Some (om_triggerSeq op)) (of_turn (om_turn op)))"

definition rehydrateTurnCaps ::
  "nat \<Rightarrow> row_read \<Rightarrow> (event \<Rightarrow> row_data) \<Rightarrow> op_meta \<Rightarrow> turn_memory \<Rightarrow> (turn_memory \<times> unit res) option" where
  "rehydrateTurnCaps k read data_of op turn =
     (case rehydratedStepCap k read data_of op of
        None \<Rightarrow> None
      | Some (Inl e) \<Rightarrow> Some (turn, Inl e)
      | Some (Inr c) \<Rightarrow> rehydrateTimeLimit k read data_of op (applyTurnCaps turn c None))"

text \<open>\<open>has_op\<close> is \<^verbatim>\<open>s.op()\<close>: a turn is open.\<close>

definition turnMaxSteps :: "bool \<Rightarrow> jsnum option \<Rightarrow> turn_memory option \<Rightarrow> jsnum option res" where
  "turnMaxSteps has_op preset turn =
     (if \<not> has_op then Inr preset
      else case turn of
        None \<Rightarrow> throw E_RELATION ''open turn step cap has not been rehydrated''
      | Some t \<Rightarrow> Inr (effectiveMaxSteps preset (tm_maxStepsCap t)))"

section \<open>Queued items and the messages they become\<close>

text \<open>A content block: its type, the member \<^verbatim>\<open>reference\<close>, and everything else it holds.\<close>

record content_block =
  cb_type :: string
  cb_reference :: "json option"
  cb_rest :: json

record inbox_item =
  ii_itemId :: string
  ii_target :: string
  ii_content :: "content_block list"
  ii_actor :: json
  ii_system :: "json option"
  ii_kind :: "string option"
  ii_titleLocale :: "string option"
  ii_trust :: "string option"
  ii_origin :: "string option"

record message_data =
  md_content :: "content_block list"
  md_kind :: string
  md_system :: "json option"
  md_titleLocale :: "string option"

definition UNATTENDED_ACTOR_ATTR :: "string \<times> string" where
  "UNATTENDED_ACTOR_ATTR = (''interaction'', ''unattended'')"

definition unattendedInput :: "json option \<Rightarrow> bool" where
  "unattendedInput actor =
     (jget (jget actor ''attrs'') (fst UNATTENDED_ACTOR_ATTR) = Some (JStr (snd UNATTENDED_ACTOR_ATTR)))"

definition inputTainted :: "inbox_item \<Rightarrow> bool" where
  "inputTainted item \<longleftrightarrow> ii_origin item = Some ''system'' \<or> ii_trust item = Some ''untrusted''
     \<or> (\<exists>b \<in> set (ii_content item). cb_type b = ''text'' \<and> cb_reference b \<noteq> None)"

definition is_reference :: "content_block \<Rightarrow> bool" where
  "is_reference b \<longleftrightarrow> cb_type b = ''text'' \<and> js_truthy (cb_reference b)"

definition input_message ::
  "inbox_item \<Rightarrow> string \<Rightarrow> content_block list \<Rightarrow> string \<Rightarrow> string \<Rightarrow> message_data event_input" where
  "input_message item lane content origin trust =
     \<lparr>ei_type = ''user/message'', ei_register = None, ei_lane = Some lane, ei_origin = origin,
      ei_trust = trust, ei_actor = ii_actor item,
      ei_data = \<lparr>md_content = content,
        md_kind = (case ii_kind item of Some k \<Rightarrow> k | None \<Rightarrow> ''prompt''),
        md_system = (if origin = ''system'' \<and> js_truthy (ii_system item) then ii_system item else None),
        md_titleLocale = (if ii_titleLocale item = Some '''' then None else ii_titleLocale item)\<rparr>,
      ei_ignorable = False\<rparr>"

definition inputMessageEvents :: "inbox_item \<Rightarrow> string \<Rightarrow> message_data event_input list" where
  "inputMessageEvents item lane =
     (let untrusted = (ii_origin item = Some ''system'' \<or> ii_trust item = Some ''untrusted'');
          human = (if untrusted then [] else filter (\<lambda>b. \<not> is_reference b) (ii_content item));
          external = (if untrusted then ii_content item else filter is_reference (ii_content item))
      in (if human \<noteq> [] then [input_message item lane human ''principal'' ''trusted''] else [])
       @ (if external \<noteq> [] then [input_message item lane external ''system'' ''untrusted''] else []))"

definition inboxEvent :: "string \<Rightarrow> json \<Rightarrow> inbox_item list \<Rightarrow> inbox_item list event_input" where
  "inboxEvent lane actor items = \<lparr>ei_type = ''inbox'', ei_register = Some ''inbox'', ei_lane = Some lane,
     ei_origin = ''system'', ei_trust = ''trusted'', ei_actor = actor, ei_data = items, ei_ignorable = False\<rparr>"

text \<open>\<^verbatim>\<open>findIndex\<close>: the position of the first element that passes.\<close>

fun findIndex :: "('a \<Rightarrow> bool) \<Rightarrow> 'a list \<Rightarrow> nat option" where
  "findIndex P [] = None"
| "findIndex P (x # xs) = (if P x then Some 0 else map_option Suc (findIndex P xs))"

definition claimFrom :: "inbox_item list option \<Rightarrow> string \<Rightarrow> (inbox_item \<times> inbox_item list) option" where
  "claimFrom inbox target =
     (let items = (case inbox of None \<Rightarrow> [] | Some xs \<Rightarrow> xs) in
      case findIndex (\<lambda>i. ii_target i = target) items of
        None \<Rightarrow> None
      | Some idx \<Rightarrow> Some (items ! idx, take idx items @ drop (Suc idx) items))"

text \<open>\<^verbatim>\<open>TRIGGER\<close>, the lookup table from the kind of a message to the trigger of its turn.\<close>

definition TRIGGER :: "(string \<times> string) list" where
  "TRIGGER = [(''prompt'', ''prompt''), (''steer'', ''steer''), (''follow_up'', ''follow_up'')]"

end
