(* ===== verification/TurnCapsProps.thy ===== *)
theory TurnCapsProps imports TurnCaps begin

text \<open>
  What the rows of a turn's limits promise: the readers of \<open>TurnCaps\<close> are proved once against the
  contract of an ordered log, which the memory adapter's ledger meets, so that each of them is a
  search or a fold over the whole ledger; with that, what a prompt was admitted with is what a later
  process reads back.
\<close>

section \<open>One page and the rows behind it\<close>

lemma next_page:
  assumes sorted: "sorted_wrt (<) (map e_seq es)" and c: "cursor_in q c" and n: "0 < n"
    and xs: "xs = ordered_rows es (with_cursor q n c)" and len: "nat n \<le> length xs"
    and l: "l = e_seq (last (take (nat n) xs))"
  shows "ordered_rows es (with_cursor q n (Some (if q_desc q then l - 1 else l + 1))) = drop (nat n) xs"
    (is "ordered_rows es (with_cursor q n (Some ?c)) = _")
proof -
  have "last (take (nat n) xs) \<in> set xs"
    using n len by (metis last_in_set in_set_takeD take_eq_Nil2 length_greater_0_conv not_le zero_less_nat_eq list.size(3) le_zero_eq)
  then have w: "within_cursor q c l"
    using with_cursor_row [OF c] by (auto simp: xs l)
  have cin: "cursor_in q (Some ?c)" using c w by (rule cursor_in_next)
  have "ordered_rows es (with_cursor q n (Some ?c)) = filter (\<lambda>e. before q l (e_seq e)) xs"
    unfolding xs using w
    by (intro filter_ordered_rows)
       (auto simp: with_cursor_row [OF cin] with_cursor_row [OF c] within_cursor_def before_def
         split: option.splits if_splits)
  also have "\<dots> = drop (nat n) xs"
    unfolding l
  proof (rule filter_past_page)
    show "sorted_wrt (before q) (map e_seq xs)"
      using ordered_rows_sorted [OF sorted, of "with_cursor q n c"] by (simp add: xs before_def [abs_def])
  qed (use n len in simp_all)
  finally show ?thesis .
qed

lemma fold_rows_append: "fold_rows f acc (xs @ ys) = rbind (fold_rows f acc xs) (\<lambda>acc'. fold_rows f acc' ys)"
proof (induction xs arbitrary: acc)
  case (Cons x xs)
  then show ?case by (cases "f x acc") simp_all
qed simp

lemma caps_query_cursor: "caps_query ty rng to = with_cursor (caps_query ty rng None) SCAN_PAGE_MAX to"
  by (simp add: caps_query_def with_cursor_def Let_def split: option.split)

lemma turn_budget_query_cursor:
  "turn_budget_query from hi = with_cursor ((turn_budget_query 0 hi)\<lparr>q_fromSeq := None\<rparr>) SCAN_PAGE_MAX (Some from)"
  by (simp add: turn_budget_query_def with_cursor_def Let_def)

lemma caps_query_sel [simp]:
  "q_desc (caps_query ty rng to)" "q_toSeq (caps_query ty rng to) = to" "q_limit (caps_query ty rng to) = Some (num_of_int SCAN_PAGE_MAX)"
  "q_fromSeq (caps_query ty rng to) = rng"
  by (simp_all add: caps_query_def)

lemma turn_budget_query_sel [simp]:
  "\<not> q_desc (turn_budget_query from to)" "q_toSeq (turn_budget_query from to) = Some to"
  "q_limit (turn_budget_query from to) = Some (num_of_int SCAN_PAGE_MAX)"
  "q_fromSeq (turn_budget_query from to) = Some from"
  by (simp_all add: turn_budget_query_def)

section \<open>A log of rows\<close>

text \<open>
  What the readers rely on: a page read of the log is the page of its rows, which are in strictly
  increasing order from sequence 1 on.
\<close>

locale row_log =
  fixes ok :: "'s \<Rightarrow> bool"
    and read :: "'s \<Rightarrow> scan_query \<Rightarrow> event list res"
    and rows :: "'s \<Rightarrow> event list"
  assumes read_page: "ok s \<Longrightarrow> q_limit q = Some (num_of_int SCAN_PAGE_MAX) \<Longrightarrow> read s q = scan_page q (rows s)"
    and increasing: "ok s \<Longrightarrow> sorted_wrt (<) (map e_seq (rows s))"
    and positive: "ok s \<Longrightarrow> e \<in> set (rows s) \<Longrightarrow> 1 \<le> e_seq e"
begin

definition desc_rows :: "'s \<Rightarrow> string \<Rightarrow> int option \<Rightarrow> int option \<Rightarrow> event list" where
  "desc_rows s ty rng to = ordered_rows (rows s) (caps_query ty rng to)"

definition asc_rows :: "'s \<Rightarrow> int \<Rightarrow> int \<Rightarrow> event list" where
  "asc_rows s from to = ordered_rows (rows s) (turn_budget_query from to)"

abbreviation page_len :: nat where "page_len \<equiv> nat SCAN_PAGE_MAX"

lemma page_len_pos: "0 < page_len" "0 < SCAN_PAGE_MAX"
  by (simp_all add: SCAN_PAGE_MAX_def)

lemma read_desc_rows: "ok s \<Longrightarrow> read s (caps_query ty rng to) = Inr (take page_len (desc_rows s ty rng to))"
  by (simp add: read_page scan_page_limit desc_rows_def)

lemma read_asc_rows: "ok s \<Longrightarrow> read s (turn_budget_query from to) = Inr (take page_len (asc_rows s from to))"
  by (simp add: read_page scan_page_limit asc_rows_def)

lemma desc_next:
  assumes "ok s" "page_len \<le> length (desc_rows s ty rng to)"
  shows "desc_rows s ty rng (Some (e_seq (last (take page_len (desc_rows s ty rng to))) - 1))
    = drop page_len (desc_rows s ty rng to)"
  using next_page [OF increasing [OF assms(1)] _ page_len_pos(2) refl, of "caps_query ty rng None" to]
    assms(2)
  by (simp add: desc_rows_def cursor_in_def flip: caps_query_cursor)

lemma asc_next:
  assumes "ok s" "page_len \<le> length (asc_rows s from to)"
  shows "asc_rows s (e_seq (last (take page_len (asc_rows s from to))) + 1) to
    = drop page_len (asc_rows s from to)"
  using next_page [OF increasing [OF assms(1)] _ page_len_pos(2) refl,
      of "(turn_budget_query 0 to)\<lparr>q_fromSeq := None\<rparr>" "Some from"] assms(2)
  by (simp add: asc_rows_def cursor_in_def flip: turn_budget_query_cursor)

lemma desc_end:
  assumes "ok s" "page_len \<le> length (desc_rows s ty rng to)"
    "e_seq (last (take page_len (desc_rows s ty rng to))) \<le> 1"
  shows "drop page_len (desc_rows s ty rng to) = []"
proof -
  have "set (drop page_len (desc_rows s ty rng to)) = {}"
    unfolding desc_next [OF assms(1,2), symmetric]
    using positive [OF assms(1)] assms(3)
    by (auto simp: desc_rows_def scan_row_ok_def simp del: set_filter length_take) force
  then show ?thesis by simp
qed

lemma asc_end:
  assumes "ok s" "page_len \<le> length (asc_rows s from to)"
    "to \<le> e_seq (last (take page_len (asc_rows s from to)))"
  shows "drop page_len (asc_rows s from to) = []"
proof -
  have "set (drop page_len (asc_rows s from to)) = {}"
    unfolding asc_next [OF assms(1,2), symmetric]
    using assms(3) by (auto simp: asc_rows_def scan_row_ok_def)
  then show ?thesis by simp
qed

lemma short_length: "length xs < page_len \<Longrightarrow> int (length xs) < SCAN_PAGE_MAX"
  by (auto simp: SCAN_PAGE_MAX_def)

lemma short_page: "int (length (take page_len xs)) < SCAN_PAGE_MAX \<longleftrightarrow> length xs < page_len"
  by (auto simp: SCAN_PAGE_MAX_def)

lemma full_page_ne: "page_len \<le> length xs \<Longrightarrow> take page_len xs \<noteq> []"
  using page_len_pos by auto

lemma rest_shorter: "length xs < Suc k \<Longrightarrow> page_len \<le> length xs \<Longrightarrow> length (drop page_len xs) < k"
  using page_len_pos by simp

text \<open>The newest matching row decides, over the whole log.\<close>

lemma read_desc_newest:
  assumes ok: "ok s"
  shows "length (desc_rows s ty rng to) < k \<Longrightarrow>
    read_desc k (read s) data_of ty rng matches decode to =
      Some (case find (\<lambda>e. matches (data_of e)) (desc_rows s ty rng to) of
              None \<Rightarrow> Inr None
            | Some e \<Rightarrow> rbind (decode (data_of e)) (\<lambda>v. Inr (Some v)))"
proof (induction k arbitrary: to)
  case 0
  then show ?case by simp
next
  case (Suc k)
  let ?xs = "desc_rows s ty rng to"
  let ?p = "take page_len ?xs"
  let ?P = "\<lambda>e. matches (data_of e)"
  have split: "find ?P ?xs = (case find ?P ?p of None \<Rightarrow> find ?P (drop page_len ?xs) | Some x \<Rightarrow> Some x)"
    by (metis find_append append_take_drop_id)
  show ?case
  proof (cases "find ?P ?p")
    case (Some e)
    then show ?thesis by (simp add: read_desc_rows ok split)
  next
    case None
    show ?thesis
    proof (cases "length ?xs < page_len")
      case True
      with None show ?thesis by (simp add: read_desc_rows ok short_length)
    next
      case False
      then have full: "page_len \<le> length ?xs" by simp
      show ?thesis
      proof (cases "e_seq (last ?p) \<le> 1")
        case True
        with None split desc_end [OF ok full] show ?thesis by (simp add: read_desc_rows ok)
      next
        case gt: False
        have "length (desc_rows s ty rng (Some (e_seq (last ?p) - 1))) < k"
          using rest_shorter [OF Suc.prems full] by (simp add: desc_next [OF ok full])
        from Suc.IH [OF this] None split full gt full_page_ne [OF full] show ?thesis
          by (simp add: read_desc_rows ok short_page desc_next [OF ok full] del: length_take take_eq_Nil take_eq_Nil2)
      qed
    qed
  qed
qed

lemma inbox_budget_fold:
  assumes ok: "ok s"
  shows "length (desc_rows s INBOX_BUDGET_EVENT None to) < k \<Longrightarrow>
    inbox_budget_from k (read s) data_of itemId found to =
      Some (fold_rows (\<lambda>e. inbox_budget_row itemId (data_of e)) found (desc_rows s INBOX_BUDGET_EVENT None to))"
proof (induction k arbitrary: found to)
  case 0
  then show ?case by simp
next
  case (Suc k)
  let ?xs = "desc_rows s INBOX_BUDGET_EVENT None to"
  let ?p = "take page_len ?xs"
  let ?f = "\<lambda>e. inbox_budget_row itemId (data_of e)"
  have split: "fold_rows ?f found ?xs = rbind (fold_rows ?f found ?p) (\<lambda>a. fold_rows ?f a (drop page_len ?xs))"
    by (metis fold_rows_append append_take_drop_id)
  show ?case
  proof (cases "fold_rows ?f found ?p")
    case (Inl e)
    then show ?thesis by (simp add: read_desc_rows ok split)
  next
    case (Inr a)
    show ?thesis
    proof (cases "length ?xs < page_len")
      case True
      with Inr show ?thesis by (simp add: read_desc_rows ok short_length)
    next
      case False
      then have full: "page_len \<le> length ?xs" by simp
      show ?thesis
      proof (cases "e_seq (last ?p) \<le> 1")
        case True
        with Inr split desc_end [OF ok full] show ?thesis by (simp add: read_desc_rows ok)
      next
        case gt: False
        have "length (desc_rows s INBOX_BUDGET_EVENT None (Some (e_seq (last ?p) - 1))) < k"
          using rest_shorter [OF Suc.prems full] by (simp add: desc_next [OF ok full])
        from Suc.IH [OF this] Inr split full gt full_page_ne [OF full] show ?thesis
          by (simp add: read_desc_rows ok short_page desc_next [OF ok full] del: length_take take_eq_Nil take_eq_Nil2)
      qed
    qed
  qed
qed

lemma turn_budget_fold:
  assumes ok: "ok s"
  shows "length (asc_rows s from hi) < k \<Longrightarrow>
    turn_budget_from k (read s) data_of hi turn found from =
      Some (fold_rows (\<lambda>e. turn_budget_row turn (data_of e)) found (asc_rows s from hi))"
proof (induction k arbitrary: found "from")
  case 0
  then show ?case by simp
next
  case (Suc k)
  let ?xs = "asc_rows s from hi"
  let ?p = "take page_len ?xs"
  let ?f = "\<lambda>e. turn_budget_row turn (data_of e)"
  have split: "fold_rows ?f found ?xs = rbind (fold_rows ?f found ?p) (\<lambda>a. fold_rows ?f a (drop page_len ?xs))"
    by (metis fold_rows_append append_take_drop_id)
  show ?case
  proof (cases "fold_rows ?f found ?p")
    case (Inl e)
    then show ?thesis by (simp add: read_asc_rows ok split)
  next
    case (Inr a)
    show ?thesis
    proof (cases "length ?xs < page_len")
      case True
      with Inr show ?thesis by (simp add: read_asc_rows ok short_length)
    next
      case False
      then have full: "page_len \<le> length ?xs" by simp
      show ?thesis
      proof (cases "hi \<le> e_seq (last ?p)")
        case True
        with Inr split asc_end [OF ok full] show ?thesis by (simp add: read_asc_rows ok)
      next
        case gt: False
        have "length (asc_rows s (e_seq (last ?p) + 1) hi) < k"
          using rest_shorter [OF Suc.prems full] by (simp add: asc_next [OF ok full])
        from Suc.IH [OF this] Inr split full gt full_page_ne [OF full] show ?thesis
          by (simp add: read_asc_rows ok short_page asc_next [OF ok full] del: length_take take_eq_Nil take_eq_Nil2)
      qed
    qed
  qed
qed

end


text \<open>The memory adapter's ledger, read through \<^verbatim>\<open>scan\<close>, is such a log.\<close>

definition log_ok :: "ledger_store \<times> string \<Rightarrow> bool" where
  "log_ok s \<longleftrightarrow> store_ok (fst s) \<and> (\<forall>e \<in> set (reader_rows (fst s) (snd s)). 1 \<le> e_seq e)"

interpretation stored_log:
  row_log log_ok "\<lambda>s. store_read (fst s) (snd s)" "\<lambda>s. reader_rows (fst s) (snd s)"
proof
  fix s :: "ledger_store \<times> string" and q :: scan_query
  assume ok: "log_ok s" and q: "q_limit q = Some (num_of_int SCAN_PAGE_MAX)"
  show "store_read (fst s) (snd s) q = scan_page q (reader_rows (fst s) (snd s))"
    using ok by (intro store_read_page [OF _ q]) (simp_all add: log_ok_def SCAN_PAGE_MAX_def)
next
  fix s :: "ledger_store \<times> string"
  assume "log_ok s"
  then show "sorted_wrt (<) (map e_seq (reader_rows (fst s) (snd s)))"
    by (intro reader_rows_increasing) (simp add: log_ok_def)
qed (simp add: log_ok_def)

section \<open>Selected rows\<close>

lemma find_filter: "find P xs = (case filter P xs of [] \<Rightarrow> None | x # _ \<Rightarrow> Some x)"
  by (induction xs) auto

lemma fold_rows_filter:
  assumes "\<And>e acc. \<not> P e \<Longrightarrow> f e acc = Inr acc"
  shows "fold_rows f acc es = fold_rows f acc (filter P es)"
proof (induction es arbitrary: acc)
  case (Cons e es)
  then show ?case by (cases "f e acc") (auto simp: assms)
qed simp

lemma fold_rows_map: "fold_rows (\<lambda>e. f (g e)) acc es = fold_rows f acc (map g es)"
proof (induction es arbitrary: acc)
  case (Cons e es)
  then show ?case by (cases "f (g e) acc") auto
qed simp

text \<open>The payloads of the rows a reader of type \<open>ty\<close> selects, oldest first.\<close>

definition selected ::
  "(event \<Rightarrow> row_data) \<Rightarrow> string \<Rightarrow> int \<Rightarrow> (row_data \<Rightarrow> bool) \<Rightarrow> event list \<Rightarrow> row_data list" where
  "selected data_of ty from m es =
     map data_of (filter (\<lambda>e. e_type e = ty \<and> from \<le> e_seq e \<and> m (data_of e)) es)"

text \<open>The rows of the log are, for one item or turn, the ones a list of events wrote.\<close>

definition wrote ::
  "(event \<Rightarrow> row_data) \<Rightarrow> string list \<Rightarrow> int \<Rightarrow> (row_data \<Rightarrow> bool) \<Rightarrow> row_data event_input list \<Rightarrow> event list \<Rightarrow> bool" where
  "wrote data_of tys from m evs es \<longleftrightarrow>
     map (\<lambda>e. (e_type e, data_of e)) (filter (\<lambda>e. e_type e \<in> set tys \<and> from \<le> e_seq e \<and> m (data_of e)) es)
       = map (\<lambda>x. (ei_type x, ei_data x)) evs"

lemma selected_wrote:
  assumes "wrote data_of tys from m evs es" "ty \<in> set tys"
  shows "selected data_of ty from m es = map ei_data (filter (\<lambda>x. ei_type x = ty) evs)"
proof -
  let ?sel = "filter (\<lambda>e. e_type e \<in> set tys \<and> from \<le> e_seq e \<and> m (data_of e)) es"
  have "selected data_of ty from m es
      = map snd (filter (\<lambda>p. fst p = ty) (map (\<lambda>e. (e_type e, data_of e)) ?sel))"
    using assms(2) by (auto simp: selected_def filter_map comp_def intro!: arg_cong [of _ _ "map data_of"] filter_cong)
  also have "\<dots> = map snd (filter (\<lambda>p. fst p = ty) (map (\<lambda>x. (ei_type x, ei_data x)) evs))"
    using assms(1) by (simp add: wrote_def)
  finally show ?thesis by (simp add: filter_map comp_def)
qed

lemma desc_selected:
  "map data_of (filter (\<lambda>e. m (data_of e)) (ordered_rows es (caps_query ty rng None)))
    = rev (map data_of (filter (\<lambda>e. e_type e = ty \<and> (\<forall>r. rng = Some r \<longrightarrow> r \<le> e_seq e) \<and> m (data_of e)) es))"
  by (auto simp: ordered_rows_def caps_query_def scan_row_ok_def rev_map rev_filter
      intro!: arg_cong [of _ _ "map data_of"] filter_cong split: option.splits)

lemma read_newest:
  assumes ok: "log_ok s" and k: "length (reader_rows (fst s) (snd s)) < k"
    and rng: "rng = Some r \<or> rng = None \<and> r = 1"
  shows "read_desc k (store_read (fst s) (snd s)) data_of ty rng m decode None =
    Some (case rev (selected data_of ty r m (reader_rows (fst s) (snd s))) of
            [] \<Rightarrow> Inr None | d # _ \<Rightarrow> rbind (decode d) (\<lambda>v. Inr (Some v)))"
proof -
  let ?es = "reader_rows (fst s) (snd s)"
  let ?xs = "ordered_rows ?es (caps_query ty rng None)"
  have pos: "1 \<le> e_seq e" if "e \<in> set ?es" for e using ok that by (simp add: log_ok_def)
  have len: "length ?xs \<le> length ?es" by (simp add: ordered_rows_def)
  have sel: "map data_of (filter (\<lambda>e. m (data_of e)) ?xs) = rev (selected data_of ty r m ?es)"
    unfolding desc_selected selected_def using rng pos
    by (auto intro!: arg_cong [of _ _ "map data_of"] filter_cong)
  have "read_desc k (store_read (fst s) (snd s)) data_of ty rng m decode None =
      Some (case find (\<lambda>e. m (data_of e)) ?xs of
              None \<Rightarrow> Inr None | Some e \<Rightarrow> rbind (decode (data_of e)) (\<lambda>v. Inr (Some v)))"
    using stored_log.read_desc_newest [OF ok, of ty rng None k data_of m decode] len k
    by (simp add: stored_log.desc_rows_def)
  also have "\<dots> = Some (case rev (selected data_of ty r m ?es) of
      [] \<Rightarrow> Inr None | d # _ \<Rightarrow> rbind (decode d) (\<lambda>v. Inr (Some v)))"
    unfolding sel [symmetric] find_filter by (simp split: list.split)
  finally show ?thesis .
qed

lemma inboxBudget_selected:
  assumes ok: "log_ok s" and k: "length (reader_rows (fst s) (snd s)) < k"
  shows "inboxBudget k (store_read (fst s) (snd s)) data_of itemId =
    Some (fold_rows (inbox_budget_row itemId) None
      (rev (selected data_of INBOX_BUDGET_EVENT 1 (of_item itemId) (reader_rows (fst s) (snd s)))))"
proof -
  let ?es = "reader_rows (fst s) (snd s)"
  let ?xs = "ordered_rows ?es (caps_query INBOX_BUDGET_EVENT None None)"
  let ?f = "\<lambda>e. inbox_budget_row itemId (data_of e)"
  have pos: "1 \<le> e_seq e" if "e \<in> set ?es" for e using ok that by (simp add: log_ok_def)
  have len: "length ?xs \<le> length ?es" by (simp add: ordered_rows_def)
  have sel: "map data_of (filter (\<lambda>e. of_item itemId (data_of e)) ?xs)
      = rev (selected data_of INBOX_BUDGET_EVENT 1 (of_item itemId) ?es)"
    unfolding desc_selected selected_def using pos
    by (auto intro!: arg_cong [of _ _ "map data_of"] filter_cong)
  have "inboxBudget k (store_read (fst s) (snd s)) data_of itemId = Some (fold_rows ?f None ?xs)"
    using stored_log.inbox_budget_fold [OF ok, of None k data_of itemId None] len k
    by (simp add: inboxBudget_def stored_log.desc_rows_def)
  also have "fold_rows ?f None ?xs = fold_rows ?f None (filter (\<lambda>e. of_item itemId (data_of e)) ?xs)"
    by (rule fold_rows_filter) (simp add: inbox_budget_row_def)
  finally show ?thesis by (simp add: fold_rows_map sel)
qed

lemma rehydratedBudget_selected:
  assumes ok: "log_ok s" and k: "length (reader_rows (fst s) (snd s)) < k"
    and hi: "\<forall>e \<in> set (reader_rows (fst s) (snd s)). e_seq e \<le> hi"
  shows "rehydratedBudget k (store_read (fst s) (snd s)) data_of hi op =
    Some (fold_rows (turn_budget_row (om_turn op)) None
      (selected data_of TURN_BUDGET_EVENT (om_triggerSeq op) (of_turn (om_turn op)) (reader_rows (fst s) (snd s))))"
proof -
  let ?es = "reader_rows (fst s) (snd s)"
  let ?xs = "ordered_rows ?es (turn_budget_query (om_triggerSeq op) hi)"
  let ?f = "\<lambda>e. turn_budget_row (om_turn op) (data_of e)"
  have len: "length ?xs \<le> length ?es" by (simp add: ordered_rows_def)
  have sel: "map data_of (filter (\<lambda>e. of_turn (om_turn op) (data_of e)) ?xs)
      = selected data_of TURN_BUDGET_EVENT (om_triggerSeq op) (of_turn (om_turn op)) ?es"
    unfolding selected_def ordered_rows_def using hi
    by (auto simp: turn_budget_query_def scan_row_ok_def intro!: arg_cong [of _ _ "map data_of"] filter_cong)
  have "rehydratedBudget k (store_read (fst s) (snd s)) data_of hi op = Some (fold_rows ?f None ?xs)"
    using stored_log.turn_budget_fold [OF ok, of "om_triggerSeq op" hi k data_of "om_turn op" None] len k
    by (simp add: rehydratedBudget_def stored_log.asc_rows_def)
  also have "fold_rows ?f None ?xs = fold_rows ?f None (filter (\<lambda>e. of_turn (om_turn op) (data_of e)) ?xs)"
    by (rule fold_rows_filter) (simp add: turn_budget_row_def)
  finally show ?thesis by (simp add: fold_rows_map sel)
qed

section \<open>What a prompt may say, and what is read back\<close>

text \<open>What an admitted prompt asked for, as the turn is to see it.\<close>

definition asked_budget :: "string \<Rightarrow> turn_overrides \<Rightarrow> budget_override option" where
  "asked_budget itemId msg = map_option
     (\<lambda>b. \<lparr>bo_itemId = itemId, bo_creditsCap = b, bo_hard = (tv_hardBudget msg = Some True)\<rparr>) (tv_budget msg)"

definition asked_limit :: "turn_overrides \<Rightarrow> int \<Rightarrow> time_limit option" where
  "asked_limit msg now = map_option
     (\<lambda>t. \<lparr>tl_timeLimitMs = t, tl_deadlineAt = js_add (num_of_int now) t\<rparr>) (tv_timeLimitMs msg)"

lemma js_le_of_int [simp]: "js_le (num_of_int a) (num_of_int b) \<longleftrightarrow> a \<le> b"
proof -
  have "num_of_int i \<noteq> NaN" for i by (simp add: num_of_int_def)
  then show ?thesis by (auto simp: js_le_def)
qed

lemma js_add_of_int [simp]: "js_add (num_of_int a) (num_of_int b) = num_of_int (a + b)"
  by (simp add: num_of_int_def)

lemma int_betweenE:
  assumes "int_between lo hi (Some (F_num n))"
  obtains i where "n = num_of_int i" "lo \<le> i" "i \<le> hi"
proof -
  from assms obtain q where q: "n = Fin q" "is_integral q" "js_le (num_of_int lo) n" "js_le n (num_of_int hi)"
    by (auto simp: int_between_def js_is_integer_def split: jsnum.splits)
  have n: "n = num_of_int \<lfloor>q\<rfloor>"
    unfolding num_of_int_def q(2) [unfolded is_integral_def] by (rule q(1))
  from q(3,4) have "lo \<le> \<lfloor>q\<rfloor>" "\<lfloor>q\<rfloor> \<le> hi" unfolding n by simp_all
  with n show ?thesis by (rule that)
qed

lemma validate_facts:
  assumes "validateTurnOverrides msg target = Inr ()"
  shows "\<And>n. tv_maxSteps msg = Some n \<Longrightarrow> validStepCap (Some (F_num n))"
    "\<And>t. tv_timeLimitMs msg = Some t \<Longrightarrow> validTimeLimit (Some (F_num t))"
    "\<And>b. tv_budget msg = Some b \<Longrightarrow> valid_credits (Some (F_num b))"
  using assms
  by (auto simp: validateTurnOverrides_def valid_credits_def res_simps split: if_splits option.splits)

lemma asked_limit_valid:
  assumes "validTimeLimit (Some (F_num t))" "0 \<le> now" "now + TIME_LIMIT_MAX_MS \<le> max_safe_integer"
  shows "is_safe_integer (js_add (num_of_int now) t)"
proof -
  from assms(1) obtain i where "t = num_of_int i" "1 \<le> i" "i \<le> TIME_LIMIT_MAX_MS"
    unfolding validTimeLimit_def by (rule int_betweenE)
  then show ?thesis using assms(2,3) by simp
qed

lemmas row_events =
  budgetOverrideEvent_def stepCapEvent_def timeLimitEvent_def hard_field_def event_names

lemma inbox_rows_of:
  "map ei_data (filter (\<lambda>x. ei_type x = INBOX_STEP_CAP_EVENT) (inboxOverrideEvents actor itemId msg now)) =
     (case tv_maxSteps msg of None \<Rightarrow> [] | Some n \<Rightarrow> [[(''itemId'', F_str itemId), (''maxSteps'', F_num n)]])"
  "map ei_data (filter (\<lambda>x. ei_type x = INBOX_TIME_LIMIT_EVENT) (inboxOverrideEvents actor itemId msg now)) =
     (case tv_timeLimitMs msg of None \<Rightarrow> [] | Some t \<Rightarrow>
        [[(''itemId'', F_str itemId), (''timeLimitMs'', F_num t), (''deadlineAt'', F_num (js_add (num_of_int now) t))]])"
  "map ei_data (filter (\<lambda>x. ei_type x = INBOX_BUDGET_EVENT) (inboxOverrideEvents actor itemId msg now)) =
     (case tv_budget msg of None \<Rightarrow> [] | Some b \<Rightarrow>
        [[(''itemId'', F_str itemId), (''creditsCap'', F_num b)] @ hard_field (tv_hardBudget msg = Some True)])"
  by (auto simp: inboxOverrideEvents_def row_events split: option.split)

lemma turn_rows_of:
  "map ei_data (filter (\<lambda>x. ei_type x = TURN_STEP_CAP_EVENT) (turnOverrideEvents actor turn b c l)) =
     (case c of None \<Rightarrow> [] | Some n \<Rightarrow> [[(''turn'', F_num (num_of_int turn)), (''maxSteps'', F_num n)]])"
  "map ei_data (filter (\<lambda>x. ei_type x = TURN_TIME_LIMIT_EVENT) (turnOverrideEvents actor turn b c l)) =
     (case l of None \<Rightarrow> [] | Some t \<Rightarrow>
        [[(''turn'', F_num (num_of_int turn)), (''timeLimitMs'', F_num (tl_timeLimitMs t)),
          (''deadlineAt'', F_num (tl_deadlineAt t))]])"
  "map ei_data (filter (\<lambda>x. ei_type x = TURN_BUDGET_EVENT) (turnOverrideEvents actor turn b c l)) =
     (case b of None \<Rightarrow> [] | Some o' \<Rightarrow>
        [[(''turn'', F_num (num_of_int turn)), (''itemId'', F_str (bo_itemId o')),
          (''creditsCap'', F_num (bo_creditsCap o'))] @ hard_field (bo_hard o')])"
  by (auto simp: turnOverrideEvents_def row_events split: option.split)

lemma cap_of_row_valid:
  "validStepCap (Some (F_num n)) \<Longrightarrow> cap_of_row [(k1, v1), (''maxSteps'', F_num n)] = Inr n" if "k1 \<noteq> ''maxSteps''"
  using that by (simp add: cap_of_row_def)

lemma limit_of_row_valid:
  "validTimeLimit (Some (F_num t)) \<Longrightarrow> is_safe_integer e \<Longrightarrow>
   limit_of_row [(k1, v1), (''timeLimitMs'', F_num t), (''deadlineAt'', F_num e)]
     = Inr \<lparr>tl_timeLimitMs = t, tl_deadlineAt = e\<rparr>"
  if "k1 \<noteq> ''timeLimitMs''" "k1 \<noteq> ''deadlineAt''"
  using that by (simp add: limit_of_row_def)

definition inbox_types :: "string list" where
  "inbox_types = [INBOX_BUDGET_EVENT, INBOX_STEP_CAP_EVENT, INBOX_TIME_LIMIT_EVENT]"

definition turn_types :: "string list" where
  "turn_types = [TURN_BUDGET_EVENT, TURN_STEP_CAP_EVENT, TURN_TIME_LIMIT_EVENT]"

lemma inbox_reads:
  assumes ok: "log_ok s" and k: "length (reader_rows (fst s) (snd s)) < k"
    and valid: "validateTurnOverrides msg target = Inr ()"
    and now: "0 \<le> now" "now + TIME_LIMIT_MAX_MS \<le> max_safe_integer"
    and w: "wrote data_of inbox_types 1 (of_item itemId) (inboxOverrideEvents actor itemId msg now)
      (reader_rows (fst s) (snd s))"
  shows "inboxBudget k (store_read (fst s) (snd s)) data_of itemId = Some (Inr (asked_budget itemId msg))"
    "inboxTurnCaps k (store_read (fst s) (snd s)) data_of itemId = Some (Inr (tv_maxSteps msg, asked_limit msg now))"
proof -
  note facts = validate_facts [OF valid]
  have sel: "selected data_of ty 1 (of_item itemId) (reader_rows (fst s) (snd s))
      = map ei_data (filter (\<lambda>x. ei_type x = ty) (inboxOverrideEvents actor itemId msg now))"
    if "ty \<in> set inbox_types" for ty
    using w that by (rule selected_wrote)
  have step: "inboxStepCap k (store_read (fst s) (snd s)) data_of itemId = Some (Inr (tv_maxSteps msg))"
    using facts(1)
    by (simp add: inboxStepCap_def readCap_def read_newest [OF ok k] sel inbox_types_def inbox_rows_of
        cap_of_row_valid split: option.split)
  have limit: "inboxTimeLimit k (store_read (fst s) (snd s)) data_of itemId = Some (Inr (asked_limit msg now))"
    using facts(2) asked_limit_valid [OF _ now]
    by (simp add: inboxTimeLimit_def readLimit_def read_newest [OF ok k] sel inbox_types_def inbox_rows_of
        limit_of_row_valid asked_limit_def split: option.split)
  show "inboxTurnCaps k (store_read (fst s) (snd s)) data_of itemId = Some (Inr (tv_maxSteps msg, asked_limit msg now))"
    by (simp add: inboxTurnCaps_def step limit)
  show "inboxBudget k (store_read (fst s) (snd s)) data_of itemId = Some (Inr (asked_budget itemId msg))"
    using facts(3)
    by (simp add: inboxBudget_selected [OF ok k] sel inbox_types_def inbox_rows_of inbox_budget_row_def
        of_item_def asked_budget_def field_num_def hard_field_def split: option.split)
qed

lemma turn_reads:
  assumes ok: "log_ok s" and k: "length (reader_rows (fst s) (snd s)) < k"
    and hi: "\<forall>e \<in> set (reader_rows (fst s) (snd s)). e_seq e \<le> hi"
    and c: "\<And>n. c = Some n \<Longrightarrow> validStepCap (Some (F_num n))"
    and l: "\<And>t. l = Some t \<Longrightarrow> validTimeLimit (Some (F_num (tl_timeLimitMs t))) \<and> is_safe_integer (tl_deadlineAt t)"
    and b: "\<And>x. b = Some x \<Longrightarrow> valid_credits (Some (F_num (bo_creditsCap x)))"
    and w: "wrote data_of turn_types (om_triggerSeq op) (of_turn (om_turn op))
      (turnOverrideEvents actor (om_turn op) b c l) (reader_rows (fst s) (snd s))"
  shows "rehydratedBudget k (store_read (fst s) (snd s)) data_of hi op = Some (Inr b)"
    "rehydrateTurnCaps k (store_read (fst s) (snd s)) data_of op \<lparr>tm_maxStepsCap = None, tm_timeLimit = None\<rparr>
      = Some (\<lparr>tm_maxStepsCap = c, tm_timeLimit = l\<rparr>, Inr ())"
proof -
  have sel: "selected data_of ty (om_triggerSeq op) (of_turn (om_turn op)) (reader_rows (fst s) (snd s))
      = map ei_data (filter (\<lambda>x. ei_type x = ty) (turnOverrideEvents actor (om_turn op) b c l))"
    if "ty \<in> set turn_types" for ty
    using w that by (rule selected_wrote)
  show "rehydratedBudget k (store_read (fst s) (snd s)) data_of hi op = Some (Inr b)"
    using b
    by (simp add: rehydratedBudget_selected [OF ok k hi] sel turn_types_def turn_rows_of turn_budget_row_def
        of_turn_def field_num_def hard_field_def split: option.split)
  have step: "rehydratedStepCap k (store_read (fst s) (snd s)) data_of op = Some (Inr c)"
    using c
    by (simp add: rehydratedStepCap_def readCap_def read_newest [OF ok k] sel turn_types_def turn_rows_of
        cap_of_row_valid split: option.split)
  have limit: "readLimit k (store_read (fst s) (snd s)) data_of TURN_TIME_LIMIT_EVENT (Some (om_triggerSeq op))
      (of_turn (om_turn op)) = Some (Inr l)"
    using l
    by (simp add: readLimit_def read_newest [OF ok k] sel turn_types_def turn_rows_of
        limit_of_row_valid split: option.split)
  show "rehydrateTurnCaps k (store_read (fst s) (snd s)) data_of op \<lparr>tm_maxStepsCap = None, tm_timeLimit = None\<rparr>
      = Some (\<lparr>tm_maxStepsCap = c, tm_timeLimit = l\<rparr>, Inr ())"
    by (simp add: rehydrateTurnCaps_def step limit rehydrateTimeLimit_def applyTurnCaps_def setTurnTimeLimit_def
        split: option.split)
qed

text \<open>
  C31. What a prompt is admitted with survives to the turn it opens and through a restart. Suppose the
  overrides pass the check at the inbox, the rows of the queued item are the ones
  \<^verbatim>\<open>inboxOverrideEvents\<close> writes, and the rows of the turn are the ones
  \<^verbatim>\<open>turnOverrideEvents\<close> writes for what the item asked. Then the reads at the inbox return exactly
  the asked credit ceiling, step cap and time limit, and a process that has lost its turn memory
  reads the same three values back from the turn's rows: no stored value is rejected, none is taken
  from another item or turn, and one round of paging more than there are rows is enough.
\<close>

theorem caps_survive_recovery:
  assumes valid: "validateTurnOverrides msg target = Inr ()"
    and now: "0 \<le> now" "now + TIME_LIMIT_MAX_MS \<le> max_safe_integer"
    and s1: "log_ok (st1, key)" "length (reader_rows st1 key) < k"
      "wrote data_of inbox_types 1 (of_item itemId) (inboxOverrideEvents actor itemId msg now) (reader_rows st1 key)"
    and s2: "log_ok (st2, key)" "length (reader_rows st2 key) < k"
      "\<forall>e \<in> set (reader_rows st2 key). e_seq e \<le> hi"
      "wrote data_of turn_types (om_triggerSeq op) (of_turn (om_turn op))
         (turnOverrideEvents actor (om_turn op) (asked_budget itemId msg) (tv_maxSteps msg) (asked_limit msg now))
         (reader_rows st2 key)"
  shows "inboxBudget k (store_read st1 key) data_of itemId = Some (Inr (asked_budget itemId msg))
    \<and> inboxTurnCaps k (store_read st1 key) data_of itemId = Some (Inr (tv_maxSteps msg, asked_limit msg now))
    \<and> rehydratedBudget k (store_read st2 key) data_of hi op = Some (Inr (asked_budget itemId msg))
    \<and> rehydrateTurnCaps k (store_read st2 key) data_of op \<lparr>tm_maxStepsCap = None, tm_timeLimit = None\<rparr>
        = Some (\<lparr>tm_maxStepsCap = tv_maxSteps msg, tm_timeLimit = asked_limit msg now\<rparr>, Inr ())"
proof -
  note facts = validate_facts [OF valid]
  have l: "validTimeLimit (Some (F_num (tl_timeLimitMs t))) \<and> is_safe_integer (tl_deadlineAt t)"
    if "asked_limit msg now = Some t" for t
    using that facts(2) asked_limit_valid [OF _ now] by (auto simp: asked_limit_def)
  have b: "valid_credits (Some (F_num (bo_creditsCap x)))" if "asked_budget itemId msg = Some x" for x
    using that facts(3) by (auto simp: asked_budget_def)
  from inbox_reads [of "(st1, key)", OF _ _ valid now] turn_reads [of "(st2, key)", OF _ _ _ facts(1) l b]
  show ?thesis using s1 s2 by simp
qed

text \<open>A row's payload as JSON holds it.\<close>

definition json_row :: "event \<Rightarrow> row_data" where
  "json_row e = (case e_data e of
     JObj kvs \<Rightarrow> map (\<lambda>(k, v). (k, case v of JNum n \<Rightarrow> F_num (num_of_int n) | JStr s \<Rightarrow> F_str s
                                 | JBool b \<Rightarrow> (if b then F_true else F_other) | _ \<Rightarrow> F_other)) kvs
   | _ \<Rightarrow> [])"

definition caps_a :: turn_overrides where
  "caps_a = \<lparr>tv_budget = Some (num_of_int 7), tv_hardBudget = Some True,
     tv_maxSteps = Some (num_of_int 5), tv_timeLimitMs = None\<rparr>"

definition caps_row :: "string \<Rightarrow> (string \<times> json) list \<Rightarrow> prepared_event" where
  "caps_row ty d = row_a\<lparr>e_type := ty, e_data := JObj d\<rparr>"

definition st_caps :: ledger_store where
  "st_caps = fst (commit 5 (fst (open_session 0 empty_store ''k'' ''w'' 10)) ''k'' (tx_a ''w''
     [caps_row INBOX_BUDGET_EVENT [(''itemId'', JStr ''i1''), (''creditsCap'', JNum 7), (''hard'', JBool True)],
      caps_row INBOX_STEP_CAP_EVENT [(''itemId'', JStr ''i1''), (''maxSteps'', JNum 5)],
      caps_row TURN_BUDGET_EVENT [(''turn'', JNum 1), (''itemId'', JStr ''i1''), (''creditsCap'', JNum 7), (''hard'', JBool True)],
      caps_row TURN_STEP_CAP_EVENT [(''turn'', JNum 1), (''maxSteps'', JNum 5)]]))"

definition op_a :: op_meta where
  "op_a = \<lparr>om_triggerSeq = 3, om_turn = 1\<rparr>"

theorem caps_survive_recovery_witness:
  "inboxBudget 9 (store_read st_caps ''k'') json_row ''i1'' = Some (Inr (asked_budget ''i1'' caps_a))
    \<and> rehydrateTurnCaps 9 (store_read st_caps ''k'') json_row op_a \<lparr>tm_maxStepsCap = None, tm_timeLimit = None\<rparr>
        = Some (\<lparr>tm_maxStepsCap = Some (num_of_int 5), tm_timeLimit = None\<rparr>, Inr ())"
proof -
  let ?rows = "reader_rows st_caps ''k''"
  have ok: "store_ok st_caps"
    unfolding st_caps_def by (intro commit_store_ok open_store_ok) (simp_all add: caps_row_def row_a_def plain_row_def)
  have seqs: "map e_seq ?rows = [1, 2, 3, 4]" by code_simp
  have "length (map e_seq ?rows) = 4" unfolding seqs by simp
  then have len: "length ?rows < 9" by simp
  have "\<forall>x \<in> set (map e_seq ?rows). 1 \<le> x \<and> x \<le> 4" unfolding seqs by simp
  then have pos: "\<forall>e \<in> set ?rows. 1 \<le> e_seq e" and hi: "\<forall>e \<in> set ?rows. e_seq e \<le> 4" by auto
  have valid: "validateTurnOverrides caps_a ''next-turn'' = Inr ()" by code_simp
  have w1: "wrote json_row inbox_types 1 (of_item ''i1'') (inboxOverrideEvents JNull ''i1'' caps_a 0) ?rows"
    by code_simp
  have w2: "wrote json_row turn_types (om_triggerSeq op_a) (of_turn (om_turn op_a))
      (turnOverrideEvents JNull (om_turn op_a) (asked_budget ''i1'' caps_a) (tv_maxSteps caps_a) (asked_limit caps_a 0)) ?rows"
    by code_simp
  have log: "log_ok (st_caps, ''k'')" using ok pos by (simp add: log_ok_def)
  have "tv_maxSteps caps_a = Some (num_of_int 5)" "asked_limit caps_a 0 = None"
    by (simp_all add: caps_a_def asked_limit_def)
  with caps_survive_recovery [OF valid _ _ log len w1 log len hi w2] show ?thesis
    by (simp add: TIME_LIMIT_MAX_MS_def max_safe_integer_def)
qed

text \<open>
  Nothing that came from outside is recorded as the principal's word. Of the messages a queued
  item becomes, the one with trusted origin holds exactly the blocks of a trusted principal's item
  that carry no reference, the untrusted one holds exactly the rest, each in the item's order; there
  is no empty message, and trusted and principal go together.
\<close>

theorem message_trust:
  "concat (map (md_content \<circ> ei_data) (filter (\<lambda>e. ei_trust e = ''trusted'') (inputMessageEvents item lane)))
     = (if ii_origin item = Some ''system'' \<or> ii_trust item = Some ''untrusted'' then []
        else filter (\<lambda>b. \<not> is_reference b) (ii_content item))
   \<and> concat (map (md_content \<circ> ei_data) (filter (\<lambda>e. ei_trust e = ''untrusted'') (inputMessageEvents item lane)))
     = (if ii_origin item = Some ''system'' \<or> ii_trust item = Some ''untrusted'' then ii_content item
        else filter is_reference (ii_content item))
   \<and> list_all (\<lambda>e. ((ei_trust e, ei_origin e) = (''trusted'', ''principal'')
          \<or> (ei_trust e, ei_origin e) = (''untrusted'', ''system''))
        \<and> md_content (ei_data e) \<noteq> [] \<and> ei_lane e = Some lane) (inputMessageEvents item lane)"
  by (auto simp: inputMessageEvents_def input_message_def Let_def filter_empty_conv)

text \<open>A prompt's cap lowers the preset's ceiling, never raises it.\<close>

lemma effectiveMaxSteps_lowers:
  "effectiveMaxSteps (Some (num_of_int p)) cap = Some n \<Longrightarrow> js_le n (num_of_int p) \<or> n = NaN"
  by (auto simp: effectiveMaxSteps_def js_min_def js_le_def split: option.splits if_splits) (auto simp: num_of_int_def elim: js_lt.elims)

lemma claimFrom_first:
  assumes "\<forall>i \<in> set pre. ii_target i \<noteq> target" "ii_target item = target"
  shows "claimFrom (Some (pre @ item # post)) target = Some (item, pre @ post)"
proof -
  have "findIndex (\<lambda>i. ii_target i = target) (pre @ item # post) = Some (length pre)"
    using assms by (induction pre) auto
  then show ?thesis by (simp add: claimFrom_def)
qed

end
