(* ===== verification/Admission.thy ===== *)
theory Admission imports Prelude begin

text \<open>
  The sibling queue of \<^verbatim>\<open>packages/core-effects/src/effects/scheduler.ts\<close>, class
  \<^verbatim>\<open>AdmissionQueue\<close>: a run of concurrency-safe calls may overlap, any other call is a barrier.
  A waiter is its identity and whether its call is safe. Two lists make the callbacks visible: the
  waiters started and not yet finished, and the outcomes the callers have seen, in order. A call's
  body and the microtask it starts in are the environment: it finishes in a step of its own.
\<close>

section \<open>The gate both schedulers pump\<close>

record 'w gate =
  g_waiting :: "'w list"
  g_activeSafe :: int
  g_activeUnsafe :: bool

text \<open>The \<^verbatim>\<open>while\<close> loop of \<^verbatim>\<open>pump\<close>: admitted waiters, those left, the new count.\<close>

fun pump_safe :: "('w \<Rightarrow> bool) \<Rightarrow> 'w list \<Rightarrow> int \<Rightarrow> 'w list \<times> 'w list \<times> int" where
  "pump_safe safe [] n = ([], [], n)"
| "pump_safe safe (w # ws) n =
     (if safe w then (let (adm, rest, m) = pump_safe safe ws (n + 1) in (w # adm, rest, m))
      else ([], w # ws, n))"

definition pump_gate :: "('w \<Rightarrow> bool) \<Rightarrow> ('w, 'z) gate_scheme \<Rightarrow> 'w list \<times> ('w, 'z) gate_scheme" where
  "pump_gate safe g =
     (if g_activeUnsafe g \<or> g_waiting g = [] then ([], g)
      else if g_activeSafe g > 0 \<and> \<not> safe (hd (g_waiting g)) then ([], g)
      else if \<not> safe (hd (g_waiting g))
      then ([hd (g_waiting g)], g\<lparr>g_waiting := tl (g_waiting g), g_activeUnsafe := True\<rparr>)
      else (let (adm, rest, n) = pump_safe safe (g_waiting g) (g_activeSafe g)
            in (adm, g\<lparr>g_waiting := rest, g_activeSafe := n\<rparr>)))"

text \<open>\<open>run\<close> are the admitted waiters that have not finished: what the counters stand for.\<close>

definition gate_counts :: "('w \<Rightarrow> bool) \<Rightarrow> 'w set \<Rightarrow> ('w, 'z) gate_scheme \<Rightarrow> bool" where
  "gate_counts safe run g \<longleftrightarrow> finite run
     \<and> g_activeSafe g = int (card {w \<in> run. safe w})
     \<and> g_activeUnsafe g = (\<exists>w \<in> run. \<not> safe w)"

definition exclusive :: "('w \<Rightarrow> bool) \<Rightarrow> 'w set \<Rightarrow> bool" where
  "exclusive safe run \<longleftrightarrow> (\<forall>w \<in> run. \<not> safe w \<longrightarrow> run = {w})"

definition pumped :: "('w \<Rightarrow> bool) \<Rightarrow> ('w, 'z) gate_scheme \<Rightarrow> bool" where
  "pumped safe g \<longleftrightarrow> g_waiting g = [] \<or> g_activeUnsafe g
     \<or> (g_activeSafe g > 0 \<and> \<not> safe (hd (g_waiting g)))"

lemma pump_safe_spec:
  "pump_safe safe ws n = (takeWhile safe ws, dropWhile safe ws, n + int (length (takeWhile safe ws)))"
  by (induction ws arbitrary: n) auto

lemma pump_gate_split: "pump_gate safe g = (adm, g') \<Longrightarrow> g_waiting g = adm @ g_waiting g'"
  by (auto simp: pump_gate_def pump_safe_spec split: if_splits)

lemma pump_gate_more: "pump_gate safe g = (adm, g') \<Longrightarrow> gate.more g' = gate.more g"
  by (auto simp: pump_gate_def pump_safe_spec split: if_splits)

lemma takeWhile_safe_counts:
  assumes "finite run" "distinct ws" "set ws \<inter> run = {}"
  shows "int (card {w \<in> run \<union> set (takeWhile safe ws). safe w})
    = int (card {w \<in> run. safe w}) + int (length (takeWhile safe ws))"
proof -
  let ?t = "set (takeWhile safe ws)"
  have "{w \<in> run \<union> ?t. safe w} = {w \<in> run. safe w} \<union> ?t" by (auto dest: set_takeWhileD)
  moreover have "{w \<in> run. safe w} \<inter> ?t = {}" using assms(3) by (auto dest: set_takeWhileD)
  moreover have "card ?t = length (takeWhile safe ws)"
    using assms(2) by (intro distinct_card distinct_takeWhile)
  ultimately show ?thesis using assms(1) by (simp add: card_Un_disjoint)
qed

lemma pump_gate_counts:
  assumes p: "pump_gate safe g = (adm, g')" and c: "gate_counts safe run g" and x: "exclusive safe run"
    and d: "distinct (g_waiting g)" "set (g_waiting g) \<inter> run = {}"
  shows "gate_counts safe (run \<union> set adm) g'" "exclusive safe (run \<union> set adm)" "pumped safe g'"
proof -
  consider (idle) "g_activeUnsafe g \<or> g_waiting g = [] \<or> g_activeSafe g > 0 \<and> \<not> safe (hd (g_waiting g))"
    | (barrier) w ws where "\<not> g_activeUnsafe g" "g_waiting g = w # ws" "\<not> safe w" "\<not> g_activeSafe g > 0"
    | (burst) w ws where "\<not> g_activeUnsafe g" "g_waiting g = w # ws" "safe w"
    by (cases "g_waiting g") auto
  then have "gate_counts safe (run \<union> set adm) g' \<and> exclusive safe (run \<union> set adm) \<and> pumped safe g'"
  proof cases
    case idle
    with p have "adm = []" "g' = g" by (auto simp: pump_gate_def split: if_splits)
    with c x idle show ?thesis by (auto simp: pumped_def)
  next
    case barrier
    with p have a: "adm = [w]" "g_activeUnsafe g'" "g_activeSafe g' = g_activeSafe g"
      by (auto simp: pump_gate_def)
    from c barrier have none: "{v \<in> run. safe v} = {}" and all: "\<forall>v \<in> run. safe v"
      by (auto simp: gate_counts_def)
    then have "run = {}" by blast
    with c a barrier show ?thesis
      by (auto simp: gate_counts_def exclusive_def pumped_def)
  next
    case burst
    with p have a: "adm = takeWhile safe (g_waiting g)" "g_activeUnsafe g' = g_activeUnsafe g"
      "g_waiting g' = dropWhile safe (g_waiting g)"
      "g_activeSafe g' = g_activeSafe g + int (length (takeWhile safe (g_waiting g)))"
      by (auto simp: pump_gate_def pump_safe_spec)
    have safe: "\<forall>v \<in> run \<union> set adm. safe v"
      using c burst(1) by (auto simp: gate_counts_def a dest: set_takeWhileD)
    have "gate_counts safe (run \<union> set adm) g'"
      using c safe takeWhile_safe_counts [OF _ d, of safe] burst(1)
      by (auto simp: gate_counts_def a)
    moreover have "exclusive safe (run \<union> set adm)" using safe by (auto simp: exclusive_def)
    moreover have "pumped safe g'"
      using c burst hd_dropWhile [of safe "g_waiting g"] by (auto simp: pumped_def a gate_counts_def)
    ultimately show ?thesis by blast
  qed
  then show "gate_counts safe (run \<union> set adm) g'" "exclusive safe (run \<union> set adm)" "pumped safe g'"
    by blast+
qed

lemma gate_counts_remove:
  assumes "gate_counts safe run g" "exclusive safe run" "w \<in> run"
  shows "safe w \<Longrightarrow> gate_counts safe (run - {w}) (g\<lparr>g_activeSafe := g_activeSafe g - 1\<rparr>)"
    "\<not> safe w \<Longrightarrow> gate_counts safe (run - {w}) (g\<lparr>g_activeUnsafe := False\<rparr>)"
    "exclusive safe (run - {w})"
proof -
  assume s: "safe w"
  have "{v \<in> run - {w}. safe v} = {v \<in> run. safe v} - {w}" by blast
  moreover have "card ({v \<in> run. safe v} - {w}) = card {v \<in> run. safe v} - 1"
    using s assms(3) by (intro card_Diff_singleton) simp
  moreover have "card {v \<in> run. safe v} > 0"
    using s assms(1,3) by (auto simp: card_gt_0_iff gate_counts_def)
  ultimately show "gate_counts safe (run - {w}) (g\<lparr>g_activeSafe := g_activeSafe g - 1\<rparr>)"
    using assms(1) s by (auto simp: gate_counts_def)
next
  assume u: "\<not> safe w"
  with assms have "run = {w}" by (auto simp: exclusive_def)
  with assms(1) u show "gate_counts safe (run - {w}) (g\<lparr>g_activeUnsafe := False\<rparr>)"
    by (auto simp: gate_counts_def)
next
  show "exclusive safe (run - {w})" using assms(2) by (auto simp: exclusive_def)
qed

section \<open>The queue\<close>

record waiter =
  w_id :: nat
  w_concurrencySafe :: bool

text \<open>What a caller of \<^verbatim>\<open>run\<close> or \<^verbatim>\<open>drain\<close> sees: its call was started, refused or settled.\<close>

datatype outcome = Started nat | Aborted nat | Settled nat | Drained nat

record admission_queue = "waiter gate" +
  aq_outstanding :: int
  aq_drainWaiters :: "nat list"
  aq_running :: "waiter list"
  aq_log :: "outcome list"

definition new_queue :: admission_queue where
  "new_queue = \<lparr>g_waiting = [], g_activeSafe = 0, g_activeUnsafe = False, aq_outstanding = 0,
     aq_drainWaiters = [], aq_running = [], aq_log = []\<rparr>"

definition aq_start_all :: "waiter list \<Rightarrow> admission_queue \<Rightarrow> admission_queue" where
  "aq_start_all ws q = q\<lparr>aq_running := aq_running q @ ws, aq_log := aq_log q @ map (Started \<circ> w_id) ws\<rparr>"

definition aq_pump :: "admission_queue \<Rightarrow> admission_queue" where
  "aq_pump q = (let (adm, q') = pump_gate w_concurrencySafe q in aq_start_all adm q')"

definition aq_wake_drained :: "admission_queue \<Rightarrow> admission_queue" where
  "aq_wake_drained q =
     (if aq_outstanding q = 0
      then q\<lparr>aq_drainWaiters := [], aq_log := aq_log q @ map Drained (aq_drainWaiters q)\<rparr> else q)"

text \<open>\<^verbatim>\<open>started\<close> of the waiter: it has been taken off the queue by \<^verbatim>\<open>pump\<close>.\<close>

definition aq_started :: "admission_queue \<Rightarrow> waiter \<Rightarrow> bool" where
  "aq_started q w = (Started (w_id w) \<in> set (aq_log q))"

definition aq_cancel :: "admission_queue \<Rightarrow> waiter \<Rightarrow> admission_queue" where
  "aq_cancel q w =
     (if aq_started q w then q
      else aq_wake_drained
        (q\<lparr>aq_outstanding := aq_outstanding q - 1, aq_log := aq_log q @ [Aborted (w_id w)]\<rparr>))"

definition aq_onAbort :: "admission_queue \<Rightarrow> waiter \<Rightarrow> admission_queue" where
  "aq_onAbort q w = aq_pump (aq_cancel (q\<lparr>g_waiting := remove1 w (g_waiting q)\<rparr>) w)"

definition aq_run :: "admission_queue \<Rightarrow> waiter \<Rightarrow> bool \<Rightarrow> admission_queue" where
  "aq_run q w aborted =
     (let q1 = q\<lparr>aq_outstanding := aq_outstanding q + 1, g_waiting := g_waiting q @ [w]\<rparr>
      in aq_pump (if aborted then aq_onAbort q1 w else q1))"

definition aq_finish :: "admission_queue \<Rightarrow> waiter \<Rightarrow> admission_queue" where
  "aq_finish q w =
     (let q1 = q\<lparr>aq_running := remove1 w (aq_running q), aq_log := aq_log q @ [Settled (w_id w)]\<rparr>;
          q2 = (if w_concurrencySafe w then q1\<lparr>g_activeSafe := g_activeSafe q1 - 1\<rparr>
                else q1\<lparr>g_activeUnsafe := False\<rparr>);
          q3 = q2\<lparr>aq_outstanding := aq_outstanding q2 - 1\<rparr>
      in aq_wake_drained (aq_pump q3))"

definition aq_drain :: "admission_queue \<Rightarrow> nat \<Rightarrow> admission_queue" where
  "aq_drain q d =
     (if aq_outstanding q = 0 then q\<lparr>aq_log := aq_log q @ [Drained d]\<rparr>
      else q\<lparr>aq_drainWaiters := aq_drainWaiters q @ [d]\<rparr>)"

section \<open>Its steps\<close>

text \<open>
  A call comes in, with a signal that may be aborted already; the signal of a waiting call aborts
  (a started call has removed its listener); a running call settles; someone waits for the drain.
\<close>

definition aq_seen :: "admission_queue \<Rightarrow> nat set" where
  "aq_seen q = {i. Started i \<in> set (aq_log q) \<or> Aborted i \<in> set (aq_log q)} \<union> w_id ` set (g_waiting q)"

inductive aq_step :: "admission_queue \<Rightarrow> admission_queue \<Rightarrow> bool" where
  aq_call: "w_id w \<notin> aq_seen q \<Longrightarrow> aq_step q (aq_run q w aborted)"
| aq_abort: "w \<in> set (g_waiting q) \<Longrightarrow> aq_step q (aq_onAbort q w)"
| aq_settle: "w \<in> set (aq_running q) \<Longrightarrow> aq_step q (aq_finish q w)"
| aq_wait: "aq_step q (aq_drain q d)"

inductive aq_finish_step :: "admission_queue \<Rightarrow> admission_queue \<Rightarrow> bool" where
  "w \<in> set (aq_running q) \<Longrightarrow> aq_finish_step q (aq_finish q w)"

inductive_cases aq_stepE: "aq_step q q'"
inductive_cases aq_finish_stepE: "aq_finish_step q q'"

fun started_of :: "outcome list \<Rightarrow> nat list" where
  "started_of [] = []"
| "started_of (Started i # es) = i # started_of es"
| "started_of (_ # es) = started_of es"

definition started_ids :: "admission_queue \<Rightarrow> nat list" where
  "started_ids q = started_of (aq_log q)"

section \<open>Invariant\<close>

definition aq_core :: "admission_queue \<Rightarrow> bool" where
  "aq_core q \<longleftrightarrow> gate_counts w_concurrencySafe (set (aq_running q)) q
     \<and> exclusive w_concurrencySafe (set (aq_running q))"

definition aq_ids :: "admission_queue \<Rightarrow> bool" where
  "aq_ids q \<longleftrightarrow> distinct (map w_id (g_waiting q)) \<and> distinct (map w_id (aq_running q))
     \<and> w_id ` set (aq_running q) \<subseteq> set (started_ids q)
     \<and> w_id ` set (g_waiting q) \<inter> set (started_ids q) = {}"

definition aq_owed :: "admission_queue \<Rightarrow> bool" where
  "aq_owed q \<longleftrightarrow> aq_outstanding q = int (length (g_waiting q)) + int (length (aq_running q))"

definition aq_awake :: "admission_queue \<Rightarrow> bool" where
  "aq_awake q \<longleftrightarrow> pumped w_concurrencySafe q \<and> (aq_drainWaiters q \<noteq> [] \<longrightarrow> aq_outstanding q \<noteq> 0)"

definition aq_inv :: "admission_queue \<Rightarrow> bool" where
  "aq_inv q \<longleftrightarrow> aq_core q \<and> aq_ids q \<and> aq_owed q \<and> aq_awake q"

lemma started_of_append [simp]: "started_of (es @ fs) = started_of es @ started_of fs"
  by (induction es rule: started_of.induct) auto

lemma started_of_map [simp]: "started_of (map (Started \<circ> f) ws) = map f ws"
  by (induction ws) auto

lemma started_of_drained [simp]: "started_of (map Drained ds) = []"
  by (induction ds) auto

lemma started_mem: "Started i \<in> set (aq_log q) \<longleftrightarrow> i \<in> set (started_ids q)"
proof -
  have "Started i \<in> set es \<longleftrightarrow> i \<in> set (started_of es)" for es
    by (induction es rule: started_of.induct) auto
  then show ?thesis by (simp add: started_ids_def)
qed

lemma started_ids_start_all [simp]:
  "started_ids (aq_start_all ws q) = started_ids q @ map w_id ws"
  by (simp add: started_ids_def aq_start_all_def)

lemma started_ids_upd [simp]:
  "started_ids (q\<lparr>g_waiting := ws\<rparr>) = started_ids q" "started_ids (q\<lparr>g_activeSafe := n\<rparr>) = started_ids q"
  "started_ids (q\<lparr>g_activeUnsafe := b\<rparr>) = started_ids q" "started_ids (q\<lparr>aq_outstanding := n\<rparr>) = started_ids q"
  "started_ids (q\<lparr>aq_drainWaiters := ds\<rparr>) = started_ids q" "started_ids (q\<lparr>aq_running := rs\<rparr>) = started_ids q"
  by (simp_all add: started_ids_def)

text \<open>Pumping keeps everything and leaves nothing to start.\<close>

lemma aq_pump_spec:
  obtains adm q' where "pump_gate w_concurrencySafe q = (adm, q')" "aq_pump q = aq_start_all adm q'"
    "g_waiting q = adm @ g_waiting q'" "aq_outstanding q' = aq_outstanding q"
    "aq_drainWaiters q' = aq_drainWaiters q" "aq_running q' = aq_running q" "aq_log q' = aq_log q"
proof -
  obtain adm q' where p: "pump_gate w_concurrencySafe q = (adm, q')" by force
  then have "gate.more q' = gate.more q" by (rule pump_gate_more)
  then have "aq_outstanding q' = aq_outstanding q" "aq_drainWaiters q' = aq_drainWaiters q"
    "aq_running q' = aq_running q" "aq_log q' = aq_log q"
    by (cases q; cases q'; simp)+
  with pump_gate_split [OF p] show ?thesis by (intro that [OF p]) (simp_all add: aq_pump_def p)
qed

lemma aq_pump_keeps:
  assumes "aq_core q" "aq_ids q" "aq_owed q"
  shows "aq_core (aq_pump q)" "aq_ids (aq_pump q)" "aq_owed (aq_pump q)"
    "pumped w_concurrencySafe (aq_pump q)" "aq_outstanding (aq_pump q) = aq_outstanding q"
    "aq_drainWaiters (aq_pump q) = aq_drainWaiters q"
    "started_ids (aq_pump q) @ map w_id (g_waiting (aq_pump q)) = started_ids q @ map w_id (g_waiting q)"
proof -
  obtain adm q' where p: "pump_gate w_concurrencySafe q = (adm, q')" and
    eq: "aq_pump q = aq_start_all adm q'" "g_waiting q = adm @ g_waiting q'" "aq_outstanding q' = aq_outstanding q"
    "aq_drainWaiters q' = aq_drainWaiters q" "aq_running q' = aq_running q" "aq_log q' = aq_log q"
    by (rule aq_pump_spec)
  have ids: "started_ids q' = started_ids q" by (simp add: started_ids_def eq)
  have disj: "set (g_waiting q) \<inter> set (aq_running q) = {}" and dist: "distinct (g_waiting q)"
    using assms(2) by (auto simp: aq_ids_def distinct_map)
  note counts = pump_gate_counts [OF p, of "set (aq_running q)", OF _ _ dist disj]
  show "aq_core (aq_pump q)"
    using counts(1,2) assms(1)
    by (simp add: aq_core_def eq(1) aq_start_all_def gate_counts_def eq)
  show "pumped w_concurrencySafe (aq_pump q)"
    using counts(3) assms(1) by (simp add: aq_core_def eq(1) aq_start_all_def pumped_def)
  show "aq_ids (aq_pump q)"
  proof -
    have i: "distinct (map w_id adm @ map w_id (g_waiting q'))" "distinct (map w_id (aq_running q))"
      "w_id ` set (aq_running q) \<subseteq> set (started_ids q)"
      "(w_id ` set adm \<union> w_id ` set (g_waiting q')) \<inter> set (started_ids q) = {}"
      using assms(2) unfolding aq_ids_def eq(2) by (simp_all add: image_Un)
    have "w_id ` set (aq_running q) \<inter> w_id ` set adm = {}" using i(3,4) by blast
    then show ?thesis
      using i by (auto simp: aq_ids_def eq(1) ids) (auto simp: aq_start_all_def eq)
  qed
  show "aq_owed (aq_pump q)" using assms(3) by (simp add: aq_owed_def eq(1) aq_start_all_def eq)
  show "aq_outstanding (aq_pump q) = aq_outstanding q" "aq_drainWaiters (aq_pump q) = aq_drainWaiters q"
    by (simp_all add: eq(1) aq_start_all_def eq)
  show "started_ids (aq_pump q) @ map w_id (g_waiting (aq_pump q)) = started_ids q @ map w_id (g_waiting q)"
    by (simp add: eq(1) ids) (simp add: aq_start_all_def eq)
qed

definition aq_pre :: "admission_queue \<Rightarrow> bool" where
  "aq_pre q \<longleftrightarrow> aq_core q \<and> aq_ids q \<and> aq_owed q"

definition drain_ok :: "admission_queue \<Rightarrow> bool" where
  "drain_ok q \<longleftrightarrow> (aq_drainWaiters q \<noteq> [] \<longrightarrow> aq_outstanding q \<noteq> 0)"

lemma aq_inv_iff: "aq_inv q \<longleftrightarrow> aq_pre q \<and> pumped w_concurrencySafe q \<and> drain_ok q"
  by (auto simp: aq_inv_def aq_pre_def aq_awake_def drain_ok_def)

lemma aq_pump_inv: "aq_pre q \<Longrightarrow> drain_ok q \<Longrightarrow> aq_inv (aq_pump q)"
  using aq_pump_keeps [of q] by (simp add: aq_inv_iff aq_pre_def drain_ok_def)

lemma aq_wake_sel [simp]:
  "g_waiting (aq_wake_drained q) = g_waiting q" "g_activeSafe (aq_wake_drained q) = g_activeSafe q"
  "g_activeUnsafe (aq_wake_drained q) = g_activeUnsafe q" "aq_running (aq_wake_drained q) = aq_running q"
  "aq_outstanding (aq_wake_drained q) = aq_outstanding q" "started_ids (aq_wake_drained q) = started_ids q"
  by (simp_all add: aq_wake_drained_def started_ids_def)

lemma aq_wake_keeps:
  "aq_pre (aq_wake_drained q) = aq_pre q" "drain_ok (aq_wake_drained q)"
  "pumped f (aq_wake_drained q) = pumped f q"
  by (simp_all add: aq_pre_def aq_core_def aq_ids_def aq_owed_def gate_counts_def pumped_def drain_ok_def)
     (simp add: aq_wake_drained_def)

lemma aq_wake_pump:
  assumes "aq_pre q"
  shows "aq_inv (aq_wake_drained (aq_pump q))"
    "started_ids (aq_wake_drained (aq_pump q)) @ map w_id (g_waiting (aq_wake_drained (aq_pump q)))
      = started_ids q @ map w_id (g_waiting q)"
    "aq_outstanding (aq_wake_drained (aq_pump q)) = aq_outstanding q"
proof -
  have "aq_pre (aq_pump q)" "pumped w_concurrencySafe (aq_pump q)"
    using assms aq_pump_keeps [of q] by (simp_all add: aq_pre_def)
  then show "aq_inv (aq_wake_drained (aq_pump q))" by (simp add: aq_inv_iff aq_wake_keeps)
  show "started_ids (aq_wake_drained (aq_pump q)) @ map w_id (g_waiting (aq_wake_drained (aq_pump q)))
      = started_ids q @ map w_id (g_waiting q)"
    "aq_outstanding (aq_wake_drained (aq_pump q)) = aq_outstanding q"
    using assms aq_pump_keeps(5,7) [of q] by (simp_all add: aq_pre_def)
qed

lemma distinct_map_remove1: "distinct (map f xs) \<Longrightarrow> distinct (map f (remove1 x xs))"
  by (induction xs) (auto dest: set_mp [OF set_remove1_subset])

lemma aq_onAbort_inv:
  assumes pre: "aq_pre q" and w: "w \<in> set (g_waiting q)"
  shows "aq_inv (aq_onAbort q w)"
    "started_ids (aq_onAbort q w) @ map w_id (g_waiting (aq_onAbort q w))
      = started_ids q @ map w_id (remove1 w (g_waiting q))"
    "aq_outstanding (aq_onAbort q w) = aq_outstanding q - 1"
proof -
  let ?r = "q\<lparr>g_waiting := remove1 w (g_waiting q)\<rparr>"
  let ?c = "?r\<lparr>aq_outstanding := aq_outstanding q - 1, aq_log := aq_log q @ [Aborted (w_id w)]\<rparr>"
  have "w_id w \<notin> set (started_ids q)" using pre w unfolding aq_pre_def aq_ids_def by blast
  then have "\<not> aq_started ?r w" by (simp add: aq_started_def flip: started_mem)
  then have c: "aq_cancel ?r w = aq_wake_drained ?c" by (simp add: aq_cancel_def)
  have s: "started_ids ?c = started_ids q" by (simp add: started_ids_def)
  have sub: "set (remove1 w (g_waiting q)) \<subseteq> set (g_waiting q)" by (rule set_remove1_subset)
  have dist: "distinct (map w_id (remove1 w (g_waiting q)))"
    using pre by (intro distinct_map_remove1) (simp add: aq_pre_def aq_ids_def)
  have "w_id ` set (remove1 w (g_waiting q)) \<inter> set (started_ids q) = {}"
  proof (rule disjoint_iff [THEN iffD2], intro allI impI)
    fix i assume "i \<in> w_id ` set (remove1 w (g_waiting q))"
    then have "i \<in> w_id ` set (g_waiting q)" using sub by blast
    then show "i \<notin> set (started_ids q)" using pre unfolding aq_pre_def aq_ids_def by blast
  qed
  then have ids: "aq_ids ?c"
    using pre dist unfolding aq_ids_def s aq_pre_def by simp
  have owed: "aq_owed ?c"
    using pre w length_pos_if_in_set [OF w]
    by (auto simp: aq_pre_def aq_owed_def length_remove1 of_nat_diff Suc_leI)
  have "aq_core ?c" using pre by (simp add: aq_pre_def aq_core_def gate_counts_def)
  with ids owed have "aq_pre ?c" by (simp add: aq_pre_def)
  then have p: "aq_pre (aq_wake_drained ?c)" by (simp only: aq_wake_keeps)
  show "aq_inv (aq_onAbort q w)"
    unfolding aq_onAbort_def c using p by (rule aq_pump_inv) (rule aq_wake_keeps)
  show "started_ids (aq_onAbort q w) @ map w_id (g_waiting (aq_onAbort q w))
      = started_ids q @ map w_id (remove1 w (g_waiting q))"
    "aq_outstanding (aq_onAbort q w) = aq_outstanding q - 1"
    unfolding aq_onAbort_def c
    using p aq_pump_keeps(5,7) [of "aq_wake_drained ?c"] by (simp_all add: aq_pre_def s)
qed

lemma aq_run_inv:
  assumes inv: "aq_inv q" and fresh: "w_id w \<notin> aq_seen q"
  shows "aq_inv (aq_run q w aborted)"
proof -
  let ?q = "q\<lparr>aq_outstanding := aq_outstanding q + 1, g_waiting := g_waiting q @ [w]\<rparr>"
  have ids: "w_id w \<notin> set (started_ids q)" "w_id w \<notin> w_id ` set (g_waiting q)"
    using fresh by (simp_all add: aq_seen_def started_mem)
  have pre: "aq_pre ?q"
    using inv ids
    by (auto simp: aq_inv_def aq_pre_def aq_core_def gate_counts_def aq_ids_def aq_owed_def)
  have dr: "drain_ok ?q"
    using inv by (auto simp: aq_inv_def aq_owed_def drain_ok_def aq_awake_def)
  show ?thesis
  proof (cases aborted)
    case True
    have "aq_inv (aq_onAbort ?q w)" using pre by (rule aq_onAbort_inv) simp
    then have "aq_pre (aq_onAbort ?q w)" "drain_ok (aq_onAbort ?q w)" by (simp_all add: aq_inv_iff)
    then have "aq_inv (aq_pump (aq_onAbort ?q w))" by (rule aq_pump_inv)
    then show ?thesis by (simp add: aq_run_def Let_def True)
  next
    case False
    have "aq_inv (aq_pump ?q)" using pre dr by (rule aq_pump_inv)
    then show ?thesis by (simp add: aq_run_def Let_def False)
  qed
qed

lemma aq_finish_inv:
  assumes inv: "aq_inv q" and w: "w \<in> set (aq_running q)"
  shows "aq_inv (aq_finish q w)"
    "started_ids (aq_finish q w) @ map w_id (g_waiting (aq_finish q w)) = started_ids q @ map w_id (g_waiting q)"
    "aq_outstanding (aq_finish q w) = aq_outstanding q - 1"
proof -
  let ?q1 = "q\<lparr>aq_running := remove1 w (aq_running q), aq_log := aq_log q @ [Settled (w_id w)]\<rparr>"
  let ?q2 = "if w_concurrencySafe w then ?q1\<lparr>g_activeSafe := g_activeSafe ?q1 - 1\<rparr>
    else ?q1\<lparr>g_activeUnsafe := False\<rparr>"
  let ?q3 = "?q2\<lparr>aq_outstanding := aq_outstanding ?q2 - 1\<rparr>"
  have q3: "g_waiting ?q3 = g_waiting q" "aq_running ?q3 = remove1 w (aq_running q)"
    "aq_outstanding ?q3 = aq_outstanding q - 1" "started_ids ?q3 = started_ids q"
    by (simp_all add: started_ids_def)
  have dist: "distinct (aq_running q)" using inv by (auto simp: aq_inv_def aq_ids_def distinct_map)
  have run: "set (remove1 w (aq_running q)) = set (aq_running q) - {w}" using dist by simp
  have core: "gate_counts w_concurrencySafe (set (aq_running q)) q" "exclusive w_concurrencySafe (set (aq_running q))"
    using inv by (simp_all add: aq_inv_def aq_core_def)
  have "aq_core ?q3"
    using gate_counts_remove [OF core w] by (auto simp: aq_core_def run gate_counts_def)
  moreover have "aq_ids ?q3"
    using inv dist unfolding aq_ids_def q3 run
    by (auto simp: aq_inv_def aq_ids_def distinct_map intro: inj_on_subset)
  moreover have "aq_owed ?q3"
    using inv w length_pos_if_in_set [OF w] unfolding aq_owed_def q3
    by (auto simp: aq_inv_def aq_owed_def length_remove1 of_nat_diff Suc_leI)
  ultimately have p3: "aq_pre ?q3" by (simp add: aq_pre_def)
  have fin: "aq_finish q w = aq_wake_drained (aq_pump ?q3)" by (simp add: aq_finish_def Let_def)
  show "aq_inv (aq_finish q w)"
    "started_ids (aq_finish q w) @ map w_id (g_waiting (aq_finish q w)) = started_ids q @ map w_id (g_waiting q)"
    "aq_outstanding (aq_finish q w) = aq_outstanding q - 1"
    unfolding fin aq_wake_pump(2,3) [OF p3] q3 by (rule aq_wake_pump(1) [OF p3] refl)+
qed

lemma aq_drain_inv:
  assumes "aq_inv q"
  shows "aq_inv (aq_drain q d)"
proof -
  have "aq_core (aq_drain q d) = aq_core q" "aq_ids (aq_drain q d) = aq_ids q" "aq_owed (aq_drain q d) = aq_owed q"
    "pumped w_concurrencySafe (aq_drain q d) = pumped w_concurrencySafe q"
    by (simp_all add: aq_drain_def aq_core_def gate_counts_def aq_ids_def started_ids_def aq_owed_def pumped_def)
  moreover have "drain_ok (aq_drain q d)"
    using assms by (auto simp: aq_inv_iff drain_ok_def aq_drain_def)
  ultimately show ?thesis using assms by (simp add: aq_inv_iff aq_pre_def)
qed

lemma aq_step_inv:
  assumes "aq_step q q'" "aq_inv q"
  shows "aq_inv q'"
  using assms(1)
proof cases
  case (aq_call w aborted)
  with assms(2) show ?thesis by (simp add: aq_run_inv)
next
  case (aq_abort w)
  with assms(2) show ?thesis by (simp add: aq_onAbort_inv(1) aq_inv_iff [of q])
next
  case (aq_settle w)
  with assms(2) show ?thesis by (simp add: aq_finish_inv(1))
next
  case (aq_wait d)
  with assms(2) show ?thesis by (simp add: aq_drain_inv)
qed

lemma aq_new_inv: "aq_inv new_queue"
  by (simp add: new_queue_def aq_inv_def aq_core_def gate_counts_def exclusive_def aq_ids_def
      started_ids_def aq_owed_def aq_awake_def pumped_def)

lemma aq_reachable_inv:
  assumes "aq_step\<^sup>*\<^sup>* new_queue q"
  shows "aq_inv q"
  using assms aq_new_inv by (rule reachable_invariant [where I = aq_inv]) (erule aq_step_inv)

text \<open>Settling running calls, one after the other: the order of what is still to start is kept.\<close>

lemma aq_finish_steps:
  assumes "(aq_finish_step ^^ n) q q'" "aq_inv q"
  shows "aq_inv q' \<and> aq_outstanding q' = aq_outstanding q - int n
    \<and> started_ids q' @ map w_id (g_waiting q') = started_ids q @ map w_id (g_waiting q)"
  using assms(1)
proof (induction n arbitrary: q')
  case 0
  then show ?case using assms(2) by simp
next
  case (Suc n)
  then obtain p where p: "(aq_finish_step ^^ n) q p" "aq_finish_step p q'" by (auto elim: relcomppE)
  from p(2) obtain w where "q' = aq_finish p w" "w \<in> set (aq_running p)" by (rule aq_finish_stepE)
  with Suc.IH [OF p(1)] aq_finish_inv [of p w] show ?case by simp
qed

lemma idle_running: "aq_inv q \<Longrightarrow> aq_running q = [] \<Longrightarrow> aq_outstanding q = 0 \<and> g_waiting q = [] \<and> aq_drainWaiters q = []"
  by (auto simp: aq_inv_def aq_core_def gate_counts_def aq_owed_def aq_awake_def pumped_def)

text \<open>
  C32. No call is lost. From any state the queue can reach, let the running calls settle in any order
  while nothing new arrives. At most as many can settle as are outstanding, and as long as fewer have,
  one is running and can settle: the queue never sits with waiting calls and nothing running. When all
  have settled, every waiting call was started, in the order it came, whoever awaits the drain has
  been released, and nothing is left. No assumption is made on which calls are safe.
\<close>

theorem queue_progress:
  assumes "aq_step\<^sup>*\<^sup>* new_queue q" "(aq_finish_step ^^ n) q q'"
  shows "int n \<le> aq_outstanding q
    \<and> (int n < aq_outstanding q \<longrightarrow> (\<exists>q''. aq_finish_step q' q''))
    \<and> (int n = aq_outstanding q \<longrightarrow> g_waiting q' = [] \<and> aq_running q' = [] \<and> aq_drainWaiters q' = []
        \<and> started_ids q' = started_ids q @ map w_id (g_waiting q))"
proof -
  have q': "aq_inv q'" "aq_outstanding q' = aq_outstanding q - int n"
    "started_ids q' @ map w_id (g_waiting q') = started_ids q @ map w_id (g_waiting q)"
    using aq_finish_steps [OF assms(2) aq_reachable_inv [OF assms(1)]] by simp_all
  have owed: "aq_outstanding q' = int (length (g_waiting q')) + int (length (aq_running q'))"
    using q'(1) by (simp add: aq_inv_def aq_owed_def)
  have "\<exists>q''. aq_finish_step q' q''" if "int n < aq_outstanding q"
  proof -
    have "aq_running q' \<noteq> []" using idle_running [OF q'(1)] q'(2) that by auto
    then obtain w where "w \<in> set (aq_running q')" by (meson last_in_set)
    then show ?thesis by (blast intro: aq_finish_step.intros)
  qed
  moreover have "g_waiting q' = [] \<and> aq_running q' = []" if "int n = aq_outstanding q"
  proof -
    have "length (g_waiting q') + length (aq_running q') = 0" using owed q'(2) that by linarith
    then show ?thesis by simp
  qed
  moreover have "int n \<le> aq_outstanding q" using owed q'(2) by simp
  ultimately show ?thesis using q'(3) idle_running [OF q'(1)] by auto
qed

text \<open>Two safe calls and a barrier behind them.\<close>

definition queue_a :: admission_queue where
  "queue_a = foldl (\<lambda>q w. aq_run q w False) new_queue
     [\<lparr>w_id = 1, w_concurrencySafe = True\<rparr>, \<lparr>w_id = 2, w_concurrencySafe = True\<rparr>,
      \<lparr>w_id = 3, w_concurrencySafe = False\<rparr>, \<lparr>w_id = 4, w_concurrencySafe = True\<rparr>]"

lemma aq_call_reachable:
  "aq_step\<^sup>*\<^sup>* s q \<Longrightarrow> w_id w \<notin> aq_seen q \<Longrightarrow> aq_step\<^sup>*\<^sup>* s (aq_run q w aborted)"
  by (blast intro: rtranclp.rtrancl_into_rtrancl aq_call)

lemmas queue_defs = new_queue_def aq_run_def aq_pump_def pump_gate_def aq_start_all_def aq_seen_def

lemma queue_a_reachable: "aq_step\<^sup>*\<^sup>* new_queue queue_a"
  unfolding queue_a_def foldl.simps
  by (intro aq_call_reachable rtranclp.rtrancl_refl) (simp_all add: queue_defs)

theorem queue_progress_witness:
  "started_ids queue_a = [1, 2] \<and> aq_outstanding queue_a = 4
    \<and> (\<exists>q'. aq_finish_step (aq_finish queue_a \<lparr>w_id = 2, w_concurrencySafe = True\<rparr>) q')"
proof -
  have s: "(aq_finish_step ^^ 1) queue_a (aq_finish queue_a \<lparr>w_id = 2, w_concurrencySafe = True\<rparr>)"
    unfolding relpowp_1 by (rule aq_finish_step.intros) code_simp
  have "started_ids queue_a = [1, 2]" "aq_outstanding queue_a = 4" by code_simp+
  with queue_progress [OF queue_a_reachable s] show ?thesis by simp
qed

text \<open>
  A call that is not concurrency safe is a barrier: in every reachable state of the queue, if one
  runs then nothing else runs, and \<^verbatim>\<open>activeSafe\<close> and \<^verbatim>\<open>activeUnsafe\<close> count what runs.
\<close>

theorem queue_barrier:
  assumes "aq_step\<^sup>*\<^sup>* new_queue q" "w \<in> set (aq_running q)" "\<not> w_concurrencySafe w"
  shows "aq_running q = [w] \<and> g_activeUnsafe q \<and> g_activeSafe q = 0"
proof -
  have inv: "aq_inv q" using assms(1) by (rule aq_reachable_inv)
  then have run: "set (aq_running q) = {w}"
    using assms(2,3) by (auto simp: aq_inv_def aq_core_def exclusive_def)
  moreover have "distinct (aq_running q)" using inv by (auto simp: aq_inv_def aq_ids_def distinct_map)
  ultimately have "aq_running q = [w]"
    by (metis distinct_card card_1_singleton_iff length_0_conv length_Suc_conv list.set_intros(1) One_nat_def singletonD)
  then show ?thesis using inv assms(3) by (simp add: aq_inv_def aq_core_def gate_counts_def)
qed

theorem queue_barrier_witness:
  "aq_running (aq_run new_queue \<lparr>w_id = 3, w_concurrencySafe = False\<rparr> False)
    = [\<lparr>w_id = 3, w_concurrencySafe = False\<rparr>]"
proof -
  have "aq_step\<^sup>*\<^sup>* new_queue (aq_run new_queue \<lparr>w_id = 3, w_concurrencySafe = False\<rparr> False)"
    by (intro r_into_rtranclp aq_call) (simp add: aq_seen_def new_queue_def)
  from queue_barrier [OF this, of "\<lparr>w_id = 3, w_concurrencySafe = False\<rparr>"] show ?thesis
    by (simp add: aq_run_def aq_pump_def pump_gate_def new_queue_def aq_start_all_def)
qed

end
