(* ===== verification/Scheduler.thy ===== *)
theory Scheduler imports Admission "HOL-Library.Multiset" begin

text \<open>
  \<^verbatim>\<open>packages/core-effects/src/effects/scheduler.ts\<close>, class \<^verbatim>\<open>NestedToolScheduler\<close>: root
  and child tool calls of one hierarchy under one global gate. A lease is its identity; its two
  members and the entry of the \<^verbatim>\<open>WeakMap\<close> \<^verbatim>\<open>states\<close> are one record. The asynchronous methods are
  split where they wait, so that calls interleave: \<^verbatim>\<open>close\<close> into its three parts, \<^verbatim>\<open>resume\<close>
  into the part before and the part after the admission. \<open>sc_frames\<close> is the local variable
  \<^verbatim>\<open>ancestors\<close> of every \<^verbatim>\<open>runChild\<close> in flight, whose \<^verbatim>\<open>catch\<close> and
  \<^verbatim>\<open>finally\<close> resume them.
\<close>

section \<open>State\<close>

record lease_state =
  ls_concurrencySafe :: bool
  ls_active :: bool
  ls_parent :: "nat option"
  ls_exclusiveRoot :: bool
  ls_ownsGlobalAdmission :: bool
  ls_closing :: bool
  ls_closed :: bool
  ls_suspendCount :: int
  ls_activeWaiters :: "nat list"
  ls_children :: admission_queue
  ls_admitted :: bool

record scheduler = "nat gate" +
  sc_states :: "nat \<Rightarrow> lease_state option"
  sc_frames :: "(nat \<times> nat list) list"

definition new_scheduler :: scheduler where
  "new_scheduler = \<lparr>g_waiting = [], g_activeSafe = 0, g_activeUnsafe = False,
     sc_states = (\<lambda>_. None), sc_frames = []\<rparr>"

definition upd_lease :: "nat \<Rightarrow> (lease_state \<Rightarrow> lease_state) \<Rightarrow> scheduler \<Rightarrow> scheduler" where
  "upd_lease l f s = (case sc_states s l of None \<Rightarrow> s
     | Some x \<Rightarrow> s\<lparr>sc_states := (sc_states s)(l \<mapsto> f x)\<rparr>)"

definition lease_safe :: "scheduler \<Rightarrow> nat \<Rightarrow> bool" where
  "lease_safe s l = (case sc_states s l of Some x \<Rightarrow> ls_concurrencySafe x | None \<Rightarrow> False)"

definition lease_active :: "scheduler \<Rightarrow> nat \<Rightarrow> bool" where
  "lease_active s l = (case sc_states s l of Some x \<Rightarrow> ls_active x | None \<Rightarrow> False)"

section \<open>The gate\<close>

definition sc_admit :: "nat \<Rightarrow> scheduler \<Rightarrow> scheduler" where
  "sc_admit l s = upd_lease l (\<lambda>x. x\<lparr>ls_active := True, ls_admitted := True\<rparr>) s"

definition sc_pump :: "scheduler \<Rightarrow> scheduler" where
  "sc_pump s = (let (adm, s') = pump_gate (lease_safe s) s in fold sc_admit adm s')"

definition sc_onAbort :: "scheduler \<Rightarrow> nat \<Rightarrow> scheduler" where
  "sc_onAbort s l = sc_pump (s\<lparr>g_waiting := remove1 l (g_waiting s)\<rparr>)"

definition sc_enqueue :: "scheduler \<Rightarrow> nat \<Rightarrow> bool \<Rightarrow> scheduler \<times> unit res" where
  "sc_enqueue s l aborted =
     (if lease_active s l then (s, Inl (PlainError ''nested tool lease is already active''))
      else let s1 = s\<lparr>g_waiting := g_waiting s @ [l]\<rparr>
           in (sc_pump (if aborted then sc_onAbort s1 l else s1), Inr ()))"

definition sc_release :: "scheduler \<Rightarrow> nat \<Rightarrow> scheduler \<times> unit res" where
  "sc_release s l =
     (if \<not> lease_active s l then (s, Inl (PlainError ''nested tool lease is not active''))
      else let s1 = upd_lease l (\<lambda>x. x\<lparr>ls_active := False\<rparr>) s;
               s2 = (if lease_safe s l then s1\<lparr>g_activeSafe := g_activeSafe s1 - 1\<rparr>
                     else s1\<lparr>g_activeUnsafe := False\<rparr>)
           in (sc_pump s2, Inr ()))"

section \<open>Leases\<close>

definition new_lease :: "bool \<Rightarrow> bool \<Rightarrow> nat option \<Rightarrow> bool \<Rightarrow> bool \<Rightarrow> lease_state" where
  "new_lease safe active parent ex owns = \<lparr>ls_concurrencySafe = safe, ls_active = active,
     ls_parent = parent, ls_exclusiveRoot = ex, ls_ownsGlobalAdmission = owns, ls_closing = False,
     ls_closed = False, ls_suspendCount = 0, ls_activeWaiters = [], ls_children = new_queue,
     ls_admitted = active\<rparr>"

definition sc_acquire :: "scheduler \<Rightarrow> nat \<Rightarrow> bool \<Rightarrow> nat option \<Rightarrow> bool \<Rightarrow> bool \<Rightarrow> scheduler \<times> unit res" where
  "sc_acquire s l safe parent ex aborted =
     sc_enqueue (s\<lparr>sc_states := (sc_states s)(l \<mapsto> new_lease safe False parent ex True)\<rparr>) l aborted"

definition sc_inheritedLease :: "scheduler \<Rightarrow> nat \<Rightarrow> bool \<Rightarrow> nat \<Rightarrow> scheduler" where
  "sc_inheritedLease s l safe parent =
     s\<lparr>sc_states := (sc_states s)(l \<mapsto> new_lease safe True (Some parent) True False)\<rparr>"

text \<open>
  \<^verbatim>\<open>safeAncestors\<close>, its loop on fuel: a lease's parent is registered before it, so the chain is no
  longer than the number of leases. \<^verbatim>\<open>None\<close> is the \<^verbatim>\<open>throw\<close> of \<^verbatim>\<open>state\<close>, and lack of fuel.
\<close>

fun sc_safeAncestors :: "nat \<Rightarrow> scheduler \<Rightarrow> nat \<Rightarrow> nat list option" where
  "sc_safeAncestors 0 s p = None"
| "sc_safeAncestors (Suc k) s p =
     (case sc_states s p of
        None \<Rightarrow> None
      | Some x \<Rightarrow>
          if ls_exclusiveRoot x then Some []
          else (case ls_parent x of
                  None \<Rightarrow> Some [p]
                | Some q \<Rightarrow> map_option (\<lambda>as. p # as) (sc_safeAncestors k s q)))"

definition sc_suspend :: "scheduler \<Rightarrow> nat \<Rightarrow> scheduler \<times> unit res" where
  "sc_suspend s l =
     (case sc_states s l of
        None \<Rightarrow> (s, Inl (PlainError ''unknown nested tool lease''))
      | Some x \<Rightarrow>
          let s1 = upd_lease l (\<lambda>x. x\<lparr>ls_suspendCount := ls_suspendCount x + 1\<rparr>) s
          in if ls_suspendCount x + 1 = 1 then sc_release s1 l else (s1, Inr ()))"

text \<open>The part of \<^verbatim>\<open>resume\<close> before it waits; \<open>w\<close> is who waits.\<close>

definition sc_resume :: "nat \<Rightarrow> scheduler \<Rightarrow> nat \<Rightarrow> scheduler \<times> unit res" where
  "sc_resume w s l =
     (case sc_states s l of
        None \<Rightarrow> (s, Inl (PlainError ''unknown nested tool lease''))
      | Some x \<Rightarrow>
          if ls_suspendCount x < 1 then (s, Inl (PlainError ''nested tool lease is not suspended''))
          else let s1 = upd_lease l (\<lambda>x. x\<lparr>ls_suspendCount := ls_suspendCount x - 1\<rparr>) s
            in if ls_suspendCount x - 1 = 0 then sc_enqueue s1 l False
               else (upd_lease l (\<lambda>x. x\<lparr>ls_activeWaiters := ls_activeWaiters x @ [w]\<rparr>) s1, Inr ()))"

text \<open>Its continuation once the lease is admitted again.\<close>

definition sc_resumed :: "scheduler \<Rightarrow> nat \<Rightarrow> scheduler" where
  "sc_resumed s l = upd_lease l (\<lambda>x. x\<lparr>ls_activeWaiters := []\<rparr>) s"

text \<open>\<^verbatim>\<open>Promise.all(ancestors.map(resume))\<close>: every resume starts, whatever the others do.\<close>

definition sc_resume_all :: "nat \<Rightarrow> nat list \<Rightarrow> scheduler \<Rightarrow> scheduler" where
  "sc_resume_all w as s = foldl (\<lambda>s a. fst (sc_resume w s a)) s as"

text \<open>\<^verbatim>\<open>close\<close>: up to the drain of the children, then to the wait for a suspension, then its end.\<close>

definition sc_close_begin :: "scheduler \<Rightarrow> nat \<Rightarrow> scheduler \<times> unit res" where
  "sc_close_begin s l =
     (case sc_states s l of
        None \<Rightarrow> (s, Inl (PlainError ''unknown nested tool lease''))
      | Some x \<Rightarrow>
          if ls_closed x then (s, Inl (PlainError ''nested tool lease is already closed''))
          else (upd_lease l (\<lambda>x. x\<lparr>ls_closing := True,
                  ls_children := aq_drain (ls_children x) l\<rparr>) s, Inr ()))"

definition sc_close_finish :: "scheduler \<Rightarrow> nat \<Rightarrow> scheduler \<times> unit res" where
  "sc_close_finish s l =
     (case sc_states s l of
        None \<Rightarrow> (s, Inl (PlainError ''unknown nested tool lease''))
      | Some x \<Rightarrow>
          let (s1, r) = (if ls_ownsGlobalAdmission x then sc_release s l
                         else (upd_lease l (\<lambda>x. x\<lparr>ls_active := False\<rparr>) s, Inr ()))
          in (case r of Inl e \<Rightarrow> (s1, Inl e)
              | Inr _ \<Rightarrow> (upd_lease l (\<lambda>x. x\<lparr>ls_closed := True\<rparr>) s1, Inr ())))"

definition sc_close_drained :: "scheduler \<Rightarrow> nat \<Rightarrow> scheduler \<times> unit res" where
  "sc_close_drained s l =
     (case sc_states s l of
        None \<Rightarrow> (s, Inl (PlainError ''unknown nested tool lease''))
      | Some x \<Rightarrow>
          if ls_suspendCount x > 0
          then (upd_lease l (\<lambda>x. x\<lparr>ls_activeWaiters := ls_activeWaiters x @ [l]\<rparr>) s, Inr ())
          else sc_close_finish s l)"

section \<open>Calls\<close>

text \<open>\<^verbatim>\<open>run\<close> without a parent, up to its admission.\<close>

definition sc_run_root :: "scheduler \<Rightarrow> nat \<Rightarrow> bool \<Rightarrow> bool \<Rightarrow> scheduler \<times> unit res" where
  "sc_run_root s l safe aborted = sc_acquire s l safe None (\<not> safe) aborted"

text \<open>\<^verbatim>\<open>run\<close> with a parent: it joins the queue of the parent's children.\<close>

definition sc_run_nested :: "scheduler \<Rightarrow> nat \<Rightarrow> waiter \<Rightarrow> bool \<Rightarrow> scheduler \<times> unit res" where
  "sc_run_nested s p w aborted =
     (case sc_states s p of
        None \<Rightarrow> (s, Inl (PlainError ''unknown nested tool lease''))
      | Some x \<Rightarrow>
          if ls_closing x \<or> ls_closed x then (s, Inl (PlainError ''nested tool parent lease is closed''))
          else (upd_lease p (\<lambda>x. x\<lparr>ls_children := aq_run (ls_children x) w aborted\<rparr>) s, Inr ()))"

text \<open>The loop of \<^verbatim>\<open>runChild\<close> that suspends the ancestors: a throw leaves the ones done suspended.\<close>

fun sc_suspend_all :: "nat list \<Rightarrow> scheduler \<Rightarrow> scheduler \<times> unit res" where
  "sc_suspend_all [] s = (s, Inr ())"
| "sc_suspend_all (a # as) s =
     (case sc_suspend s a of (s1, Inl e) \<Rightarrow> (s1, Inl e) | (s1, Inr _) \<Rightarrow> sc_suspend_all as s1)"

text \<open>\<^verbatim>\<open>runChild\<close> up to its admission.\<close>

definition sc_runChild :: "nat \<Rightarrow> scheduler \<Rightarrow> nat \<Rightarrow> bool \<Rightarrow> nat \<Rightarrow> bool \<Rightarrow> scheduler \<times> unit res" where
  "sc_runChild k s l safe p aborted =
     (case sc_states s p of
        None \<Rightarrow> (s, Inl (PlainError ''unknown nested tool lease''))
      | Some x \<Rightarrow>
          if ls_exclusiveRoot x then (sc_inheritedLease s l safe p, Inr ())
          else if safe then sc_acquire s l True (Some p) False aborted
          else (case sc_safeAncestors k s p of
                  None \<Rightarrow> (s, Inl (PlainError ''unknown nested tool lease''))
                | Some as \<Rightarrow>
                    (case sc_suspend_all as s of
                       (s1, Inl e) \<Rightarrow> (s1, Inl e)
                     | (s1, Inr _) \<Rightarrow>
                         sc_acquire (s1\<lparr>sc_frames := (l, as) # sc_frames s1\<rparr>) l False (Some p) True aborted)))"

text \<open>The \<^verbatim>\<open>catch\<close> after a refused admission and the \<^verbatim>\<open>finally\<close> after the close.\<close>

definition sc_unwind :: "scheduler \<Rightarrow> nat \<times> nat list \<Rightarrow> scheduler" where
  "sc_unwind s f = sc_resume_all (fst f) (snd f) (s\<lparr>sc_frames := remove1 f (sc_frames s)\<rparr>)"

definition sc_child_settled :: "scheduler \<Rightarrow> nat \<Rightarrow> waiter \<Rightarrow> scheduler" where
  "sc_child_settled s p w = upd_lease p (\<lambda>x. x\<lparr>ls_children := aq_finish (ls_children x) w\<rparr>) s"

section \<open>Steps\<close>

inductive sc_step :: "scheduler \<Rightarrow> scheduler \<Rightarrow> bool" where
  sc_root: "sc_states s l = None \<Longrightarrow> sc_step s (fst (sc_run_root s l safe aborted))"
| sc_ask: "sc_states s p = Some x \<Longrightarrow> ls_admitted x \<Longrightarrow> w_id w \<notin> aq_seen (ls_children x) \<Longrightarrow>
    sc_step s (fst (sc_run_nested s p w aborted))"
| sc_child: "sc_states s p = Some x \<Longrightarrow> w \<in> set (aq_running (ls_children x)) \<Longrightarrow>
    sc_states s (w_id w) = None \<Longrightarrow>
    sc_step s (fst (sc_runChild k s (w_id w) (w_concurrencySafe w) p aborted))"
| sc_abort: "l \<in> set (g_waiting s) \<Longrightarrow> sc_states s l = Some x \<Longrightarrow> \<not> ls_admitted x \<Longrightarrow>
    sc_step s (sc_onAbort s l)"
| sc_close: "sc_states s l = Some x \<Longrightarrow> ls_admitted x \<Longrightarrow> \<not> ls_closing x \<Longrightarrow>
    sc_step s (fst (sc_close_begin s l))"
| sc_drained: "sc_states s l = Some x \<Longrightarrow> ls_closing x \<Longrightarrow> \<not> ls_closed x \<Longrightarrow>
    aq_outstanding (ls_children x) = 0 \<Longrightarrow> l \<notin> set (ls_activeWaiters x) \<Longrightarrow>
    sc_step s (fst (sc_close_drained s l))"
| sc_woken: "sc_states s l = Some x \<Longrightarrow> ls_closing x \<Longrightarrow> \<not> ls_closed x \<Longrightarrow>
    aq_outstanding (ls_children x) = 0 \<Longrightarrow> l \<notin> set (ls_activeWaiters x) \<Longrightarrow>
    sc_step s (fst (sc_close_finish s l))"
| sc_refused: "(l, as) \<in> set (sc_frames s) \<Longrightarrow> l \<notin> set (g_waiting s) \<Longrightarrow>
    sc_states s l = Some x \<Longrightarrow> \<not> ls_admitted x \<Longrightarrow> sc_step s (sc_unwind s (l, as))"
| sc_finally: "(l, as) \<in> set (sc_frames s) \<Longrightarrow> sc_states s l = Some x \<Longrightarrow> ls_closed x \<Longrightarrow>
    sc_step s (sc_unwind s (l, as))"
| sc_admitted: "lease_active s l \<Longrightarrow> sc_step s (sc_resumed s l)"
| sc_settled: "sc_states s p = Some x \<Longrightarrow> w \<in> set (aq_running (ls_children x)) \<Longrightarrow>
    sc_step s (sc_child_settled s p w)"

section \<open>What an update of one lease changes\<close>

lemma sc_states_upd: "sc_states (upd_lease l f s) m = (if m = l then map_option f (sc_states s l) else sc_states s m)"
  by (simp add: upd_lease_def split: option.split)

lemma upd_lease_sel [simp]:
  "g_waiting (upd_lease l f s) = g_waiting s" "g_activeSafe (upd_lease l f s) = g_activeSafe s"
  "g_activeUnsafe (upd_lease l f s) = g_activeUnsafe s" "sc_frames (upd_lease l f s) = sc_frames s"
  by (simp_all add: upd_lease_def split: option.split)

lemma fold_admit_sel [simp]:
  "g_waiting (fold sc_admit adm s) = g_waiting s" "g_activeSafe (fold sc_admit adm s) = g_activeSafe s"
  "g_activeUnsafe (fold sc_admit adm s) = g_activeUnsafe s" "sc_frames (fold sc_admit adm s) = sc_frames s"
  by (induction adm arbitrary: s) (simp_all add: sc_admit_def)

lemma sc_states_admit: "sc_states (sc_admit l s) m =
    (if m = l then map_option (\<lambda>x. x\<lparr>ls_active := True, ls_admitted := True\<rparr>) (sc_states s l) else sc_states s m)"
  by (simp add: sc_admit_def sc_states_upd)

lemma fold_admit_states:
  "sc_states (fold sc_admit adm s) m =
    (if m \<in> set adm then map_option (\<lambda>x. x\<lparr>ls_active := True, ls_admitted := True\<rparr>) (sc_states s m) else sc_states s m)"
  by (induction adm arbitrary: s) (auto simp: sc_states_admit option.map_comp comp_def)

text \<open>The leases that hold a place under the gate, and the suspensions of a lease.\<close>

definition admitted_set :: "scheduler \<Rightarrow> nat set" where
  "admitted_set s = {l. \<exists>x. sc_states s l = Some x \<and> ls_ownsGlobalAdmission x \<and> ls_active x}"

definition owner :: "scheduler \<Rightarrow> nat \<Rightarrow> bool" where
  "owner s l \<longleftrightarrow> (\<exists>x. sc_states s l = Some x \<and> ls_ownsGlobalAdmission x)"

lemma admitted_iff: "l \<in> admitted_set s \<longleftrightarrow> owner s l \<and> lease_active s l"
  by (auto simp: admitted_set_def owner_def lease_active_def split: option.split)

definition suspensions :: "scheduler \<Rightarrow> nat \<Rightarrow> int" where
  "suspensions s l = (case sc_states s l of Some x \<Rightarrow> ls_suspendCount x | None \<Rightarrow> 0)"

definition gate_ok :: "scheduler \<Rightarrow> bool" where
  "gate_ok s \<longleftrightarrow> gate_counts (lease_safe s) (admitted_set s) s \<and> exclusive (lease_safe s) (admitted_set s)
     \<and> distinct (g_waiting s) \<and> (\<forall>l \<in> set (g_waiting s). owner s l \<and> \<not> lease_active s l)"

text \<open>
  \<open>H\<close> are the suspensions that frames still owe a resume. A lease whose suspensions are all owed is
  neither admitted nor waiting, so the resume that brings its count to zero may enqueue it.
\<close>

definition holds_ok :: "scheduler \<Rightarrow> nat multiset \<Rightarrow> bool" where
  "holds_ok s H \<longleftrightarrow> (\<forall>a. int (count H a) \<le> suspensions s a \<and> (a \<in># H \<longrightarrow> owner s a
     \<and> (int (count H a) = suspensions s a \<longrightarrow> a \<notin> set (g_waiting s) \<and> \<not> lease_active s a)))"

definition owners_ok :: "scheduler \<Rightarrow> bool" where
  "owners_ok s \<longleftrightarrow> (\<forall>l x. sc_states s l = Some x \<longrightarrow> \<not> ls_exclusiveRoot x \<longrightarrow> ls_ownsGlobalAdmission x)"

definition sc_ok :: "scheduler \<Rightarrow> nat multiset \<Rightarrow> bool" where
  "sc_ok s H \<longleftrightarrow> gate_ok s \<and> holds_ok s H \<and> owners_ok s"

definition owed :: "scheduler \<Rightarrow> nat multiset" where
  "owed s = sum_list (map (mset \<circ> snd) (sc_frames s))"

definition sc_pumped :: "scheduler \<Rightarrow> bool" where
  "sc_pumped s \<longleftrightarrow> pumped (lease_safe s) s"

text \<open>Two schedulers that agree on what the invariants read.\<close>

definition same_view :: "scheduler \<Rightarrow> scheduler \<Rightarrow> bool" where
  "same_view s t \<longleftrightarrow> g_waiting s = g_waiting t \<and> g_activeSafe s = g_activeSafe t
     \<and> g_activeUnsafe s = g_activeUnsafe t \<and> admitted_set s = admitted_set t
     \<and> lease_safe s = lease_safe t \<and> owner s = owner t \<and> lease_active s = lease_active t
     \<and> suspensions s = suspensions t \<and> (owners_ok s = owners_ok t)"

lemma same_view_ok: "same_view s t \<Longrightarrow> sc_ok s H = sc_ok t H" "same_view s t \<Longrightarrow> sc_pumped s = sc_pumped t"
  by (simp_all add: same_view_def sc_ok_def gate_ok_def holds_ok_def gate_counts_def sc_pumped_def pumped_def)

lemma upd_same_view:
  assumes "\<And>x. ls_active (f x) = ls_active x \<and> ls_concurrencySafe (f x) = ls_concurrencySafe x
    \<and> ls_ownsGlobalAdmission (f x) = ls_ownsGlobalAdmission x \<and> ls_suspendCount (f x) = ls_suspendCount x
    \<and> ls_exclusiveRoot (f x) = ls_exclusiveRoot x"
  shows "same_view (upd_lease l f s) s"
proof -
  have "owners_ok (upd_lease l f s) = owners_ok s"
    unfolding owners_ok_def sc_states_upd using assms by (auto split: if_splits)
  then show ?thesis
    by (auto simp: same_view_def admitted_set_def lease_safe_def owner_def lease_active_def
        suspensions_def sc_states_upd fun_eq_iff assms split: option.split)
qed

section \<open>Each operation keeps the gate\<close>

lemma sc_pump_split:
  obtains adm s' where "pump_gate (lease_safe s) s = (adm, s')" "sc_pump s = fold sc_admit adm s'"
    "g_waiting s = adm @ g_waiting s'" "sc_states s' = sc_states s" "sc_frames s' = sc_frames s"
proof -
  obtain adm s' where p: "pump_gate (lease_safe s) s = (adm, s')" by force
  then have "gate.more s' = gate.more s" by (rule pump_gate_more)
  then have "sc_states s' = sc_states s" "sc_frames s' = sc_frames s"
    by (cases s; cases s'; simp)+
  with pump_gate_split [OF p] show ?thesis by (intro that [OF p]) (simp_all add: sc_pump_def p)
qed

lemma sc_pump_ok:
  assumes g: "gate_ok s" and h: "holds_ok s H" and o: "owners_ok s"
  shows "sc_ok (sc_pump s) H" "sc_pumped (sc_pump s)"
proof -
  obtain adm s' where p: "pump_gate (lease_safe s) s = (adm, s')" and e: "sc_pump s = fold sc_admit adm s'"
    "g_waiting s = adm @ g_waiting s'" "sc_states s' = sc_states s" "sc_frames s' = sc_frames s"
    by (rule sc_pump_split)
  have own: "owner s a" if "a \<in> set adm" for a using g that by (simp add: gate_ok_def e(2))
  have safe: "lease_safe (sc_pump s) = lease_safe s"
    by (auto simp: e(1,3) lease_safe_def fold_admit_states fun_eq_iff split: option.split)
  have act: "lease_active (sc_pump s) a \<longleftrightarrow> lease_active s a \<or> a \<in> set adm" for a
    using own [of a] by (auto simp: e(1,3) lease_active_def fold_admit_states owner_def split: option.splits)
  have own': "owner (sc_pump s) a = owner s a" and cnt: "suspensions (sc_pump s) a = suspensions s a" for a
    by (auto simp: e(1,3) owner_def suspensions_def fold_admit_states split: option.split)
  have adms: "admitted_set (sc_pump s) = admitted_set s \<union> set adm"
    using own by (auto simp: admitted_iff act own')
  have o': "owners_ok (sc_pump s)"
    using o by (auto simp: owners_ok_def e(1,3) fold_admit_states split: if_splits)
  have dist: "distinct (g_waiting s)" "set (g_waiting s) \<inter> admitted_set s = {}"
    using g by (auto simp: gate_ok_def admitted_set_def lease_active_def)
  have counts: "gate_counts (lease_safe s) (admitted_set s \<union> set adm) s'"
    "exclusive (lease_safe s) (admitted_set s \<union> set adm)" "pumped (lease_safe s) s'"
    using pump_gate_counts [OF p _ _ dist] g by (simp_all add: gate_ok_def)
  have wait: "\<forall>l \<in> set (g_waiting s'). owner s l \<and> \<not> (lease_active s l \<or> l \<in> set adm)"
    "distinct (g_waiting s')"
    using g dist(1) unfolding gate_ok_def e(2) by auto
  have sel: "g_waiting (sc_pump s) = g_waiting s'" "g_activeSafe (sc_pump s) = g_activeSafe s'"
    "g_activeUnsafe (sc_pump s) = g_activeUnsafe s'"
    by (simp_all add: e(1))
  have "gate_ok (sc_pump s)"
    unfolding gate_ok_def safe adms act own' sel
    using counts wait by (simp add: gate_counts_def sel)
  moreover have "holds_ok (sc_pump s) H"
    using h unfolding holds_ok_def cnt own' act sel e(2) by auto
  ultimately show "sc_ok (sc_pump s) H" using o' by (simp add: sc_ok_def)
  show "sc_pumped (sc_pump s)"
    using counts(3) by (simp add: sc_pumped_def safe pumped_def sel)
qed

definition sc_good :: "scheduler \<Rightarrow> nat multiset \<Rightarrow> bool" where
  "sc_good s H \<longleftrightarrow> sc_ok s H \<and> sc_pumped s"

lemma sc_pump_good: "sc_ok s H \<Longrightarrow> sc_good (sc_pump s) H"
  using sc_pump_ok [of s H] by (simp add: sc_good_def sc_ok_def)

lemma same_view_good: "same_view s t \<Longrightarrow> sc_good s H = sc_good t H"
  by (simp add: sc_good_def same_view_ok)

lemma holds_weaken: "holds_ok s (add_mset a H) \<Longrightarrow> holds_ok s H"
proof -
  assume h: "holds_ok s (add_mset a H)"
  show "holds_ok s H"
    unfolding holds_ok_def
  proof (intro allI)
    fix b
    have "int (count H b) \<le> int (count (add_mset a H) b)" by simp
    moreover have "b \<in># H \<Longrightarrow> b \<in># add_mset a H" by simp
    ultimately show "int (count H b) \<le> suspensions s b \<and> (b \<in># H \<longrightarrow> owner s b
      \<and> (int (count H b) = suspensions s b \<longrightarrow> b \<notin> set (g_waiting s) \<and> \<not> lease_active s b))"
      using h unfolding holds_ok_def by (smt (verit, best))
  qed
qed

lemma good_weaken: "sc_good s (add_mset a H) \<Longrightarrow> sc_good s H"
  by (auto simp: sc_good_def sc_ok_def dest: holds_weaken)

text \<open>A lease that joins the queue.\<close>

lemma push_ok:
  assumes "sc_ok s H" "owner s l" "\<not> lease_active s l" "l \<notin> set (g_waiting s)"
    "\<not> (l \<in># H \<and> int (count H l) = suspensions s l)"
  shows "sc_ok (s\<lparr>g_waiting := g_waiting s @ [l]\<rparr>) H"
proof -
  let ?s = "s\<lparr>g_waiting := g_waiting s @ [l]\<rparr>"
  have v: "admitted_set ?s = admitted_set s" "lease_safe ?s = lease_safe s" "owner ?s = owner s"
    "lease_active ?s = lease_active s" "suspensions ?s = suspensions s" "owners_ok ?s = owners_ok s"
    by (auto simp: admitted_set_def lease_safe_def owner_def lease_active_def suspensions_def owners_ok_def fun_eq_iff)
  show ?thesis
    using assms by (auto simp: sc_ok_def gate_ok_def holds_ok_def v gate_counts_def)
qed

lemma drop_ok:
  assumes "sc_ok s H"
  shows "sc_ok (s\<lparr>g_waiting := remove1 l (g_waiting s)\<rparr>) H"
proof -
  let ?s = "s\<lparr>g_waiting := remove1 l (g_waiting s)\<rparr>"
  have v: "admitted_set ?s = admitted_set s" "lease_safe ?s = lease_safe s" "owner ?s = owner s"
    "lease_active ?s = lease_active s" "suspensions ?s = suspensions s" "owners_ok ?s = owners_ok s"
    by (auto simp: admitted_set_def lease_safe_def owner_def lease_active_def suspensions_def owners_ok_def fun_eq_iff)
  have "set (remove1 l (g_waiting s)) \<subseteq> set (g_waiting s)" by (rule set_remove1_subset)
  then show ?thesis
    using assms by (auto simp: sc_ok_def gate_ok_def holds_ok_def v gate_counts_def)
qed

lemma sc_onAbort_good: "sc_ok s H \<Longrightarrow> sc_good (sc_onAbort s l) H"
  unfolding sc_onAbort_def by (intro sc_pump_good drop_ok)

lemma sc_enqueue_good:
  assumes "sc_ok s H" "owner s l" "\<not> lease_active s l" "l \<notin> set (g_waiting s)"
    "\<not> (l \<in># H \<and> int (count H l) = suspensions s l)"
  shows "sc_good (fst (sc_enqueue s l aborted)) H"
proof -
  have p: "sc_ok (s\<lparr>g_waiting := g_waiting s @ [l]\<rparr>) H" using assms by (rule push_ok)
  have "sc_ok (sc_onAbort (s\<lparr>g_waiting := g_waiting s @ [l]\<rparr>) l) H"
    using sc_onAbort_good [OF p] by (simp add: sc_good_def)
  with p show ?thesis using assms(3) by (auto simp: sc_enqueue_def Let_def intro: sc_pump_good)
qed

text \<open>A lease that gives its place back.\<close>

definition released :: "scheduler \<Rightarrow> nat \<Rightarrow> scheduler" where
  "released s l = (let s1 = upd_lease l (\<lambda>x. x\<lparr>ls_active := False\<rparr>) s in
     if lease_safe s l then s1\<lparr>g_activeSafe := g_activeSafe s1 - 1\<rparr> else s1\<lparr>g_activeUnsafe := False\<rparr>)"

lemma sc_release_eq: "sc_release s l =
  (if lease_active s l then (sc_pump (released s l), Inr ())
   else (s, Inl (PlainError ''nested tool lease is not active'')))"
  by (simp add: sc_release_def released_def Let_def)

lemma released_view:
  "admitted_set (released s l) = admitted_set s - {l}" "lease_safe (released s l) = lease_safe s"
  "owner (released s l) = owner s" "lease_active (released s l) = (\<lambda>m. m \<noteq> l \<and> lease_active s m)"
  "suspensions (released s l) = suspensions s" "owners_ok (released s l) = owners_ok s"
  "g_waiting (released s l) = g_waiting s" "sc_frames (released s l) = sc_frames s"
proof -
  have st: "sc_states (released s l) m = (if m = l then map_option (\<lambda>x. x\<lparr>ls_active := False\<rparr>) (sc_states s l) else sc_states s m)" for m
    by (simp add: released_def Let_def sc_states_upd)
  show o: "owner (released s l) = owner s" and a: "lease_active (released s l) = (\<lambda>m. m \<noteq> l \<and> lease_active s m)"
    by (auto simp: owner_def lease_active_def st fun_eq_iff split: option.split)
  show "admitted_set (released s l) = admitted_set s - {l}"
    by (auto simp: admitted_iff o a)
  show "lease_safe (released s l) = lease_safe s" "suspensions (released s l) = suspensions s"
    by (auto simp: lease_safe_def suspensions_def st fun_eq_iff split: option.split)
  show "owners_ok (released s l) = owners_ok s"
    unfolding owners_ok_def st by (auto split: if_splits)
qed (simp_all add: released_def Let_def)

lemma released_ok:
  assumes s: "sc_ok s H" and l: "owner s l" "lease_active s l"
  shows "sc_ok (released s l) H"
proof -
  have in_set: "l \<in> admitted_set s" using l by (simp add: admitted_iff)
  have c: "gate_counts (lease_safe s) (admitted_set s) s" "exclusive (lease_safe s) (admitted_set s)"
    using s by (simp_all add: sc_ok_def gate_ok_def)
  have "gate_counts (lease_safe s) (admitted_set s - {l}) (released s l)"
    using gate_counts_remove(1,2) [OF c in_set] by (auto simp: released_def Let_def gate_counts_def)
  then have "gate_ok (released s l)"
    using s gate_counts_remove(3) [OF c in_set] unfolding sc_ok_def gate_ok_def released_view by simp
  moreover have "holds_ok (released s l) H"
    using s unfolding sc_ok_def holds_ok_def released_view by blast
  ultimately show ?thesis using s by (simp add: sc_ok_def released_view)
qed

lemma released_out:
  assumes s: "sc_ok s H" and l: "owner s l" "lease_active s l" and n: "int (count H l) + 1 \<le> suspensions s l"
  shows "sc_ok (released s l) (add_mset l H)"
proof -
  have out: "l \<notin> set (g_waiting s)" using s l by (auto simp: sc_ok_def gate_ok_def)
  have h: "holds_ok (released s l) H" using released_ok [OF s l] by (simp add: sc_ok_def)
  have "holds_ok (released s l) (add_mset l H)"
    using h n out l(1) unfolding holds_ok_def released_view by auto
  then show ?thesis using released_ok [OF s l] by (simp add: sc_ok_def)
qed

lemma sc_release_good:
  assumes "sc_good s H" "owner s l"
  shows "sc_good (fst (sc_release s l)) H"
proof (cases "lease_active s l")
  case True
  have "sc_ok (released s l) H" using assms True by (intro released_ok) (simp_all add: sc_good_def)
  then show ?thesis by (simp add: sc_release_eq True sc_pump_good)
qed (simp add: sc_release_eq assms(1))


section \<open>Suspension\<close>

definition counted :: "(int \<Rightarrow> int) \<Rightarrow> scheduler \<Rightarrow> nat \<Rightarrow> scheduler" where
  "counted g s l = upd_lease l (\<lambda>x. x\<lparr>ls_suspendCount := g (ls_suspendCount x)\<rparr>) s"

lemma counted_view:
  "admitted_set (counted g s l) = admitted_set s" "lease_safe (counted g s l) = lease_safe s"
  "owner (counted g s l) = owner s" "lease_active (counted g s l) = lease_active s"
  "sc_states s l \<noteq> None \<Longrightarrow> suspensions (counted g s l) m = (if m = l then g (suspensions s l) else suspensions s m)"
  "owners_ok (counted g s l) = owners_ok s" "g_waiting (counted g s l) = g_waiting s"
  "sc_pumped (counted g s l) = sc_pumped s" "sc_frames (counted g s l) = sc_frames s"
proof -
  have st: "sc_states (counted g s l) m =
    (if m = l then map_option (\<lambda>x. x\<lparr>ls_suspendCount := g (ls_suspendCount x)\<rparr>) (sc_states s l) else sc_states s m)" for m
    by (simp add: counted_def sc_states_upd)
  show o: "owner (counted g s l) = owner s" and a: "lease_active (counted g s l) = lease_active s"
    by (auto simp: owner_def lease_active_def st fun_eq_iff split: option.split)
  show "admitted_set (counted g s l) = admitted_set s"
    by (auto simp: admitted_iff o a)
  show sf: "lease_safe (counted g s l) = lease_safe s"
    by (auto simp: lease_safe_def st fun_eq_iff split: option.split)
  show "sc_states s l \<noteq> None \<Longrightarrow> suspensions (counted g s l) m = (if m = l then g (suspensions s l) else suspensions s m)"
    by (auto simp: suspensions_def st)
  show "owners_ok (counted g s l) = owners_ok s"
    unfolding owners_ok_def st by (auto split: if_splits)
  show "sc_pumped (counted g s l) = sc_pumped s"
    by (simp add: sc_pumped_def sf pumped_def) (simp add: counted_def)
qed (simp_all add: counted_def)

lemma counted_ok:
  assumes "sc_ok s H" "holds_ok (counted g s l) H'"
  shows "sc_ok (counted g s l) H'"
proof -
  have "gate_counts f A (counted g s l) = gate_counts f A s" for f A
    by (simp add: gate_counts_def counted_def)
  then show ?thesis using assms by (simp add: sc_ok_def gate_ok_def counted_view)
qed

text \<open>A suspension that succeeds is owed a resume; one that throws is not.\<close>

lemma sc_suspend_good:
  assumes s: "sc_good s H" and l: "owner s l"
  shows "case sc_suspend s l of (s', Inr _) \<Rightarrow> sc_good s' (add_mset l H) | (s', Inl _) \<Rightarrow> sc_good s' H"
proof -
  let ?s = "counted (\<lambda>n. n + 1) s l"
  obtain x where x: "sc_states s l = Some x" using l by (auto simp: owner_def)
  then have susp: "suspensions s l = ls_suspendCount x" by (simp add: suspensions_def)
  have h: "holds_ok s H" and k: "sc_ok s H" "sc_pumped s" using s by (simp_all add: sc_good_def sc_ok_def)
  have cnt: "int (count H l) \<le> suspensions s l" using h by (simp add: holds_ok_def)
  have view: "suspensions ?s m = (if m = l then suspensions s l + 1 else suspensions s m)" for m
    using x by (simp add: counted_view)
  have more: "holds_ok ?s H"
    using h unfolding holds_ok_def counted_view(3,4,7) view by (smt (verit))
  have ok: "sc_ok ?s H" using k(1) more by (rule counted_ok)
  have eq: "sc_suspend s l = (if ls_suspendCount x + 1 = 1 then sc_release ?s l else (?s, Inr ()))"
    by (simp add: sc_suspend_def x counted_def Let_def)
  show ?thesis
  proof (cases "ls_suspendCount x = 0")
    case True
    then show ?thesis
    proof (cases "lease_active s l")
      case act: True
      have "sc_ok (released ?s l) (add_mset l H)"
        using ok l act cnt by (intro released_out) (simp_all add: counted_view view)
      then show ?thesis using True act by (simp add: eq sc_release_eq counted_view(4) sc_pump_good)
    next
      case False
      with ok k(2) True show ?thesis by (simp add: eq sc_release_eq counted_view(4,8) sc_good_def)
    qed
  next
    case False
    have "holds_ok ?s (add_mset l H)"
      unfolding holds_ok_def counted_view(3,4,7) view
    proof (intro allI)
      fix a
      have a: "int (count H a) \<le> suspensions s a \<and> (a \<in># H \<longrightarrow> owner s a \<and>
          (int (count H a) = suspensions s a \<longrightarrow> a \<notin> set (g_waiting s) \<and> \<not> lease_active s a))"
        using h by (simp add: holds_ok_def)
      have "l \<in># H" if "int (count H l) = suspensions s l"
        using that False susp by (auto simp flip: count_greater_zero_iff)
      with a l show "int (count (add_mset l H) a) \<le> (if a = l then suspensions s l + 1 else suspensions s a) \<and>
          (a \<in># add_mset l H \<longrightarrow> owner s a \<and>
          (int (count (add_mset l H) a) = (if a = l then suspensions s l + 1 else suspensions s a) \<longrightarrow>
           a \<notin> set (g_waiting s) \<and> \<not> lease_active s a))"
        by (cases "a = l") auto
    qed
    with k have "sc_good ?s (add_mset l H)" by (simp add: sc_good_def counted_ok counted_view)
    then show ?thesis using False by (simp add: eq)
  qed
qed

lemma sc_resume_good:
  assumes s: "sc_good s (add_mset l H)"
  shows "sc_good (fst (sc_resume w s l)) H"
proof -
  let ?s = "counted (\<lambda>n. n - 1) s l"
  have h: "holds_ok s (add_mset l H)" and k: "sc_ok s (add_mset l H)" "sc_pumped s"
    using s by (simp_all add: sc_good_def sc_ok_def)
  have l: "owner s l" and cnt: "int (count H l) + 1 \<le> suspensions s l"
    and out: "int (count H l) + 1 = suspensions s l \<Longrightarrow> l \<notin> set (g_waiting s) \<and> \<not> lease_active s l"
    using h [unfolded holds_ok_def, rule_format, of l] by auto
  obtain x where x: "sc_states s l = Some x" using l by (auto simp: owner_def)
  then have susp: "suspensions s l = ls_suspendCount x" by (simp add: suspensions_def)
  have view: "suspensions ?s m = (if m = l then suspensions s l - 1 else suspensions s m)" for m
    using x by (simp add: counted_view)
  have "holds_ok ?s H"
    unfolding holds_ok_def counted_view(3,4,7) view
  proof (intro allI)
    fix a
    show "int (count H a) \<le> (if a = l then suspensions s l - 1 else suspensions s a) \<and> (a \<in># H \<longrightarrow> owner s a \<and>
        (int (count H a) = (if a = l then suspensions s l - 1 else suspensions s a) \<longrightarrow>
         a \<notin> set (g_waiting s) \<and> \<not> lease_active s a))"
      using h [unfolded holds_ok_def, rule_format, of a] by (cases "a = l") auto
  qed
  then have ok: "sc_ok ?s H" using k(1) by (intro counted_ok)
  have eq: "sc_resume w s l = (if ls_suspendCount x - 1 = 0 then sc_enqueue ?s l False
      else (upd_lease l (\<lambda>x. x\<lparr>ls_activeWaiters := ls_activeWaiters x @ [w]\<rparr>) ?s, Inr ()))"
    using cnt susp by (simp add: sc_resume_def x counted_def Let_def)
  show ?thesis
  proof (cases "ls_suspendCount x = 1")
    case True
    then have "int (count H l) + 1 = suspensions s l" using cnt susp by simp
    with out have "l \<notin> set (g_waiting s)" "\<not> lease_active s l" by simp_all
    then have "sc_good (fst (sc_enqueue ?s l False)) H"
      using ok l True cnt susp
      by (intro sc_enqueue_good) (auto simp: counted_view view simp flip: count_greater_zero_iff)
    then show ?thesis using True by (simp add: eq)
  next
    case False
    have "sc_good ?s H" using ok k(2) by (simp add: sc_good_def counted_view)
    then have "sc_good (upd_lease l (\<lambda>x. x\<lparr>ls_activeWaiters := ls_activeWaiters x @ [w]\<rparr>) ?s) H"
      by (subst same_view_good [OF upd_same_view]) simp_all
    then show ?thesis using False by (simp add: eq)
  qed
qed


section \<open>Whole calls\<close>

lemma sc_pump_frames [simp]: "sc_frames (sc_pump s) = sc_frames s"
  by (rule sc_pump_split [of s]) simp

lemma sc_pump_dom: "sc_states (sc_pump s) m = None \<longleftrightarrow> sc_states s m = None"
  by (rule sc_pump_split [of s]) (simp add: fold_admit_states)

lemma sc_pump_owner: "owner (sc_pump s) = owner s"
  by (rule sc_pump_split [of s]) (auto simp: fold_admit_states owner_def fun_eq_iff)

lemma upd_dom: "sc_states (upd_lease l f s) m = None \<longleftrightarrow> sc_states s m = None"
  by (simp add: sc_states_upd)

lemma sc_release_keeps:
  "sc_frames (fst (sc_release s l)) = sc_frames s"
  "sc_states (fst (sc_release s l)) m = None \<longleftrightarrow> sc_states s m = None"
  "owner (fst (sc_release s l)) = owner s"
  by (simp_all add: sc_release_eq released_view sc_pump_owner sc_pump_dom)
     (simp add: released_def Let_def upd_dom)

lemma sc_suspend_keeps:
  assumes "sc_suspend s l = (s', r)"
  shows "sc_frames s' = sc_frames s" "sc_states s' m = None \<longleftrightarrow> sc_states s m = None" "owner s' = owner s"
proof -
  let ?s = "counted (\<lambda>n. n + 1) s l"
  have d: "sc_states ?s m = None \<longleftrightarrow> sc_states s m = None" by (simp add: counted_def upd_dom)
  have "s' = s \<or> s' = ?s \<or> s' = fst (sc_release ?s l)"
    using assms by (auto simp: sc_suspend_def counted_def Let_def split: option.splits if_splits)
  then show "sc_frames s' = sc_frames s" "sc_states s' m = None \<longleftrightarrow> sc_states s m = None" "owner s' = owner s"
    using sc_release_keeps [of ?s l] d by (auto simp: counted_view)
qed

lemma sc_suspend_all_good:
  assumes "sc_good s H" "list_all (owner s) as"
  shows "(case sc_suspend_all as s of (s', Inr _) \<Rightarrow> sc_good s' (mset as + H) | (s', Inl _) \<Rightarrow> sc_good s' H)
    \<and> sc_frames (fst (sc_suspend_all as s)) = sc_frames s
    \<and> (\<forall>m. sc_states (fst (sc_suspend_all as s)) m = None \<longleftrightarrow> sc_states s m = None)"
  using assms
proof (induction as arbitrary: s H)
  case (Cons a as)
  obtain s1 r where sus: "sc_suspend s a = (s1, r)" by force
  note keeps = sc_suspend_keeps [OF sus]
  have g: "case r of Inl _ \<Rightarrow> sc_good s1 H | Inr _ \<Rightarrow> sc_good s1 (add_mset a H)"
    using sc_suspend_good [of s H a] Cons.prems sus by simp
  show ?case
  proof (cases r)
    case (Inl e)
    then show ?thesis using g keeps by (simp add: sus)
  next
    case (Inr u)
    with g have g1: "sc_good s1 (add_mset a H)" by simp
    have "list_all (owner s1) as" using Cons.prems(2) keeps(3) by simp
    note IH = Cons.IH [OF g1 this]
    show ?thesis
    proof (cases "snd (sc_suspend_all as s1)")
      case (Inl e)
      then show ?thesis using IH keeps Inr
        by (auto simp: sus split: prod.splits intro: good_weaken)
    next
      case (Inr v)
      then show ?thesis using IH keeps \<open>r = Inr u\<close>
        by (auto simp: sus split: prod.splits)
    qed
  qed
qed simp

lemma sc_resume_frames [simp]: "sc_frames (fst (sc_resume w s l)) = sc_frames s"
  by (auto simp: sc_resume_def sc_enqueue_def Let_def split: option.splits)

lemma sc_resume_all_good:
  "sc_good s (mset as + H) \<Longrightarrow> sc_good (sc_resume_all w as s) H"
  unfolding sc_resume_all_def by (induction as arbitrary: s) (auto dest: sc_resume_good)

lemma sc_resume_all_frames [simp]: "sc_frames (sc_resume_all w as s) = sc_frames s"
  unfolding sc_resume_all_def by (induction as arbitrary: s) auto

text \<open>A lease registered for the first time.\<close>

lemma new_lease_good:
  assumes s: "sc_good s H" and fresh: "sc_states s l = None"
    and x: "ls_ownsGlobalAdmission x \<Longrightarrow> \<not> ls_active x" "\<not> ls_exclusiveRoot x \<Longrightarrow> ls_ownsGlobalAdmission x"
      "ls_suspendCount x = 0"
  shows "sc_good (s\<lparr>sc_states := (sc_states s)(l \<mapsto> x)\<rparr>) H"
    "l \<notin> set (g_waiting s)" "l \<notin># H"
proof -
  let ?s = "s\<lparr>sc_states := (sc_states s)(l \<mapsto> x)\<rparr>"
  have no: "\<not> owner s l" using fresh by (simp add: owner_def)
  show w: "l \<notin> set (g_waiting s)" using s no by (auto simp: sc_good_def sc_ok_def gate_ok_def)
  show H: "l \<notin># H" using s no by (auto simp: sc_good_def sc_ok_def holds_ok_def)
  have adm: "admitted_set ?s = admitted_set s"
    using fresh x(1) by (auto simp: admitted_set_def)
  have notin: "l \<notin> admitted_set s" using no by (simp add: admitted_iff)
  have other: "lease_safe ?s m = lease_safe s m" "owner ?s m = owner s m" "lease_active ?s m = lease_active s m"
    "suspensions ?s m = suspensions s m" if "m \<noteq> l" for m
    using that by (simp_all add: lease_safe_def owner_def lease_active_def suspensions_def)
  have susp: "suspensions ?s l = suspensions s l" using fresh x(3) by (simp add: suspensions_def)
  have eq: "{w \<in> admitted_set s. lease_safe ?s w} = {w \<in> admitted_set s. lease_safe s w}"
    "(\<exists>w \<in> admitted_set s. \<not> lease_safe ?s w) = (\<exists>w \<in> admitted_set s. \<not> lease_safe s w)"
    using notin other(1) by (auto, metis)+
  have ne: "m \<noteq> l" if "m \<in> admitted_set s \<or> m \<in> set (g_waiting s) \<or> m \<in># H" for m
    using that notin w H by blast
  have "gate_counts (lease_safe ?s) (admitted_set s) ?s"
    using s by (simp add: sc_good_def sc_ok_def gate_ok_def gate_counts_def eq)
  moreover have "exclusive (lease_safe ?s) (admitted_set s)"
    using s notin other(1) unfolding sc_good_def sc_ok_def gate_ok_def exclusive_def by metis
  moreover have "\<forall>m \<in> set (g_waiting s). owner ?s m \<and> \<not> lease_active ?s m"
    using s ne other(2,3) unfolding sc_good_def sc_ok_def gate_ok_def by metis
  ultimately have "gate_ok ?s" using s by (simp add: sc_good_def sc_ok_def gate_ok_def adm)
  moreover have "holds_ok ?s H"
    unfolding holds_ok_def
  proof (intro allI)
    fix a
    show "int (count H a) \<le> suspensions ?s a \<and> (a \<in># H \<longrightarrow> owner ?s a \<and>
        (int (count H a) = suspensions ?s a \<longrightarrow> a \<notin> set (g_waiting ?s) \<and> \<not> lease_active ?s a))"
      using s [unfolded sc_good_def sc_ok_def holds_ok_def] other [of a] susp H by (cases "a = l") auto
  qed
  moreover have "owners_ok ?s" using s x(2) by (simp add: sc_good_def sc_ok_def owners_ok_def)
  moreover have "sc_pumped ?s"
  proof -
    have "hd (g_waiting s) \<noteq> l" if "g_waiting s \<noteq> []" using that w by (metis hd_in_set)
    then show ?thesis using s other(1) by (auto simp: sc_good_def sc_pumped_def pumped_def)
  qed
  ultimately show "sc_good ?s H" by (simp add: sc_good_def sc_ok_def)
qed

lemma sc_acquire_good:
  assumes "sc_good s H" "sc_states s l = None"
  shows "sc_good (fst (sc_acquire s l safe parent ex aborted)) H"
proof -
  let ?x = "new_lease safe False parent ex True"
  have x: "ls_ownsGlobalAdmission ?x" "\<not> ls_active ?x" "ls_suspendCount ?x = 0" by (simp_all add: new_lease_def)
  note n = new_lease_good [OF assms, of ?x]
  show ?thesis
    unfolding sc_acquire_def using n x
    by (intro sc_enqueue_good) (simp_all add: sc_good_def owner_def lease_active_def)
qed

lemma sc_inherited_good:
  assumes "sc_good s H" "sc_states s l = None"
  shows "sc_good (sc_inheritedLease s l safe p) H"
  unfolding sc_inheritedLease_def by (rule new_lease_good(1) [OF assms]) (simp_all add: new_lease_def)

lemma safeAncestors_owners:
  "owners_ok s \<Longrightarrow> sc_safeAncestors k s p = Some as \<Longrightarrow> list_all (owner s) as"
proof (induction k arbitrary: p as)
  case (Suc k)
  then show ?case
    by (auto simp: owner_def owners_ok_def split: option.splits if_splits)
qed simp

lemma sc_frames_upd [simp]: "sc_good (s\<lparr>sc_frames := fs\<rparr>) H = sc_good s H"
  by (rule same_view_good)
     (auto simp: same_view_def admitted_set_def lease_safe_def owner_def lease_active_def suspensions_def owners_ok_def fun_eq_iff)

lemma owed_frames: "owed (s\<lparr>sc_frames := f # fs\<rparr>) = mset (snd f) + owed (s\<lparr>sc_frames := fs\<rparr>)"
  by (simp add: owed_def)

lemma sc_acquire_frames [simp]: "sc_frames (fst (sc_acquire s l safe parent ex aborted)) = sc_frames s"
  by (simp add: sc_acquire_def sc_enqueue_def sc_onAbort_def Let_def)

lemma owed_eq: "sc_frames s = sc_frames t \<Longrightarrow> owed s = owed t"
  by (simp add: owed_def)

definition sc_inv :: "scheduler \<Rightarrow> bool" where
  "sc_inv s \<longleftrightarrow> sc_good s (owed s)"

lemma sc_runChild_inv:
  assumes inv: "sc_inv s" and fresh: "sc_states s l = None"
  shows "sc_inv (fst (sc_runChild k s l safe p aborted))"
proof (cases "sc_states s p")
  case None
  then show ?thesis using inv by (simp add: sc_runChild_def)
next
  case (Some x)
  have good: "sc_good s (owed s)" using inv by (simp add: sc_inv_def)
  consider (inherit) "ls_exclusiveRoot x" | (safe) "\<not> ls_exclusiveRoot x" safe
    | (lost) "\<not> ls_exclusiveRoot x" "\<not> safe" "sc_safeAncestors k s p = None"
    | (chain) as where "\<not> ls_exclusiveRoot x" "\<not> safe" "sc_safeAncestors k s p = Some as"
    by fastforce
  then show ?thesis
  proof cases
    case inherit
    then show ?thesis
      using sc_inherited_good [OF good fresh]
      by (simp add: sc_runChild_def Some sc_inv_def sc_inheritedLease_def owed_def)
  next
    case safe
    then show ?thesis
      using sc_acquire_good [OF good fresh] by (simp add: sc_runChild_def Some sc_inv_def owed_def)
  next
    case lost
    then show ?thesis using inv by (simp add: sc_runChild_def Some)
  next
    case chain
    obtain s1 r where sus: "sc_suspend_all as s = (s1, r)" by force
    have "list_all (owner s) as"
      using inv chain(3) by (intro safeAncestors_owners) (simp_all add: sc_inv_def sc_good_def sc_ok_def)
    note all = sc_suspend_all_good [OF good this, unfolded sus, simplified]
    show ?thesis
    proof (cases r)
      case (Inl e)
      then show ?thesis using all chain by (simp add: sc_runChild_def Some sus sc_inv_def owed_eq [of s1 s])
    next
      case (Inr u)
      let ?t = "s1\<lparr>sc_frames := (l, as) # sc_frames s1\<rparr>"
      have "sc_good ?t (mset as + owed s)" "sc_states ?t l = None" using all Inr fresh by simp_all
      then have "sc_good (fst (sc_acquire ?t l False (Some p) True aborted)) (mset as + owed s)"
        by (rule sc_acquire_good)
      moreover have "owed (fst (sc_acquire ?t l False (Some p) True aborted)) = mset as + owed s"
        using all by (simp add: owed_def)
      ultimately show ?thesis using chain Inr by (simp add: sc_runChild_def Some sus sc_inv_def)
    qed
  qed
qed

lemma owed_remove1:
  "f \<in> set (sc_frames s) \<Longrightarrow> owed s = mset (snd f) + owed (s\<lparr>sc_frames := remove1 f (sc_frames s)\<rparr>)"
  by (simp add: owed_def sum_list_map_remove1)

lemma sc_unwind_inv:
  assumes "sc_inv s" "f \<in> set (sc_frames s)"
  shows "sc_inv (sc_unwind s f)"
proof -
  let ?t = "s\<lparr>sc_frames := remove1 f (sc_frames s)\<rparr>"
  have "sc_good ?t (mset (snd f) + owed ?t)"
    using assms by (simp add: sc_inv_def flip: owed_remove1)
  then have "sc_good (sc_resume_all (fst f) (snd f) ?t) (owed ?t)" by (rule sc_resume_all_good)
  moreover have "owed (sc_resume_all (fst f) (snd f) ?t) = owed ?t" by (rule owed_eq) simp
  ultimately show ?thesis by (simp add: sc_inv_def sc_unwind_def)
qed

lemma sc_upd_inv:
  assumes "sc_inv s" "\<And>x. ls_active (f x) = ls_active x \<and> ls_concurrencySafe (f x) = ls_concurrencySafe x
    \<and> ls_ownsGlobalAdmission (f x) = ls_ownsGlobalAdmission x \<and> ls_suspendCount (f x) = ls_suspendCount x
    \<and> ls_exclusiveRoot (f x) = ls_exclusiveRoot x"
  shows "sc_inv (upd_lease l f s)"
  using assms(1) same_view_good [OF upd_same_view [OF assms(2)], of l s]
  by (simp add: sc_inv_def owed_def)

lemma inherited_off_good:
  assumes s: "sc_good s H" and no: "\<not> owner s l"
  shows "sc_good (upd_lease l (\<lambda>x. x\<lparr>ls_active := False\<rparr>) s) H"
proof -
  let ?s = "upd_lease l (\<lambda>x. x\<lparr>ls_active := False\<rparr>) s"
  have v: "admitted_set ?s = admitted_set s" "lease_safe ?s = lease_safe s" "owner ?s = owner s"
    "suspensions ?s = suspensions s"
    using no
    by (auto simp: admitted_set_def lease_safe_def owner_def suspensions_def sc_states_upd fun_eq_iff split: option.split if_splits)
  have a: "lease_active ?s m \<Longrightarrow> lease_active s m" for m
    by (auto simp: lease_active_def sc_states_upd split: option.splits if_splits)
  have o: "owners_ok ?s = owners_ok s"
    unfolding owners_ok_def sc_states_upd by (auto split: if_splits)
  have "gate_ok ?s"
    using s a by (auto simp: sc_good_def sc_ok_def gate_ok_def v gate_counts_def)
  moreover have "holds_ok ?s H"
    using s a unfolding sc_good_def sc_ok_def holds_ok_def v upd_lease_sel by blast
  moreover have "sc_pumped ?s" using s by (simp add: sc_good_def sc_pumped_def v pumped_def)
  ultimately show ?thesis using s o by (simp add: sc_good_def sc_ok_def)
qed

lemma sc_close_finish_inv:
  assumes inv: "sc_inv s"
  shows "sc_inv (fst (sc_close_finish s l))"
proof (cases "sc_states s l")
  case None
  then show ?thesis using inv by (simp add: sc_close_finish_def)
next
  case (Some x)
  have good: "sc_good s (owed s)" using inv by (simp add: sc_inv_def)
  show ?thesis
  proof (cases "ls_ownsGlobalAdmission x")
    case True
    have g: "sc_good (fst (sc_release s l)) (owed s)"
      using good True Some by (intro sc_release_good) (simp_all add: owner_def)
    have "sc_inv (fst (sc_release s l))"
      using g by (simp add: sc_inv_def owed_eq [OF sc_release_keeps(1)])
    then show ?thesis using True
      by (auto simp: sc_close_finish_def Some split: prod.splits sum.splits intro!: sc_upd_inv)
  next
    case False
    then have "sc_inv (upd_lease l (\<lambda>x. x\<lparr>ls_active := False\<rparr>) s)"
      using inherited_off_good [OF good, of l] Some by (simp add: sc_inv_def owner_def owed_def)
    then show ?thesis using False by (auto simp: sc_close_finish_def Some intro!: sc_upd_inv)
  qed
qed

lemma sc_step_inv:
  assumes "sc_step s s'" "sc_inv s"
  shows "sc_inv s'"
  using assms(1)
proof cases
  case (sc_root l safe aborted)
  then show ?thesis
    using assms(2) sc_acquire_good [of s "owed s" l safe None "\<not> safe" aborted]
    by (simp add: sc_run_root_def sc_inv_def owed_def)
next
  case (sc_ask p x w aborted)
  then show ?thesis using assms(2) by (auto simp: sc_run_nested_def intro!: sc_upd_inv)
next
  case (sc_child p x w k aborted)
  then show ?thesis using assms(2) by (simp add: sc_runChild_inv)
next
  case (sc_abort l x)
  then show ?thesis
    using assms(2) sc_onAbort_good [of s "owed s" l] by (simp add: sc_inv_def sc_good_def sc_onAbort_def owed_def)
next
  case (sc_close l x)
  then show ?thesis using assms(2) by (auto simp: sc_close_begin_def intro!: sc_upd_inv)
next
  case (sc_drained l x)
  then show ?thesis
    using assms(2) sc_close_finish_inv [of s l] by (auto simp: sc_close_drained_def intro!: sc_upd_inv)
next
  case (sc_woken l x)
  then show ?thesis using assms(2) by (simp add: sc_close_finish_inv)
next
  case (sc_refused l as x)
  then show ?thesis using assms(2) by (simp add: sc_unwind_inv)
next
  case (sc_finally l as x)
  then show ?thesis using assms(2) by (simp add: sc_unwind_inv)
next
  case (sc_admitted l)
  then show ?thesis using assms(2) by (auto simp: sc_resumed_def intro!: sc_upd_inv)
next
  case (sc_settled p x w)
  then show ?thesis using assms(2) by (auto simp: sc_child_settled_def intro!: sc_upd_inv)
qed

lemma new_scheduler_inv: "sc_inv new_scheduler"
  by (simp add: sc_inv_def owed_def sc_good_def sc_ok_def gate_ok_def gate_counts_def exclusive_def holds_ok_def
      owners_ok_def sc_pumped_def pumped_def new_scheduler_def admitted_set_def suspensions_def)

lemma sc_reachable_inv:
  assumes "sc_step\<^sup>*\<^sup>* new_scheduler s"
  shows "sc_inv s"
  using assms new_scheduler_inv by (rule reachable_invariant [where I = sc_inv]) (erule sc_step_inv)


text \<open>One safe root whose safe child asks for an unsafe call: both ancestors stand back.\<close>

definition nest :: "nat \<Rightarrow> nat \<Rightarrow> bool \<Rightarrow> scheduler \<Rightarrow> scheduler" where
  "nest p i b s = fst (sc_runChild 9 (fst (sc_run_nested s p \<lparr>w_id = i, w_concurrencySafe = b\<rparr> False)) i b p False)"

definition sched_roots :: scheduler where
  "sched_roots = fst (sc_run_root (fst (sc_run_root new_scheduler 0 True False)) 1 True False)"

definition sched_nested :: scheduler where
  "sched_nested = nest 1 5 False (nest 0 4 True (nest 2 3 False (nest 0 2 True sched_roots)))"

section \<open>A lease no one will resume\<close>

text \<open>More suspensions than frames owe: a suspension that threw, and was counted.\<close>

definition strand :: "scheduler \<Rightarrow> nat multiset \<Rightarrow> nat \<Rightarrow> bool" where
  "strand s H a \<longleftrightarrow> a \<notin> set (g_waiting s) \<and> (\<exists>x. sc_states s a = Some x \<and> ls_ownsGlobalAdmission x
     \<and> \<not> ls_active x \<and> \<not> ls_closed x \<and> int (count H a) < ls_suspendCount x)"

lemma strand_susp: "strand s H a \<Longrightarrow> int (count H a) < suspensions s a"
  by (auto simp: strand_def suspensions_def)

lemma strand_mono: "strand s (G + H) a \<Longrightarrow> strand s H a"
  by (force simp: strand_def)

lemma strand_pump: "strand s H a \<Longrightarrow> strand (sc_pump s) H a"
  by (rule sc_pump_split [of s]) (auto simp: strand_def fold_admit_states)

lemma strand_upd:
  assumes "strand s H a" "\<And>x. l = a \<Longrightarrow> ls_active (f x) = ls_active x \<and> ls_closed (f x) = ls_closed x
    \<and> ls_ownsGlobalAdmission (f x) = ls_ownsGlobalAdmission x \<and> ls_suspendCount (f x) \<ge> ls_suspendCount x"
  shows "strand (upd_lease l f s) H a"
  using assms by (fastforce simp: strand_def sc_states_upd)

lemma strand_gate:
  "strand (s\<lparr>g_activeSafe := n\<rparr>) H a = strand s H a" "strand (s\<lparr>g_activeUnsafe := b\<rparr>) H a = strand s H a"
  "strand (s\<lparr>sc_frames := fs\<rparr>) H a = strand s H a"
  by (simp_all add: strand_def)

lemma strand_waiting:
  "strand s H a \<Longrightarrow> a \<notin> set ws \<Longrightarrow> strand (s\<lparr>g_waiting := ws\<rparr>) H a"
  by (simp add: strand_def)

lemma strand_onAbort: "strand s H a \<Longrightarrow> strand (sc_onAbort s l) H a"
  unfolding sc_onAbort_def
  by (intro strand_pump strand_waiting) (auto simp: strand_def dest: set_mp [OF set_remove1_subset])

lemma strand_enqueue: "strand s H a \<Longrightarrow> l \<noteq> a \<Longrightarrow> strand (fst (sc_enqueue s l ab)) H a"
  by (auto simp: sc_enqueue_def Let_def strand_def [of s] intro!: strand_pump strand_onAbort strand_waiting)

lemma strand_release: "strand s H a \<Longrightarrow> strand (fst (sc_release s l)) H a"
proof (cases "lease_active s l")
  case True
  moreover assume "strand s H a"
  moreover from this True have "l \<noteq> a" by (auto simp: strand_def lease_active_def)
  ultimately show ?thesis
    by (auto simp: sc_release_def Let_def strand_gate intro!: strand_pump strand_upd)
qed (simp add: sc_release_def)

lemma strand_suspend:
  assumes "strand s H a" "sc_suspend s l = (s', r)"
  shows "strand s' H a" "strand s' (add_mset l H) a"
proof -
  let ?s = "counted (\<lambda>n. n + 1) s l"
  have s: "strand ?s H a" unfolding counted_def using assms(1) by (rule strand_upd) simp
  have "s' = s \<or> s' = ?s \<or> s' = fst (sc_release ?s l)"
    using assms(2) by (auto simp: sc_suspend_def counted_def Let_def split: option.splits if_splits)
  with assms(1) s strand_release [OF s] show "strand s' H a" by auto
  show "strand s' (add_mset l H) a"
  proof (cases "l = a")
    case False
    then show ?thesis using \<open>strand s' H a\<close> by (simp add: strand_def)
  next
    case True
    obtain x where x: "sc_states s a = Some x" "int (count H a) < ls_suspendCount x" "a \<notin> set (g_waiting s)"
      "ls_ownsGlobalAdmission x" "\<not> ls_active x" "\<not> ls_closed x"
      using assms(1) by (auto simp: strand_def)
    then have "s' = ?s" using assms(2) True by (auto simp: sc_suspend_def counted_def Let_def)
    then show ?thesis using x True by (simp add: strand_def counted_def sc_states_upd)
  qed
qed

lemma strand_suspend_all:
  "strand s H a \<Longrightarrow> strand (fst (sc_suspend_all as s)) H a
     \<and> (\<forall>u. snd (sc_suspend_all as s) = Inr u \<longrightarrow> strand (fst (sc_suspend_all as s)) (mset as + H) a)"
proof (induction as arbitrary: s H)
  case (Cons l as)
  obtain s1 r where sus: "sc_suspend s l = (s1, r)" by force
  note st = strand_suspend [OF Cons.prems sus]
  show ?case using Cons.IH [OF st(1)] Cons.IH [OF st(2)] st by (cases r) (simp_all add: sus)
qed simp

lemma strand_resume:
  assumes "strand s (add_mset l H) a"
  shows "strand (fst (sc_resume w s l)) H a"
proof (cases "sc_states s l")
  case None
  then show ?thesis using assms strand_mono [of s "{#l#}" H a] by (simp add: sc_resume_def)
next
  case (Some x)
  let ?s = "counted (\<lambda>n. n - 1) s l"
  have s: "strand ?s H a"
    using assms by (cases "l = a") (auto simp: strand_def counted_def sc_states_upd)
  have w: "strand (upd_lease l (\<lambda>x. x\<lparr>ls_activeWaiters := ls_activeWaiters x @ [w]\<rparr>) ?s) H a"
    using s by (rule strand_upd) simp
  have "l \<noteq> a" if "ls_suspendCount x = 1" using assms that Some by (auto simp: strand_def)
  then have e: "strand (fst (sc_enqueue ?s l False)) H a" if "ls_suspendCount x = 1"
    using s that by (intro strand_enqueue) simp_all
  have "strand s H a" using assms strand_mono [of s "{#l#}" H a] by simp
  then show ?thesis using w e by (auto simp: sc_resume_def Some Let_def counted_def)
qed

lemma strand_resume_all: "strand s (mset as + H) a \<Longrightarrow> strand (sc_resume_all w as s) H a"
  unfolding sc_resume_all_def
  by (induction as arbitrary: s) (auto dest: strand_resume)

lemma strand_new: "strand s H a \<Longrightarrow> sc_states s l = None \<Longrightarrow> strand (s\<lparr>sc_states := (sc_states s)(l \<mapsto> x)\<rparr>) H a"
  by (auto simp: strand_def)

lemma strand_acquire:
  "strand s H a \<Longrightarrow> sc_states s l = None \<Longrightarrow> strand (fst (sc_acquire s l safe p ex ab)) H a"
  unfolding sc_acquire_def by (intro strand_enqueue strand_new) (auto simp: strand_def)

lemma strand_close_finish: "strand s H a \<Longrightarrow> strand (fst (sc_close_finish s l)) H a"
proof (cases "l = a")
  case True
  assume "strand s H a"
  then show ?thesis
    using True by (auto simp: sc_close_finish_def sc_release_def strand_def lease_active_def)
next
  case False
  assume s: "strand s H a"
  note strand_release [OF s, of l] strand_upd [OF s, of l]
  then show ?thesis
    using s False
    by (auto simp: sc_close_finish_def split: option.split prod.split sum.split intro!: strand_upd)
qed

definition stranded :: "scheduler \<Rightarrow> nat \<Rightarrow> bool" where
  "stranded s a \<longleftrightarrow> strand s (owed s) a"

lemma stranded_runChild:
  assumes a: "stranded s a" and inv: "sc_inv s" and fresh: "sc_states s l = None"
  shows "stranded (fst (sc_runChild k s l safe p aborted)) a"
proof (cases "sc_states s p")
  case None
  then show ?thesis using a by (simp add: sc_runChild_def)
next
  case (Some x)
  consider (easy) "ls_exclusiveRoot x \<or> safe \<or> sc_safeAncestors k s p = None"
    | (chain) as where "\<not> ls_exclusiveRoot x" "\<not> safe" "sc_safeAncestors k s p = Some as"
    by fastforce
  then show ?thesis
  proof cases
    case easy
    then show ?thesis
      using a fresh strand_acquire [of s "owed s" a l] strand_new [of s "owed s" a l]
      by (auto simp: stranded_def sc_runChild_def Some sc_inheritedLease_def owed_def)
  next
    case chain
    obtain s1 r where sus: "sc_suspend_all as s = (s1, r)" by force
    have own: "list_all (owner s) as"
      using inv chain(3) by (intro safeAncestors_owners) (simp_all add: sc_inv_def sc_good_def sc_ok_def)
    have keeps: "sc_frames s1 = sc_frames s" "sc_states s1 l = None"
      using sc_suspend_all_good [OF inv [unfolded sc_inv_def] own] fresh by (simp_all add: sus)
    have st: "strand s1 (owed s) a" "r = Inr () \<Longrightarrow> strand s1 (mset as + owed s) a"
      using strand_suspend_all [of s "owed s" a as] a by (simp_all add: sus stranded_def)
    let ?t = "s1\<lparr>sc_frames := (l, as) # sc_frames s1\<rparr>"
    have "owed (fst (sc_acquire ?t l False (Some p) True aborted)) = mset as + owed s"
      by (simp add: owed_def keeps)
    then show ?thesis
      using st keeps chain strand_acquire [of ?t "mset as + owed s" a l]
      by (cases r) (simp_all add: stranded_def sc_runChild_def Some sus owed_eq [of s1 s] strand_gate)
  qed
qed

lemma stranded_unwind:
  assumes "stranded s a" "f \<in> set (sc_frames s)"
  shows "stranded (sc_unwind s f) a"
proof -
  let ?t = "s\<lparr>sc_frames := remove1 f (sc_frames s)\<rparr>"
  have "strand ?t (mset (snd f) + owed ?t) a"
    using assms by (simp add: stranded_def strand_gate flip: owed_remove1)
  then have "strand (sc_resume_all (fst f) (snd f) ?t) (owed ?t) a" by (rule strand_resume_all)
  moreover have "owed (sc_resume_all (fst f) (snd f) ?t) = owed ?t" by (rule owed_eq) simp
  ultimately show ?thesis by (simp add: stranded_def sc_unwind_def)
qed

lemma stranded_upd:
  assumes "stranded s a" "\<And>x. ls_active (f x) = ls_active x \<and> ls_closed (f x) = ls_closed x
    \<and> ls_ownsGlobalAdmission (f x) = ls_ownsGlobalAdmission x \<and> ls_suspendCount (f x) = ls_suspendCount x"
  shows "stranded (upd_lease l f s) a"
  using assms strand_upd [of s "owed s" a l f] by (simp add: stranded_def owed_def)

lemma stranded_close_finish: "stranded s a \<Longrightarrow> stranded (fst (sc_close_finish s l)) a"
proof -
  have "sc_frames (fst (sc_close_finish s l)) = sc_frames s"
    using sc_release_keeps(1) [of s l]
    by (auto simp: sc_close_finish_def split: option.split prod.split sum.split)
  then have "owed (fst (sc_close_finish s l)) = owed s" by (rule owed_eq)
  then show "stranded s a \<Longrightarrow> ?thesis"
    by (simp add: stranded_def strand_close_finish)
qed

lemma stranded_step:
  assumes "sc_step s s'" "sc_inv s" "stranded s a"
  shows "stranded s' a"
  using assms(1)
proof cases
  case (sc_root l safe aborted)
  then show ?thesis
    using assms(3) strand_acquire [of s "owed s" a l safe None "\<not> safe" aborted]
    by (simp add: sc_run_root_def stranded_def owed_def)
next
  case (sc_ask p x w aborted)
  then show ?thesis using assms(3) by (auto simp: sc_run_nested_def intro!: stranded_upd)
next
  case (sc_child p x w k aborted)
  then show ?thesis using assms(2,3) by (simp add: stranded_runChild)
next
  case (sc_abort l x)
  then show ?thesis
    using assms(3) strand_onAbort [of s "owed s" a l] by (simp add: stranded_def sc_onAbort_def owed_def)
next
  case (sc_close l x)
  then show ?thesis using assms(3) by (auto simp: sc_close_begin_def intro!: stranded_upd)
next
  case (sc_drained l x)
  then show ?thesis
    using assms(3) stranded_close_finish [of s a l] by (auto simp: sc_close_drained_def intro!: stranded_upd)
next
  case (sc_woken l x)
  then show ?thesis using assms(3) by (simp add: stranded_close_finish)
next
  case (sc_refused l as x)
  then show ?thesis using assms(3) by (simp add: stranded_unwind)
next
  case (sc_finally l as x)
  then show ?thesis using assms(3) by (simp add: stranded_unwind)
next
  case (sc_admitted l)
  then show ?thesis using assms(3) by (auto simp: sc_resumed_def intro!: stranded_upd)
next
  case (sc_settled p x w)
  then show ?thesis using assms(3) by (auto simp: sc_child_settled_def intro!: stranded_upd)
qed

lemma stranded_forever:
  assumes "sc_step\<^sup>*\<^sup>* s s'" "sc_inv s" "stranded s a"
  shows "stranded s' a"
proof -
  from assms(1) have "sc_inv s' \<and> stranded s' a"
  proof (rule reachable_invariant [where I = "\<lambda>t. sc_inv t \<and> stranded t a"])
    fix x y
    assume "sc_step x y" "sc_inv x \<and> stranded x a"
    then show "sc_inv y \<and> stranded y a" using sc_step_inv [of x y] stranded_step [of x y a] by blast
  qed (use assms(2,3) in simp)
  then show ?thesis by blast
qed

section \<open>The trace\<close>

text \<open>
  Two safe roots 0 and 1. Root 0 has a safe child 2, which asks for the unsafe call 3: it suspends 2
  and 0. While 3 waits, root 0 starts another safe child 4, and root 1 asks for the unsafe call 5,
  which suspends 1 and lets 3 in. Call 3 ends: 4 is admitted, 5 is next, and behind it wait 2 and 0,
  resumed but not yet admitted. Now 4 asks for the unsafe call 6.
\<close>

definition sched_ended :: scheduler where
  "sched_ended = sc_unwind (fst (sc_close_drained (fst (sc_close_begin sched_nested 3)) 3)) (3, [2, 0])"

definition sched_asked :: scheduler where
  "sched_asked = fst (sc_run_nested sched_ended 4 \<lparr>w_id = 6, w_concurrencySafe = False\<rparr> False)"

definition sched_thrown :: "scheduler \<times> unit res" where
  "sched_thrown = sc_runChild 9 sched_asked 6 False 4 False"

definition lease_closed :: "scheduler \<Rightarrow> nat \<Rightarrow> bool" where
  "lease_closed s l = (case sc_states s l of Some x \<Rightarrow> ls_closed x | None \<Rightarrow> False)"

definition may_ask :: "scheduler \<Rightarrow> nat \<Rightarrow> nat \<Rightarrow> bool" where
  "may_ask s p i = (case sc_states s p of Some x \<Rightarrow> ls_admitted x \<and> i \<notin> set (started_ids (ls_children x))
       \<and> list_all (\<lambda>e. e \<noteq> Aborted i) (aq_log (ls_children x)) \<and> i \<notin> set (map w_id (g_waiting (ls_children x)))
     | None \<Rightarrow> False)"

definition may_start :: "scheduler \<Rightarrow> nat \<Rightarrow> waiter \<Rightarrow> bool" where
  "may_start s p w = (sc_states s (w_id w) = None \<and>
     (case sc_states s p of Some x \<Rightarrow> w \<in> set (aq_running (ls_children x)) | None \<Rightarrow> False))"

lemma ask_step:
  assumes "sc_step\<^sup>*\<^sup>* s0 s" "may_ask s p (w_id w)"
  shows "sc_step\<^sup>*\<^sup>* s0 (fst (sc_run_nested s p w ab))"
proof -
  from assms(2) obtain x where "sc_states s p = Some x" "ls_admitted x" "w_id w \<notin> aq_seen (ls_children x)"
    by (auto simp: may_ask_def aq_seen_def started_mem list_all_iff split: option.splits)
  then have "sc_step s (fst (sc_run_nested s p w ab))" by (rule sc_ask)
  with assms(1) show ?thesis by (rule rtranclp.rtrancl_into_rtrancl)
qed

lemma start_step:
  "sc_step\<^sup>*\<^sup>* s0 s \<Longrightarrow> may_start s p w \<Longrightarrow>
   sc_step\<^sup>*\<^sup>* s0 (fst (sc_runChild k s (w_id w) (w_concurrencySafe w) p ab))"
  by (erule rtranclp.rtrancl_into_rtrancl) (auto simp: may_start_def intro: sc_child split: option.splits)

lemma nest_step:
  assumes "sc_step\<^sup>*\<^sup>* s0 s" "may_ask s p i"
    "may_start (fst (sc_run_nested s p \<lparr>w_id = i, w_concurrencySafe = b\<rparr> False)) p \<lparr>w_id = i, w_concurrencySafe = b\<rparr>"
  shows "sc_step\<^sup>*\<^sup>* s0 (nest p i b s)"
proof -
  have "sc_step\<^sup>*\<^sup>* s0 (fst (sc_run_nested s p \<lparr>w_id = i, w_concurrencySafe = b\<rparr> False))"
    using assms(1,2) by (intro ask_step) simp_all
  from start_step [OF this assms(3)] show ?thesis by (simp add: nest_def)
qed

lemma sched_roots_reachable: "sc_step\<^sup>*\<^sup>* new_scheduler sched_roots"
  unfolding sched_roots_def
  by (intro rtranclp.rtrancl_into_rtrancl [where r = sc_step, OF _ sc_root] rtranclp.rtrancl_refl; code_simp)

lemma sched_nested_reachable: "sc_step\<^sup>*\<^sup>* new_scheduler sched_nested"
  unfolding sched_nested_def
  by (intro nest_step sched_roots_reachable; code_simp)

lemma sched_ended_reachable: "sc_step\<^sup>*\<^sup>* new_scheduler sched_ended"
proof -
  let ?c = "fst (sc_close_begin sched_nested 3)"
  let ?d = "fst (sc_close_drained ?c 3)"
  have "map_option (\<lambda>x. ls_admitted x \<and> \<not> ls_closing x) (sc_states sched_nested 3) = Some True" by code_simp
  then have 1: "sc_step sched_nested ?c" by (auto intro: sc_close)
  have "map_option (\<lambda>x. ls_closing x \<and> \<not> ls_closed x \<and> aq_outstanding (ls_children x) = 0
      \<and> ls_activeWaiters x = []) (sc_states ?c 3) = Some True" by code_simp
  then have 2: "sc_step ?c ?d" by (auto intro: sc_drained)
  have "(3, [2, 0]) \<in> set (sc_frames ?d)" "map_option ls_closed (sc_states ?d 3) = Some True" by code_simp+
  then have 3: "sc_step ?d sched_ended" unfolding sched_ended_def by (auto intro: sc_finally)
  from sched_nested_reachable 1 2 3 show ?thesis
    by (meson rtranclp.rtrancl_into_rtrancl)
qed

lemma sched_thrown_reachable: "sc_step\<^sup>*\<^sup>* new_scheduler (fst sched_thrown)"
proof -
  have "may_ask sched_ended 4 6" by code_simp
  then have a: "sc_step\<^sup>*\<^sup>* new_scheduler sched_asked"
    unfolding sched_asked_def by (intro ask_step sched_ended_reachable) simp
  have "may_start sched_asked 4 \<lparr>w_id = 6, w_concurrencySafe = False\<rparr>" by code_simp
  from start_step [OF a this, of 9 False] show ?thesis by (simp add: sched_thrown_def)
qed

lemma sched_thrown_stranded: "stranded (fst sched_thrown) 4"
proof -
  have "map_option (\<lambda>x. ls_ownsGlobalAdmission x \<and> \<not> ls_active x \<and> \<not> ls_closed x \<and> ls_suspendCount x = 1)
      (sc_states (fst sched_thrown) 4) = Some True"
    "4 \<notin> set (g_waiting (fst sched_thrown))" "sc_frames (fst sched_thrown) = [(5, [1])]" by code_simp+
  then show ?thesis by (auto simp: stranded_def strand_def owed_def)
qed

text \<open>
  C34. Suspending the ancestors can throw and leave one of them suspended for good. The loop of
  \<^verbatim>\<open>runChild\<close> stands outside the \<^verbatim>\<open>try\<close> whose \<^verbatim>\<open>catch\<close> resumes them, and an ancestor
  that has been resumed but is still waiting for its place is not active, so suspending it throws
  after the nearer ancestors have been suspended. The scheduler reaches such a state with two safe
  roots: the call by the safe lease 4 fails with \<^verbatim>\<open>nested tool lease is not active\<close>, and whatever
  happens afterwards lease 4 is never admitted again and never closes, so its run never returns.
\<close>

theorem suspended_for_good:
  assumes "sc_step\<^sup>*\<^sup>* (fst sched_thrown) s"
  shows "sc_step\<^sup>*\<^sup>* new_scheduler (fst sched_thrown)
    \<and> snd sched_thrown = Inl (PlainError ''nested tool lease is not active'')
    \<and> lease_active sched_asked 4
    \<and> \<not> lease_active s 4 \<and> \<not> lease_closed s 4 \<and> 4 \<notin> set (g_waiting s)"
proof -
  have "snd sched_thrown = Inl (PlainError ''nested tool lease is not active'')" "lease_active sched_asked 4"
    by code_simp+
  moreover have "stranded s 4"
    using assms sc_reachable_inv [OF sched_thrown_reachable] sched_thrown_stranded by (rule stranded_forever)
  ultimately show ?thesis
    using sched_thrown_reachable
    by (auto simp: stranded_def strand_def lease_active_def lease_closed_def)
qed

theorem suspended_for_good_witness:
  "\<not> lease_active (fst sched_thrown) 4 \<and> \<not> lease_closed (fst sched_thrown) 4"
  using suspended_for_good [OF rtranclp.rtrancl_refl] by blast


end
