(* ===== verification/Lifecycle.thy ===== *)
theory Lifecycle imports Prelude begin

text \<open>
  The interface of a status machine: which single moves a status may make, which statuses are
  terminal, and a fence of statuses that no move leaves. Child tasks, background refinement runs,
  workspace reservations and decisions all promise it; the lemmas about whole histories are proved
  once here and reached by each component through an interpretation.
\<close>

locale lifecycle =
  fixes move :: "'s \<Rightarrow> 's \<Rightarrow> bool"
    and terminal :: "'s \<Rightarrow> bool"
  assumes terminal_stuck: "terminal s \<Longrightarrow> move s t \<Longrightarrow> t = s"
begin

lemma terminal_forever:
  assumes "move\<^sup>*\<^sup>* s t" and "terminal s"
  shows "t = s"
  using assms by (induction rule: rtranclp_induct) (auto dest: terminal_stuck)

fun history :: "'s \<Rightarrow> 's list \<Rightarrow> bool" where
  "history s [] = True"
| "history s (t # ts) = (move s t \<and> history t ts)"

lemma history_reaches: "history s ts \<Longrightarrow> t \<in> set ts \<Longrightarrow> move\<^sup>*\<^sup>* s t"
proof (induction ts arbitrary: s)
  case Nil
  then show ?case by simp
next
  case (Cons u ts)
  then have u: "move\<^sup>*\<^sup>* s u" by auto
  show ?case
  proof (cases "t = u")
    case True
    with u show ?thesis by simp
  next
    case False
    with Cons have "move\<^sup>*\<^sup>* u t" by simp
    with u show ?thesis by (rule rtranclp_trans)
  qed
qed

lemma history_after_terminal: "history s ts \<Longrightarrow> terminal s \<Longrightarrow> set ts \<subseteq> {s}"
  using history_reaches terminal_forever by blast

end

locale fenced_lifecycle = lifecycle move terminal
  for move :: "'s \<Rightarrow> 's \<Rightarrow> bool" and terminal :: "'s \<Rightarrow> bool" +
  fixes fence :: "'s \<Rightarrow> bool"
  assumes fence_closed: "fence s \<Longrightarrow> move s t \<Longrightarrow> fence t"
begin

lemma fence_forever:
  assumes "move\<^sup>*\<^sup>* s t" and "fence s"
  shows "fence t"
  using assms by (induction rule: rtranclp_induct) (auto dest: fence_closed)

lemma history_fenced: "history s ts \<Longrightarrow> fence s \<Longrightarrow> t \<in> set ts \<Longrightarrow> fence t"
  using history_reaches fence_forever by blast

end

end
