(* ===== verification/ChildControl.thy ===== *)
theory ChildControl imports Js Lifecycle begin

text \<open>
  Child tasks: the records of \<^verbatim>\<open>packages/extension-api/src/child-control.ts\<close> and the pure rules of
  \<^verbatim>\<open>packages/core-child-control/src/child\<close> (state machine, admission, ancestor budget scopes, the
  child-agent allowlist, the in-flight attempt counter). The store that applies them is in
  \<open>ChildStore\<close>.
\<close>

section \<open>Records\<close>

type_synonym seq = int
type_synonym session_key = string

datatype creation_phase = Phase_creating | Phase_deferred | Phase_committed | Phase_cancelled

record deferred_fact =
  df_childKey :: session_key
  df_creationId :: string
  df_attemptId :: string
  df_revision :: int
  df_deferredAt :: int

datatype cancel_reason = Workspace_closed | Open_failed

record cancelled_fact =
  cf_childKey :: session_key
  cf_creationId :: string
  cf_attemptId :: string
  cf_revision :: int
  cf_reason :: cancel_reason
  cf_cancelledAt :: int

datatype child_state =
  Creating | Ready | Idle | Interrupted | Running | Waiting_approval | Recovery_pending
| Cancelling | Completed | Failed | Cancelled

datatype child_kind = Kind_fork | Kind_spawn

datatype isolation = Iso_worktree | Iso_shared

record child_task =
  childKey :: session_key
  creationId :: string
  attemptId :: string
  creationPhase :: creation_phase
  creationRevision :: int
  attemptStartedAt :: int
  deferredFact :: "deferred_fact option"
  cancelledFact :: "cancelled_fact option"
  parentKey :: session_key
  rootTaskId :: string
  runtimeOwnerSessionKey :: session_key
  kind :: child_kind
  generationDepth :: int
  generationLimit :: int
  boundarySeq :: seq
  inputHash :: string
  inputText :: string
  cwd :: string
  actorId :: string
  budgetScopeId :: string
  ancestorScopeIds :: "string list"
  workspaceId :: "string option"
  isolation :: isolation
  state :: child_state
  stateRevision :: int
  taskControlFormat :: int

section \<open>The child state machine\<close>

text \<open>\<^verbatim>\<open>child/types.ts\<close>: the active states, the terminal ones, and the fence on cancellation.\<close>

definition child_control_format :: int where
  "child_control_format = 4"

definition active_child_states :: "child_state list" where
  "active_child_states = [Creating, Ready, Running, Waiting_approval, Recovery_pending, Cancelling]"

definition isActiveChildState :: "child_state \<Rightarrow> bool" where
  "isActiveChildState s \<longleftrightarrow> s \<in> set active_child_states"

definition isTerminalChildState :: "child_state \<Rightarrow> bool" where
  "isTerminalChildState s \<longleftrightarrow> s \<in> {Completed, Failed, Cancelled}"

definition canTransitionChildState :: "child_state \<Rightarrow> child_state \<Rightarrow> bool" where
  "canTransitionChildState src dst =
     (if src = dst then True
      else if src = Cancelled \<or> src = Failed \<or> src = Completed then False
      else if src = Cancelling then dst = Cancelled \<or> dst = Failed
      else if dst = Running then
        src = Ready \<or> src = Idle \<or> src = Interrupted \<or> src = Waiting_approval \<or> src = Creating
        \<or> src = Recovery_pending
      else True)"

text \<open>Statuses a child can still show once cancellation has been asked for.\<close>

definition cancel_fence :: "child_state \<Rightarrow> bool" where
  "cancel_fence s \<longleftrightarrow> s \<in> {Cancelling, Cancelled, Failed}"

interpretation child_life: fenced_lifecycle canTransitionChildState isTerminalChildState cancel_fence
  by unfold_locales
    (auto simp: canTransitionChildState_def isTerminalChildState_def cancel_fence_def split: if_splits)

lemma active_or_terminal_or_resting:
  "isActiveChildState s \<or> isTerminalChildState s \<or> s = Idle \<or> s = Interrupted"
  by (cases s) (simp_all add: isActiveChildState_def active_child_states_def isTerminalChildState_def)

lemma terminal_not_active [simp]: "isTerminalChildState s \<Longrightarrow> \<not> isActiveChildState s"
  by (auto simp: isActiveChildState_def active_child_states_def isTerminalChildState_def)

section \<open>Admission\<close>

text \<open>\<^verbatim>\<open>child/admission.ts\<close>. A refused admission carries the source's message.\<close>

definition admitGeneration :: "jsnum \<Rightarrow> jsnum \<Rightarrow> string + int" where
  "admitGeneration parentDepth limit =
     (if \<not> is_safe_integer parentDepth \<or> js_lt parentDepth (num_of_int 0)
      then Inl ''parent generationDepth is not a non-negative integer''
      else if \<not> is_safe_integer limit \<or> js_lt limit (num_of_int 0)
      then Inl ''generation limit is not a non-negative integer''
      else let childDepth = int_of_num parentDepth + 1 in
        if js_lt limit (num_of_int childDepth)
        then Inl (''generation '' @ int_string childDepth @ '' exceeds limit ''
                  @ int_string (int_of_num limit))
        else Inr childDepth)"

definition admitFanOut :: "int \<Rightarrow> int \<Rightarrow> jsnum \<Rightarrow> string + unit" where
  "admitFanOut parentActive rootActive maxFanOut =
     (if \<not> is_safe_integer maxFanOut \<or> js_lt maxFanOut (num_of_int 0)
      then Inl ''max_fan_out is not a non-negative integer''
      else if \<not> js_lt (num_of_int parentActive) maxFanOut
      then Inl (''fan-out limit '' @ int_string (int_of_num maxFanOut) @ '' reached for parent'')
      else if \<not> js_lt (num_of_int rootActive) maxFanOut
      then Inl (''fan-out limit '' @ int_string (int_of_num maxFanOut) @ '' reached for root'')
      else Inr ())"

definition countActive :: "child_state list \<Rightarrow> int" where
  "countActive states = int (length (filter isActiveChildState states))"

text \<open>The parent is its ancestor scopes and its own budget scope, or null at the root.\<close>

definition inheritAncestorScopeIds :: "(string list \<times> string) option \<Rightarrow> string \<Rightarrow> string list" where
  "inheritAncestorScopeIds parent rootScopeId =
     (let ids0 = (case parent of Some (anc, _) \<Rightarrow> anc | None \<Rightarrow> [rootScopeId]);
          ids1 = (case parent of
              Some (_, scope) \<Rightarrow> if scope \<in> set ids0 then ids0 else ids0 @ [scope]
            | None \<Rightarrow> ids0)
      in if rootScopeId \<in> set ids1 then ids1 else rootScopeId # ids1)"

definition admitBudgetMode :: "string option \<Rightarrow> string + unit" where
  "admitBudgetMode mode =
     (if mode = None \<or> mode = Some ''aggregate'' then Inr ()
      else if mode = Some ''own'' then Inl ''unsupported budget mode own''
      else Inl (''unsupported budget mode '' @ (case mode of Some m \<Rightarrow> m | None \<Rightarrow> '''')))"

lemma admitFanOut_of_int [simp]:
  assumes "0 \<le> m" "m \<le> max_safe_integer"
  shows "admitFanOut p r (num_of_int m) = Inr () \<longleftrightarrow> p < m \<and> r < m"
  using assms by (simp add: admitFanOut_def)

lemma admitFanOut_Inr:
  assumes "admitFanOut p r m = Inr ()"
  obtains n where "m = num_of_int n" "0 \<le> n" "n \<le> max_safe_integer" "p < n" "r < n"
proof -
  have safe: "is_safe_integer m" and nonneg: "\<not> js_lt m (num_of_int 0)"
    using assms by (auto simp: admitFanOut_def split: if_splits)
  from safe obtain n where n: "m = num_of_int n" "\<bar>n\<bar> \<le> max_safe_integer" by (rule is_safe_integerE)
  with nonneg assms have "0 \<le> n" "p < n" "r < n"
    by (auto simp: admitFanOut_def split: if_splits)
  with n show ?thesis by (intro that [of n]) auto
qed

lemma inherit_contains_root [simp]: "rt \<in> set (inheritAncestorScopeIds parent rt)"
  by (auto simp: inheritAncestorScopeIds_def Let_def)

lemma inherit_contains_parent_scope:
  "parent = Some (anc, scope) \<Longrightarrow> insert scope (set anc) \<subseteq> set (inheritAncestorScopeIds parent rt)"
  by (auto simp: inheritAncestorScopeIds_def Let_def)

lemma inherit_distinct:
  "(\<And>anc scope. parent = Some (anc, scope) \<Longrightarrow> distinct anc) \<Longrightarrow>
   distinct (inheritAncestorScopeIds parent rt)"
  by (auto simp: inheritAncestorScopeIds_def Let_def split: option.splits)

section \<open>Microcredits\<close>

text \<open>\<^verbatim>\<open>child/credits.ts\<close>: the \<^verbatim>\<open>bigint\<close> arithmetic the reservations use.\<close>

definition addMicro :: "int \<Rightarrow> int \<Rightarrow> int res" where
  "addMicro a b = (let sum = a + b in
     if a > 0 \<and> b > 0 \<and> sum < a then throw E_BUDGET ''microcredit addition overflow''
     else if sum < 0 then throw E_BUDGET ''microcredit addition underflow''
     else Inr sum)"

definition fitsCap :: "int \<Rightarrow> int \<Rightarrow> int \<Rightarrow> int \<Rightarrow> bool" where
  "fitsCap settled held q cap =
     (if q < 0 \<or> settled < 0 \<or> held < 0 \<or> cap \<le> 0 then False else settled + held + q \<le> cap)"

lemma addMicro_nonneg [simp]: "0 \<le> a \<Longrightarrow> 0 \<le> b \<Longrightarrow> addMicro a b = Inr (a + b)"
  by (simp add: addMicro_def)

lemma addMicro_Inr [res_simps]: "addMicro a b = Inr s \<longleftrightarrow> s = a + b \<and> 0 \<le> s"
  by (auto simp: addMicro_def Let_def)

section \<open>The child-agent allowlist\<close>

text \<open>
  \<^verbatim>\<open>child/allowlist.ts\<close>. The module's two variables are the fields of \<open>allow_state\<close>: the lists of
  named sessions and the deployment default.
\<close>

record allowlist =
  al_models :: "string list option"
  al_providers :: "string list option"

record allow_state =
  as_sessions :: "(session_key, allowlist) jsmap"
  as_fallback :: "allowlist option"

definition copyList :: "string list \<Rightarrow> string \<Rightarrow> string list res" where
  "copyList v label =
     (if list_ex (\<lambda>s. s = '''') v then throw E_ENVELOPE (label @ '' must be an array of non-empty strings'')
      else Inr v)"

definition normalizeChildAgentAllowlist :: "allowlist \<Rightarrow> allowlist res" where
  "normalizeChildAgentAllowlist v =
     rbind (case al_models v of None \<Rightarrow> Inr None
            | Some ms \<Rightarrow> rbind (copyList ms ''allow.models'') (\<lambda>l. Inr (Some l))) (\<lambda>models.
     rbind (case al_providers v of None \<Rightarrow> Inr None
            | Some ps \<Rightarrow> rbind (copyList ps ''allow.providers'') (\<lambda>l. Inr (Some l))) (\<lambda>providers.
     Inr \<lparr>al_models = models, al_providers = providers\<rparr>))"

text \<open>
  Assignments before a throw stay done, so every function returns the state it leaves beside its
  result.
\<close>

fun apply_session_lists ::
  "allow_state \<Rightarrow> (session_key \<times> allowlist) list \<Rightarrow> allow_state \<times> unit res" where
  "apply_session_lists st [] = (st, Inr ())"
| "apply_session_lists st ((k, al) # rest) =
     (case normalizeChildAgentAllowlist al of
        Inl e \<Rightarrow> (st, Inl e)
      | Inr n \<Rightarrow> apply_session_lists (st\<lparr>as_sessions := jm_set (as_sessions st) k n\<rparr>) rest)"

definition applyChildAgentConfig ::
  "allow_state \<Rightarrow> (allowlist option \<times> (session_key \<times> allowlist) list) option \<Rightarrow> allow_state \<times> unit res" where
  "applyChildAgentConfig st config =
     (case config of
        None \<Rightarrow> (st, Inr ())
      | Some (allow, sessions) \<Rightarrow>
         (case allow of
            None \<Rightarrow> apply_session_lists st sessions
          | Some al \<Rightarrow>
             (case normalizeChildAgentAllowlist al of
                Inl e \<Rightarrow> (st, Inl e)
              | Inr n \<Rightarrow> apply_session_lists (st\<lparr>as_fallback := Some n\<rparr>) sessions)))"

definition setChildAgentAllowlist ::
  "allow_state \<Rightarrow> session_key \<Rightarrow> allowlist option \<Rightarrow> allow_state \<times> unit res" where
  "setChildAgentAllowlist st key al =
     (if key = '''' then (st, throw E_ENVELOPE ''session key is required'')
      else case al of
        None \<Rightarrow> (st\<lparr>as_sessions := jm_delete (as_sessions st) key\<rparr>, Inr ())
      | Some l \<Rightarrow>
         (case normalizeChildAgentAllowlist l of
            Inl e \<Rightarrow> (st, Inl e)
          | Inr n \<Rightarrow> (st\<lparr>as_sessions := jm_set (as_sessions st) key n\<rparr>, Inr ())))"

definition childAgentAllowlist :: "allow_state \<Rightarrow> session_key \<Rightarrow> allowlist option" where
  "childAgentAllowlist st key =
     (case jm_get (as_sessions st) key of Some l \<Rightarrow> Some l | None \<Rightarrow> as_fallback st)"

definition resetChildAgentAllowlists :: "allow_state \<Rightarrow> allow_state" where
  "resetChildAgentAllowlists st = \<lparr>as_sessions = [], as_fallback = None\<rparr>"

record start_request =
  sr_providerId :: "string option"
  sr_model :: "string option"

definition refuse_model :: "string list option \<Rightarrow> string option \<Rightarrow> (core_error_code \<times> string) option" where
  "refuse_model models model =
     (case models of
        None \<Rightarrow> None
      | Some ms \<Rightarrow>
         (case model of
            None \<Rightarrow> Some (E_MODEL_UNKNOWN, ''child model must be named when a session model allowlist is set'')
          | Some m \<Rightarrow>
             (if m = '''' then
                Some (E_MODEL_UNKNOWN, ''child model must be named when a session model allowlist is set'')
              else if m \<notin> set ms then
                Some (E_MODEL_UNKNOWN, ''child model '' @ m @ '' is not allowed for this session'')
              else None)))"

definition childAgentRefusal :: "allowlist option \<Rightarrow> start_request \<Rightarrow> (core_error_code \<times> string) option" where
  "childAgentRefusal al req =
     (let providers = (case al of None \<Rightarrow> None | Some l \<Rightarrow> al_providers l);
          models = (case al of None \<Rightarrow> None | Some l \<Rightarrow> al_models l);
          by_model = refuse_model models (sr_model req) in
      case (sr_providerId req, providers) of
        (Some p, Some ps) \<Rightarrow>
          if p \<notin> set ps then
            Some (E_UNSUPPORTED, ''child provider '' @ p @ '' is not allowed for this session'')
          else by_model
      | _ \<Rightarrow> by_model)"

definition assertChildAgentAllowed :: "allow_state \<Rightarrow> session_key \<Rightarrow> start_request \<Rightarrow> unit res" where
  "assertChildAgentAllowed st key req =
     (case childAgentRefusal (childAgentAllowlist st key) req of
        Some (code, message) \<Rightarrow> throw code message
      | None \<Rightarrow> Inr ())"

section \<open>Creation attempts in flight\<close>

text \<open>
  \<^verbatim>\<open>child/store.ts\<close>: the process-wide count of factories that drive an attempt. The closure
  \<^verbatim>\<open>trackChildAttempt\<close> returns is the pair of its attempt and its \<^verbatim>\<open>released\<close> flag.
\<close>

type_synonym in_flight = "(string, int) jsmap"
type_synonym attempt_release = "string \<times> bool"

definition trackChildAttempt :: "in_flight \<Rightarrow> string \<Rightarrow> in_flight \<times> attempt_release" where
  "trackChildAttempt m a =
     (jm_set m a ((case jm_get m a of Some n \<Rightarrow> n | None \<Rightarrow> 0) + 1), (a, False))"

definition releaseChildAttempt :: "in_flight \<Rightarrow> attempt_release \<Rightarrow> in_flight \<times> attempt_release" where
  "releaseChildAttempt m h =
     (case h of (a, released) \<Rightarrow>
        if released then (m, h)
        else let remaining = (case jm_get m a of Some n \<Rightarrow> n | None \<Rightarrow> 1) - 1 in
          (if remaining > 0 then jm_set m a remaining else jm_delete m a, (a, True)))"

definition in_flight_ok :: "in_flight \<Rightarrow> bool" where
  "in_flight_ok m \<longleftrightarrow> list_all (\<lambda>n. 0 < n) (jm_values m)"

definition in_flight_count :: "in_flight \<Rightarrow> string \<Rightarrow> int" where
  "in_flight_count m a = (case jm_get m a of Some n \<Rightarrow> n | None \<Rightarrow> 0)"

lemma in_flight_ok_get: "in_flight_ok m \<Longrightarrow> jm_get m a = Some n \<Longrightarrow> 0 < n"
  unfolding in_flight_ok_def list_all_iff by (force dest: map_of_SomeD)

lemma in_flight_ok_set: "in_flight_ok m \<Longrightarrow> 0 < n \<Longrightarrow> in_flight_ok (jm_set m a n)"
  unfolding in_flight_ok_def list_all_iff using set_jm_values_set [where m = m and k = a and v = n] by blast

lemma in_flight_ok_track: "in_flight_ok m \<Longrightarrow> in_flight_ok (fst (trackChildAttempt m a))"
  unfolding trackChildAttempt_def
  by (auto intro!: in_flight_ok_set split: option.splits dest: in_flight_ok_get)

lemma in_flight_ok_delete: "in_flight_ok m \<Longrightarrow> in_flight_ok (jm_delete m a)"
  by (auto simp: in_flight_ok_def list_all_iff AList.delete_eq)

lemma in_flight_ok_release: "in_flight_ok m \<Longrightarrow> in_flight_ok (fst (releaseChildAttempt m h))"
  unfolding releaseChildAttempt_def
  by (cases h) (auto simp: Let_def intro!: in_flight_ok_set in_flight_ok_delete)

lemma count_track:
  "in_flight_count (fst (trackChildAttempt m a)) b = in_flight_count m b + (if a = b then 1 else 0)"
  by (auto simp: in_flight_count_def trackChildAttempt_def split: option.splits)

lemma count_release:
  assumes "in_flight_ok m"
  shows "in_flight_count (fst (releaseChildAttempt m (a, r))) b =
    (if r \<or> a \<noteq> b then in_flight_count m b else max 0 (in_flight_count m b - 1))"
  using in_flight_ok_get [OF assms, of b]
  by (cases "jm_get m b") (auto simp: in_flight_count_def releaseChildAttempt_def Let_def)

section \<open>Budget, reservation and workspace records\<close>

record budget_scope =
  bs_scopeId :: string
  bs_rootTaskId :: string
  bs_childKey :: "session_key option"
  bs_parentScopeId :: "string option"
  capMicro :: int
  settledMicro :: int
  heldMicro :: int

datatype reservation_status = Held | Settled | Released | Status_unknown

record reservation =
  rv_permitId :: string
  rv_rootTaskId :: string
  rv_scopeIds :: "string list"
  rv_qMicro :: int
  rv_effectId :: string
  rv_requestHash :: string
  rv_writerGeneration :: int
  rv_status :: reservation_status

datatype workspace_phase =
  Planned | Preparing | Attached | Cleanup_eligible | Inspecting | Worktree_removed | Branch_removed
| Kept_dirty | Kept_unmerged | Inspection_failed | Cleanup_failed

record planned_workspace =
  pw_workspaceId :: string
  pw_childKey :: session_key
  pw_isolation :: isolation
  pw_path :: string
  pw_root :: "string option"
  pw_branch :: "string option"
  pw_phase :: workspace_phase

record create_child_input =
  ci_fresh :: bool
  ci_childKey :: session_key
  ci_parentKey :: session_key
  ci_boundarySeq :: seq
  ci_creationId :: string
  ci_attemptId :: "string option"
  ci_attemptStartedAt :: "int option"
  ci_kind :: child_kind
  ci_rootTaskId :: string
  ci_runtimeOwnerSessionKey :: session_key
  ci_generationDepth :: int
  ci_generationLimit :: int
  ci_maxFanOut :: jsnum
  ci_inputHash :: string
  ci_inputText :: string
  ci_cwd :: string
  ci_actorId :: string
  ci_isolation :: isolation
  ci_workspaceId :: string
  ci_treeCapMicro :: int
  ci_childCapMicro :: "int option"
  ci_writerRunId :: string

record begin_attempt_input =
  ba_childKey :: session_key
  ba_creationId :: string
  ba_previousAttemptId :: string
  ba_nextAttemptId :: string
  ba_expectedRevision :: int
  ba_startedAt :: int

record creation_cas_input =
  cc_childKey :: session_key
  cc_creationId :: string
  cc_attemptId :: string
  cc_expectedRevision :: int

datatype refuse_reason = Refused_generation | Refused_fan_out | Refused_budget | Refused_format | Refused_mode

datatype create_result =
  Created child_task | Existing child_task | Conflict child_task | Refused refuse_reason string

record reserve_request =
  rr_rootTaskId :: string
  rr_scopeIds :: "string list"
  rr_qMicro :: int
  rr_effectId :: string
  rr_requestHash :: string
  rr_writerGeneration :: int

datatype reserve_failure = Fail_cap | Fail_unknown_bound | Fail_invalid

datatype reserve_result =
  Reserve_ok string reservation_status bool | Reserve_no reserve_failure string

datatype credit_source = Source_gateway | Source_estimated | Source_unknown

record settle_request =
  st_permitId :: string
  st_writerGeneration :: "int option"
  st_originSessionKey :: session_key
  st_originCostSeq :: seq
  st_actualMicro :: "int option"
  st_complete :: bool
  st_creditSource :: credit_source

record cost_binding =
  cb_permitId :: string
  cb_effectId :: string
  cb_requestHash :: string
  cb_writerGeneration :: int
  cb_actualMicro :: "int option"
  cb_scopeIds :: "string list"

record tree_usage =
  tu_settledMicro :: int
  tu_heldMicro :: int
  tu_capMicro :: int
  tu_unknownHeld :: bool

end
