(* ===== verification/ChildStore.thy ===== *)
theory ChildStore imports ChildControl LedgerStore begin

text \<open>
  The child-control half of the reference storage
  (\<^verbatim>\<open>core-ledger/src/log/memory-storage.ts\<close> 359-888, \<^verbatim>\<open>memory-child-state.ts\<close>, and the
  recovery sweep and state transition of \<^verbatim>\<open>core-child-control/src/child/store.ts\<close>): child tasks
  and their creation attempts, budget scopes, reservations and cost origins. The record extends the
  ledger half, because creating a child also opens its book. The source hands out the records it
  stores; here a record is a value and every write goes through the map that holds it.
\<close>

section \<open>State\<close>

record child_store = ledger_store +
  childTasks :: "(session_key, child_task) jsmap"
  creationIndex :: "(string, session_key) jsmap"
  scopes :: "(string, budget_scope) jsmap"
  reservations :: "(string, reservation) jsmap"
  origins :: "(string, cost_binding) jsmap"
  workspaces :: "(string, planned_workspace) jsmap"
  ordinals :: "(string, int) jsmap"
  writerGens :: "(session_key, int) jsmap"
  permitSeq :: int

definition put_task :: "child_store \<Rightarrow> session_key \<Rightarrow> child_task \<Rightarrow> child_store" where
  "put_task st key row = st\<lparr>childTasks := jm_set (childTasks st) key row\<rparr>"

definition put_reservation :: "child_store \<Rightarrow> string \<Rightarrow> reservation \<Rightarrow> child_store" where
  "put_reservation st pid r = st\<lparr>reservations := jm_set (reservations st) pid r\<rparr>"

definition assertWritableFormat :: "child_store \<Rightarrow> unit res" where
  "assertWritableFormat st =
     require (\<not> controlFormat st > child_control_format) E_FORMAT ''child control format is newer than runtime''"

section \<open>Lookups\<close>

definition lookupByKey :: "child_store \<Rightarrow> session_key \<Rightarrow> child_task option" where
  "lookupByKey st key = jm_get (childTasks st) key"

definition lookupByCreationId :: "child_store \<Rightarrow> string \<Rightarrow> child_task option" where
  "lookupByCreationId st cid =
     (case jm_get (creationIndex st) cid of
        None \<Rightarrow> None
      | Some key \<Rightarrow> if key = '''' then None else jm_get (childTasks st) key)"

definition listByParent :: "child_store \<Rightarrow> session_key \<Rightarrow> child_task list" where
  "listByParent st key = filter (\<lambda>row. parentKey row = key) (jm_values (childTasks st))"

definition listByRoot :: "child_store \<Rightarrow> string \<Rightarrow> child_task list" where
  "listByRoot st rt = filter (\<lambda>row. rootTaskId row = rt) (jm_values (childTasks st))"

definition listCreatingChildAttempts :: "child_store \<Rightarrow> child_task list" where
  "listCreatingChildAttempts st = filter (\<lambda>row. creationPhase row = Phase_creating) (jm_values (childTasks st))"

definition workspace :: "child_store \<Rightarrow> string \<Rightarrow> planned_workspace option" where
  "workspace st wid = jm_get (workspaces st) wid"

definition scopeForChild :: "child_store \<Rightarrow> session_key \<Rightarrow> budget_scope option" where
  "scopeForChild st key =
     (case jm_get (childTasks st) key of
        None \<Rightarrow> None
      | Some row \<Rightarrow> jm_get (scopes st) (budgetScopeId row))"

section \<open>Creation attempts\<close>

definition beginChildAttempt :: "child_store \<Rightarrow> begin_attempt_input \<Rightarrow> child_store \<times> child_task option" where
  "beginChildAttempt st i =
     (case jm_get (childTasks st) (ba_childKey i) of
        None \<Rightarrow> (st, None)
      | Some row \<Rightarrow>
          if creationId row \<noteq> ba_creationId i then (st, None)
          else if creationPhase row = Phase_creating \<and> attemptId row = ba_nextAttemptId i
              \<and> creationRevision row = ba_expectedRevision i + 1 then (st, Some row)
          else if creationPhase row \<noteq> Phase_deferred \<or> attemptId row \<noteq> ba_previousAttemptId i
              \<or> creationRevision row \<noteq> ba_expectedRevision i \<or> ba_nextAttemptId i = ''''
              \<or> ba_nextAttemptId i = ba_previousAttemptId i then (st, None)
          else let row' = row\<lparr>attemptId := ba_nextAttemptId i, creationPhase := Phase_creating,
                 creationRevision := creationRevision row + 1, attemptStartedAt := ba_startedAt i,
                 deferredFact := None, cancelledFact := None\<rparr>
               in (put_task st (ba_childKey i) row', Some row'))"

definition assertCreationCas ::
  "child_task option \<Rightarrow> creation_cas_input \<Rightarrow> creation_phase \<Rightarrow> child_task res" where
  "assertCreationCas row i phase =
     (case row of
        None \<Rightarrow> throw E_CAS ''child creation attempt changed''
      | Some r \<Rightarrow>
          if creationId r \<noteq> cc_creationId i \<or> attemptId r \<noteq> cc_attemptId i
            \<or> creationRevision r \<noteq> cc_expectedRevision i \<or> creationPhase r \<noteq> phase
          then throw E_CAS ''child creation attempt changed'' else Inr r)"

definition deferCreatingChild ::
  "child_store \<Rightarrow> creation_cas_input \<Rightarrow> int \<Rightarrow> child_store \<times> deferred_fact res" where
  "deferCreatingChild st i t =
     (let row = jm_get (childTasks st) (cc_childKey i);
          settled = (case row of
              Some r \<Rightarrow> (case deferredFact r of
                  Some f \<Rightarrow> if creationPhase r = Phase_deferred \<and> df_attemptId f = cc_attemptId i
                      \<and> df_creationId f = cc_creationId i then Some f else None
                | None \<Rightarrow> None)
            | None \<Rightarrow> None) in
      case settled of
        Some f \<Rightarrow> (st, Inr f)
      | None \<Rightarrow>
         (case assertCreationCas row i Phase_creating of
            Inl e \<Rightarrow> (st, Inl e)
          | Inr r \<Rightarrow>
              let fct = \<lparr>df_childKey = cc_childKey i, df_creationId = cc_creationId i,
                    df_attemptId = cc_attemptId i, df_revision = cc_expectedRevision i + 1, df_deferredAt = t\<rparr>
              in (put_task st (cc_childKey i)
                    (r\<lparr>creationPhase := Phase_deferred, creationRevision := df_revision fct,
                       deferredFact := Some fct\<rparr>), Inr fct)))"

definition commitCreatingChild :: "child_store \<Rightarrow> creation_cas_input \<Rightarrow> child_store \<times> bool" where
  "commitCreatingChild st i =
     (let row = jm_get (childTasks st) (cc_childKey i) in
      if (\<exists>r \<in> set_option row. creationPhase r = Phase_committed \<and> creationId r = cc_creationId i
            \<and> attemptId r = cc_attemptId i) then (st, True)
      else case assertCreationCas row i Phase_creating of
        Inl _ \<Rightarrow> (st, False)
      | Inr r \<Rightarrow> (put_task st (cc_childKey i)
           (r\<lparr>creationPhase := Phase_committed, creationRevision := creationRevision r + 1\<rparr>), True))"

definition cancelCreatingChild ::
  "child_store \<Rightarrow> creation_cas_input \<Rightarrow> cancel_reason \<Rightarrow> int \<Rightarrow> child_store \<times> cancelled_fact res" where
  "cancelCreatingChild st i reason t =
     (let row = jm_get (childTasks st) (cc_childKey i);
          settled = (case row of
              Some r \<Rightarrow> (case cancelledFact r of
                  Some f \<Rightarrow> if creationPhase r = Phase_cancelled \<and> cf_attemptId f = cc_attemptId i
                      \<and> cf_creationId f = cc_creationId i then Some f else None
                | None \<Rightarrow> None)
            | None \<Rightarrow> None) in
      case settled of
        Some f \<Rightarrow> (st, Inr f)
      | None \<Rightarrow>
         (case assertCreationCas row i Phase_creating of
            Inl e \<Rightarrow> (st, Inl e)
          | Inr r \<Rightarrow>
              let fct = \<lparr>cf_childKey = cc_childKey i, cf_creationId = cc_creationId i,
                    cf_attemptId = cc_attemptId i, cf_revision = cc_expectedRevision i + 1,
                    cf_reason = reason, cf_cancelledAt = t\<rparr>;
                  r1 = r\<lparr>creationPhase := Phase_cancelled, creationRevision := cf_revision fct,
                         cancelledFact := Some fct\<rparr>;
                  r2 = (if state r1 = Creating
                        then r1\<lparr>state := (if reason = Open_failed then Failed else Cancelled),
                                stateRevision := stateRevision r1 + 1\<rparr>
                        else r1)
              in (put_task st (cc_childKey i) r2, Inr fct)))"

section \<open>Execution states\<close>

definition active_of_parent :: "(session_key, child_task) jsmap \<Rightarrow> session_key \<Rightarrow> int" where
  "active_of_parent tasks p =
     int (length (filter (\<lambda>row. parentKey row = p \<and> isActiveChildState (state row)) (jm_values tasks)))"

definition active_of_root :: "(session_key, child_task) jsmap \<Rightarrow> string \<Rightarrow> int" where
  "active_of_root tasks rt =
     int (length (filter (\<lambda>row. rootTaskId row = rt \<and> isActiveChildState (state row)) (jm_values tasks)))"

definition transitionMemoryChild ::
  "(session_key, child_task) jsmap \<Rightarrow> session_key \<Rightarrow> int \<Rightarrow> child_state \<Rightarrow> jsnum option
     \<Rightarrow> (session_key, child_task) jsmap \<times> bool res" where
  "transitionMemoryChild tasks key expectedRevision dst admission =
     (case jm_get tasks key of
        None \<Rightarrow> (tasks, Inr False)
      | Some row \<Rightarrow>
          if stateRevision row \<noteq> expectedRevision \<or> \<not> canTransitionChildState (state row) dst
          then (tasks, Inr False)
          else let write = (jm_set tasks key (row\<lparr>state := dst, stateRevision := stateRevision row + 1\<rparr>), Inr True) in
            if \<not> isActiveChildState (state row) \<and> isActiveChildState dst \<and> dst \<noteq> Cancelling
            then (case admission of
                None \<Rightarrow> (tasks, Inr False)
              | Some maxFanOut \<Rightarrow>
                 (case admitFanOut (active_of_parent tasks (parentKey row))
                         (active_of_root tasks (rootTaskId row)) maxFanOut of
                    Inl message \<Rightarrow> (tasks, throw E_CHILD_LIMIT message)
                  | Inr _ \<Rightarrow> write))
            else write)"

definition casState ::
  "child_store \<Rightarrow> session_key \<Rightarrow> int \<Rightarrow> child_state \<Rightarrow> jsnum option \<Rightarrow> child_store \<times> bool res" where
  "casState st key expectedRevision dst admission =
     (case transitionMemoryChild (childTasks st) key expectedRevision dst admission of
        (tasks, r) \<Rightarrow> (st\<lparr>childTasks := tasks\<rparr>, r))"

text \<open>\<^verbatim>\<open>child/store.ts\<close> 108-117: settles a child once, and leaves a terminal one alone.\<close>

definition transitionChildState :: "child_store \<Rightarrow> session_key \<Rightarrow> child_state \<Rightarrow> child_store \<times> unit res" where
  "transitionChildState st key dst =
     (case lookupByKey st key of
        None \<Rightarrow> (st, Inr ())
      | Some live \<Rightarrow>
          if state live = dst then (st, Inr ())
          else if state live = Completed \<or> state live = Failed \<or> state live = Cancelled then (st, Inr ())
          else case casState st key (stateRevision live) dst None of
            (st', Inl e) \<Rightarrow> (st', Inl e)
          | (st', Inr _) \<Rightarrow> (st', Inr ()))"

definition nextOrdinal :: "child_store \<Rightarrow> session_key \<Rightarrow> string \<Rightarrow> child_store \<times> int" where
  "nextOrdinal st p eff =
     (let key = p @ NUL # eff;
          n = (case jm_get (ordinals st) key of Some n \<Rightarrow> n | None \<Rightarrow> 0) + 1
      in (st\<lparr>ordinals := jm_set (ordinals st) key n\<rparr>, n))"

text \<open>\<^verbatim>\<open>child/store.ts\<close> 28-67: the sweep over stale attempts, each cancelled by its own exact CAS.\<close>

definition stale_attempt :: "in_flight \<Rightarrow> int \<Rightarrow> string list \<Rightarrow> child_task \<Rightarrow> bool" where
  "stale_attempt flying staleBefore live row \<longleftrightarrow>
     \<not> (creationPhase row \<noteq> Phase_creating \<or> deferredFact row \<noteq> None
        \<or> attemptStartedAt row > staleBefore \<or> jm_has flying (attemptId row) \<or> attemptId row \<in> set live)"

fun recover_rows ::
  "child_store \<Rightarrow> (child_task \<Rightarrow> bool) \<Rightarrow> int \<Rightarrow> child_task list \<Rightarrow> child_store \<times> cancelled_fact list res" where
  "recover_rows st stale now [] = (st, Inr [])"
| "recover_rows st stale now (row # rows) =
     (if \<not> stale row then recover_rows st stale now rows
      else case cancelCreatingChild st \<lparr>cc_childKey = childKey row, cc_creationId = creationId row,
                 cc_attemptId = attemptId row, cc_expectedRevision = creationRevision row\<rparr> Open_failed now of
          (st', Inr fct) \<Rightarrow>
            (case recover_rows st' stale now rows of
               (st'', Inr fcts) \<Rightarrow> (st'', Inr (fct # fcts))
             | (st'', Inl e) \<Rightarrow> (st'', Inl e))
        | (st', Inl e) \<Rightarrow>
            if error_code (Inl e :: unit res) = Some E_CAS then recover_rows st' stale now rows else (st', Inl e))"

definition recoverCreatingChildAttempts ::
  "child_store \<Rightarrow> in_flight \<Rightarrow> int \<Rightarrow> int \<Rightarrow> string list \<Rightarrow> child_store \<times> cancelled_fact list res" where
  "recoverCreatingChildAttempts st flying staleBefore now live =
     recover_rows st (stale_attempt flying staleBefore live) now (listCreatingChildAttempts st)"

section \<open>Scopes and delegated children\<close>

definition root_scope_id :: "string \<Rightarrow> string" where
  "root_scope_id rt = ''root:'' @ rt"

definition ensureRootScope :: "child_store \<Rightarrow> string \<Rightarrow> int \<Rightarrow> child_store \<times> budget_scope res" where
  "ensureRootScope st rt cap =
     (case assertWritableFormat st of
        Inl e \<Rightarrow> (st, Inl e)
      | Inr _ \<Rightarrow>
         (case jm_get (scopes st) (root_scope_id rt) of
            Some s \<Rightarrow> (st, Inr s)
          | None \<Rightarrow>
              if cap \<le> 0 then (st, throw E_BUDGET ''root tree budget cap must be positive'')
              else let s = \<lparr>bs_scopeId = root_scope_id rt, bs_rootTaskId = rt, bs_childKey = None,
                     bs_parentScopeId = None, capMicro = cap, settledMicro = 0, heldMicro = 0\<rparr>
                in (st\<lparr>scopes := jm_set (scopes st) (root_scope_id rt) s,
                      controlFormat := child_control_format\<rparr>, Inr s)))"

fun ancestors_refuse :: "(string, budget_scope) jsmap \<Rightarrow> int option \<Rightarrow> string list \<Rightarrow> string option" where
  "ancestors_refuse scs cap [] = None"
| "ancestors_refuse scs cap (sid # ids) =
     (case jm_get scs sid of
        None \<Rightarrow> Some (''unknown ancestor scope '' @ sid)
      | Some s \<Rightarrow>
         (case cap of
            Some c \<Rightarrow> if c > capMicro s - settledMicro s - heldMicro s
                      then Some ''child budget exceeds remaining ancestor cap''
                      else ancestors_refuse scs cap ids
          | None \<Rightarrow> ancestors_refuse scs cap ids))"

definition child_scope_id :: "session_key \<Rightarrow> string" where
  "child_scope_id key = ''child:'' @ key"

definition new_child_task ::
  "int \<Rightarrow> create_child_input \<Rightarrow> child_task option \<Rightarrow> string \<Rightarrow> string list \<Rightarrow> child_task" where
  "new_child_task now i parentTask scopeId ancestors =
     \<lparr>childKey = ci_childKey i, creationId = ci_creationId i,
      attemptId = (case ci_attemptId i of Some a \<Rightarrow> a | None \<Rightarrow> ''legacy:'' @ ci_writerRunId i),
      creationPhase = Phase_creating, creationRevision = 1,
      attemptStartedAt = (case ci_attemptStartedAt i of Some t \<Rightarrow> t | None \<Rightarrow> now),
      deferredFact = None, cancelledFact = None,
      parentKey = ci_parentKey i, rootTaskId = ci_rootTaskId i,
      runtimeOwnerSessionKey =
        (case parentTask of Some p \<Rightarrow> runtimeOwnerSessionKey p | None \<Rightarrow> ci_runtimeOwnerSessionKey i),
      kind = ci_kind i, generationDepth = ci_generationDepth i, generationLimit = ci_generationLimit i,
      boundarySeq = (if ci_fresh i then 0 else ci_boundarySeq i),
      inputHash = ci_inputHash i, inputText = ci_inputText i, cwd = ci_cwd i, actorId = ci_actorId i,
      budgetScopeId = scopeId, ancestorScopeIds = ancestors, workspaceId = Some (ci_workspaceId i),
      isolation = ci_isolation i, state = Creating, stateRevision = 1,
      taskControlFormat = child_control_format\<rparr>"

definition add_child :: "int \<Rightarrow> child_store \<Rightarrow> create_child_input \<Rightarrow> child_task option \<Rightarrow> budget_scope
    \<Rightarrow> string list \<Rightarrow> child_store \<times> child_task" where
  "add_child now st i parentTask rt ancestors =
     (let st1 = put_book st (ci_childKey i)
            (new_book\<lparr>b_parent := (if ci_fresh i then None else Some (ci_parentKey i, ci_boundarySeq i))\<rparr>);
          inherited = (case parentTask of Some p \<Rightarrow> budgetScopeId p | None \<Rightarrow> bs_scopeId rt);
          (scopeId, ancestors', st2) =
            (case ci_childCapMicro i of
               None \<Rightarrow> (inherited, ancestors, st1)
             | Some cap \<Rightarrow>
                 let sid = child_scope_id (ci_childKey i) in
                 (sid, ancestors @ [sid],
                  st1\<lparr>scopes := jm_set (scopes st1) sid
                    \<lparr>bs_scopeId = sid, bs_rootTaskId = ci_rootTaskId i, bs_childKey = Some (ci_childKey i),
                     bs_parentScopeId = Some inherited, capMicro = cap, settledMicro = 0, heldMicro = 0\<rparr>\<rparr>));
          row = new_child_task now i parentTask scopeId ancestors'
      in (st2\<lparr>childTasks := jm_set (childTasks st2) (ci_childKey i) row,
              creationIndex := jm_set (creationIndex st2) (ci_creationId i) (ci_childKey i),
              workspaces := jm_set (workspaces st2) (ci_workspaceId i)
                \<lparr>pw_workspaceId = ci_workspaceId i, pw_childKey = ci_childKey i, pw_isolation = ci_isolation i,
                 pw_path = ci_cwd i, pw_root = None, pw_branch = None, pw_phase = Planned\<rparr>,
              controlFormat := child_control_format\<rparr>, row))"

definition createDelegatedChild ::
  "int \<Rightarrow> child_store \<Rightarrow> create_child_input \<Rightarrow> child_store \<times> create_result res" where
  "createDelegatedChild now st i =
     (case assertWritableFormat st of Inl e \<Rightarrow> (st, Inl e) | Inr _ \<Rightarrow>
      (case (case jm_get (creationIndex st) (ci_creationId i) of
               Some k \<Rightarrow> if k = '''' then None else Some k | None \<Rightarrow> None) of
        Some existingKey \<Rightarrow>
         (case jm_get (childTasks st) existingKey of
            None \<Rightarrow> (st, throw E_STORAGE_FAULT ''creation index missing task'')
          | Some row \<Rightarrow> (st, Inr (if inputHash row = ci_inputHash i then Existing row else Conflict row)))
      | None \<Rightarrow>
         (case admitFanOut (active_of_parent (childTasks st) (ci_parentKey i))
                 (active_of_root (childTasks st) (ci_rootTaskId i)) (ci_maxFanOut i) of
            Inl message \<Rightarrow> (st, Inr (Refused Refused_fan_out message))
          | Inr _ \<Rightarrow>
             (case jm_get (scopes st) (root_scope_id (ci_rootTaskId i)) of
                None \<Rightarrow> (st, Inr (Refused Refused_budget ''tree budget scope is missing''))
              | Some rt \<Rightarrow>
                  let parentTask = jm_get (childTasks st) (ci_parentKey i);
                      ancestors = inheritAncestorScopeIds
                        (map_option (\<lambda>p. (ancestorScopeIds p, budgetScopeId p)) parentTask) (bs_scopeId rt) in
                  (case ancestors_refuse (scopes st) (ci_childCapMicro i) ancestors of
                     Some message \<Rightarrow> (st, Inr (Refused Refused_budget message))
                   | None \<Rightarrow>
                      (case jm_get (books st) (ci_parentKey i) of
                         None \<Rightarrow> (st, throw E_STORAGE_FAULT ''parent session missing'')
                       | Some _ \<Rightarrow>
                           if jm_has (books st) (ci_childKey i)
                           then (st, throw E_STORAGE_FAULT ''child key exists'')
                           else (case add_child now st i parentTask rt ancestors of
                               (st', row) \<Rightarrow> (st', Inr (Created row)))))))))"

section \<open>Writer generations\<close>

definition writerGeneration :: "child_store \<Rightarrow> session_key \<Rightarrow> int" where
  "writerGeneration st key = (case jm_get (writerGens st) key of Some n \<Rightarrow> n | None \<Rightarrow> 1)"

definition bumpWriterGeneration :: "child_store \<Rightarrow> session_key \<Rightarrow> child_store \<times> int" where
  "bumpWriterGeneration st key =
     (let n = writerGeneration st key + 1 in (st\<lparr>writerGens := jm_set (writerGens st) key n\<rparr>, n))"

definition takeoverReservation :: "child_store \<Rightarrow> string \<Rightarrow> int \<Rightarrow> child_store \<times> reservation res" where
  "takeoverReservation st pid expected =
     (case jm_get (reservations st) pid of
        None \<Rightarrow> (st, throw E_BUDGET ''only a held reservation can be taken over'')
      | Some r \<Rightarrow>
          if rv_status r \<noteq> Held then (st, throw E_BUDGET ''only a held reservation can be taken over'')
          else let current = writerGeneration st (rv_rootTaskId r);
                   mine = (\<lambda>c. rv_rootTaskId c = rv_rootTaskId r \<and> rv_status c = Held) in
            if current \<noteq> expected
              \<or> list_ex (\<lambda>c. mine c \<and> rv_writerGeneration c \<noteq> expected) (jm_values (reservations st))
            then (st, throw E_BUDGET ''stale reservation writer generation'')
            else let n = current + 1;
                     moved = (\<lambda>c. if mine c then c\<lparr>rv_writerGeneration := n\<rparr> else c)
              in (st\<lparr>writerGens := jm_set (writerGens st) (rv_rootTaskId r) n,
                     reservations := jm_map_values moved (reservations st)\<rparr>, Inr (moved r)))"

definition peekReservation :: "child_store \<Rightarrow> string \<Rightarrow> reservation option" where
  "peekReservation st pid = jm_get (reservations st) pid"

definition lookupReservationByIdentity ::
  "child_store \<Rightarrow> string \<Rightarrow> string \<Rightarrow> string \<Rightarrow> reservation option" where
  "lookupReservationByIdentity st rt eff hash =
     find (\<lambda>r. rv_rootTaskId r = rt \<and> rv_effectId r = eff \<and> rv_requestHash r = hash) (jm_values (reservations st))"

definition updateWorkspace ::
  "child_store \<Rightarrow> string \<Rightarrow> workspace_phase option \<Rightarrow> string option \<Rightarrow> child_store" where
  "updateWorkspace st wid phase path =
     (case jm_get (workspaces st) wid of
        None \<Rightarrow> st
      | Some w \<Rightarrow>
          let w1 = (case phase of Some p \<Rightarrow> w\<lparr>pw_phase := p\<rparr> | None \<Rightarrow> w);
              w2 = (case path of Some p \<Rightarrow> w1\<lparr>pw_path := p\<rparr> | None \<Rightarrow> w1);
              st1 = st\<lparr>workspaces := jm_set (workspaces st) wid w2\<rparr> in
          (case path of
             None \<Rightarrow> st1
           | Some p \<Rightarrow>
              (case jm_get (childTasks st1) (pw_childKey w) of
                 Some task \<Rightarrow> put_task st1 (pw_childKey w) (task\<lparr>cwd := p\<rparr>)
               | None \<Rightarrow> st1)))"

section \<open>Reservations\<close>

fun find_scopes :: "(string, budget_scope) jsmap \<Rightarrow> string list \<Rightarrow> string + budget_scope list" where
  "find_scopes scs [] = Inr []"
| "find_scopes scs (sid # ids) =
     (case jm_get scs sid of
        None \<Rightarrow> Inl sid
      | Some s \<Rightarrow> (case find_scopes scs ids of Inl m \<Rightarrow> Inl m | Inr ss \<Rightarrow> Inr (s # ss)))"

fun hold_scopes :: "(string, budget_scope) jsmap \<Rightarrow> string list \<Rightarrow> int \<Rightarrow> (string, budget_scope) jsmap \<times> unit res" where
  "hold_scopes scs [] q = (scs, Inr ())"
| "hold_scopes scs (sid # ids) q =
     (case jm_get scs sid of
        None \<Rightarrow> hold_scopes scs ids q
      | Some s \<Rightarrow>
         (case addMicro (heldMicro s) q of
            Inl e \<Rightarrow> (scs, Inl e)
          | Inr h \<Rightarrow> hold_scopes (jm_set scs sid (s\<lparr>heldMicro := h\<rparr>)) ids q))"

definition permit_id :: "int \<Rightarrow> string" where
  "permit_id n = ''p'' @ int_string n"

definition reserve :: "child_store \<Rightarrow> reserve_request \<Rightarrow> child_store \<times> reserve_result res" where
  "reserve st req =
     (case assertWritableFormat st of Inl e \<Rightarrow> (st, Inl e) | Inr _ \<Rightarrow>
      if rr_qMicro req < 0 then (st, Inr (Reserve_no Fail_invalid ''reservation is negative''))
      else if rr_writerGeneration req \<noteq> writerGeneration st (rr_rootTaskId req)
      then (st, Inr (Reserve_no Fail_invalid ''writer generation is not current''))
      else case find (\<lambda>r. rv_rootTaskId r = rr_rootTaskId req \<and> rv_effectId r = rr_effectId req)
               (jm_values (reservations st)) of
        Some prior \<Rightarrow>
          if rv_requestHash prior \<noteq> rr_requestHash req \<or> rv_qMicro prior \<noteq> rr_qMicro req
            \<or> rv_writerGeneration prior \<noteq> rr_writerGeneration req \<or> rv_scopeIds prior \<noteq> rr_scopeIds req
          then (st, Inr (Reserve_no Fail_invalid ''reservation effect identity conflicts with its durable binding''))
          else (st, Inr (Reserve_ok (rv_permitId prior) (rv_status prior) True))
      | None \<Rightarrow>
         (case find_scopes (scopes st) (rr_scopeIds req) of
            Inl sid \<Rightarrow> (st, Inr (Reserve_no Fail_invalid (''unknown budget scope '' @ sid)))
          | Inr ss \<Rightarrow>
             (case find (\<lambda>s. \<not> fitsCap (settledMicro s) (heldMicro s) (rr_qMicro req) (capMicro s)) ss of
                Some s \<Rightarrow> (st, Inr (Reserve_no Fail_cap (''reservation exceeds cap on '' @ bs_scopeId s)))
              | None \<Rightarrow>
                 (case hold_scopes (scopes st) (rr_scopeIds req) (rr_qMicro req) of
                    (scs, Inl e) \<Rightarrow> (st\<lparr>scopes := scs\<rparr>, Inl e)
                  | (scs, Inr _) \<Rightarrow>
                      let n = permitSeq st + 1; pid = permit_id n in
                      (st\<lparr>scopes := scs, permitSeq := n,
                          reservations := jm_set (reservations st) pid
                            \<lparr>rv_permitId = pid, rv_rootTaskId = rr_rootTaskId req, rv_scopeIds = rr_scopeIds req,
                             rv_qMicro = rr_qMicro req, rv_effectId = rr_effectId req,
                             rv_requestHash = rr_requestHash req,
                             rv_writerGeneration = rr_writerGeneration req, rv_status = Held\<rparr>\<rparr>,
                       Inr (Reserve_ok pid Held False))))))"

definition binding_of :: "reservation \<Rightarrow> int option \<Rightarrow> cost_binding" where
  "binding_of r actual =
     \<lparr>cb_permitId = rv_permitId r, cb_effectId = rv_effectId r, cb_requestHash = rv_requestHash r,
      cb_writerGeneration = rv_writerGeneration r, cb_actualMicro = actual, cb_scopeIds = rv_scopeIds r\<rparr>"

definition origin_key :: "settle_request \<Rightarrow> string" where
  "origin_key req = st_originSessionKey req @ '':'' @ int_string (st_originCostSeq req)"

text \<open>The loop of an overrun: a hold too small is left, the charge is added all the same.\<close>

fun overrun_scopes ::
  "(string, budget_scope) jsmap \<Rightarrow> string list \<Rightarrow> int \<Rightarrow> int \<Rightarrow> (string, budget_scope) jsmap \<times> unit res" where
  "overrun_scopes scs [] q actual = (scs, Inr ())"
| "overrun_scopes scs (sid # ids) q actual =
     (case jm_get scs sid of
        None \<Rightarrow> overrun_scopes scs ids q actual
      | Some s \<Rightarrow>
          let s1 = (if heldMicro s \<ge> q then s\<lparr>heldMicro := heldMicro s - q\<rparr> else s) in
          (case addMicro (settledMicro s1) actual of
             Inl e \<Rightarrow> (jm_set scs sid s1, Inl e)
           | Inr t \<Rightarrow> overrun_scopes (jm_set scs sid (s1\<lparr>settledMicro := t\<rparr>)) ids q actual))"

fun settle_scopes ::
  "(string, budget_scope) jsmap \<Rightarrow> string list \<Rightarrow> int \<Rightarrow> int \<Rightarrow> (string, budget_scope) jsmap \<times> unit res" where
  "settle_scopes scs [] q actual = (scs, Inr ())"
| "settle_scopes scs (sid # ids) q actual =
     (case jm_get scs sid of
        None \<Rightarrow> settle_scopes scs ids q actual
      | Some s \<Rightarrow>
          if heldMicro s < q then (scs, throw E_BUDGET ''held balance would go negative'')
          else let s1 = s\<lparr>heldMicro := heldMicro s - q\<rparr> in
          (case addMicro (settledMicro s1) actual of
             Inl e \<Rightarrow> (jm_set scs sid s1, Inl e)
           | Inr t \<Rightarrow> settle_scopes (jm_set scs sid (s1\<lparr>settledMicro := t\<rparr>)) ids q actual))"

definition bind_origin :: "child_store \<Rightarrow> settle_request \<Rightarrow> reservation \<Rightarrow> reservation_status \<Rightarrow> child_store" where
  "bind_origin st req r status =
     (put_reservation st (st_permitId req) (r\<lparr>rv_status := status\<rparr>))
       \<lparr>origins := jm_set (origins st) (origin_key req) (binding_of r (st_actualMicro req))\<rparr>"

definition settleOrigin :: "child_store \<Rightarrow> settle_request \<Rightarrow> child_store \<times> unit res" where
  "settleOrigin st req =
     (case jm_get (reservations st) (st_permitId req) of
        None \<Rightarrow> (st, throw E_BUDGET ''unknown reservation'')
      | Some r \<Rightarrow>
          if (\<exists>g \<in> set_option (st_writerGeneration req).
                g \<noteq> rv_writerGeneration r \<or> g \<noteq> writerGeneration st (rv_rootTaskId r))
          then (st, throw E_BUDGET ''stale reservation writer generation'')
          else case jm_get (origins st) (origin_key req) of
            Some prior \<Rightarrow>
              if cb_permitId prior \<noteq> rv_permitId r \<or> cb_effectId prior \<noteq> rv_effectId r
                \<or> cb_requestHash prior \<noteq> rv_requestHash r \<or> cb_writerGeneration prior \<noteq> rv_writerGeneration r
                \<or> cb_actualMicro prior \<noteq> st_actualMicro req \<or> cb_scopeIds prior \<noteq> rv_scopeIds r
              then (st, throw E_BUDGET ''cost origin conflicts with its durable reservation binding'')
              else (st, Inr ())
          | None \<Rightarrow>
              if rv_status r = Settled \<or> rv_status r = Released
              then (st, throw E_BUDGET ''permit already consumed'')
              else (case st_actualMicro req of
                None \<Rightarrow> (bind_origin st req r Status_unknown, Inr ())
              | Some actual \<Rightarrow>
                  if actual > rv_qMicro r then
                    (case overrun_scopes (scopes st) (rv_scopeIds r) (rv_qMicro r) actual of
                       (scs, Inl e) \<Rightarrow> (st\<lparr>scopes := scs\<rparr>, Inl e)
                     | (scs, Inr _) \<Rightarrow> (bind_origin (st\<lparr>scopes := scs\<rparr>) req r Status_unknown,
                          throw E_BUDGET ''settled cost overruns reservation''))
                  else
                    (case settle_scopes (scopes st) (rv_scopeIds r) (rv_qMicro r) actual of
                       (scs, Inl e) \<Rightarrow> (st\<lparr>scopes := scs\<rparr>, Inl e)
                     | (scs, Inr _) \<Rightarrow> (bind_origin (st\<lparr>scopes := scs\<rparr>) req r Settled, Inr ()))))"

fun release_scopes :: "(string, budget_scope) jsmap \<Rightarrow> string list \<Rightarrow> int \<Rightarrow> (string, budget_scope) jsmap" where
  "release_scopes scs [] q = scs"
| "release_scopes scs (sid # ids) q =
     (case jm_get scs sid of
        None \<Rightarrow> release_scopes scs ids q
      | Some s \<Rightarrow> release_scopes (jm_set scs sid (s\<lparr>heldMicro := heldMicro s - q\<rparr>)) ids q)"

text \<open>The generation is absent when the caller names only the permit.\<close>

definition releaseReservation :: "child_store \<Rightarrow> string \<Rightarrow> int option \<Rightarrow> child_store \<times> unit res" where
  "releaseReservation st pid gen =
     (case jm_get (reservations st) pid of
        None \<Rightarrow> (st, Inr ())
      | Some r \<Rightarrow>
          if (\<exists>g \<in> set_option gen. g \<noteq> rv_writerGeneration r \<or> g \<noteq> writerGeneration st (rv_rootTaskId r))
          then (st, throw E_BUDGET ''stale reservation writer generation'')
          else if rv_status r \<noteq> Held then (st, Inr ())
          else (put_reservation (st\<lparr>scopes := release_scopes (scopes st) (rv_scopeIds r) (rv_qMicro r)\<rparr>)
                  pid (r\<lparr>rv_status := Released\<rparr>), Inr ()))"

definition projectTree :: "child_store \<Rightarrow> string \<Rightarrow> tree_usage option" where
  "projectTree st rt =
     (case jm_get (scopes st) (root_scope_id rt) of
        None \<Rightarrow> None
      | Some s \<Rightarrow> Some \<lparr>tu_settledMicro = settledMicro s, tu_heldMicro = heldMicro s, tu_capMicro = capMicro s,
          tu_unknownHeld = list_ex (\<lambda>r. rv_rootTaskId r = rt \<and> rv_status r = Status_unknown)
            (jm_values (reservations st))\<rparr>)"

end
