(* ===== verification/Budget.thy ===== *)
theory Budget imports ChildStore begin

text \<open>
  The accounting of the budget tree. Every scope's held balance is the sum of the holds of the
  reservations on it, and what is settled and held never exceeds the cap; a reservation keeps its
  hold while it is held, or while its cost is unknown and no overrun has taken the hold away.
\<close>

section \<open>Which reservations hold\<close>

definition overrun_binding :: "reservation \<Rightarrow> cost_binding \<Rightarrow> bool" where
  "overrun_binding r b \<longleftrightarrow> cb_permitId b = rv_permitId r
     \<and> (case cb_actualMicro b of None \<Rightarrow> False | Some a \<Rightarrow> a > rv_qMicro r)"

definition overrun :: "(string, cost_binding) jsmap \<Rightarrow> reservation \<Rightarrow> bool" where
  "overrun os r \<longleftrightarrow> list_ex (overrun_binding r) (jm_values os)"

definition holds :: "(string, cost_binding) jsmap \<Rightarrow> reservation \<Rightarrow> bool" where
  "holds os r \<longleftrightarrow> rv_status r = Held \<or> (rv_status r = Status_unknown \<and> \<not> overrun os r)"

definition hold_on :: "(string, cost_binding) jsmap \<Rightarrow> string \<Rightarrow> reservation \<Rightarrow> int" where
  "hold_on os sid r = (if holds os r then rv_qMicro r * int (count_list (rv_scopeIds r) sid) else 0)"

definition held_sum :: "child_store \<Rightarrow> string \<Rightarrow> int" where
  "held_sum st sid = jm_sum (hold_on (origins st) sid) (reservations st)"

section \<open>The invariant\<close>

definition reservation_ok :: "child_store \<Rightarrow> string \<Rightarrow> reservation \<Rightarrow> bool" where
  "reservation_ok st pid r \<longleftrightarrow> rv_permitId r = pid \<and> 0 \<le> rv_qMicro r
     \<and> list_all (\<lambda>sid. jm_has (scopes st) sid) (rv_scopeIds r)
     \<and> (\<exists>n. 0 < n \<and> n \<le> permitSeq st \<and> pid = permit_id n)
     \<and> (overrun (origins st) r \<longrightarrow> rv_status r \<noteq> Held)"

definition budget_ok :: "child_store \<Rightarrow> bool" where
  "budget_ok st \<longleftrightarrow> jm_wf (scopes st) \<and> jm_wf (reservations st) \<and> jm_wf (origins st)
     \<and> 0 \<le> permitSeq st
     \<and> (\<forall>pid r. jm_get (reservations st) pid = Some r \<longrightarrow> reservation_ok st pid r)
     \<and> (\<forall>k b. jm_get (origins st) k = Some b \<longrightarrow> jm_has (reservations st) (cb_permitId b))
     \<and> (\<forall>sid s. jm_get (scopes st) sid = Some s \<longrightarrow> heldMicro s = held_sum st sid \<and> 0 \<le> settledMicro s)"

text \<open>
  How far recorded overruns went past their reservations on a scope. What is settled and held fits
  the cap but for that.
\<close>

definition excess_of :: "(string, reservation) jsmap \<Rightarrow> string \<Rightarrow> cost_binding \<Rightarrow> int" where
  "excess_of rs sid b =
     (case (cb_actualMicro b, jm_get rs (cb_permitId b)) of
        (Some a, Some r) \<Rightarrow> max 0 (a - rv_qMicro r) * int (count_list (rv_scopeIds r) sid)
      | _ \<Rightarrow> 0)"

definition excess :: "child_store \<Rightarrow> string \<Rightarrow> int" where
  "excess st sid = jm_sum (excess_of (reservations st) sid) (origins st)"

definition caps_ok :: "child_store \<Rightarrow> bool" where
  "caps_ok st \<longleftrightarrow> (\<forall>sid s. jm_get (scopes st) sid = Some s \<longrightarrow>
     settledMicro s + heldMicro s \<le> capMicro s + excess st sid)"

lemma permit_id_inject [simp]: "permit_id m = permit_id n \<longleftrightarrow> m = n"
  by (simp add: permit_id_def int_string_inject)

lemma hold_on_nonneg: "reservation_ok st pid r \<Longrightarrow> 0 \<le> hold_on os sid r"
  by (simp add: hold_on_def reservation_ok_def)

lemma budget_ok_values:
  "budget_ok st \<Longrightarrow> r \<in> set (jm_values (reservations st)) \<Longrightarrow> \<exists>pid. reservation_ok st pid r"
  unfolding budget_ok_def by (auto simp: jm_wf_get_iff) blast

lemma held_sum_nonneg: "budget_ok st \<Longrightarrow> 0 \<le> held_sum st sid"
  unfolding held_sum_def by (rule jm_sum_nonneg) (metis budget_ok_values hold_on_nonneg)

lemma sum_list_member_le:
  "x \<in> set xs \<Longrightarrow> (\<And>y. y \<in> set xs \<Longrightarrow> 0 \<le> f y) \<Longrightarrow> f x \<le> sum_list (map f xs)" for f :: "'a \<Rightarrow> int"
proof (induction xs)
  case (Cons a xs)
  have "0 \<le> sum_list (map f xs)" using Cons.prems(2) by (intro sum_list_nonneg) auto
  with Cons show ?case by fastforce
qed simp

text \<open>The hold of one reservation is part of the balance of each of its scopes.\<close>

lemma hold_within_held:
  assumes ok: "budget_ok st" and r: "jm_get (reservations st) pid = Some r" and h: "holds (origins st) r"
    and s: "jm_get (scopes st) sid = Some s"
  shows "rv_qMicro r * int (count_list (rv_scopeIds r) sid) \<le> heldMicro s"
proof -
  have "hold_on (origins st) sid r \<le> held_sum st sid"
    unfolding held_sum_def jm_sum_def
  proof (rule sum_list_member_le)
    show "r \<in> set (jm_values (reservations st))" using r by (force dest: map_of_SomeD)
    show "0 \<le> hold_on (origins st) sid y" if "y \<in> set (jm_values (reservations st))" for y
      using budget_ok_values [OF ok that] hold_on_nonneg by blast
  qed
  moreover have "heldMicro s = held_sum st sid" using ok s by (simp add: budget_ok_def)
  ultimately show ?thesis using h by (simp add: hold_on_def)
qed

section \<open>The loops over scopes\<close>

text \<open>What a loop over the scopes of a reservation does to each of them.\<close>

lemma hold_scopes_result:
  assumes "0 \<le> q" "\<And>sid s. jm_get scs sid = Some s \<Longrightarrow> 0 \<le> heldMicro s" "jm_wf scs"
  shows "\<exists>scs'. hold_scopes scs ids q = (scs', Inr ()) \<and> jm_wf scs'
    \<and> (\<forall>sid. jm_get scs' sid =
         map_option (\<lambda>s. s\<lparr>heldMicro := heldMicro s + q * int (count_list ids sid)\<rparr>) (jm_get scs sid))"
  using assms
proof (induction ids arbitrary: scs)
  case Nil
  then show ?case by (simp add: option.map_ident)
next
  case (Cons i ids)
  show ?case
  proof (cases "jm_get scs i")
    case None
    have "\<exists>scs'. hold_scopes scs ids q = (scs', Inr ()) \<and> jm_wf scs'
      \<and> (\<forall>sid. jm_get scs' sid =
         map_option (\<lambda>s. s\<lparr>heldMicro := heldMicro s + q * int (count_list ids sid)\<rparr>) (jm_get scs sid))"
      using Cons.prems by (intro Cons.IH) auto
    with None show ?thesis by (auto simp: map_option_case split: option.split)
  next
    case (Some s)
    let ?scs = "jm_set scs i (s\<lparr>heldMicro := heldMicro s + q\<rparr>)"
    have "\<exists>scs'. hold_scopes ?scs ids q = (scs', Inr ()) \<and> jm_wf scs'
      \<and> (\<forall>sid. jm_get scs' sid =
         map_option (\<lambda>s. s\<lparr>heldMicro := heldMicro s + q * int (count_list ids sid)\<rparr>) (jm_get ?scs sid))"
      using Cons.prems Some by (intro Cons.IH) (auto split: if_splits)
    moreover have "addMicro (heldMicro s) q = Inr (heldMicro s + q)"
      using Cons.prems(1,2) Some by simp
    ultimately show ?thesis
      using Some by (auto simp: algebra_simps map_option_case split: option.split)
  qed
qed

lemma charge_scopes_result:
  assumes q: "0 \<le> q" "0 \<le> actual" and wf: "jm_wf scs"
    and enough: "\<And>sid s. jm_get scs sid = Some s \<Longrightarrow> q * int (count_list ids sid) \<le> heldMicro s \<and> 0 \<le> settledMicro s"
  shows "\<exists>scs'. settle_scopes scs ids q actual = (scs', Inr ()) \<and> overrun_scopes scs ids q actual = (scs', Inr ())
    \<and> jm_wf scs'
    \<and> (\<forall>sid. jm_get scs' sid = map_option (\<lambda>s. s\<lparr>heldMicro := heldMicro s - q * int (count_list ids sid),
         settledMicro := settledMicro s + actual * int (count_list ids sid)\<rparr>) (jm_get scs sid))"
  using wf enough
proof (induction ids arbitrary: scs)
  case Nil
  then show ?case by (simp add: option.map_ident)
next
  case (Cons i ids)
  show ?case
  proof (cases "jm_get scs i")
    case None
    have "\<exists>scs'. settle_scopes scs ids q actual = (scs', Inr ()) \<and> overrun_scopes scs ids q actual = (scs', Inr ())
      \<and> jm_wf scs'
      \<and> (\<forall>sid. jm_get scs' sid = map_option (\<lambda>s. s\<lparr>heldMicro := heldMicro s - q * int (count_list ids sid),
           settledMicro := settledMicro s + actual * int (count_list ids sid)\<rparr>) (jm_get scs sid))"
    proof (rule Cons.IH [OF Cons.prems(1)])
      show "q * int (count_list ids sid) \<le> heldMicro s \<and> 0 \<le> settledMicro s"
        if "jm_get scs sid = Some s" for sid s
        using Cons.prems(2) [OF that] that None by (cases "i = sid") auto
    qed
    with None show ?thesis by (auto simp: map_option_case split: option.split)
  next
    case (Some s)
    let ?s = "s\<lparr>heldMicro := heldMicro s - q, settledMicro := settledMicro s + actual\<rparr>"
    have room: "q * int (Suc (count_list ids i)) \<le> heldMicro s" "0 \<le> settledMicro s"
      using Cons.prems(2) [OF Some] by simp_all
    moreover have "0 \<le> q * int (count_list ids i)" using q by simp
    ultimately have q_le: "q \<le> heldMicro s" by (simp add: algebra_simps)
    have "\<exists>scs'. settle_scopes (jm_set scs i ?s) ids q actual = (scs', Inr ())
        \<and> overrun_scopes (jm_set scs i ?s) ids q actual = (scs', Inr ()) \<and> jm_wf scs'
      \<and> (\<forall>sid. jm_get scs' sid = map_option (\<lambda>s. s\<lparr>heldMicro := heldMicro s - q * int (count_list ids sid),
           settledMicro := settledMicro s + actual * int (count_list ids sid)\<rparr>) (jm_get (jm_set scs i ?s) sid))"
    proof (rule Cons.IH)
      show "jm_wf (jm_set scs i ?s)" using Cons.prems(1) by simp
      show "q * int (count_list ids sid) \<le> heldMicro t \<and> 0 \<le> settledMicro t"
        if "jm_get (jm_set scs i ?s) sid = Some t" for sid t
        using that room q Cons.prems(2) [of sid t] by (auto simp: algebra_simps split: if_splits)
    qed
    then show ?thesis
      using Some q_le room q by (auto simp: Let_def algebra_simps map_option_case split: option.split)
  qed
qed

lemma release_scopes_result:
  assumes "jm_wf scs"
  shows "jm_wf (release_scopes scs ids q)
    \<and> (\<forall>sid. jm_get (release_scopes scs ids q) sid =
         map_option (\<lambda>s. s\<lparr>heldMicro := heldMicro s - q * int (count_list ids sid)\<rparr>) (jm_get scs sid))"
  using assms
proof (induction ids arbitrary: scs)
  case Nil
  then show ?case by (simp add: option.map_ident)
next
  case (Cons i ids)
  show ?case
  proof (cases "jm_get scs i")
    case None
    with Cons show ?thesis by (auto simp: map_option_case split: option.split)
  next
    case (Some s)
    let ?scs = "jm_set scs i (s\<lparr>heldMicro := heldMicro s - q\<rparr>)"
    have "jm_wf ?scs" using Cons.prems by simp
    from Cons.IH [OF this] Some show ?thesis
      by (auto simp: algebra_simps map_option_case split: option.split)
  qed
qed

section \<open>What each call does to the sums\<close>

lemma jm_set_new: "jm_get m k = None \<Longrightarrow> jm_set m k v = m @ [(k, v)]"
  by (induction m) (auto split: if_splits)

lemma jm_sum_set_other:
  assumes "jm_wf m" "\<And>k v. jm_get m k = Some v \<Longrightarrow> k \<noteq> k0 \<Longrightarrow> g v = f v"
  shows "jm_sum g (jm_set m k0 w) = jm_sum f m + g w - (case jm_get m k0 of None \<Rightarrow> 0 | Some v \<Rightarrow> f v)"
  using assms
proof (induction m)
  case Nil
  then show ?case by (simp add: jm_sum_def)
next
  case (Cons p m)
  obtain k v where p: "p = (k, v)" by force
  have wf: "jm_wf m" and k: "jm_get m k = None"
    using Cons.prems(1) by (auto simp: jm_wf_def p map_of_eq_None_iff)
  show ?case
  proof (cases "k = k0")
    case True
    have "jm_sum g m = jm_sum f m"
    proof (rule jm_sum_cong)
      fix x assume "x \<in> set (jm_values m)"
      then obtain k' where "jm_get m k' = Some x" using wf by (auto simp: jm_wf_get_iff)
      moreover from this have "k' \<noteq> k" using k by auto
      ultimately show "g x = f x" using Cons.prems(2) [of k' x] True by (simp add: p)
    qed
    with True show ?thesis by (simp add: p jm_sum_def)
  next
    case False
    have "jm_sum g (jm_set m k0 w) = jm_sum f m + g w - (case jm_get m k0 of None \<Rightarrow> 0 | Some v \<Rightarrow> f v)"
    proof (rule Cons.IH [OF wf])
      fix k' x assume x: "jm_get m k' = Some x" "k' \<noteq> k0"
      moreover from this k have "k' \<noteq> k" by auto
      ultimately show "g x = f x" using Cons.prems(2) [of k' x] by (simp add: p)
    qed
    moreover have "g v = f v" using Cons.prems(2) [of k v] False by (simp add: p)
    ultimately show ?thesis using False by (simp add: p jm_sum_def)
  qed
qed

lemma overrun_set:
  assumes "jm_get os k = None"
  shows "overrun (jm_set os k b) r \<longleftrightarrow> overrun os r \<or> overrun_binding r b"
  by (simp add: overrun_def jm_set_new [OF assms])

lemma hold_on_other:
  assumes "jm_get os k = None" "cb_permitId b \<noteq> rv_permitId r"
  shows "hold_on (jm_set os k b) sid r = hold_on os sid r"
  using assms by (auto simp: hold_on_def holds_def overrun_set overrun_binding_def)

lemma overrun_gen [simp]:
  "overrun os (r\<lparr>rv_status := s\<rparr>) = overrun os r" "overrun os (r\<lparr>rv_writerGeneration := g\<rparr>) = overrun os r"
proof -
  have q: "rv_qMicro (r\<lparr>rv_status := s\<rparr>) = rv_qMicro r" "rv_qMicro (r\<lparr>rv_writerGeneration := g\<rparr>) = rv_qMicro r"
    "rv_permitId (r\<lparr>rv_status := s\<rparr>) = rv_permitId r" "rv_permitId (r\<lparr>rv_writerGeneration := g\<rparr>) = rv_permitId r"
    by simp_all
  show "overrun os (r\<lparr>rv_status := s\<rparr>) = overrun os r" "overrun os (r\<lparr>rv_writerGeneration := g\<rparr>) = overrun os r"
    unfolding overrun_def overrun_binding_def [abs_def] q by (rule refl)+
qed

text \<open>
  The shape of every budget write: one reservation's record is replaced, one origin may be bound to
  it, and the scopes move by the difference of its hold.
\<close>

lemma budget_ok_write:
  assumes ok: "budget_ok st" and r: "jm_get (reservations st) pid = Some r"
    and same: "rv_permitId r' = pid" "rv_qMicro r' = rv_qMicro r" "rv_scopeIds r' = rv_scopeIds r"
    and os: "os' = origins st \<or> (\<exists>k b. jm_get (origins st) k = None \<and> cb_permitId b = pid \<and> os' = jm_set (origins st) k b)"
    and over: "overrun os' r' \<longrightarrow> rv_status r' \<noteq> Held"
    and scs: "jm_wf scs'"
      "\<And>sid. jm_get scs' sid = map_option (\<lambda>s. s\<lparr>heldMicro := heldMicro s - h * int (count_list (rv_scopeIds r) sid),
          settledMicro := settledMicro s + a * int (count_list (rv_scopeIds r) sid)\<rparr>) (jm_get (scopes st) sid)"
    and h: "h = (if holds (origins st) r then rv_qMicro r else 0) - (if holds os' r' then rv_qMicro r else 0)"
    and a: "0 \<le> a"
    and st': "scopes st' = scs'" "reservations st' = jm_set (reservations st) pid r'" "origins st' = os'"
      "permitSeq st' = permitSeq st"
  shows "budget_ok st'"
proof -
  have wf: "jm_wf (scopes st)" "jm_wf (reservations st)" "jm_wf (origins st)" using ok by (simp_all add: budget_ok_def)
  have rok: "reservation_ok st p x" if "jm_get (reservations st) p = Some x" for p x
    using ok that by (simp add: budget_ok_def)
  have has: "jm_has scs' sid = jm_has (scopes st) sid" for sid by (simp add: scs(2))
  have others: "overrun os' x = overrun (origins st) x" if "rv_permitId x \<noteq> pid" for x
    using os that by (auto simp: overrun_set overrun_binding_def)
  have sum: "held_sum st' sid = held_sum st sid + hold_on os' sid r' - hold_on (origins st) sid r" for sid
  proof -
    have "hold_on os' sid x = hold_on (origins st) sid x" if "jm_get (reservations st) p = Some x" "p \<noteq> pid" for p x
      using rok [OF that(1)] that(2) others [of x] by (simp add: hold_on_def holds_def reservation_ok_def)
    from jm_sum_set_other [OF wf(2) this, where w = r'] r show ?thesis
      by (simp add: held_sum_def st')
  qed
  have "heldMicro s = held_sum st' sid \<and> 0 \<le> settledMicro s" if "jm_get scs' sid = Some s" for sid s
  proof -
    from that obtain t where t: "jm_get (scopes st) sid = Some t"
      and s: "s = t\<lparr>heldMicro := heldMicro t - h * int (count_list (rv_scopeIds r) sid),
          settledMicro := settledMicro t + a * int (count_list (rv_scopeIds r) sid)\<rparr>"
      by (auto simp: scs(2))
    have "heldMicro t = held_sum st sid" "0 \<le> settledMicro t" using ok t by (simp_all add: budget_ok_def)
    moreover have "h * int (count_list (rv_scopeIds r) sid) = hold_on (origins st) sid r - hold_on os' sid r'"
      unfolding h by (simp add: hold_on_def same algebra_simps)
    ultimately show ?thesis using a by (simp add: s sum)
  qed
  moreover have "jm_has (reservations st') (cb_permitId b)" if "jm_get os' k = Some b" for k b
  proof -
    have "jm_has (reservations st) (cb_permitId b) \<or> cb_permitId b = pid"
      using os that ok by (auto simp: budget_ok_def split: if_splits)
    then show ?thesis by (auto simp: st')
  qed
  moreover have "reservation_ok st' p x" if "jm_get (reservations st') p = Some x" for p x
  proof (cases "p = pid")
    case True
    with that have "x = r'" by (simp add: st')
    with rok [OF r] same over True show ?thesis by (simp add: reservation_ok_def st' has del: not_None_eq)
  next
    case False
    with that have "jm_get (reservations st) p = Some x" by (simp add: st')
    with rok [OF this] others [of x] False show ?thesis by (simp add: reservation_ok_def st' has del: not_None_eq)
  qed
  moreover have "jm_wf os'" using os wf by auto
  ultimately show ?thesis using wf scs(1) ok unfolding budget_ok_def by (simp add: st')
qed

lemma caps_ok_write:
  assumes caps: "caps_ok st"
    and scs: "\<And>sid. jm_get (scopes st') sid = map_option (\<lambda>s. s\<lparr>heldMicro := heldMicro s - h * int (count_list ids sid),
          settledMicro := settledMicro s + a * int (count_list ids sid)\<rparr>) (jm_get (scopes st) sid)"
    and ex: "\<And>sid. (a - h) * int (count_list ids sid) \<le> excess st' sid - excess st sid"
  shows "caps_ok st'"
  unfolding caps_ok_def
proof (intro allI impI)
  fix sid s
  assume "jm_get (scopes st') sid = Some s"
  then obtain t where t: "jm_get (scopes st) sid = Some t"
    and s: "s = t\<lparr>heldMicro := heldMicro t - h * int (count_list ids sid),
          settledMicro := settledMicro t + a * int (count_list ids sid)\<rparr>"
    by (auto simp: scs)
  have "settledMicro t + heldMicro t \<le> capMicro t + excess st sid" using caps t by (simp add: caps_ok_def)
  with ex [of sid] show "settledMicro s + heldMicro s \<le> capMicro s + excess st' sid"
    by (simp add: s algebra_simps)
qed

text \<open>Replacing a reservation's record leaves the excess alone; binding an origin adds its own.\<close>

lemma excess_set:
  assumes "jm_get (reservations st) pid = Some r" "rv_qMicro r' = rv_qMicro r" "rv_scopeIds r' = rv_scopeIds r"
  shows "excess_of (jm_set (reservations st) pid r') sid b = excess_of (reservations st) sid b"
  using assms by (auto simp: excess_of_def split: option.split)

lemma excess_same:
  assumes "jm_get (reservations st) pid = Some r" "rv_qMicro r' = rv_qMicro r" "rv_scopeIds r' = rv_scopeIds r"
    and "reservations st' = jm_set (reservations st) pid r'" "origins st' = origins st"
  shows "excess st' sid = excess st sid"
  unfolding excess_def assms(4,5) using excess_set [OF assms(1-3)] by (intro jm_sum_cong)

lemma excess_bind:
  assumes "jm_get (reservations st) pid = Some r" "rv_qMicro r' = rv_qMicro r" "rv_scopeIds r' = rv_scopeIds r"
    and "reservations st' = jm_set (reservations st) pid r'" "origins st' = jm_set (origins st) k b"
    and "jm_get (origins st) k = None" "jm_wf (origins st)"
  shows "excess st' sid = excess st sid + excess_of (reservations st) sid b"
proof -
  have "excess st' sid = jm_sum (excess_of (reservations st) sid) (origins st')"
    unfolding excess_def assms(4) using excess_set [OF assms(1-3)] by (intro jm_sum_cong)
  then show ?thesis by (simp add: excess_def assms(5,6) jm_sum_set [OF assms(7)])
qed

section \<open>The operations keep the accounts\<close>

lemma budget_frame:
  assumes "scopes st' = scopes st" "reservations st' = reservations st" "origins st' = origins st"
    "permitSeq st' = permitSeq st"
  shows "budget_ok st' = budget_ok st" "caps_ok st' = caps_ok st"
  using assms
  by (simp_all add: budget_ok_def caps_ok_def held_sum_def excess_def reservation_ok_def)

definition settle_safe :: "child_store \<Rightarrow> settle_request \<Rightarrow> bool" where
  "settle_safe st req \<longleftrightarrow>
     (case st_actualMicro req of None \<Rightarrow> True | Some a \<Rightarrow> 0 \<le> a)
     \<and> (case jm_get (reservations st) (st_permitId req) of None \<Rightarrow> True
        | Some r \<Rightarrow> \<not> overrun (origins st) r)"

lemma bind_origin_sel [simp]:
  "scopes (bind_origin st req r s) = scopes st" "permitSeq (bind_origin st req r s) = permitSeq st"
  "reservations (bind_origin st req r s) = jm_set (reservations st) (st_permitId req) (r\<lparr>rv_status := s\<rparr>)"
  "origins (bind_origin st req r s) = jm_set (origins st) (origin_key req) (binding_of r (st_actualMicro req))"
  by (simp_all add: bind_origin_def put_reservation_def)

lemma overrun_bind:
  assumes "jm_get os k = None" "\<not> overrun os r"
  shows "overrun (jm_set os k (binding_of r act)) (r\<lparr>rv_status := s\<rparr>) \<longleftrightarrow>
    (case act of None \<Rightarrow> False | Some a \<Rightarrow> a > rv_qMicro r)"
  using assms by (simp add: overrun_set overrun_binding_def binding_of_def split: option.split)

lemma excess_binding:
  assumes "jm_get rs pid = Some r" "rv_permitId r = pid"
  shows "excess_of rs sid (binding_of r act) =
    (case act of None \<Rightarrow> 0 | Some a \<Rightarrow> max 0 (a - rv_qMicro r) * int (count_list (rv_scopeIds r) sid))"
  using assms by (auto simp: excess_of_def binding_of_def split: option.split)

text \<open>One settlement of a live reservation, whatever it settles for.\<close>

lemma settle_write:
  assumes ok: "budget_ok st" "caps_ok st" and r: "jm_get (reservations st) (st_permitId req) = Some r"
    and live: "holds (origins st) r" "\<not> overrun (origins st) r" and new: "jm_get (origins st) (origin_key req) = None"
    and scs: "jm_wf scs"
      "\<And>sid. jm_get scs sid = map_option (\<lambda>s. s\<lparr>heldMicro := heldMicro s - h * int (count_list (rv_scopeIds r) sid),
          settledMicro := settledMicro s + a * int (count_list (rv_scopeIds r) sid)\<rparr>) (jm_get (scopes st) sid)"
    and how: "(st_actualMicro req = None \<and> h = 0 \<and> a = 0 \<and> s = Status_unknown)
      \<or> (st_actualMicro req = Some a \<and> 0 \<le> a \<and> h = rv_qMicro r
          \<and> s = (if a > rv_qMicro r then Status_unknown else Settled))"
  shows "budget_ok (bind_origin (st\<lparr>scopes := scs\<rparr>) req r s) \<and> caps_ok (bind_origin (st\<lparr>scopes := scs\<rparr>) req r s)"
proof
  let ?r = "r\<lparr>rv_status := s\<rparr>"
  let ?os = "jm_set (origins st) (origin_key req) (binding_of r (st_actualMicro req))"
  let ?st = "bind_origin (st\<lparr>scopes := scs\<rparr>) req r s"
  have pid: "rv_permitId r = st_permitId req" using ok(1) r by (simp add: budget_ok_def reservation_ok_def)
  note over = overrun_bind [OF new live(2), of "st_actualMicro req" s]
  have h: "h = (if holds (origins st) r then rv_qMicro r else 0) - (if holds ?os ?r then rv_qMicro r else 0)"
    using how live(1) over by (auto simp: holds_def)
  show "budget_ok ?st"
  proof (rule budget_ok_write [OF ok(1) r])
    show "?os = origins st \<or> (\<exists>k b. jm_get (origins st) k = None \<and> cb_permitId b = st_permitId req
        \<and> ?os = jm_set (origins st) k b)"
      using new pid
      by (intro disjI2 exI [of _ "origin_key req"] exI [of _ "binding_of r (st_actualMicro req)"])
         (simp add: binding_of_def)
    show "overrun ?os ?r \<longrightarrow> rv_status ?r \<noteq> Held" using how by (auto split: if_splits)
    show "0 \<le> a" using how by auto
  qed (use scs h pid in simp_all)
  have ex: "excess ?st sid = excess st sid + (case st_actualMicro req of None \<Rightarrow> 0
      | Some x \<Rightarrow> max 0 (x - rv_qMicro r) * int (count_list (rv_scopeIds r) sid))" for sid
    using excess_bind [OF r, where st' = ?st and r' = ?r and sid = sid] new ok(1) excess_binding [OF r pid]
    by (simp add: budget_ok_def)
  show "caps_ok ?st"
  proof (rule caps_ok_write [OF ok(2)])
    show "jm_get (scopes ?st) sid = map_option (\<lambda>s. s\<lparr>heldMicro := heldMicro s - h * int (count_list (rv_scopeIds r) sid),
          settledMicro := settledMicro s + a * int (count_list (rv_scopeIds r) sid)\<rparr>) (jm_get (scopes st) sid)" for sid
      using scs(2) by simp
    show "(a - h) * int (count_list (rv_scopeIds r) sid) \<le> excess ?st sid - excess st sid" for sid
      using how by (auto simp: ex intro!: mult_right_mono)
  qed
qed

lemma settle_budget_ok:
  assumes ok: "budget_ok st" "caps_ok st" and safe: "settle_safe st req"
  shows "budget_ok (fst (settleOrigin st req)) \<and> caps_ok (fst (settleOrigin st req))"
proof (cases "jm_get (reservations st) (st_permitId req)")
  case None
  then show ?thesis using ok by (simp add: settleOrigin_def)
next
  case (Some r)
  have ov: "\<not> overrun (origins st) r" using safe Some by (simp add: settle_safe_def)
  have q: "0 \<le> rv_qMicro r" using ok(1) Some by (simp add: budget_ok_def reservation_ok_def)
  show ?thesis
  proof (cases "fst (settleOrigin st req) = st")
    case True
    then show ?thesis using ok by simp
  next
    case False
    then have live: "holds (origins st) r" and new: "jm_get (origins st) (origin_key req) = None"
      using Some ov
      by (cases "rv_status r"; auto simp: settleOrigin_def holds_def split: option.splits if_splits)+
    have fresh: "fst (settleOrigin st req) =
        (case st_actualMicro req of
           None \<Rightarrow> bind_origin st req r Status_unknown
         | Some actual \<Rightarrow> if actual > rv_qMicro r then
              (case overrun_scopes (scopes st) (rv_scopeIds r) (rv_qMicro r) actual of
                 (scs, Inl e) \<Rightarrow> st\<lparr>scopes := scs\<rparr>
               | (scs, Inr _) \<Rightarrow> bind_origin (st\<lparr>scopes := scs\<rparr>) req r Status_unknown)
            else (case settle_scopes (scopes st) (rv_scopeIds r) (rv_qMicro r) actual of
                 (scs, Inl e) \<Rightarrow> st\<lparr>scopes := scs\<rparr>
               | (scs, Inr _) \<Rightarrow> bind_origin (st\<lparr>scopes := scs\<rparr>) req r Settled))"
      using False Some new live
      by (auto simp: settleOrigin_def holds_def split: option.splits if_splits prod.splits sum.splits)
    show ?thesis
    proof (cases "st_actualMicro req")
      case None
      have wf: "jm_wf (scopes st)" using ok(1) by (simp add: budget_ok_def)
      have "budget_ok (bind_origin (st\<lparr>scopes := scopes st\<rparr>) req r Status_unknown)
          \<and> caps_ok (bind_origin (st\<lparr>scopes := scopes st\<rparr>) req r Status_unknown)"
        by (rule settle_write [OF ok Some live ov new wf, where h = 0 and a = 0])
           (simp_all add: None option.map_ident)
      then show ?thesis by (simp add: fresh None)
    next
      case act: (Some a)
      have a: "0 \<le> a" using safe act by (simp add: settle_safe_def)
      have enough: "rv_qMicro r * int (count_list (rv_scopeIds r) sid) \<le> heldMicro s \<and> 0 \<le> settledMicro s"
        if "jm_get (scopes st) sid = Some s" for sid s
        using hold_within_held [OF ok(1) Some live that] ok(1) that by (simp add: budget_ok_def)
      have wf: "jm_wf (scopes st)" using ok(1) by (simp add: budget_ok_def)
      from charge_scopes_result [OF q a wf enough] obtain scs where
        scs: "settle_scopes (scopes st) (rv_scopeIds r) (rv_qMicro r) a = (scs, Inr ())"
          "overrun_scopes (scopes st) (rv_scopeIds r) (rv_qMicro r) a = (scs, Inr ())" "jm_wf scs"
          "\<And>sid. jm_get scs sid = map_option (\<lambda>s. s\<lparr>heldMicro := heldMicro s - rv_qMicro r * int (count_list (rv_scopeIds r) sid),
         settledMicro := settledMicro s + a * int (count_list (rv_scopeIds r) sid)\<rparr>) (jm_get (scopes st) sid)"
        by blast
      have "budget_ok (bind_origin (st\<lparr>scopes := scs\<rparr>) req r (if a > rv_qMicro r then Status_unknown else Settled))
          \<and> caps_ok (bind_origin (st\<lparr>scopes := scs\<rparr>) req r (if a > rv_qMicro r then Status_unknown else Settled))"
        by (rule settle_write [OF ok Some live ov new scs(3,4)]) (use act a in simp)
      then show ?thesis by (simp add: fresh act scs(1,2) split: if_splits)
    qed
  qed
qed

end
