(* ===== verification/BudgetProps.thy ===== *)
theory BudgetProps imports Budget begin

text \<open>
  The budget tree as a state machine: every child-control call keeps the accounts, reserving and
  settling are idempotent, and a second settlement of an overrun reservation takes a hold that
  belongs to others.
\<close>

section \<open>Reserving and releasing\<close>

lemma find_scopes_Inr: "find_scopes scs ids = Inr ss \<Longrightarrow> map (jm_get scs) ids = map Some ss"
  by (induction ids arbitrary: ss) (auto split: option.splits sum.splits)

lemma find_scopes_has:
  assumes "find_scopes scs ids = Inr ss" "sid \<in> set ids"
  shows "\<exists>s \<in> set ss. jm_get scs sid = Some s"
proof -
  have "jm_get scs sid \<in> set (map (jm_get scs) ids)" using assms(2) by simp
  then show ?thesis unfolding find_scopes_Inr [OF assms(1)] by auto
qed

lemma reserve_fresh:
  assumes "reserve st req = (st', Inr (Reserve_ok pid status False))"
  obtains ss scs where "rr_writerGeneration req = writerGeneration st (rr_rootTaskId req)" "0 \<le> rr_qMicro req"
    "find (\<lambda>r. rv_rootTaskId r = rr_rootTaskId req \<and> rv_effectId r = rr_effectId req) (jm_values (reservations st)) = None"
    "find_scopes (scopes st) (rr_scopeIds req) = Inr ss"
    "\<forall>s \<in> set ss. fitsCap (settledMicro s) (heldMicro s) (rr_qMicro req) (capMicro s)"
    "hold_scopes (scopes st) (rr_scopeIds req) (rr_qMicro req) = (scs, Inr ())"
    "pid = permit_id (permitSeq st + 1)" "status = Held"
    "st' = st\<lparr>scopes := scs, permitSeq := permitSeq st + 1,
       reservations := jm_set (reservations st) pid
         \<lparr>rv_permitId = pid, rv_rootTaskId = rr_rootTaskId req, rv_scopeIds = rr_scopeIds req,
          rv_qMicro = rr_qMicro req, rv_effectId = rr_effectId req, rv_requestHash = rr_requestHash req,
          rv_writerGeneration = rr_writerGeneration req, rv_status = Held\<rparr>\<rparr>"
  using assms
  by (auto simp: reserve_def Let_def find_None_iff split: sum.splits if_splits option.splits prod.splits
      intro!: that)

lemma reserve_other:
  assumes "budget_ok st" "\<And>pid status. snd (reserve st req) \<noteq> Inr (Reserve_ok pid status False)"
  shows "fst (reserve st req) = st"
proof (cases "\<exists>ss. find_scopes (scopes st) (rr_scopeIds req) = Inr ss
    \<and> find (\<lambda>s. \<not> fitsCap (settledMicro s) (heldMicro s) (rr_qMicro req) (capMicro s)) ss = None \<and> 0 \<le> rr_qMicro req")
  case True
  have "\<exists>scs'. hold_scopes (scopes st) (rr_scopeIds req) (rr_qMicro req) = (scs', Inr ()) \<and> jm_wf scs'
    \<and> (\<forall>sid. jm_get scs' sid =
         map_option (\<lambda>s. s\<lparr>heldMicro := heldMicro s + rr_qMicro req * int (count_list (rr_scopeIds req) sid)\<rparr>)
           (jm_get (scopes st) sid))"
    using assms(1) True held_sum_nonneg [OF assms(1)]
    by (intro hold_scopes_result) (auto simp: budget_ok_def)
  with assms(2) [of "permit_id (permitSeq st + 1)" Held] show ?thesis
    by (auto simp: reserve_def Let_def split: sum.splits if_splits option.splits prod.splits)
next
  case False
  then show ?thesis
    by (auto simp: reserve_def Let_def split: sum.splits if_splits option.splits prod.splits)
qed

lemma permit_fresh:
  assumes "budget_ok st"
  shows "jm_get (reservations st) (permit_id (permitSeq st + 1)) = None"
proof (rule ccontr)
  assume "jm_get (reservations st) (permit_id (permitSeq st + 1)) \<noteq> None"
  then obtain r where "jm_get (reservations st) (permit_id (permitSeq st + 1)) = Some r" by blast
  with assms have "reservation_ok st (permit_id (permitSeq st + 1)) r" by (simp add: budget_ok_def)
  then obtain n where "n \<le> permitSeq st" "permit_id (permitSeq st + 1) = permit_id n"
    unfolding reservation_ok_def by blast
  then show False by simp
qed

lemma count_list_distinct: "distinct xs \<Longrightarrow> count_list xs x = (if x \<in> set xs then 1 else 0)"
  by (induction xs) auto

lemma reserve_budget_ok:
  assumes ok: "budget_ok st" "caps_ok st" and dist: "distinct (rr_scopeIds req)"
  shows "budget_ok (fst (reserve st req)) \<and> caps_ok (fst (reserve st req))"
proof (cases "\<exists>pid status. snd (reserve st req) = Inr (Reserve_ok pid status False)")
  case False
  then have "fst (reserve st req) = st" using reserve_other [OF ok(1)] by blast
  with ok show ?thesis by simp
next
  case True
  then obtain pid status where res: "reserve st req = (fst (reserve st req), Inr (Reserve_ok pid status False))"
    by (metis prod.collapse)
  from res obtain ss scs where "rr_writerGeneration req = writerGeneration st (rr_rootTaskId req)"
    and q: "0 \<le> rr_qMicro req"
    and "find (\<lambda>r. rv_rootTaskId r = rr_rootTaskId req \<and> rv_effectId r = rr_effectId req) (jm_values (reservations st)) = None"
    and ss: "find_scopes (scopes st) (rr_scopeIds req) = Inr ss"
      "\<forall>s \<in> set ss. fitsCap (settledMicro s) (heldMicro s) (rr_qMicro req) (capMicro s)"
    and scs: "hold_scopes (scopes st) (rr_scopeIds req) (rr_qMicro req) = (scs, Inr ())"
    and pid: "pid = permit_id (permitSeq st + 1)" and "status = Held"
    and st': "fst (reserve st req) = st\<lparr>scopes := scs, permitSeq := permitSeq st + 1,
       reservations := jm_set (reservations st) pid
         \<lparr>rv_permitId = pid, rv_rootTaskId = rr_rootTaskId req, rv_scopeIds = rr_scopeIds req,
          rv_qMicro = rr_qMicro req, rv_effectId = rr_effectId req, rv_requestHash = rr_requestHash req,
          rv_writerGeneration = rr_writerGeneration req, rv_status = Held\<rparr>\<rparr>"
    by (rule reserve_fresh)
  let ?r = "\<lparr>rv_permitId = pid, rv_rootTaskId = rr_rootTaskId req, rv_scopeIds = rr_scopeIds req,
          rv_qMicro = rr_qMicro req, rv_effectId = rr_effectId req, rv_requestHash = rr_requestHash req,
          rv_writerGeneration = rr_writerGeneration req, rv_status = Held\<rparr>"
  let ?st = "st\<lparr>scopes := scs, permitSeq := permitSeq st + 1, reservations := jm_set (reservations st) pid ?r\<rparr>"
  have wf: "jm_wf (scopes st)" "jm_wf (reservations st)" "jm_wf (origins st)" using ok(1) by (simp_all add: budget_ok_def)
  have held: "heldMicro s = held_sum st sid \<and> 0 \<le> settledMicro s" if "jm_get (scopes st) sid = Some s" for sid s
    using ok(1) that by (simp add: budget_ok_def)
  have "\<exists>scs'. hold_scopes (scopes st) (rr_scopeIds req) (rr_qMicro req) = (scs', Inr ()) \<and> jm_wf scs'
    \<and> (\<forall>sid. jm_get scs' sid =
         map_option (\<lambda>s. s\<lparr>heldMicro := heldMicro s + rr_qMicro req * int (count_list (rr_scopeIds req) sid)\<rparr>)
           (jm_get (scopes st) sid))"
    using held q wf held_sum_nonneg [OF ok(1)] by (intro hold_scopes_result) auto
  with scs have scs': "jm_wf scs" "\<And>sid. jm_get scs sid =
      map_option (\<lambda>s. s\<lparr>heldMicro := heldMicro s + rr_qMicro req * int (count_list (rr_scopeIds req) sid)\<rparr>)
        (jm_get (scopes st) sid)" by auto
  have fresh: "jm_get (reservations st) pid = None" using permit_fresh [OF ok(1)] pid by simp
  have no_origin: "cb_permitId b \<noteq> pid" if "jm_get (origins st) k = Some b" for k b
    using ok(1) that fresh by (fastforce simp: budget_ok_def)
  have no_value: "cb_permitId b \<noteq> pid" if "b \<in> set (jm_values (origins st))" for b
  proof -
    from that obtain k where "jm_get (origins st) k = Some b" using wf(3) by (auto simp: jm_wf_get_iff)
    then show ?thesis by (rule no_origin)
  qed
  have over: "\<not> overrun (origins st) ?r"
    unfolding overrun_def list_ex_iff overrun_binding_def using no_value by auto
  have sum: "held_sum ?st sid = held_sum st sid + rr_qMicro req * int (count_list (rr_scopeIds req) sid)" for sid
    by (simp add: held_sum_def jm_sum_set [OF wf(2)] fresh hold_on_def holds_def)
  have has: "jm_has scs sid = jm_has (scopes st) sid" for sid by (simp add: scs'(2))
  have scoped: "list_all (\<lambda>sid. jm_has scs sid) (rr_scopeIds req)"
    using find_scopes_has [OF ss(1)] unfolding list_all_iff has by fastforce
  have rok: "reservation_ok ?st p x" if "jm_get (reservations ?st) p = Some x" for p x
  proof (cases "p = pid")
    case True
    then have "x = ?r" using that by simp
    moreover have "0 \<le> permitSeq st" using ok(1) by (simp add: budget_ok_def)
    moreover have "\<exists>n. 0 < n \<and> n \<le> permitSeq st + 1 \<and> pid = permit_id n"
      using \<open>0 \<le> permitSeq st\<close> by (intro exI [of _ "permitSeq st + 1"]) (simp add: pid)
    ultimately show ?thesis using True q over scoped by (simp add: reservation_ok_def del: not_None_eq)
  next
    case False
    then have "jm_get (reservations st) p = Some x" using that by simp
    then have "reservation_ok st p x" using ok(1) by (simp add: budget_ok_def)
    moreover from this obtain n where "0 < n" "n \<le> permitSeq st" "p = permit_id n"
      by (auto simp: reservation_ok_def)
    then have "\<exists>n. 0 < n \<and> n \<le> permitSeq st + 1 \<and> p = permit_id n" by (intro exI [of _ n]) simp
    ultimately show ?thesis by (simp add: reservation_ok_def has del: not_None_eq)
  qed
  have bok: "budget_ok ?st"
    unfolding budget_ok_def
  proof (intro conjI allI impI)
    show "jm_wf (scopes ?st)" "jm_wf (reservations ?st)" "jm_wf (origins ?st)" using scs'(1) wf by simp_all
    show "0 \<le> permitSeq ?st" using ok(1) by (simp add: budget_ok_def)
    show "reservation_ok ?st p x" if "jm_get (reservations ?st) p = Some x" for p x using that by (rule rok)
    show "jm_has (reservations ?st) (cb_permitId b)" if "jm_get (origins ?st) k = Some b" for k b
      using that ok(1) by (auto simp: budget_ok_def)
    fix sid s assume "jm_get (scopes ?st) sid = Some s"
    then obtain t where t: "jm_get (scopes st) sid = Some t"
      and s: "s = t\<lparr>heldMicro := heldMicro t + rr_qMicro req * int (count_list (rr_scopeIds req) sid)\<rparr>"
      by (auto simp: scs'(2))
    show "heldMicro s = held_sum ?st sid" "0 \<le> settledMicro s"
      unfolding sum using held [OF t] by (simp_all add: s)
  qed
  have ex: "excess ?st sid = excess st sid" for sid
    unfolding excess_def
  proof (simp, rule jm_sum_cong)
    fix b assume "b \<in> set (jm_values (origins st))"
    then obtain k where "jm_get (origins st) k = Some b" using wf(3) by (auto simp: jm_wf_get_iff)
    from no_origin [OF this] show "excess_of (jm_set (reservations st) pid ?r) sid b = excess_of (reservations st) sid b"
      by (simp add: excess_of_def)
  qed
  have "caps_ok ?st"
    unfolding caps_ok_def
  proof (intro allI impI)
    fix sid s assume "jm_get (scopes ?st) sid = Some s"
    then obtain t where t: "jm_get (scopes st) sid = Some t"
      and s: "s = t\<lparr>heldMicro := heldMicro t + rr_qMicro req * int (count_list (rr_scopeIds req) sid)\<rparr>"
      by (auto simp: scs'(2))
    have old: "settledMicro t + heldMicro t \<le> capMicro t + excess st sid" using ok(2) t by (simp add: caps_ok_def)
    have ex0: "0 \<le> excess st sid"
      unfolding excess_def by (rule jm_sum_nonneg) (auto simp: excess_of_def split: option.split)
    show "settledMicro s + heldMicro s \<le> capMicro s + excess ?st sid"
    proof (cases "sid \<in> set (rr_scopeIds req)")
      case True
      then have "fitsCap (settledMicro t) (heldMicro t) (rr_qMicro req) (capMicro t)"
        using find_scopes_has [OF ss(1) True] ss(2) t by auto
      then show ?thesis using ex0 True by (simp add: s ex fitsCap_def count_list_distinct [OF dist] split: if_splits)
    next
      case False
      then show ?thesis using old by (simp add: s ex count_list_distinct [OF dist])
    qed
  qed
  with bok st' show ?thesis by simp
qed

lemma release_budget_ok:
  assumes ok: "budget_ok st" "caps_ok st"
  shows "budget_ok (fst (releaseReservation st pid gen)) \<and> caps_ok (fst (releaseReservation st pid gen))"
proof (cases "fst (releaseReservation st pid gen) = st")
  case True
  then show ?thesis using ok by simp
next
  case False
  then obtain r where r: "jm_get (reservations st) pid = Some r" and h: "rv_status r = Held"
    by (auto simp: releaseReservation_def split: option.splits if_splits)
  let ?scs = "release_scopes (scopes st) (rv_scopeIds r) (rv_qMicro r)"
  let ?r = "r\<lparr>rv_status := Released\<rparr>"
  have st': "fst (releaseReservation st pid gen) = put_reservation (st\<lparr>scopes := ?scs\<rparr>) pid ?r"
    using False r h by (auto simp: releaseReservation_def split: if_splits)
  have wf: "jm_wf (scopes st)" using ok(1) by (simp add: budget_ok_def)
  have rok: "reservation_ok st pid r" using ok(1) r by (simp add: budget_ok_def)
  then have pid: "rv_permitId r = pid" and q: "0 \<le> rv_qMicro r" by (simp_all add: reservation_ok_def)
  have scs: "jm_wf ?scs" "jm_get ?scs sid = map_option (\<lambda>s. s\<lparr>heldMicro := heldMicro s - rv_qMicro r * int (count_list (rv_scopeIds r) sid),
          settledMicro := settledMicro s + 0 * int (count_list (rv_scopeIds r) sid)\<rparr>) (jm_get (scopes st) sid)" for sid
    using release_scopes_result [OF wf, of "rv_scopeIds r" "rv_qMicro r"] by (auto simp: option.map_ident split: option.split)
  have "budget_ok (put_reservation (st\<lparr>scopes := ?scs\<rparr>) pid ?r)"
    by (rule budget_ok_write [OF ok(1) r, where r' = ?r and scs' = ?scs and os' = "origins st" and h = "rv_qMicro r" and a = 0])
       (use scs pid h in \<open>simp_all add: put_reservation_def holds_def\<close>)
  moreover have "caps_ok (put_reservation (st\<lparr>scopes := ?scs\<rparr>) pid ?r)"
  proof (rule caps_ok_write [OF ok(2)])
    show "jm_get (scopes (put_reservation (st\<lparr>scopes := ?scs\<rparr>) pid ?r)) sid
        = map_option (\<lambda>s. s\<lparr>heldMicro := heldMicro s - rv_qMicro r * int (count_list (rv_scopeIds r) sid),
          settledMicro := settledMicro s + 0 * int (count_list (rv_scopeIds r) sid)\<rparr>) (jm_get (scopes st) sid)" for sid
      using scs(2) by (simp add: put_reservation_def)
    have "excess (put_reservation (st\<lparr>scopes := ?scs\<rparr>) pid ?r) sid = excess st sid" for sid
      by (rule excess_same [OF r, where r' = ?r]) (simp_all add: put_reservation_def)
    then show "(0 - rv_qMicro r) * int (count_list (rv_scopeIds r) sid)
        \<le> excess (put_reservation (st\<lparr>scopes := ?scs\<rparr>) pid ?r) sid - excess st sid" for sid
      using q by (simp add: mult_nonpos_nonneg)
  qed
  ultimately show ?thesis by (simp add: st')
qed

section \<open>Writer generations, scopes and children\<close>

lemma takeover_budget_ok:
  assumes ok: "budget_ok st" "caps_ok st"
  shows "budget_ok (fst (takeoverReservation st pid g)) \<and> caps_ok (fst (takeoverReservation st pid g))"
proof (cases "fst (takeoverReservation st pid g) = st")
  case True
  then show ?thesis using ok by simp
next
  case False
  then obtain r where r: "jm_get (reservations st) pid = Some r"
    by (auto simp: takeoverReservation_def split: option.splits)
  define n where "n = writerGeneration st (rv_rootTaskId r) + 1"
  have st': "fst (takeoverReservation st pid g) =
      st\<lparr>writerGens := jm_set (writerGens st) (rv_rootTaskId r) n,
         reservations := jm_map_values
           (\<lambda>c. if rv_rootTaskId c = rv_rootTaskId r \<and> rv_status c = Held then c\<lparr>rv_writerGeneration := n\<rparr> else c)
           (reservations st)\<rparr>"
    unfolding n_def using False r
    by (cases "g = writerGeneration st (rv_rootTaskId r)")
      (simp_all add: takeoverReservation_def Let_def split: if_splits)
  define f :: "reservation \<Rightarrow> reservation" where "f = (\<lambda>c. if rv_rootTaskId c = rv_rootTaskId r \<and> rv_status c = Held
      then c\<lparr>rv_writerGeneration := n\<rparr> else c)"
  have f: "rv_permitId (f c) = rv_permitId c" "rv_qMicro (f c) = rv_qMicro c" "rv_scopeIds (f c) = rv_scopeIds c"
    "rv_status (f c) = rv_status c" "overrun os (f c) = overrun os c" for c os
    by (simp_all add: f_def)
  have hold: "hold_on os sid (f c) = hold_on os sid c" for os sid c
    by (simp add: hold_on_def holds_def f)
  let ?st = "st\<lparr>writerGens := jm_set (writerGens st) (rv_rootTaskId r) n, reservations := jm_map_values f (reservations st)\<rparr>"
  have sum: "held_sum ?st sid = held_sum st sid" for sid
    by (simp add: held_sum_def jm_sum_def comp_def hold)
  have rok: "reservation_ok ?st p (f c) = reservation_ok st p c" for p c
    by (simp add: reservation_ok_def f)
  have ex: "excess ?st sid = excess st sid" for sid
    by (simp add: excess_def excess_of_def [abs_def] f cong: option.case_cong)
  have "budget_ok ?st" using ok(1) unfolding budget_ok_def sum by (auto simp: rok)
  moreover have "caps_ok ?st" using ok(2) by (simp add: caps_ok_def ex)
  ultimately show ?thesis by (simp add: st' f_def)
qed

lemma add_scope_budget_ok:
  assumes ok: "budget_ok st" "caps_ok st" and new: "jm_get (scopes st) sid = None"
    and s: "heldMicro s = 0" "settledMicro s = 0" "0 \<le> capMicro s"
    and st': "scopes st' = jm_set (scopes st) sid s" "reservations st' = reservations st"
      "origins st' = origins st" "permitSeq st' = permitSeq st"
  shows "budget_ok st' \<and> caps_ok st'"
proof
  have sums: "held_sum st' x = held_sum st x" "excess st' x = excess st x" for x
    by (simp_all add: held_sum_def excess_def st')
  have zero: "held_sum st sid = 0"
  proof -
    have "hold_on (origins st) sid r = 0" if "r \<in> set (jm_values (reservations st))" for r
    proof -
      from budget_ok_values [OF ok(1) that] obtain pid where "reservation_ok st pid r" by blast
      then have "sid \<notin> set (rv_scopeIds r)" using new by (auto simp: reservation_ok_def list_all_iff)
      then show ?thesis by (simp add: hold_on_def count_list_0_iff)
    qed
    then show ?thesis unfolding held_sum_def jm_sum_def by (simp cong: map_cong)
  qed
  have ex0: "0 \<le> excess st sid"
    unfolding excess_def by (rule jm_sum_nonneg) (auto simp: excess_of_def split: option.split)
  have rok: "reservation_ok st' p r" if "reservation_ok st p r" for p r
    using that by (auto simp: reservation_ok_def st' list_all_iff)
  show "budget_ok st'"
    using ok(1) rok s zero unfolding budget_ok_def sums st' by auto
  show "caps_ok st'"
    using ok(2) s ex0 unfolding caps_ok_def sums st' by auto
qed

lemma root_child_scope_ne [simp]: "root_scope_id a \<noteq> child_scope_id b"
  by (simp add: root_scope_id_def child_scope_id_def)

lemma child_scope_inject [simp]: "child_scope_id a = child_scope_id b \<longleftrightarrow> a = b"
  by (simp add: child_scope_id_def)

lemma root_scope_budget_ok:
  assumes ok: "budget_ok st" "caps_ok st"
  shows "budget_ok (fst (ensureRootScope st rt cap)) \<and> caps_ok (fst (ensureRootScope st rt cap))"
proof (cases "fst (ensureRootScope st rt cap) = st")
  case True
  then show ?thesis using ok by simp
next
  case False
  then have new: "jm_get (scopes st) (root_scope_id rt) = None" and cap: "0 < cap"
    by (auto simp: ensureRootScope_def split: sum.splits option.splits if_splits)
  let ?s = "\<lparr>bs_scopeId = root_scope_id rt, bs_rootTaskId = rt, bs_childKey = None,
       bs_parentScopeId = None, capMicro = cap, settledMicro = 0, heldMicro = 0\<rparr>"
  have "fst (ensureRootScope st rt cap) = st\<lparr>scopes := jm_set (scopes st) (root_scope_id rt) ?s,
      controlFormat := child_control_format\<rparr>"
    using False new cap by (auto simp: ensureRootScope_def Let_def split: sum.splits)
  then show ?thesis
    using add_scope_budget_ok [OF ok new, of ?s "fst (ensureRootScope st rt cap)"] cap by simp
qed

text \<open>A child's scope goes with its book, so a fresh child key has a fresh scope.\<close>

definition scopes_booked :: "child_store \<Rightarrow> bool" where
  "scopes_booked st \<longleftrightarrow> (\<forall>k. jm_has (scopes st) (child_scope_id k) \<longrightarrow> jm_has (books st) k)"

lemma add_child_fields:
  "reservations (fst (add_child now st i p rt anc)) = reservations st"
  "origins (fst (add_child now st i p rt anc)) = origins st"
  "permitSeq (fst (add_child now st i p rt anc)) = permitSeq st"
  "books (fst (add_child now st i p rt anc)) = jm_set (books st) (ci_childKey i)
     (new_book\<lparr>b_parent := (if ci_fresh i then None else Some (ci_parentKey i, ci_boundarySeq i))\<rparr>)"
  "ci_childCapMicro i = None \<Longrightarrow> scopes (fst (add_child now st i p rt anc)) = scopes st"
  "ci_childCapMicro i = Some c \<Longrightarrow> \<exists>s. scopes (fst (add_child now st i p rt anc)) =
       jm_set (scopes st) (child_scope_id (ci_childKey i)) s
     \<and> heldMicro s = 0 \<and> settledMicro s = 0 \<and> capMicro s = c"
  by (auto simp: add_child_def Let_def put_book_def split: option.split)

text \<open>A call that changes the store adds a child, under the admitted fan-out and a fresh book.\<close>

lemma createDelegated_changed:
  assumes ch: "fst (createDelegatedChild now st i) \<noteq> st \<or> snd (createDelegatedChild now st i) = Inr (Created row)"
  shows "\<exists>rt anc. createDelegatedChild now st i =
      (fst (add_child now st i (jm_get (childTasks st) (ci_parentKey i)) rt anc),
       Inr (Created (snd (add_child now st i (jm_get (childTasks st) (ci_parentKey i)) rt anc))))
    \<and> jm_get (books st) (ci_childKey i) = None
    \<and> jm_get (scopes st) (root_scope_id (ci_rootTaskId i)) = Some rt
    \<and> anc = inheritAncestorScopeIds (map_option (\<lambda>p. (ancestorScopeIds p, budgetScopeId p))
          (jm_get (childTasks st) (ci_parentKey i))) (bs_scopeId rt)
    \<and> ancestors_refuse (scopes st) (ci_childCapMicro i) anc = None
    \<and> admitFanOut (active_of_parent (childTasks st) (ci_parentKey i))
         (active_of_root (childTasks st) (ci_rootTaskId i)) (ci_maxFanOut i) = Inr ()"
proof -
  let ?ex = "case jm_get (creationIndex st) (ci_creationId i) of
      Some k \<Rightarrow> if k = [] then None else Some k | None \<Rightarrow> None"
  have fmt: "assertWritableFormat st = Inr ()"
    using ch by (cases "assertWritableFormat st") (simp_all add: createDelegatedChild_def)
  have ex: "?ex = None"
  proof (cases ?ex)
    case (Some k)
    then show ?thesis
      using ch by (cases "jm_get (childTasks st) k") (simp_all add: createDelegatedChild_def fmt throw_def split: if_splits)
  qed
  note d = createDelegatedChild_def [of now st i, unfolded fmt ex, simplified]
  have fan: "admitFanOut (active_of_parent (childTasks st) (ci_parentKey i))
         (active_of_root (childTasks st) (ci_rootTaskId i)) (ci_maxFanOut i) = Inr ()" (is "?fan = _")
    using ch by (cases ?fan) (simp_all add: d)
  obtain rt where rt: "jm_get (scopes st) (root_scope_id (ci_rootTaskId i)) = Some rt"
    using ch by (cases "jm_get (scopes st) (root_scope_id (ci_rootTaskId i))") (simp_all add: d fan)
  let ?p = "jm_get (childTasks st) (ci_parentKey i)"
  let ?anc = "inheritAncestorScopeIds (map_option (\<lambda>p. (ancestorScopeIds p, budgetScopeId p)) ?p) (bs_scopeId rt)"
  have anc: "ancestors_refuse (scopes st) (ci_childCapMicro i) ?anc = None"
    using ch by (cases "ancestors_refuse (scopes st) (ci_childCapMicro i) ?anc") (simp_all add: d fan rt Let_def)
  obtain pb where pb: "jm_get (books st) (ci_parentKey i) = Some pb"
    using ch by (cases "jm_get (books st) (ci_parentKey i)") (simp_all add: d fan rt anc Let_def throw_def)
  have new: "jm_get (books st) (ci_childKey i) = None"
    using ch by (cases "jm_get (books st) (ci_childKey i)") (simp_all add: d fan rt anc pb Let_def throw_def)
  have "createDelegatedChild now st i = (fst (add_child now st i ?p rt ?anc), Inr (Created (snd (add_child now st i ?p rt ?anc))))"
    by (simp add: d fan rt anc pb new Let_def prod.case_eq_if)
  with new rt anc fan show ?thesis by blast
qed

lemma create_budget_ok:
  assumes ok: "budget_ok st" "caps_ok st" "scopes_booked st"
    and cap: "\<And>c. ci_childCapMicro i = Some c \<Longrightarrow> 0 \<le> c"
  shows "budget_ok (fst (createDelegatedChild now st i)) \<and> caps_ok (fst (createDelegatedChild now st i))
    \<and> scopes_booked (fst (createDelegatedChild now st i))"
proof (cases "fst (createDelegatedChild now st i) = st")
  case True
  then show ?thesis using ok by simp
next
  case False
  let ?p = "jm_get (childTasks st) (ci_parentKey i)"
  from createDelegated_changed [OF disjI1 [OF False]] obtain rt anc where
    st': "fst (createDelegatedChild now st i) = fst (add_child now st i ?p rt anc)"
    and new_book: "jm_get (books st) (ci_childKey i) = None" by force
  let ?st = "fst (add_child now st i ?p rt anc)"
  note fields = add_child_fields [where now = now and st = st and i = i and p = ?p and rt = rt and anc = anc]
  have new: "jm_get (scopes st) (child_scope_id (ci_childKey i)) = None"
    using ok(3) new_book by (auto simp: scopes_booked_def)
  have "budget_ok ?st \<and> caps_ok ?st \<and> scopes_booked ?st"
  proof (cases "ci_childCapMicro i")
    case None
    then show ?thesis
      using ok budget_frame [of ?st st] fields(1-3) fields(5) by (auto simp: scopes_booked_def fields(4))
  next
    case (Some c)
    with fields(6) obtain s where s: "scopes ?st = jm_set (scopes st) (child_scope_id (ci_childKey i)) s"
      "heldMicro s = 0" "settledMicro s = 0" "capMicro s = c" by blast
    then show ?thesis
      using add_scope_budget_ok [OF ok(1,2) new, of s ?st] fields(1-3) cap [OF Some] ok(3)
      by (auto simp: scopes_booked_def fields(4))
  qed
  then show ?thesis by (simp add: st')
qed

section \<open>Every reachable store\<close>

text \<open>
  One child-control call. Three conditions on what callers pass: the scopes of a reservation are
  distinct (\<^verbatim>\<open>inheritAncestorScopeIds\<close> gives distinct ones), a child's cap is not
  negative, and a settlement charges no negative cost to a reservation that has not already
  overrun.
\<close>

inductive budget_step :: "child_store \<Rightarrow> child_store \<Rightarrow> bool" where
  bstep_reserve: "distinct (rr_scopeIds req) \<Longrightarrow> budget_step st (fst (reserve st req))"
| bstep_settle: "settle_safe st sreq \<Longrightarrow> budget_step st (fst (settleOrigin st sreq))"
| bstep_release: "budget_step st (fst (releaseReservation st pid gen))"
| bstep_takeover: "budget_step st (fst (takeoverReservation st pid g))"
| bstep_bump: "budget_step st (fst (bumpWriterGeneration st key))"
| bstep_root: "budget_step st (fst (ensureRootScope st rt cap))"
| bstep_create: "(\<And>c. ci_childCapMicro i = Some c \<Longrightarrow> 0 \<le> c) \<Longrightarrow>
    budget_step st (fst (createDelegatedChild now st i))"
| bstep_begin: "budget_step st (fst (beginChildAttempt st bi))"
| bstep_defer: "budget_step st (fst (deferCreatingChild st cas t))"
| bstep_commit: "budget_step st (fst (commitCreatingChild st cas))"
| bstep_cancel: "budget_step st (fst (cancelCreatingChild st cas reason t))"
| bstep_state: "budget_step st (fst (casState st key rv dst admission))"
| bstep_ordinal: "budget_step st (fst (nextOrdinal st key eff))"
| bstep_workspace: "budget_step st (updateWorkspace st wid phase path)"

definition accounts_ok :: "child_store \<Rightarrow> bool" where
  "accounts_ok st \<longleftrightarrow> budget_ok st \<and> caps_ok st \<and> scopes_booked st"

definition same_accounts :: "child_store \<Rightarrow> child_store \<Rightarrow> bool" where
  "same_accounts st st' \<longleftrightarrow> scopes st' = scopes st \<and> reservations st' = reservations st
     \<and> origins st' = origins st \<and> permitSeq st' = permitSeq st \<and> books st' = books st"

lemma same_accounts_ok: "same_accounts st st' \<Longrightarrow> accounts_ok st \<Longrightarrow> accounts_ok st'"
  using budget_frame [of st' st] by (simp add: same_accounts_def accounts_ok_def scopes_booked_def)

lemma same_accounts_put_task [simp]: "same_accounts st (put_task st k row)"
  by (simp add: same_accounts_def put_task_def)

lemma same_accounts_refl [simp]: "same_accounts st st"
  by (simp add: same_accounts_def)

lemma same_accounts_begin: "same_accounts st (fst (beginChildAttempt st bi))"
  by (simp add: beginChildAttempt_def Let_def split: option.split)

lemma same_accounts_defer: "same_accounts st (fst (deferCreatingChild st cas t))"
  by (simp add: deferCreatingChild_def Let_def split: option.split sum.split)

lemma same_accounts_commit: "same_accounts st (fst (commitCreatingChild st cas))"
  by (simp add: commitCreatingChild_def Let_def split: option.split sum.split)

lemma same_accounts_cancel: "same_accounts st (fst (cancelCreatingChild st cas reason t))"
  by (simp add: cancelCreatingChild_def Let_def split: option.split sum.split)

lemma same_accounts_rest:
  "same_accounts st (fst (casState st key rv dst admission))" "same_accounts st (fst (nextOrdinal st key eff))"
  "same_accounts st (fst (bumpWriterGeneration st key))"
  by (simp_all add: same_accounts_def casState_def nextOrdinal_def bumpWriterGeneration_def Let_def prod.case_eq_if)

lemma same_accounts_workspace: "same_accounts st (updateWorkspace st wid phase path)"
  by (simp add: same_accounts_def updateWorkspace_def put_task_def Let_def split: option.split)

lemmas same_accounts_steps = same_accounts_begin same_accounts_defer same_accounts_commit
  same_accounts_cancel same_accounts_rest same_accounts_workspace

lemma scopes_booked_dom:
  assumes "scopes_booked st" "\<And>sid. jm_has (scopes st') sid = jm_has (scopes st) sid" "books st' = books st"
  shows "scopes_booked st'"
  using assms by (simp add: scopes_booked_def)

lemma hold_scopes_dom: "jm_has (fst (hold_scopes scs ids q)) sid = jm_has scs sid"
  by (induction scs ids q rule: hold_scopes.induct) (auto split: option.split sum.split)

lemma settle_scopes_dom: "jm_has (fst (settle_scopes scs ids q a)) sid = jm_has scs sid"
  by (induction scs ids q a rule: settle_scopes.induct) (auto simp: Let_def split: option.split sum.split)

lemma overrun_scopes_dom: "jm_has (fst (overrun_scopes scs ids q a)) sid = jm_has scs sid"
  by (induction ids arbitrary: scs) (auto simp: Let_def split: option.split sum.split)

lemma release_scopes_dom: "jm_has (release_scopes scs ids q) sid = jm_has scs sid"
  by (induction scs ids q rule: release_scopes.induct) (auto split: option.split)

lemmas scopes_dom = hold_scopes_dom settle_scopes_dom overrun_scopes_dom release_scopes_dom

lemma reserve_booked:
  assumes "scopes_booked st"
  shows "scopes_booked (fst (reserve st req))"
proof (rule scopes_booked_dom [OF assms])
  show "jm_has (scopes (fst (reserve st req))) sid = jm_has (scopes st) sid" for sid
    using hold_scopes_dom [of "scopes st" _ _ sid]
    by (auto simp: reserve_def Let_def prod.case_eq_if simp del: not_None_eq split: option.split sum.split)
  show "books (fst (reserve st req)) = books st"
    by (auto simp: reserve_def Let_def prod.case_eq_if split: option.split sum.split)
qed

lemma bind_origin_books [simp]: "books (bind_origin st req r s) = books st"
  by (simp add: bind_origin_def put_reservation_def)

lemma settle_booked:
  assumes "scopes_booked st"
  shows "scopes_booked (fst (settleOrigin st req))"
proof (rule scopes_booked_dom [OF assms])
  show "jm_has (scopes (fst (settleOrigin st req))) sid = jm_has (scopes st) sid" for sid
    using settle_scopes_dom [of "scopes st" _ _ _ sid] overrun_scopes_dom [of "scopes st" _ _ _ sid]
    by (auto simp: settleOrigin_def prod.case_eq_if simp del: not_None_eq split: option.split sum.split)
  show "books (fst (settleOrigin st req)) = books st"
    by (auto simp: settleOrigin_def prod.case_eq_if split: option.split sum.split)
qed

lemma release_booked:
  assumes "scopes_booked st"
  shows "scopes_booked (fst (releaseReservation st pid gen))"
proof (rule scopes_booked_dom [OF assms])
  show "jm_has (scopes (fst (releaseReservation st pid gen))) sid = jm_has (scopes st) sid" for sid
    using release_scopes_dom [of "scopes st" _ _ sid]
    by (auto simp: releaseReservation_def put_reservation_def simp del: not_None_eq split: option.split)
  show "books (fst (releaseReservation st pid gen)) = books st"
    by (auto simp: releaseReservation_def put_reservation_def split: option.split)
qed

lemma takeover_booked:
  assumes "scopes_booked st"
  shows "scopes_booked (fst (takeoverReservation st pid g))"
  by (rule scopes_booked_dom [OF assms])
     (auto simp: takeoverReservation_def Let_def split: option.split)

lemma root_booked:
  assumes "scopes_booked st"
  shows "scopes_booked (fst (ensureRootScope st rt cap))"
  using assms
  by (auto simp: scopes_booked_def ensureRootScope_def Let_def split: option.split sum.split)

lemma budget_step_ok: "budget_step st st' \<Longrightarrow> accounts_ok st \<Longrightarrow> accounts_ok st'"
proof (induction rule: budget_step.induct)
  case (bstep_reserve req st)
  then show ?case by (simp add: accounts_ok_def reserve_budget_ok reserve_booked)
next
  case (bstep_settle st sreq)
  then show ?case by (simp add: accounts_ok_def settle_budget_ok settle_booked)
next
  case (bstep_release st pid gen)
  then show ?case by (simp add: accounts_ok_def release_budget_ok release_booked)
next
  case (bstep_takeover st pid g)
  then show ?case by (simp add: accounts_ok_def takeover_budget_ok takeover_booked)
next
  case (bstep_root st rt cap)
  then show ?case by (simp add: accounts_ok_def root_scope_budget_ok root_booked)
next
  case (bstep_create i st now)
  then show ?case using create_budget_ok [of st i now] by (simp add: accounts_ok_def)
qed (erule same_accounts_ok [rotated], rule same_accounts_steps)+

definition start_store :: child_store where
  "start_store = \<lparr>books = [(''root'', new_book)], controlFormat = 1, integrityFailures = [], verifiedHeads = [],
     childTasks = [], creationIndex = [], scopes = [], reservations = [], origins = [], workspaces = [],
     ordinals = [], writerGens = [], permitSeq = 0\<rparr>"

lemma start_store_ok: "accounts_ok start_store"
  by (simp add: accounts_ok_def budget_ok_def caps_ok_def scopes_booked_def start_store_def)

lemma reachable_accounts: "budget_step\<^sup>*\<^sup>* start_store st \<Longrightarrow> accounts_ok st"
  by (induction rule: rtranclp_induct) (auto intro: start_store_ok budget_step_ok)


definition req_a :: reserve_request where
  "req_a = \<lparr>rr_rootTaskId = ''t'', rr_scopeIds = [''root:t''], rr_qMicro = 60, rr_effectId = ''e'',
     rr_requestHash = ''h'', rr_writerGeneration = 1\<rparr>"

definition st_scope :: child_store where
  "st_scope = fst (ensureRootScope start_store ''t'' 100)"

definition st_reserved :: child_store where
  "st_reserved = fst (reserve st_scope req_a)"

definition settle_a :: "string \<Rightarrow> int \<Rightarrow> int option \<Rightarrow> settle_request" where
  "settle_a pid n actual = \<lparr>st_permitId = pid, st_writerGeneration = None, st_originSessionKey = ''root'',
     st_originCostSeq = n, st_actualMicro = actual, st_complete = True, st_creditSource = Source_gateway\<rparr>"

lemma st_scope_ok: "accounts_ok st_scope"
  unfolding st_scope_def by (rule budget_step_ok [OF bstep_root start_store_ok])

lemma st_reserved_steps: "budget_step\<^sup>*\<^sup>* start_store st_reserved"
  unfolding st_reserved_def st_scope_def
  by (rule rtranclp.rtrancl_into_rtrancl [OF r_into_rtranclp])
     (auto intro: bstep_root bstep_reserve simp: req_a_def)


text \<open>
  Reserving is idempotent. Repeating a request whose reservation was just made returns the same
  permit, marked as existing, and holds nothing a second time.
\<close>

theorem reserve_idempotent:
  assumes ok: "budget_ok st" and res: "reserve st req = (st', Inr (Reserve_ok pid status False))"
  shows "reserve st' req = (st', Inr (Reserve_ok pid status True))"
proof -
  from res obtain ss scs where gen: "rr_writerGeneration req = writerGeneration st (rr_rootTaskId req)"
    and q: "0 \<le> rr_qMicro req"
    and none: "find (\<lambda>r. rv_rootTaskId r = rr_rootTaskId req \<and> rv_effectId r = rr_effectId req)
        (jm_values (reservations st)) = None"
    and "find_scopes (scopes st) (rr_scopeIds req) = Inr ss"
    and "\<forall>s \<in> set ss. fitsCap (settledMicro s) (heldMicro s) (rr_qMicro req) (capMicro s)"
    and "hold_scopes (scopes st) (rr_scopeIds req) (rr_qMicro req) = (scs, Inr ())"
    and pid: "pid = permit_id (permitSeq st + 1)" and status: "status = Held"
    and st': "st' = st\<lparr>scopes := scs, permitSeq := permitSeq st + 1,
       reservations := jm_set (reservations st) pid
         \<lparr>rv_permitId = pid, rv_rootTaskId = rr_rootTaskId req, rv_scopeIds = rr_scopeIds req,
          rv_qMicro = rr_qMicro req, rv_effectId = rr_effectId req, rv_requestHash = rr_requestHash req,
          rv_writerGeneration = rr_writerGeneration req, rv_status = Held\<rparr>\<rparr>"
    by (rule reserve_fresh)
  have fmt: "assertWritableFormat st' = Inr ()"
    using res by (cases "assertWritableFormat st") (simp_all add: reserve_def st' assertWritableFormat_def)
  have fresh: "jm_get (reservations st) pid = None" using permit_fresh [OF ok] pid by simp
  have found: "find (\<lambda>r. rv_rootTaskId r = rr_rootTaskId req \<and> rv_effectId r = rr_effectId req)
      (jm_values (reservations st')) =
      Some \<lparr>rv_permitId = pid, rv_rootTaskId = rr_rootTaskId req, rv_scopeIds = rr_scopeIds req,
          rv_qMicro = rr_qMicro req, rv_effectId = rr_effectId req, rv_requestHash = rr_requestHash req,
          rv_writerGeneration = rr_writerGeneration req, rv_status = Held\<rparr>"
    by (simp add: st' jm_set_new [OF fresh] find_append none)
  have "writerGeneration st' = writerGeneration st" by (rule ext) (simp add: st' writerGeneration_def)
  then show ?thesis using gen q by (simp add: reserve_def fmt found status)
qed

theorem reserve_idempotent_witness:
  "reserve st_reserved req_a = (st_reserved, Inr (Reserve_ok ''p1'' Held True))"
proof -
  have "snd (reserve st_scope req_a) = Inr (Reserve_ok ''p1'' Held False)" by code_simp
  then have "reserve st_scope req_a = (st_reserved, Inr (Reserve_ok ''p1'' Held False))"
    by (simp add: st_reserved_def prod_eq_iff)
  then show ?thesis using st_scope_ok by (intro reserve_idempotent) (simp_all add: accounts_ok_def)
qed

text \<open>
  Settling is idempotent per cost origin: a settlement that returned can be repeated, returns
  again and changes nothing.
\<close>

theorem settle_idempotent:
  assumes ok: "budget_ok st" and res: "settleOrigin st req = (st', Inr ())"
  shows "settleOrigin st' req = (st', Inr ())"
proof -
  obtain r where r: "jm_get (reservations st) (st_permitId req) = Some r"
    using res by (cases "jm_get (reservations st) (st_permitId req)") (simp_all add: settleOrigin_def)
  have gen: "\<not> (\<exists>g \<in> set_option (st_writerGeneration req).
      g \<noteq> rv_writerGeneration r \<or> g \<noteq> writerGeneration st (rv_rootTaskId r))"
    using res by (auto simp: settleOrigin_def r throw_def split: if_splits)
  show ?thesis
  proof (cases "jm_get (origins st) (origin_key req)")
    case (Some prior)
    then have "st' = st" using res gen by (simp add: settleOrigin_def r split: if_splits)
    with res show ?thesis by simp
  next
    case None
    obtain scs s where st': "st' = bind_origin (st\<lparr>scopes := scs\<rparr>) req r s"
      and s: "s = Status_unknown \<or> s = Settled"
    proof (cases "st_actualMicro req")
      case None': None
      have "st' = bind_origin (st\<lparr>scopes := scopes st\<rparr>) req r Status_unknown"
        using res gen None None' by (simp add: settleOrigin_def r split: if_splits)
      then show ?thesis by (rule that) simp
    next
      case (Some a)
      have "st' = bind_origin (st\<lparr>scopes := fst (settle_scopes (scopes st) (rv_scopeIds r) (rv_qMicro r) a)\<rparr>) req r Settled"
        using res gen None Some
        by (auto simp: settleOrigin_def r split: if_splits prod.splits sum.splits)
      then show ?thesis by (rule that) simp
    qed
    have gen': "writerGeneration st' = writerGeneration st"
      by (rule ext) (simp add: st' writerGeneration_def bind_origin_def put_reservation_def)
    have r': "jm_get (reservations st') (st_permitId req) = Some (r\<lparr>rv_status := s\<rparr>)" by (simp add: st')
    have o': "jm_get (origins st') (origin_key req) = Some (binding_of r (st_actualMicro req))" by (simp add: st')
    show ?thesis using gen by (auto simp: settleOrigin_def r' o' gen' binding_of_def)
  qed
qed

theorem settle_idempotent_witness:
  "settleOrigin (fst (settleOrigin st_reserved (settle_a ''p1'' 4 (Some 40)))) (settle_a ''p1'' 4 (Some 40))
    = (fst (settleOrigin st_reserved (settle_a ''p1'' 4 (Some 40))), Inr ())"
proof -
  have "snd (settleOrigin st_reserved (settle_a ''p1'' 4 (Some 40))) = Inr ()" by code_simp
  then have "settleOrigin st_reserved (settle_a ''p1'' 4 (Some 40))
      = (fst (settleOrigin st_reserved (settle_a ''p1'' 4 (Some 40))), Inr ())" by (simp add: prod_eq_iff)
  with reachable_accounts [OF st_reserved_steps] show ?thesis
    by (intro settle_idempotent) (simp_all add: accounts_ok_def)
qed

text \<open>
  Once a permit is settled or released, no further cost can be settled against it under another
  origin: the call is refused and nothing changes.
\<close>

theorem consumed_permit_refused:
  assumes "jm_get (reservations st) (st_permitId req) = Some r" "rv_status r = Settled \<or> rv_status r = Released"
    and "jm_get (origins st) (origin_key req) = None"
  shows "fst (settleOrigin st req) = st \<and> error_code (snd (settleOrigin st req)) = Some E_BUDGET"
  using assms by (simp add: settleOrigin_def)

theorem consumed_permit_refused_witness:
  "error_code (snd (settleOrigin (fst (settleOrigin st_reserved (settle_a ''p1'' 4 (Some 40))))
     (settle_a ''p1'' 5 (Some 40)))) = Some E_BUDGET"
proof -
  let ?st = "fst (settleOrigin st_reserved (settle_a ''p1'' 4 (Some 40)))"
  let ?r = "\<lparr>rv_permitId = ''p1'', rv_rootTaskId = ''t'', rv_scopeIds = [''root:t''], rv_qMicro = 60,
     rv_effectId = ''e'', rv_requestHash = ''h'', rv_writerGeneration = 1, rv_status = Settled\<rparr>"
  have "jm_get (reservations ?st) (st_permitId (settle_a ''p1'' 5 (Some 40))) = Some ?r"
    "jm_get (origins ?st) (origin_key (settle_a ''p1'' 5 (Some 40))) = None" by code_simp+
  from consumed_permit_refused [OF this(1) _ this(2)] show ?thesis by simp
qed

text \<open>
  A permit whose cost overran is not consumed. Its hold is gone, but a settlement under another
  origin is accepted and takes a second hold out of the scope's balance, one that belongs to another
  reservation.
\<close>

theorem overrun_settles_twice:
  "\<exists>st. budget_step\<^sup>*\<^sup>* start_store st
     \<and> (let st2 = fst (settleOrigin st (settle_a ''p1'' 4 (Some 50)));
            st3 = fst (settleOrigin st2 (settle_a ''p1'' 5 (Some 40))) in
        error_code (snd (settleOrigin st (settle_a ''p1'' 4 (Some 50)))) = Some E_BUDGET
        \<and> map_option heldMicro (jm_get (scopes st2) ''root:t'') = Some 40
        \<and> snd (settleOrigin st2 (settle_a ''p1'' 5 (Some 40))) = Inr ()
        \<and> map_option rv_status (jm_get (reservations st3) ''p2'') = Some Held
        \<and> map_option heldMicro (jm_get (scopes st3) ''root:t'') = Some 0)"
proof -
  let ?r1 = "req_a\<lparr>rr_qMicro := 40\<rparr>"
  let ?r2 = "req_a\<lparr>rr_qMicro := 40, rr_effectId := ''f''\<rparr>"
  let ?st = "fst (reserve (fst (reserve st_scope ?r1)) ?r2)"
  have d: "distinct (rr_scopeIds ?r1)" "distinct (rr_scopeIds ?r2)" by (simp_all add: req_a_def)
  have "budget_step start_store st_scope" unfolding st_scope_def by (rule bstep_root)
  then have "budget_step\<^sup>*\<^sup>* start_store st_scope" by (rule r_into_rtranclp)
  then have "budget_step\<^sup>*\<^sup>* start_store (fst (reserve st_scope ?r1))"
    by (rule rtranclp.rtrancl_into_rtrancl) (rule bstep_reserve [OF d(1)])
  then have "budget_step\<^sup>*\<^sup>* start_store ?st"
    by (rule rtranclp.rtrancl_into_rtrancl) (rule bstep_reserve [OF d(2)])
  moreover have "let st2 = fst (settleOrigin ?st (settle_a ''p1'' 4 (Some 50)));
            st3 = fst (settleOrigin st2 (settle_a ''p1'' 5 (Some 40))) in
        error_code (snd (settleOrigin ?st (settle_a ''p1'' 4 (Some 50)))) = Some E_BUDGET
        \<and> map_option heldMicro (jm_get (scopes st2) ''root:t'') = Some 40
        \<and> snd (settleOrigin st2 (settle_a ''p1'' 5 (Some 40))) = Inr ()
        \<and> map_option rv_status (jm_get (reservations st3) ''p2'') = Some Held
        \<and> map_option heldMicro (jm_get (scopes st3) ''root:t'') = Some 0"
    by code_simp
  ultimately show ?thesis by blast
qed

end
