(* ===== verification/ChildProps.thy ===== *)
theory ChildProps imports BudgetProps LedgerStoreProps begin

text \<open>
  Child tasks: how many may run, which creation attempt wins, what a cancelled child can still
  become, what the recovery sweep cancels, and who may be started.
\<close>

section \<open>Fan-out\<close>

lemma active_sum:
  "int (length (filter P (jm_values m))) = jm_sum (\<lambda>r. if P r then 1 else 0) m"
  by (induction m) (auto simp: jm_sum_def)

lemma active_set_le:
  assumes "jm_wf m"
  shows "int (length (filter P (jm_values (jm_set m k r)))) \<le> int (length (filter P (jm_values m))) + 1"
  unfolding active_sum jm_sum_set [OF assms] by (simp split: option.split)

lemma add_child_tasks:
  "childTasks (fst (add_child now st i p rt anc)) =
     jm_set (childTasks st) (ci_childKey i) (snd (add_child now st i p rt anc))"
  by (auto simp: add_child_def Let_def put_book_def split: option.split)

lemma create_fan_out:
  assumes wf: "jm_wf (childTasks st)" and created: "snd (createDelegatedChild now st i) = Inr (Created row)"
  shows "active_of_parent (childTasks (fst (createDelegatedChild now st i))) (ci_parentKey i)
          \<le> int_of_num (ci_maxFanOut i)
      \<and> active_of_root (childTasks (fst (createDelegatedChild now st i))) (ci_rootTaskId i)
          \<le> int_of_num (ci_maxFanOut i)"
proof -
  from createDelegated_changed [OF disjI2 [OF created]] obtain rt anc where
    st': "fst (createDelegatedChild now st i) =
        fst (add_child now st i (jm_get (childTasks st) (ci_parentKey i)) rt anc)"
    and fan: "admitFanOut (active_of_parent (childTasks st) (ci_parentKey i))
         (active_of_root (childTasks st) (ci_rootTaskId i)) (ci_maxFanOut i) = Inr ()" by force
  from fan obtain n where n: "ci_maxFanOut i = num_of_int n" "0 \<le> n" "n \<le> max_safe_integer"
    "active_of_parent (childTasks st) (ci_parentKey i) < n" "active_of_root (childTasks st) (ci_rootTaskId i) < n"
    by (rule admitFanOut_Inr)
  then show ?thesis
    using active_set_le [OF wf] unfolding st' add_child_tasks active_of_parent_def active_of_root_def
    by (smt (verit) int_of_num_of_int)
qed

lemma wake_fan_out:
  assumes wf: "jm_wf (childTasks st)"
    and old: "jm_get (childTasks st) key = Some old" "\<not> isActiveChildState (state old)"
    and dst: "isActiveChildState dst" "dst \<noteq> Cancelling"
    and res: "snd (casState st key rv dst admission) = Inr True"
  shows "\<exists>n. admission = Some n
        \<and> active_of_parent (childTasks (fst (casState st key rv dst admission))) (parentKey old) \<le> int_of_num n
        \<and> active_of_root (childTasks (fst (casState st key rv dst admission))) (rootTaskId old) \<le> int_of_num n"
proof -
  obtain m where adm: "admission = Some m"
    and fan: "admitFanOut (active_of_parent (childTasks st) (parentKey old))
         (active_of_root (childTasks st) (rootTaskId old)) m = Inr ()"
    and tasks: "childTasks (fst (casState st key rv dst admission)) =
         jm_set (childTasks st) key (old\<lparr>state := dst, stateRevision := stateRevision old + 1\<rparr>)"
    using old dst res
    by (auto simp: casState_def transitionMemoryChild_def Let_def split: if_splits option.splits sum.splits)
  from fan obtain n where n: "m = num_of_int n" "0 \<le> n" "n \<le> max_safe_integer"
    "active_of_parent (childTasks st) (parentKey old) < n" "active_of_root (childTasks st) (rootTaskId old) < n"
    by (rule admitFanOut_Inr)
  have "active_of_parent (childTasks (fst (casState st key rv dst admission))) (parentKey old) \<le> n
      \<and> active_of_root (childTasks (fst (casState st key rv dst admission))) (rootTaskId old) \<le> n"
    using active_set_le [OF wf] n unfolding tasks active_of_parent_def active_of_root_def
    by (smt (verit))
  with adm n(1) show ?thesis by simp
qed


definition child_a :: create_child_input where
  "child_a = \<lparr>ci_fresh = False, ci_childKey = ''c'', ci_parentKey = ''root'', ci_boundarySeq = 0,
     ci_creationId = ''x'', ci_attemptId = Some ''a1'', ci_attemptStartedAt = Some 5, ci_kind = Kind_spawn,
     ci_rootTaskId = ''t'', ci_runtimeOwnerSessionKey = ''root'', ci_generationDepth = 1,
     ci_generationLimit = 2, ci_maxFanOut = num_of_int 1, ci_inputHash = ''h'', ci_inputText = '''',
     ci_cwd = ''/'', ci_actorId = ''u'', ci_isolation = Iso_shared, ci_workspaceId = ''w'',
     ci_treeCapMicro = 100, ci_childCapMicro = Some 50, ci_writerRunId = ''r''\<rparr>"

definition st_child :: child_store where
  "st_child = fst (createDelegatedChild 9 st_scope child_a)"


section \<open>Creation attempts\<close>

text \<open>
  The phases of a creation attempt as a lifecycle: a deferred attempt can be taken up again, a
  committed or cancelled creation is final.
\<close>

definition creation_move :: "creation_phase \<Rightarrow> creation_phase \<Rightarrow> bool" where
  "creation_move a b \<longleftrightarrow> a = b \<or> (a = Phase_creating \<and> b \<in> {Phase_deferred, Phase_committed, Phase_cancelled})
     \<or> (a = Phase_deferred \<and> b = Phase_creating)"

definition creation_final :: "creation_phase \<Rightarrow> bool" where
  "creation_final p \<longleftrightarrow> p \<in> {Phase_committed, Phase_cancelled}"

interpretation creation_life: lifecycle creation_move creation_final
  by unfold_locales (auto simp: creation_move_def creation_final_def)

inductive attempt_step :: "child_store \<Rightarrow> child_store \<Rightarrow> bool" where
  att_begin: "attempt_step st (fst (beginChildAttempt st bi))"
| att_defer: "attempt_step st (fst (deferCreatingChild st cas t))"
| att_commit: "attempt_step st (fst (commitCreatingChild st cas))"
| att_cancel: "attempt_step st (fst (cancelCreatingChild st cas reason t))"
| att_state: "attempt_step st (fst (casState st key rv dst admission))"

text \<open>What one call may do to the record of a child.\<close>

definition task_move :: "child_task \<Rightarrow> child_task \<Rightarrow> bool" where
  "task_move a b \<longleftrightarrow> creation_move (creationPhase a) (creationPhase b)
     \<and> canTransitionChildState (state a) (state b)
     \<and> creationRevision a \<le> creationRevision b \<and> stateRevision a \<le> stateRevision b
     \<and> (creationPhase a \<noteq> creationPhase b \<longrightarrow> creationRevision a < creationRevision b)
     \<and> (state a \<noteq> state b \<longrightarrow> stateRevision a < stateRevision b)"

lemma task_move_refl [simp]: "task_move a a"
  by (simp add: task_move_def creation_move_def canTransitionChildState_def)

lemma attempt_step_task:
  assumes "attempt_step st st'" "jm_get (childTasks st) k = Some row"
  shows "\<exists>row'. jm_get (childTasks st') k = Some row' \<and> task_move row row'"
  using assms
proof (induction rule: attempt_step.induct)
  case (att_begin st bi)
  then show ?case
    by (auto simp: beginChildAttempt_def put_task_def Let_def split: option.split)
       (auto simp: task_move_def creation_move_def canTransitionChildState_def)
next
  case (att_defer st cas t)
  then show ?case
    by (auto simp: deferCreatingChild_def assertCreationCas_def put_task_def Let_def throw_def split: option.splits sum.splits if_splits)
       (auto simp: task_move_def creation_move_def canTransitionChildState_def)
next
  case (att_commit st cas)
  then show ?case
    by (auto simp: commitCreatingChild_def assertCreationCas_def put_task_def Let_def throw_def split: option.splits sum.splits if_splits)
       (auto simp: task_move_def creation_move_def canTransitionChildState_def)
next
  case (att_cancel st cas reason t)
  then show ?case
    by (auto simp: cancelCreatingChild_def assertCreationCas_def put_task_def Let_def throw_def split: option.splits sum.splits if_splits)
       (auto simp: task_move_def creation_move_def canTransitionChildState_def)
next
  case (att_state st key rv dst admission)
  then show ?case
    by (auto simp: casState_def transitionMemoryChild_def Let_def throw_def split: option.splits sum.splits if_splits)
       (auto simp: task_move_def creation_move_def)
qed

lemma attempts_task:
  assumes "attempt_step\<^sup>*\<^sup>* st st'" "jm_get (childTasks st) k = Some row"
  shows "\<exists>row'. jm_get (childTasks st') k = Some row'
    \<and> creation_move\<^sup>*\<^sup>* (creationPhase row) (creationPhase row')
    \<and> canTransitionChildState\<^sup>*\<^sup>* (state row) (state row')
    \<and> creationRevision row \<le> creationRevision row' \<and> stateRevision row \<le> stateRevision row'"
  using assms(1)
proof (induction rule: rtranclp_induct)
  case base
  then show ?case using assms(2) by simp
next
  case (step y z)
  then obtain row' where row': "jm_get (childTasks y) k = Some row'"
    "creation_move\<^sup>*\<^sup>* (creationPhase row) (creationPhase row')"
    "canTransitionChildState\<^sup>*\<^sup>* (state row) (state row')"
    "creationRevision row \<le> creationRevision row'" "stateRevision row \<le> stateRevision row'" by blast
  from attempt_step_task [OF step(2) row'(1)] obtain row'' where "jm_get (childTasks z) k = Some row''"
    "task_move row' row''" by blast
  with row' show ?case
    by (auto simp: task_move_def intro: rtranclp.rtrancl_into_rtrancl)
qed

text \<open>
  C22. Across any sequence of creation-attempt and state calls a child's record stays; a committed or
  cancelled creation stays exactly that; a completed, failed or cancelled child never changes state
  again; a child being cancelled can only end cancelled or failed; and both revisions only grow.
\<close>

theorem child_lifecycle_final:
  assumes steps: "attempt_step\<^sup>*\<^sup>* st st'" and row: "jm_get (childTasks st) k = Some row"
  shows "\<exists>row'. jm_get (childTasks st') k = Some row'
    \<and> (creation_final (creationPhase row) \<longrightarrow> creationPhase row' = creationPhase row)
    \<and> (isTerminalChildState (state row) \<longrightarrow> state row' = state row)
    \<and> (state row = Cancelling \<longrightarrow> state row' \<in> {Cancelling, Cancelled, Failed})
    \<and> creationRevision row \<le> creationRevision row' \<and> stateRevision row \<le> stateRevision row'"
proof -
  from attempts_task [OF steps row] obtain row' where row': "jm_get (childTasks st') k = Some row'"
    "creation_move\<^sup>*\<^sup>* (creationPhase row) (creationPhase row')"
    "canTransitionChildState\<^sup>*\<^sup>* (state row) (state row')"
    "creationRevision row \<le> creationRevision row'" "stateRevision row \<le> stateRevision row'" by blast
  have "cancel_fence (state row')" if "state row = Cancelling"
    using child_life.fence_forever [OF row'(3)] that by (simp add: cancel_fence_def)
  with row' creation_life.terminal_forever [OF row'(2)] child_life.terminal_forever [OF row'(3)]
  show ?thesis by (auto simp: cancel_fence_def)
qed

definition cas_a :: "int \<Rightarrow> creation_cas_input" where
  "cas_a n = \<lparr>cc_childKey = ''c'', cc_creationId = ''x'', cc_attemptId = ''a1'', cc_expectedRevision = n\<rparr>"

theorem child_lifecycle_final_witness:
  "\<exists>row'. jm_get (childTasks (fst (cancelCreatingChild (fst (casState st_child ''c'' 1 Cancelling None))
       (cas_a 1) Open_failed 7))) ''c'' = Some row' \<and> state row' \<in> {Cancelling, Cancelled, Failed}"
proof -
  let ?st = "fst (casState st_child ''c'' 1 Cancelling None)"
  let ?row = "the (jm_get (childTasks ?st) ''c'')"
  have "attempt_step\<^sup>*\<^sup>* ?st (fst (cancelCreatingChild ?st (cas_a 1) Open_failed 7))"
    by (rule r_into_rtranclp) (rule att_cancel)
  moreover have "jm_get (childTasks ?st) ''c'' = Some ?row" "state ?row = Cancelling" by code_simp+
  ultimately show ?thesis using child_lifecycle_final by blast
qed

text \<open>What a call on an attempt finds once the row has left the creating phase.\<close>

lemma refused_after:
  assumes "jm_get (childTasks st) (cc_childKey cas) = Some row" "creationPhase row \<noteq> Phase_creating"
  shows "creationPhase row \<noteq> Phase_cancelled \<Longrightarrow>
      cancelCreatingChild st cas reason t = (st, throw E_CAS ''child creation attempt changed'')"
    and "creationPhase row \<noteq> Phase_deferred \<Longrightarrow>
      deferCreatingChild st cas t = (st, throw E_CAS ''child creation attempt changed'')"
    and "creationPhase row \<noteq> Phase_committed \<Longrightarrow> commitCreatingChild st cas = (st, False)"
  using assms
  by (simp_all add: cancelCreatingChild_def deferCreatingChild_def commitCreatingChild_def assertCreationCas_def
      throw_def split: option.split)

lemma commit_won:
  assumes "jm_get (childTasks st) (cc_childKey cas) = Some row" "creationPhase row = Phase_creating"
    and "snd (commitCreatingChild st cas)"
  shows "\<exists>row'. jm_get (childTasks (fst (commitCreatingChild st cas))) (cc_childKey cas) = Some row'
    \<and> creationPhase row' = Phase_committed"
  using assms by (auto simp: commitCreatingChild_def put_task_def split: sum.splits)

lemma cancel_won:
  assumes "jm_get (childTasks st) (cc_childKey cas) = Some row" "creationPhase row = Phase_creating"
    and "snd (cancelCreatingChild st cas reason t) = Inr f"
  shows "\<exists>row'. jm_get (childTasks (fst (cancelCreatingChild st cas reason t))) (cc_childKey cas) = Some row'
    \<and> creationPhase row' = Phase_cancelled"
  using assms
  by (cases "assertCreationCas (Some row) cas Phase_creating"; cases "cancelledFact row")
     (auto simp: cancelCreatingChild_def put_task_def Let_def assertCreationCas_def split: if_splits)

lemma defer_won:
  assumes "jm_get (childTasks st) (cc_childKey cas) = Some row" "creationPhase row = Phase_creating"
    and "snd (deferCreatingChild st cas t) = Inr f"
  shows "\<exists>row'. jm_get (childTasks (fst (deferCreatingChild st cas t))) (cc_childKey cas) = Some row'
    \<and> creationPhase row' = Phase_deferred"
  using assms
  by (cases "assertCreationCas (Some row) cas Phase_creating"; cases "deferredFact row")
     (auto simp: deferCreatingChild_def put_task_def Let_def assertCreationCas_def split: if_splits)

text \<open>
  A creation attempt has one winner. When committing an attempt succeeds, deferring or cancelling
  the same attempt at the same revision is refused and changes nothing; when cancelling succeeds,
  committing answers false and deferring is refused; and likewise after deferring.
\<close>

theorem attempt_one_winner:
  assumes row: "jm_get (childTasks st) (cc_childKey cas) = Some row" and phase: "creationPhase row = Phase_creating"
  shows "(snd (commitCreatingChild st cas) \<longrightarrow>
      (let st' = fst (commitCreatingChild st cas) in
        cancelCreatingChild st' cas reason t = (st', throw E_CAS ''child creation attempt changed'')
        \<and> deferCreatingChild st' cas t = (st', throw E_CAS ''child creation attempt changed'')))
    \<and> (snd (cancelCreatingChild st cas reason t) = Inr cfct \<longrightarrow>
      (let st' = fst (cancelCreatingChild st cas reason t) in
        commitCreatingChild st' cas = (st', False)
        \<and> deferCreatingChild st' cas t = (st', throw E_CAS ''child creation attempt changed'')))
    \<and> (snd (deferCreatingChild st cas t) = Inr dfct \<longrightarrow>
      (let st' = fst (deferCreatingChild st cas t) in
        commitCreatingChild st' cas = (st', False)
        \<and> cancelCreatingChild st' cas reason t = (st', throw E_CAS ''child creation attempt changed'')))"
proof (intro conjI impI)
  assume "snd (commitCreatingChild st cas)"
  from commit_won [OF row phase this] show "let st' = fst (commitCreatingChild st cas) in
        cancelCreatingChild st' cas reason t = (st', throw E_CAS ''child creation attempt changed'')
        \<and> deferCreatingChild st' cas t = (st', throw E_CAS ''child creation attempt changed'')"
    using refused_after by (force simp: Let_def)
next
  assume "snd (cancelCreatingChild st cas reason t) = Inr cfct"
  from cancel_won [OF row phase this] show "let st' = fst (cancelCreatingChild st cas reason t) in
        commitCreatingChild st' cas = (st', False)
        \<and> deferCreatingChild st' cas t = (st', throw E_CAS ''child creation attempt changed'')"
    using refused_after by (force simp: Let_def)
next
  assume "snd (deferCreatingChild st cas t) = Inr dfct"
  from defer_won [OF row phase this] show "let st' = fst (deferCreatingChild st cas t) in
        commitCreatingChild st' cas = (st', False)
        \<and> cancelCreatingChild st' cas reason t = (st', throw E_CAS ''child creation attempt changed'')"
    using refused_after by (force simp: Let_def)
qed

theorem attempt_one_winner_witness:
  "commitCreatingChild (fst (cancelCreatingChild st_child (cas_a 1) Open_failed 7)) (cas_a 1)
     = (fst (cancelCreatingChild st_child (cas_a 1) Open_failed 7), False)"
proof -
  let ?row = "the (jm_get (childTasks st_child) ''c'')"
  have "jm_get (childTasks st_child) (cc_childKey (cas_a 1)) = Some ?row" "creationPhase ?row = Phase_creating"
    by code_simp+
  moreover have "snd (cancelCreatingChild st_child (cas_a 1) Open_failed 7)
      = Inr \<lparr>cf_childKey = ''c'', cf_creationId = ''x'', cf_attemptId = ''a1'', cf_revision = 2,
          cf_reason = Open_failed, cf_cancelledAt = 7\<rparr>" by code_simp
  ultimately show ?thesis
    using attempt_one_winner [of st_child "cas_a 1" ?row Open_failed 7] by (simp add: Let_def)
qed

section \<open>The recovery sweep\<close>

definition tasks_keyed :: "child_store \<Rightarrow> bool" where
  "tasks_keyed st \<longleftrightarrow> jm_wf (childTasks st) \<and> list_all (\<lambda>(k, r). childKey r = k) (childTasks st)"

text \<open>A stale attempt, cancelled as its open having failed.\<close>

definition cancelled_row :: "int \<Rightarrow> child_task \<Rightarrow> child_task" where
  "cancelled_row now r =
     (let r1 = r\<lparr>creationPhase := Phase_cancelled, creationRevision := creationRevision r + 1,
            cancelledFact := Some \<lparr>cf_childKey = childKey r, cf_creationId = creationId r, cf_attemptId = attemptId r,
              cf_revision = creationRevision r + 1, cf_reason = Open_failed, cf_cancelledAt = now\<rparr>\<rparr> in
      if state r = Creating then r1\<lparr>state := Failed, stateRevision := stateRevision r + 1\<rparr> else r1)"

lemma cancel_exact:
  assumes "jm_get (childTasks st) (childKey r) = Some r" "creationPhase r = Phase_creating"
  shows "cancelCreatingChild st \<lparr>cc_childKey = childKey r, cc_creationId = creationId r,
      cc_attemptId = attemptId r, cc_expectedRevision = creationRevision r\<rparr> Open_failed now
    = (put_task st (childKey r) (cancelled_row now r), Inr (the (cancelledFact (cancelled_row now r))))"
  using assms
  by (simp add: cancelCreatingChild_def assertCreationCas_def cancelled_row_def Let_def split: option.split)

definition swept :: "(child_task \<Rightarrow> bool) \<Rightarrow> int \<Rightarrow> child_task list \<Rightarrow> session_key \<Rightarrow> child_task \<Rightarrow> child_task" where
  "swept stale now rows k r = (if r \<in> set rows \<and> childKey r = k \<and> stale r then cancelled_row now r else r)"

lemma cancelled_row_key [simp]:
  "childKey (cancelled_row now r) = childKey r"
  "cf_childKey (the (cancelledFact (cancelled_row now r))) = childKey r"
  by (simp_all add: cancelled_row_def Let_def)

lemma recover_rows_result:
  assumes "\<forall>r \<in> set rows. jm_get (childTasks st) (childKey r) = Some r \<and> creationPhase r = Phase_creating"
    and "distinct (map childKey rows)"
  shows "\<exists>st' fcts. recover_rows st stale now rows = (st', Inr fcts)
    \<and> map cf_childKey fcts = map childKey (filter stale rows)
    \<and> (\<forall>k. jm_get (childTasks st') k = map_option (swept stale now rows k) (jm_get (childTasks st) k))"
  using assms
proof (induction rows arbitrary: st)
  case Nil
  then show ?case by (simp add: swept_def option.map_ident)
next
  case (Cons r rows)
  have r: "jm_get (childTasks st) (childKey r) = Some r" "creationPhase r = Phase_creating"
    using Cons.prems(1) by simp_all
  have rest: "\<forall>x \<in> set rows. childKey x \<noteq> childKey r" "distinct (map childKey rows)"
    using Cons.prems(2) by (auto simp: image_iff)
  show ?case
  proof (cases "stale r")
    case False
    have sw: "swept stale now (r # rows) k x = swept stale now rows k x" for k x
      using False by (auto simp: swept_def)
    have "\<exists>st' fcts. recover_rows st stale now rows = (st', Inr fcts)
      \<and> map cf_childKey fcts = map childKey (filter stale rows)
      \<and> (\<forall>k. jm_get (childTasks st') k = map_option (swept stale now rows k) (jm_get (childTasks st) k))"
      by (rule Cons.IH) (use Cons.prems(1) rest(2) in simp_all)
    then show ?thesis using False unfolding sw [abs_def] by simp
  next
    case True
    let ?st = "put_task st (childKey r) (cancelled_row now r)"
    have "\<forall>x \<in> set rows. jm_get (childTasks ?st) (childKey x) = Some x \<and> creationPhase x = Phase_creating"
      using Cons.prems(1) rest(1) by (auto simp: put_task_def)
    from Cons.IH [OF this rest(2)] obtain st' fcts where
      IH: "recover_rows ?st stale now rows = (st', Inr fcts)" "map cf_childKey fcts = map childKey (filter stale rows)"
      "\<And>k. jm_get (childTasks st') k = map_option (swept stale now rows k) (jm_get (childTasks ?st) k)" by blast
    have notin: "cancelled_row now r \<notin> set rows" using rest(1) cancelled_row_key(1) by metis
    have "recover_rows st stale now (r # rows) =
        (st', Inr (the (cancelledFact (cancelled_row now r)) # fcts))"
      using True IH(1) by (simp add: cancel_exact [OF r])
    moreover have "jm_get (childTasks st') k = map_option (swept stale now (r # rows) k) (jm_get (childTasks st) k)" for k
    proof (cases "k = childKey r")
      case k: True
      have "swept stale now rows k (cancelled_row now r) = cancelled_row now r"
        using notin by (simp add: swept_def)
      moreover have "swept stale now (r # rows) k r = cancelled_row now r"
        using k True by (simp add: swept_def)
      ultimately show ?thesis using k r(1) by (simp add: IH(3) put_task_def)
    next
      case False
      have "swept stale now (r # rows) k = swept stale now rows k"
        using False by (auto simp: swept_def)
      then show ?thesis using False by (simp add: IH(3) put_task_def)
    qed
    moreover have "map cf_childKey (the (cancelledFact (cancelled_row now r)) # fcts)
        = map childKey (filter stale (r # rows))" using IH(2) True by simp
    ultimately show ?thesis by blast
  qed
qed

text \<open>
  The recovery sweep returns, and cancels exactly the stale attempts: rows still creating, with
  no deferral, started by the bound, driven by no factory of this process and not named as live. Its
  facts name those children in order, a child that had not left creation becomes failed, and every
  other child's record is as it was.
\<close>

theorem recovery_cancels_exactly_stale:
  assumes keyed: "tasks_keyed st"
  shows "\<exists>st' fcts. recoverCreatingChildAttempts st flying staleBefore now live = (st', Inr fcts)
    \<and> map cf_childKey fcts =
        map childKey (filter (stale_attempt flying staleBefore live) (listCreatingChildAttempts st))
    \<and> (\<forall>k. jm_get (childTasks st') k =
         map_option (\<lambda>r. if stale_attempt flying staleBefore live r then cancelled_row now r else r)
           (jm_get (childTasks st) k))"
proof -
  have wf: "jm_wf (childTasks st)" and key: "\<And>k r. (k, r) \<in> set (childTasks st) \<Longrightarrow> childKey r = k"
    using keyed by (auto simp: tasks_keyed_def list_all_iff)
  have rows: "\<forall>r \<in> set (listCreatingChildAttempts st).
      jm_get (childTasks st) (childKey r) = Some r \<and> creationPhase r = Phase_creating"
  proof
    fix r assume "r \<in> set (listCreatingChildAttempts st)"
    then obtain k where k: "(k, r) \<in> set (childTasks st)" and phase: "creationPhase r = Phase_creating"
      by (auto simp: listCreatingChildAttempts_def)
    with key [OF k] wf show "jm_get (childTasks st) (childKey r) = Some r \<and> creationPhase r = Phase_creating"
      by (simp add: jm_wf_get_iff)
  qed
  have keys: "map childKey (jm_values (childTasks st)) = jm_keys (childTasks st)"
    unfolding map_map
  proof (rule map_cong [OF refl])
    fix x assume "x \<in> set (childTasks st)"
    then show "(childKey \<circ> snd) x = fst x" using key [of "fst x" "snd x"] by simp
  qed
  have "distinct (map childKey (jm_values (childTasks st)))"
    using wf unfolding jm_wf_def keys .
  then have "distinct (map childKey (listCreatingChildAttempts st))"
    unfolding listCreatingChildAttempts_def by (rule distinct_map_filter)
  from recover_rows_result [OF rows this, of "stale_attempt flying staleBefore live" now] obtain st' fcts where
    *: "recoverCreatingChildAttempts st flying staleBefore now live = (st', Inr fcts)"
      "map cf_childKey fcts = map childKey (filter (stale_attempt flying staleBefore live) (listCreatingChildAttempts st))"
      "\<And>k. jm_get (childTasks st') k =
         map_option (swept (stale_attempt flying staleBefore live) now (listCreatingChildAttempts st) k)
           (jm_get (childTasks st) k)"
    unfolding recoverCreatingChildAttempts_def by blast
  have "swept (stale_attempt flying staleBefore live) now (listCreatingChildAttempts st) k r
      = (if stale_attempt flying staleBefore live r then cancelled_row now r else r)"
    if "jm_get (childTasks st) k = Some r" for k r
  proof -
    have kr: "(k, r) \<in> set (childTasks st)" using that by (rule map_of_SomeD)
    then have "r \<in> set (jm_values (childTasks st))" by force
    then have "stale_attempt flying staleBefore live r \<Longrightarrow> r \<in> set (listCreatingChildAttempts st)"
      by (simp add: listCreatingChildAttempts_def stale_attempt_def)
    then show ?thesis using key [OF kr] by (simp add: swept_def)
  qed
  then have "jm_get (childTasks st') k =
      map_option (\<lambda>r. if stale_attempt flying staleBefore live r then cancelled_row now r else r)
        (jm_get (childTasks st) k)" for k
    unfolding *(3) by (cases "jm_get (childTasks st) k") simp_all
  with *(1,2) show ?thesis by blast
qed

theorem recovery_cancels_exactly_stale_witness:
  "tasks_keyed st_child
   \<and> map_option state (jm_get (childTasks (fst (recoverCreatingChildAttempts st_child [] 5 8 []))) ''c'') = Some Failed
   \<and> (\<exists>st' fcts. recoverCreatingChildAttempts st_child [] 5 8 [] = (st', Inr fcts)
        \<and> map cf_childKey fcts = [''c''])"
proof -
  have keyed: "tasks_keyed st_child" by code_simp
  have "map_option state (jm_get (childTasks (fst (recoverCreatingChildAttempts st_child [] 5 8 []))) ''c'') = Some Failed"
    by code_simp
  moreover have "map childKey (filter (stale_attempt [] 5 []) (listCreatingChildAttempts st_child)) = [''c'']"
    by code_simp
  ultimately show ?thesis
    using keyed recovery_cancels_exactly_stale [OF keyed, of "[]" 5 8 "[]"] by auto
qed

section \<open>Who may be started\<close>

text \<open>
  A start is let through exactly when its provider, if named, is in the session's provider list
  (when there is one) and, when there is a model list, its model is named and in it, so that an
  inherited model cannot bypass the list. The session's own list, once set, replaces the default.
\<close>

theorem allowlist_gate:
  "assertChildAgentAllowed st key req = Inr () \<longleftrightarrow>
     (let al = (case jm_get (as_sessions st) key of Some l \<Rightarrow> Some l | None \<Rightarrow> as_fallback st) in
      (\<forall>l ps p. al = Some l \<and> al_providers l = Some ps \<and> sr_providerId req = Some p \<longrightarrow> p \<in> set ps)
      \<and> (\<forall>l ms. al = Some l \<and> al_models l = Some ms \<longrightarrow>
           (\<exists>m. sr_model req = Some m \<and> m \<noteq> '''' \<and> m \<in> set ms)))"
  by (auto simp: assertChildAgentAllowed_def childAgentRefusal_def childAgentAllowlist_def refuse_model_def
      Let_def throw_def split: option.splits if_splits)

theorem allowlist_gate_witness:
  "assertChildAgentAllowed \<lparr>as_sessions = [(''k'', \<lparr>al_models = Some [''m''], al_providers = None\<rparr>)],
      as_fallback = None\<rparr> ''k'' \<lparr>sr_providerId = Some ''p'', sr_model = Some ''m''\<rparr> = Inr ()"
  by (simp add: allowlist_gate)

section \<open>Attempts in flight\<close>

text \<open>Any interleaving of factories that start driving an attempt and let it go.\<close>

inductive flight_step :: "in_flight \<times> attempt_release list \<Rightarrow> in_flight \<times> attempt_release list \<Rightarrow> bool" where
  flight_track: "flight_step (m, hs) (fst (trackChildAttempt m a), hs @ [snd (trackChildAttempt m a)])"
| flight_release: "i < length hs \<Longrightarrow>
    flight_step (m, hs) (fst (releaseChildAttempt m (hs ! i)), hs[i := snd (releaseChildAttempt m (hs ! i))])"

definition driving :: "attempt_release list \<Rightarrow> string \<Rightarrow> int" where
  "driving hs a = int (length (filter (\<lambda>h. fst h = a \<and> \<not> snd h) hs))"

lemma driving_update:
  assumes "i < length hs"
  shows "driving (hs[i := h']) a = driving hs a
    + (if fst h' = a \<and> \<not> snd h' then 1 else 0) - (if fst (hs ! i) = a \<and> \<not> snd (hs ! i) then 1 else 0)"
  using assms
proof (induction hs arbitrary: i)
  case (Cons h hs)
  have cons: "driving (x # xs) a = driving xs a + (if fst x = a \<and> \<not> snd x then 1 else 0)" for x xs
    by (simp add: driving_def)
  show ?case
  proof (cases i)
    case 0
    then show ?thesis by (simp add: cons)
  next
    case (Suc j)
    with Cons.prems have "j < length hs" by simp
    from Cons.IH [OF this] Suc show ?thesis by (simp add: cons)
  qed
qed simp

lemma flight_step_exact:
  assumes "flight_step s s'" "in_flight_ok (fst s) \<and> (\<forall>a. in_flight_count (fst s) a = driving (snd s) a)"
  shows "in_flight_ok (fst s') \<and> (\<forall>a. in_flight_count (fst s') a = driving (snd s') a)"
  using assms
proof (induction rule: flight_step.induct)
  case (flight_track m hs a)
  then show ?case
    by (auto simp: in_flight_ok_track count_track driving_def) (auto simp: trackChildAttempt_def)
next
  case (flight_release i hs m)
  obtain a r where h: "hs ! i = (a, r)" by force
  have pos: "0 < driving hs a" if "\<not> r"
  proof -
    have "(a, r) \<in> set (filter (\<lambda>h. fst h = a \<and> \<not> snd h) hs)"
      using flight_release(1) h that by (auto simp: in_set_conv_nth)
    then have "0 < length (filter (\<lambda>h. fst h = a \<and> \<not> snd h) hs)" by (rule length_pos_if_in_set)
    then show ?thesis by (simp add: driving_def)
  qed
  have "snd (releaseChildAttempt m (a, r)) = (a, True)"
    by (simp add: releaseChildAttempt_def Let_def)
  with flight_release pos h show ?case
    by (auto simp: in_flight_ok_release count_release driving_update)
qed

text \<open>
  However factories interleave, the process-wide count of an attempt is the number of release
  closures for it not yet called, and calling one twice counts once: an attempt is marked in flight
  exactly while some factory still drives it, so the sweep of C20 never cancels it.
\<close>

theorem in_flight_exact:
  assumes "flight_step\<^sup>*\<^sup>* ([], []) (m, hs)"
  shows "in_flight_count m a = driving hs a \<and> (jm_has m a \<longleftrightarrow> 0 < driving hs a)"
proof -
  have "in_flight_ok (fst (m, hs)) \<and> (\<forall>a. in_flight_count (fst (m, hs)) a = driving (snd (m, hs)) a)"
    using assms
  proof (induction rule: rtranclp_induct)
    case base
    then show ?case by (simp add: in_flight_ok_def in_flight_count_def driving_def)
  next
    case (step y z)
    then show ?case using flight_step_exact by blast
  qed
  then have ok: "in_flight_ok m" and eq: "in_flight_count m a = driving hs a" by auto
  have "jm_has m a \<longleftrightarrow> 0 < in_flight_count m a"
    using in_flight_ok_get [OF ok, where a = a] by (auto simp: in_flight_count_def split: option.split)
  with eq show ?thesis by simp
qed

theorem in_flight_exact_witness:
  "jm_has (fst (trackChildAttempt [] ''a1'')) ''a1''"
proof -
  have "flight_step\<^sup>*\<^sup>* ([], []) (fst (trackChildAttempt [] ''a1''), [] @ [snd (trackChildAttempt [] ''a1'')])"
    by (rule r_into_rtranclp) (rule flight_track)
  from in_flight_exact [OF this, of "''a1''"] show ?thesis by (simp add: driving_def trackChildAttempt_def)
qed

section \<open>A boundary past the parent's head\<close>

text \<open>
  Creating a delegated child does not check its boundary against the parent's last row, as the
  plain fork does: the child is created, and rows its parent writes afterwards show up in it.
\<close>

theorem delegated_boundary_unchecked:
  "\<exists>row. snd (createDelegatedChild 9 st_scope (child_a\<lparr>ci_boundarySeq := 5\<rparr>)) = Inr (Created row)
   \<and> (let st = fst (open_session 0 (fst (createDelegatedChild 9 st_scope (child_a\<lparr>ci_boundarySeq := 5\<rparr>)))
                ''root'' ''w'' 10);
          st' = fst (commit 1 st ''root'' (tx_a ''w'' [row_a])) in
      snd (scan st ''c'' q_all) = Inr [] \<and> snd (scan st' ''c'' q_all) = Inr [stamp 1 row_a])
   \<and> snd (createChild st_scope ''root'' 5 ''c'') = throw E_STORAGE_FAULT ''boundary beyond parent''"
proof -
  have "snd (createDelegatedChild 9 st_scope (child_a\<lparr>ci_boundarySeq := 5\<rparr>)) =
      Inr (Created (the (jm_get (childTasks (fst (createDelegatedChild 9 st_scope (child_a\<lparr>ci_boundarySeq := 5\<rparr>)))) ''c'')))"
    by code_simp
  moreover have "let st = fst (open_session 0 (fst (createDelegatedChild 9 st_scope (child_a\<lparr>ci_boundarySeq := 5\<rparr>)))
                ''root'' ''w'' 10);
          st' = fst (commit 1 st ''root'' (tx_a ''w'' [row_a])) in
      snd (scan st ''c'' q_all) = Inr [] \<and> snd (scan st' ''c'' q_all) = Inr [stamp 1 row_a]"
    by code_simp
  moreover have "snd (createChild st_scope ''root'' 5 ''c'') = throw E_STORAGE_FAULT ''boundary beyond parent''"
    by code_simp
  ultimately show ?thesis by blast
qed

end
