(* ===== verification/Permits.thy ===== *)
theory Permits
  imports Js
begin

text \<open>
  The execute permits of \<^verbatim>\<open>core-effects/src/effects/execute-permits.ts\<close>: an in-process capability for one
  dispatch of one durably started effect. A permit is an object without fields, so it is modelled by
  its identity, a number the registry has not used before; owners are object identities as well.
\<close>

section \<open>The registry\<close>

type_synonym permit = nat
type_synonym owner = nat

record permit_binding =
  pb_effectId :: string
  pb_startSeq :: jsnum
  pb_owner :: owner
  pb_attempt :: int

record effect_permit_state =
  ps_startSeq :: jsnum
  ps_owner :: owner
  ps_issuedAttempt :: int
  ps_consumedAttempt :: int
  ps_livePermit :: "permit option"

record permit_registry =
  pr_live :: "(permit, permit_binding) jsmap"
  pr_byEffect :: "(string, effect_permit_state) jsmap"
  pr_open :: bool
  pr_fresh :: permit

definition new_registry :: permit_registry where
  "new_registry = \<lparr>pr_live = [], pr_byEffect = [], pr_open = True, pr_fresh = 0\<rparr>"

definition refused :: "string \<Rightarrow> 'a res" where
  "refused message = throw E_EXECUTE_PERMIT message"

text \<open>\<^verbatim>\<open>!Number.isSafeInteger(startSeq) || startSeq < 1\<close>\<close>

definition bad_start :: "jsnum \<Rightarrow> bool" where
  "bad_start n \<longleftrightarrow> \<not> is_safe_integer n \<or> js_lt n (num_of_int 1)"

text \<open>The guards \<^verbatim>\<open>issue\<close> and \<^verbatim>\<open>restoreConsumed\<close> begin with.\<close>

definition binding_refusal :: "permit_registry \<Rightarrow> permit_binding \<Rightarrow> string option" where
  "binding_refusal pr i =
     (if \<not> pr_open pr then Some ''permit registry is closed''
      else if pb_effectId i = '''' then Some ''effect id is empty''
      else if bad_start (pb_startSeq i) then Some ''start sequence is invalid''
      else if pb_attempt i \<noteq> 1 \<and> pb_attempt i \<noteq> 2 then Some ''execute attempt is invalid''
      else None)"

text \<open>What an earlier state of the same effect, or its absence, has against the attempt.\<close>

definition prior_refusal :: "effect_permit_state option \<Rightarrow> permit_binding \<Rightarrow> string option" where
  "prior_refusal prior i =
     (case prior of
        Some p \<Rightarrow>
          if ps_owner p \<noteq> pb_owner i \<or> ps_startSeq p \<noteq> pb_startSeq i
          then Some ''effect is bound to another owner or durable start sequence''
          else if ps_livePermit p \<noteq> None then Some ''previous permit remains unconsumed''
          else if pb_attempt i \<noteq> ps_consumedAttempt p + 1
          then Some ''execute attempts must be issued once in strict order''
          else None
      | None \<Rightarrow> if pb_attempt i \<noteq> 1 then Some ''first execute attempt must be attempt 1'' else None)"

definition issue :: "permit_registry \<Rightarrow> permit_binding \<Rightarrow> permit_registry \<times> permit res" where
  "issue pr i =
     (case binding_refusal pr i of
        Some m \<Rightarrow> (pr, refused m)
      | None \<Rightarrow>
         (let prior = jm_get (pr_byEffect pr) (pb_effectId i) in
          case prior_refusal prior i of
            Some m \<Rightarrow> (pr, refused m)
          | None \<Rightarrow>
             (let permit = pr_fresh pr;
                  live = jm_set (pr_live pr) permit i;
                  entry = (case prior of
                      Some p \<Rightarrow> p\<lparr>ps_issuedAttempt := pb_attempt i, ps_livePermit := Some permit\<rparr>
                    | None \<Rightarrow> \<lparr>ps_startSeq = pb_startSeq i, ps_owner = pb_owner i, ps_issuedAttempt = pb_attempt i,
                               ps_consumedAttempt = 0, ps_livePermit = Some permit\<rparr>) in
              (pr\<lparr>pr_live := live, pr_byEffect := jm_set (pr_byEffect pr) (pb_effectId i) entry,
                  pr_fresh := permit + 1\<rparr>,
               Inr permit))))"

definition restoreConsumed :: "permit_registry \<Rightarrow> permit_binding \<Rightarrow> permit_registry \<times> unit res" where
  "restoreConsumed pr i =
     (case binding_refusal pr i of
        Some m \<Rightarrow> (pr, refused m)
      | None \<Rightarrow>
          if jm_has (pr_byEffect pr) (pb_effectId i)
          then (pr, refused ''effect permit state is already restored'')
          else (pr\<lparr>pr_byEffect := jm_set (pr_byEffect pr) (pb_effectId i)
                     \<lparr>ps_startSeq = pb_startSeq i, ps_owner = pb_owner i, ps_issuedAttempt = pb_attempt i,
                      ps_consumedAttempt = pb_attempt i, ps_livePermit = None\<rparr>\<rparr>,
                Inr ()))"

definition consume :: "permit_registry \<Rightarrow> permit \<Rightarrow> permit_binding \<Rightarrow> permit_registry \<times> unit res" where
  "consume pr permit expected =
     (case jm_get (pr_live pr) permit of
        None \<Rightarrow> (pr, refused ''permit is unknown, stale, or bound to another dispatch'')
      | Some binding \<Rightarrow>
          if pb_owner binding \<noteq> pb_owner expected \<or> pb_effectId binding \<noteq> pb_effectId expected
             \<or> pb_startSeq binding \<noteq> pb_startSeq expected \<or> pb_attempt binding \<noteq> pb_attempt expected
          then (pr, refused ''permit is unknown, stale, or bound to another dispatch'')
          else case jm_get (pr_byEffect pr) (pb_effectId binding) of
              None \<Rightarrow> (pr, refused ''permit registry state is inconsistent'')
            | Some s \<Rightarrow>
                if ps_livePermit s \<noteq> Some permit \<or> ps_issuedAttempt s \<noteq> pb_attempt binding
                then (pr, refused ''permit registry state is inconsistent'')
                else (pr\<lparr>pr_live := jm_delete (pr_live pr) permit,
                         pr_byEffect := jm_set (pr_byEffect pr) (pb_effectId binding)
                           (s\<lparr>ps_livePermit := None, ps_consumedAttempt := pb_attempt binding\<rparr>)\<rparr>,
                      Inr ()))"

fun drop_live :: "(permit, permit_binding) jsmap \<Rightarrow> effect_permit_state list \<Rightarrow> (permit, permit_binding) jsmap" where
  "drop_live live [] = live"
| "drop_live live (s # ss) =
     drop_live (case ps_livePermit s of Some p \<Rightarrow> jm_delete live p | None \<Rightarrow> live) ss"

definition close_registry :: "permit_registry \<Rightarrow> permit_registry" where
  "close_registry pr =
     pr\<lparr>pr_open := False, pr_live := drop_live (pr_live pr) (jm_values (pr_byEffect pr)), pr_byEffect := []\<rparr>"

section \<open>The invariant\<close>

text \<open>
  Every live permit is the one its effect's state names, under the same owner, start and attempt, and
  the other way round; an effect with a live permit is at exactly its next attempt.
\<close>

definition live_ok :: "permit_registry \<Rightarrow> permit \<Rightarrow> permit_binding \<Rightarrow> bool" where
  "live_ok pr p b \<longleftrightarrow> p < pr_fresh pr
     \<and> (\<exists>s. jm_get (pr_byEffect pr) (pb_effectId b) = Some s \<and> ps_livePermit s = Some p
          \<and> ps_issuedAttempt s = pb_attempt b \<and> ps_startSeq s = pb_startSeq b \<and> ps_owner s = pb_owner b)"

definition entry_ok :: "permit_registry \<Rightarrow> string \<Rightarrow> effect_permit_state \<Rightarrow> bool" where
  "entry_ok pr e s \<longleftrightarrow>
     ps_consumedAttempt s \<in> {0, 1, 2} \<and> ps_issuedAttempt s \<in> {1, 2}
     \<and> (case ps_livePermit s of
          Some p \<Rightarrow> ps_issuedAttempt s = ps_consumedAttempt s + 1
            \<and> (\<exists>b. jm_get (pr_live pr) p = Some b \<and> pb_effectId b = e)
        | None \<Rightarrow> ps_issuedAttempt s = ps_consumedAttempt s)"

definition permits_ok :: "permit_registry \<Rightarrow> bool" where
  "permits_ok pr \<longleftrightarrow> (\<forall>p b. jm_get (pr_live pr) p = Some b \<longrightarrow> live_ok pr p b)
     \<and> (\<forall>e s. jm_get (pr_byEffect pr) e = Some s \<longrightarrow> entry_ok pr e s)"

lemma permits_okI:
  assumes "\<And>p b. jm_get (pr_live pr) p = Some b \<Longrightarrow> live_ok pr p b"
    and "\<And>e s. jm_get (pr_byEffect pr) e = Some s \<Longrightarrow> entry_ok pr e s"
  shows "permits_ok pr"
  using assms by (simp add: permits_ok_def)

lemma permits_okD:
  assumes "permits_ok pr"
  shows "jm_get (pr_live pr) p = Some b \<Longrightarrow> live_ok pr p b"
    and "jm_get (pr_byEffect pr) e = Some s \<Longrightarrow> entry_ok pr e s"
  using assms by (simp_all add: permits_ok_def)

text \<open>Two live permits of one effect are the same permit.\<close>

lemma live_unique:
  assumes "permits_ok pr" "jm_get (pr_live pr) p = Some b" "jm_get (pr_live pr) q = Some c" "pb_effectId b = pb_effectId c"
  shows "p = q"
  using permits_okD(1) [OF assms(1,2)] permits_okD(1) [OF assms(1,3)] assms(4) by (auto simp: live_ok_def)

lemma permits_ok_new [simp]: "permits_ok new_registry"
  by (simp add: permits_ok_def new_registry_def)

lemma binding_refusal_None:
  "binding_refusal pr i = None \<longleftrightarrow> pr_open pr \<and> pb_effectId i \<noteq> '''' \<and> \<not> bad_start (pb_startSeq i)
     \<and> (pb_attempt i = 1 \<or> pb_attempt i = 2)"
  by (auto simp: binding_refusal_def)

lemma issue_InrE:
  assumes "issue pr i = (pr', Inr p)"
  obtains entry where "binding_refusal pr i = None"
    "prior_refusal (jm_get (pr_byEffect pr) (pb_effectId i)) i = None" "p = pr_fresh pr"
    "pr' = pr\<lparr>pr_live := jm_set (pr_live pr) p i,
             pr_byEffect := jm_set (pr_byEffect pr) (pb_effectId i) entry, pr_fresh := p + 1\<rparr>"
    "ps_livePermit entry = Some p" "ps_issuedAttempt entry = pb_attempt i" "ps_startSeq entry = pb_startSeq i"
    "ps_owner entry = pb_owner i" "pb_attempt i = ps_consumedAttempt entry + 1"
    "ps_consumedAttempt entry = (case jm_get (pr_byEffect pr) (pb_effectId i) of None \<Rightarrow> 0 | Some s \<Rightarrow> ps_consumedAttempt s)"
  using assms
  by (auto simp: issue_def prior_refusal_def refused_def throw_def Let_def split: option.splits if_splits)

lemma issue_Inl: "issue pr i = (pr', Inl e) \<Longrightarrow> pr' = pr"
  by (auto simp: issue_def refused_def throw_def Let_def split: option.splits if_splits)

lemma consume_InrE:
  assumes "consume pr p x = (pr', Inr u)"
  obtains b s where "jm_get (pr_live pr) p = Some b" "jm_get (pr_byEffect pr) (pb_effectId b) = Some s"
    "ps_livePermit s = Some p" "ps_issuedAttempt s = pb_attempt b" "b = x"
    "pr' = pr\<lparr>pr_live := jm_delete (pr_live pr) p, pr_byEffect := jm_set (pr_byEffect pr) (pb_effectId b)
             (s\<lparr>ps_livePermit := None, ps_consumedAttempt := pb_attempt b\<rparr>)\<rparr>"
  using assms by (auto simp: consume_def refused_def throw_def split: option.splits if_splits)

lemma consume_Inl: "consume pr p x = (pr', Inl e) \<Longrightarrow> pr' = pr"
  by (auto simp: consume_def refused_def throw_def split: option.splits if_splits)

lemma restore_Inl: "restoreConsumed pr i = (pr', Inl e) \<Longrightarrow> pr' = pr"
  by (auto simp: restoreConsumed_def refused_def throw_def split: option.splits if_splits)

lemma restore_InrE:
  assumes "restoreConsumed pr i = (pr', Inr u)"
  obtains s where "binding_refusal pr i = None" "jm_get (pr_byEffect pr) (pb_effectId i) = None"
    "pr' = pr\<lparr>pr_byEffect := jm_set (pr_byEffect pr) (pb_effectId i) s\<rparr>"
    "ps_consumedAttempt s = pb_attempt i" "ps_issuedAttempt s = pb_attempt i" "ps_livePermit s = None"
  using assms
  by (auto simp: restoreConsumed_def refused_def throw_def split: option.splits if_splits)

lemma permits_ok_issue:
  assumes ok: "permits_ok pr" and i: "issue pr i = (pr', Inr p)"
  shows "permits_ok pr'"
proof -
  from i obtain entry where
    bind: "binding_refusal pr i = None"
    and prior: "prior_refusal (jm_get (pr_byEffect pr) (pb_effectId i)) i = None" and p: "p = pr_fresh pr"
    and pr': "pr' = pr\<lparr>pr_live := jm_set (pr_live pr) p i,
             pr_byEffect := jm_set (pr_byEffect pr) (pb_effectId i) entry, pr_fresh := p + 1\<rparr>"
    and en: "ps_livePermit entry = Some p" "ps_issuedAttempt entry = pb_attempt i" "ps_startSeq entry = pb_startSeq i"
      "ps_owner entry = pb_owner i" "pb_attempt i = ps_consumedAttempt entry + 1"
    by (rule issue_InrE)
  have att: "pb_attempt i \<in> {1, 2}" using bind by (auto simp: binding_refusal_None)
  have idle: "ps_livePermit s = None" if "jm_get (pr_byEffect pr) (pb_effectId i) = Some s" for s
    using prior that by (auto simp: prior_refusal_def split: if_splits)
  have other: "pb_effectId b \<noteq> pb_effectId i \<and> q \<noteq> p" if "jm_get (pr_live pr) q = Some b" for q b
    using permits_okD(1) [OF ok that] idle p by (auto simp: live_ok_def)
  show ?thesis
  proof (rule permits_okI)
    fix q b
    assume q: "jm_get (pr_live pr') q = Some b"
    show "live_ok pr' q b"
    proof (cases "q = p")
      case True
      with q en show ?thesis by (simp add: pr' live_ok_def)
    next
      case False
      with q have "jm_get (pr_live pr) q = Some b" by (simp add: pr')
      from permits_okD(1) [OF ok this] other [OF this] p show ?thesis by (auto simp: pr' live_ok_def)
    qed
  next
    fix e s
    assume s: "jm_get (pr_byEffect pr') e = Some s"
    show "entry_ok pr' e s"
    proof (cases "e = pb_effectId i")
      case True
      with s have "s = entry" by (simp add: pr')
      with True en att show ?thesis by (auto simp: pr' entry_ok_def)
    next
      case False
      with s have "jm_get (pr_byEffect pr) e = Some s" by (simp add: pr')
      from permits_okD(2) [OF ok this] show ?thesis
        using other by (auto simp: entry_ok_def pr' split: option.splits)
    qed
  qed
qed

lemma permits_ok_restore:
  assumes ok: "permits_ok pr" and r: "restoreConsumed pr i = (pr', Inr u)"
  shows "permits_ok pr'"
proof -
  from r obtain s0 where
    bind: "binding_refusal pr i = None" and none: "jm_get (pr_byEffect pr) (pb_effectId i) = None"
    and pr': "pr' = pr\<lparr>pr_byEffect := jm_set (pr_byEffect pr) (pb_effectId i) s0\<rparr>"
    and s0: "ps_consumedAttempt s0 = pb_attempt i" "ps_issuedAttempt s0 = pb_attempt i" "ps_livePermit s0 = None"
    by (rule restore_InrE)
  have att: "pb_attempt i \<in> {1, 2}" using bind by (auto simp: binding_refusal_None)
  show ?thesis
  proof (rule permits_okI)
    fix q b
    assume "jm_get (pr_live pr') q = Some b"
    then have "jm_get (pr_live pr) q = Some b" by (simp add: pr')
    from permits_okD(1) [OF ok this] none show "live_ok pr' q b" by (auto simp: live_ok_def pr')
  next
    fix e s
    assume s: "jm_get (pr_byEffect pr') e = Some s"
    show "entry_ok pr' e s"
    proof (cases "e = pb_effectId i")
      case True
      with s have "s = s0" by (simp add: pr')
      with s0 att show ?thesis by (auto simp: entry_ok_def)
    next
      case False
      with s have "jm_get (pr_byEffect pr) e = Some s" by (simp add: pr')
      from permits_okD(2) [OF ok this] show ?thesis by (auto simp: entry_ok_def pr' split: option.splits)
    qed
  qed
qed

lemma permits_ok_consume:
  assumes ok: "permits_ok pr" and c: "consume pr p x = (pr', Inr u)"
  shows "permits_ok pr'"
proof -
  from c obtain b s0 where
    live: "jm_get (pr_live pr) p = Some b" and s0: "jm_get (pr_byEffect pr) (pb_effectId b) = Some s0"
      "ps_livePermit s0 = Some p" "ps_issuedAttempt s0 = pb_attempt b"
    and pr': "pr' = pr\<lparr>pr_live := jm_delete (pr_live pr) p, pr_byEffect := jm_set (pr_byEffect pr) (pb_effectId b)
             (s0\<lparr>ps_livePermit := None, ps_consumedAttempt := pb_attempt b\<rparr>)\<rparr>"
    by (rule consume_InrE)
  show ?thesis
  proof (rule permits_okI)
    fix q c
    assume q: "jm_get (pr_live pr') q = Some c"
    then have q': "jm_get (pr_live pr) q = Some c" "q \<noteq> p" by (auto simp: pr' split: if_splits)
    with live_unique [OF ok q'(1) live] have "pb_effectId c \<noteq> pb_effectId b" by auto
    with permits_okD(1) [OF ok q'(1)] show "live_ok pr' q c" by (auto simp: live_ok_def pr')
  next
    fix e s
    assume s: "jm_get (pr_byEffect pr') e = Some s"
    show "entry_ok pr' e s"
    proof (cases "e = pb_effectId b")
      case True
      with s have "s = s0\<lparr>ps_livePermit := None, ps_consumedAttempt := pb_attempt b\<rparr>" by (simp add: pr')
      with permits_okD(2) [OF ok s0(1)] s0 show ?thesis by (auto simp: entry_ok_def)
    next
      case False
      with s have "jm_get (pr_byEffect pr) e = Some s" by (simp add: pr')
      from permits_okD(2) [OF ok this] False live show ?thesis
        by (auto simp: entry_ok_def pr' split: option.splits)
    qed
  qed
qed

text \<open>Closing forgets every permit: each live one is named by its effect's state.\<close>

lemma drop_live_get:
  "jm_get (drop_live live ss) p = (if \<exists>s \<in> set ss. ps_livePermit s = Some p then None else jm_get live p)"
  by (induction ss arbitrary: live) (auto split: option.splits)

lemma close_empties:
  assumes "permits_ok pr"
  shows "jm_get (pr_live (close_registry pr)) p = None"
proof (cases "jm_get (pr_live pr) p")
  case None
  then show ?thesis by (simp add: close_registry_def drop_live_get)
next
  case (Some b)
  from permits_okD(1) [OF assms this] obtain s where "jm_get (pr_byEffect pr) (pb_effectId b) = Some s"
    "ps_livePermit s = Some p" by (auto simp: live_ok_def)
  then have "s \<in> set (jm_values (pr_byEffect pr))" by (force dest: map_of_SomeD)
  with \<open>ps_livePermit s = Some p\<close> show ?thesis by (auto simp: close_registry_def drop_live_get)
qed

lemma permits_ok_close: "permits_ok pr \<Longrightarrow> permits_ok (close_registry pr)"
  by (rule permits_okI) (auto simp: close_empties, simp add: close_registry_def)

section \<open>At most once\<close>

text \<open>
  The calls of one session in any order, with the dispatches let through so far: each consumed
  permit and what it was bound to.
\<close>

type_synonym dispatches = "(permit \<times> permit_binding) list"

inductive permit_step :: "permit_registry \<times> dispatches \<Rightarrow> permit_registry \<times> dispatches \<Rightarrow> bool" where
  "permit_step (pr, ds) (fst (issue pr i), ds)"
| "permit_step (pr, ds) (fst (restoreConsumed pr i), ds)"
| "consume pr p x = (pr', Inr u) \<Longrightarrow> permit_step (pr, ds) (pr', ds @ [(p, x)])"
| "consume pr p x = (pr', Inl e) \<Longrightarrow> permit_step (pr, ds) (pr', ds)"
| "permit_step (pr, ds) (close_registry pr, ds)"

definition spent :: "permit_registry \<Rightarrow> permit \<times> permit_binding \<Rightarrow> bool" where
  "spent pr d \<longleftrightarrow> fst d < pr_fresh pr \<and> jm_get (pr_live pr) (fst d) = None
     \<and> (pr_open pr \<longrightarrow> (\<exists>s. jm_get (pr_byEffect pr) (pb_effectId (snd d)) = Some s
          \<and> pb_attempt (snd d) \<le> ps_consumedAttempt s))"

definition later :: "permit \<times> permit_binding \<Rightarrow> permit \<times> permit_binding \<Rightarrow> bool" where
  "later d d' \<longleftrightarrow> fst d \<noteq> fst d' \<and> (pb_effectId (snd d) = pb_effectId (snd d') \<longrightarrow> pb_attempt (snd d) < pb_attempt (snd d'))"

definition dispatches_ok :: "permit_registry \<times> dispatches \<Rightarrow> bool" where
  "dispatches_ok sd \<longleftrightarrow> permits_ok (fst sd) \<and> (\<not> pr_open (fst sd) \<longrightarrow> pr_live (fst sd) = [] \<and> pr_byEffect (fst sd) = [])
     \<and> (\<forall>d \<in> set (snd sd). spent (fst sd) d \<and> pb_attempt (snd d) \<in> {1, 2}) \<and> sorted_wrt later (snd sd)"

lemma closed_issue: "\<not> pr_open pr \<Longrightarrow> fst (issue pr i) = pr"
  by (simp add: issue_def binding_refusal_def)

lemma closed_restore: "\<not> pr_open pr \<Longrightarrow> fst (restoreConsumed pr i) = pr"
  by (simp add: restoreConsumed_def binding_refusal_def)

lemma spent_issue:
  assumes "issue pr i = (pr', Inr p)" "spent pr d"
  shows "spent pr' d"
  using assms(1) by (rule issue_InrE) (use assms(2) in \<open>auto simp: spent_def binding_refusal_None\<close>)

lemma spent_restore:
  assumes "restoreConsumed pr i = (pr', Inr u)" "spent pr d"
  shows "spent pr' d"
  using assms(1)
proof (rule restore_InrE)
  fix s
  assume "binding_refusal pr i = None" "jm_get (pr_byEffect pr) (pb_effectId i) = None"
    "pr' = pr\<lparr>pr_byEffect := jm_set (pr_byEffect pr) (pb_effectId i) s\<rparr>"
  with assms(2) show ?thesis by (auto simp: spent_def binding_refusal_None)
qed

lemma spent_consume:
  assumes ok: "permits_ok pr" and c: "consume pr p x = (pr', Inr u)" and d: "spent pr d"
  shows "spent pr' d"
proof -
  from c obtain b s where b: "jm_get (pr_live pr) p = Some b" and s: "jm_get (pr_byEffect pr) (pb_effectId b) = Some s"
    "ps_livePermit s = Some p" "ps_issuedAttempt s = pb_attempt b"
    and pr': "pr' = pr\<lparr>pr_live := jm_delete (pr_live pr) p, pr_byEffect := jm_set (pr_byEffect pr) (pb_effectId b)
             (s\<lparr>ps_livePermit := None, ps_consumedAttempt := pb_attempt b\<rparr>)\<rparr>"
    by (rule consume_InrE)
  have "pb_attempt b = ps_consumedAttempt s + 1"
    using permits_okD(2) [OF ok s(1)] s by (simp add: entry_ok_def)
  with d s show ?thesis by (auto simp: spent_def pr')
qed

lemma later_dispatch:
  assumes ok: "permits_ok pr" and c: "consume pr p x = (pr', Inr u)" and op: "pr_open pr" and d: "spent pr d"
  shows "later d (p, x)"
proof -
  from c obtain b s where b: "jm_get (pr_live pr) p = Some b" and s: "jm_get (pr_byEffect pr) (pb_effectId b) = Some s"
    "ps_livePermit s = Some p" "ps_issuedAttempt s = pb_attempt b" and x: "b = x" by (rule consume_InrE)
  have "pb_attempt b = ps_consumedAttempt s + 1"
    using permits_okD(2) [OF ok s(1)] s by (simp add: entry_ok_def)
  with d s b op x show ?thesis by (auto simp: spent_def later_def)
qed

lemma new_dispatch:
  assumes ok: "permits_ok pr" and c: "consume pr p x = (pr', Inr u)"
  shows "spent pr' (p, x) \<and> pb_attempt x \<in> {1, 2} \<and> pr_open pr' = pr_open pr"
proof -
  from c obtain b s where b: "jm_get (pr_live pr) p = Some b" and s: "jm_get (pr_byEffect pr) (pb_effectId b) = Some s"
    "ps_livePermit s = Some p" "ps_issuedAttempt s = pb_attempt b" and x: "b = x"
    and pr': "pr' = pr\<lparr>pr_live := jm_delete (pr_live pr) p, pr_byEffect := jm_set (pr_byEffect pr) (pb_effectId b)
             (s\<lparr>ps_livePermit := None, ps_consumedAttempt := pb_attempt b\<rparr>)\<rparr>"
    by (rule consume_InrE)
  with permits_okD(1) [OF ok b] permits_okD(2) [OF ok s(1)] show ?thesis
    by (auto simp: live_ok_def entry_ok_def spent_def)
qed

lemma dispatches_ok_step:
  assumes "permit_step sd sd'" "dispatches_ok sd"
  shows "dispatches_ok sd'"
  using assms
proof (induction rule: permit_step.induct)
  case (1 pr ds i)
  then show ?case
  proof (cases "issue pr i")
    case (Pair pr' r)
    show ?thesis
    proof (cases r)
      case (Inl e)
      with 1 Pair show ?thesis by (auto dest: issue_Inl)
    next
      case (Inr p)
      have "pr_open pr" "pr_open pr'" using Pair [unfolded Inr] by (auto elim!: issue_InrE simp: binding_refusal_None)
      with 1 Pair [unfolded Inr] show ?thesis
        by (auto simp: dispatches_ok_def intro: permits_ok_issue spent_issue)
    qed
  qed
next
  case (2 pr ds i)
  then show ?case
  proof (cases "restoreConsumed pr i")
    case (Pair pr' r)
    show ?thesis
    proof (cases r)
      case (Inl e)
      with 2 Pair show ?thesis by (auto dest: restore_Inl)
    next
      case (Inr u)
      have "pr_open pr" "pr_open pr'" using Pair [unfolded Inr] by (auto elim!: restore_InrE simp: binding_refusal_None)
      with 2 Pair [unfolded Inr] show ?thesis
        by (auto simp: dispatches_ok_def intro: permits_ok_restore spent_restore)
    qed
  qed
next
  case (3 pr p x pr' u ds)
  have "pr_live pr \<noteq> []" using 3(1) by (auto elim!: consume_InrE)
  with 3 have op: "pr_open pr" by (auto simp: dispatches_ok_def)
  have ok: "permits_ok pr" and ds: "\<forall>d \<in> set ds. spent pr d \<and> pb_attempt (snd d) \<in> {1, 2}" "sorted_wrt later ds"
    using 3 by (simp_all add: dispatches_ok_def)
  show ?case
    using new_dispatch [OF ok 3(1)] permits_ok_consume [OF ok 3(1)] ds op
      spent_consume [OF ok 3(1)] later_dispatch [OF ok 3(1) op]
    by (auto simp: dispatches_ok_def sorted_wrt_append)
next
  case (4 pr p x pr' e ds)
  then show ?case by (auto dest: consume_Inl)
next
  case (5 pr ds)
  have ok: "permits_ok pr" using 5 by (simp add: dispatches_ok_def)
  have "map_of (pr_live (close_registry pr)) = Map.empty" using close_empties [OF ok] by blast
  then have "pr_live (close_registry pr) = []" by (simp only: map_of_eq_empty_iff)
  moreover have "spent (close_registry pr) d" if "spent pr d" for d
    using that by (auto simp: spent_def close_registry_def drop_live_get)
  ultimately show ?case using 5 permits_ok_close [OF ok]
    by (auto simp: dispatches_ok_def) (auto simp: close_registry_def)
qed

lemma dispatches_ok_new: "dispatches_ok (new_registry, [])"
  by (simp add: dispatches_ok_def) (simp add: new_registry_def)

lemma reachable_dispatches:
  assumes "permit_step\<^sup>*\<^sup>* (new_registry, []) sd"
  shows "dispatches_ok sd"
  using assms dispatches_ok_new dispatches_ok_step by (rule reachable_invariant)

text \<open>
  C24. A permit authorises one dispatch. However the issue, restore, consume and close calls of a
  session are interleaved, no permit is consumed twice, an effect is dispatched for attempt 1 and
  attempt 2 at most once each and in that order, and a permit already consumed is refused whatever
  the dispatch it is offered for.
\<close>

theorem execute_at_most_once:
  assumes "permit_step\<^sup>*\<^sup>* (new_registry, []) (pr, ds)"
  shows "sorted_wrt (\<lambda>d d'. fst d \<noteq> fst d'
        \<and> (pb_effectId (snd d) = pb_effectId (snd d') \<longrightarrow> pb_attempt (snd d) < pb_attempt (snd d'))) ds
    \<and> (\<forall>(p, x) \<in> set ds. pb_attempt x \<in> {1, 2}
        \<and> consume pr p y = (pr, refused ''permit is unknown, stale, or bound to another dispatch''))"
proof -
  from reachable_dispatches [OF assms] show ?thesis
    by (auto simp: dispatches_ok_def spent_def consume_def later_def [abs_def])
qed

definition pb_a :: "int \<Rightarrow> permit_binding" where
  "pb_a n = \<lparr>pb_effectId = ''e'', pb_startSeq = num_of_int 3, pb_owner = 7, pb_attempt = n\<rparr>"

theorem execute_at_most_once_witness:
  "\<exists>pr. permit_step\<^sup>*\<^sup>* (new_registry, []) (pr, [(0, pb_a 1)])
     \<and> consume pr 0 (pb_a 1) = (pr, refused ''permit is unknown, stale, or bound to another dispatch'')"
proof -
  let ?r1 = "fst (issue new_registry (pb_a 1))" and ?r2 = "fst (consume (fst (issue new_registry (pb_a 1))) 0 (pb_a 1))"
  have "permit_step (new_registry, []) (?r1, [])" by (rule permit_step.intros)
  moreover have "consume ?r1 0 (pb_a 1) = (?r2, Inr ())" by code_simp
  then have "permit_step (?r1, []) (?r2, [] @ [(0, pb_a 1)])" by (rule permit_step.intros)
  ultimately have r: "permit_step\<^sup>*\<^sup>* (new_registry, []) (?r2, [(0, pb_a 1)])" by simp
  from execute_at_most_once [OF r, of "pb_a 1"] r show ?thesis by auto
qed

text \<open>
  Closing the registry revokes everything: no permit issued before is honoured any more, and no
  permit is issued and no attempt restored from then on.
\<close>

theorem close_revokes:
  assumes "permit_step\<^sup>*\<^sup>* (new_registry, []) (pr, ds)"
  shows "consume (close_registry pr) p x = (close_registry pr, refused ''permit is unknown, stale, or bound to another dispatch'')
    \<and> issue (close_registry pr) i = (close_registry pr, refused ''permit registry is closed'')
    \<and> restoreConsumed (close_registry pr) i = (close_registry pr, refused ''permit registry is closed'')"
proof -
  from reachable_dispatches [OF assms] have "permits_ok pr" by (simp add: dispatches_ok_def)
  then show ?thesis
    using close_empties [of pr p]
    by (simp add: consume_def issue_def restoreConsumed_def binding_refusal_def) (simp add: close_registry_def)
qed

theorem close_revokes_witness:
  "consume (close_registry (fst (issue new_registry (pb_a 1)))) 0 (pb_a 1)
     = (close_registry (fst (issue new_registry (pb_a 1))),
        refused ''permit is unknown, stale, or bound to another dispatch'')"
proof -
  have "permit_step (new_registry, []) (fst (issue new_registry (pb_a 1)), [])" by (rule permit_step.intros)
  then have "permit_step\<^sup>*\<^sup>* (new_registry, []) (fst (issue new_registry (pb_a 1)), [])" by blast
  from close_revokes [OF this, of 0 "pb_a 1"] show ?thesis by simp
qed

end
