(* ===== verification/EffectScope.thy ===== *)
theory EffectScope
  imports Js
begin

text \<open>
  The no-effect proof of \<^verbatim>\<open>core-effects/src/effects/effect-scope.ts\<close> and the effect sandwich of
  \<^verbatim>\<open>effect.ts\<close>. A scope belongs to one admitted tool context. Its asynchronous calls are split where they
  wait: the part that runs before the awaited request, and the part that runs when it ends, so that
  calls on one context may overlap in any way.
\<close>

section \<open>Errors and the scope\<close>

text \<open>
  An error value is told apart by where its object was made: by this scope, anywhere else, or it is
  no object at all. The \<^verbatim>\<open>WeakMap\<close> of refusals is keyed by the objects the scope made.
\<close>

datatype err_value = Err_scope nat | Err_other nat | Err_primitive

record diagnostic =
  dg_code :: string
  dg_message :: string
  dg_path :: "string option"
  dg_expected :: "string option"
  dg_issues :: "(string \<times> string) list option"

record effect_scope =
  sc_refused :: "(nat, diagnostic \<times> bool) jsmap"
  sc_started :: bool
  sc_writes :: int
  sc_made :: nat

definition new_scope :: effect_scope where
  "new_scope = \<lparr>sc_refused = [], sc_started = False, sc_writes = 0, sc_made = 0\<rparr>"

definition beginEffect :: "effect_scope \<Rightarrow> effect_scope" where
  "beginEffect s = s\<lparr>sc_started := True\<rparr>"

definition mint_refusal :: "effect_scope \<Rightarrow> diagnostic \<Rightarrow> bool \<Rightarrow> effect_scope \<times> err_value" where
  "mint_refusal s d safe =
     (s\<lparr>sc_refused := jm_set (sc_refused s) (sc_made s) (d, safe), sc_made := sc_made s + 1\<rparr>, Err_scope (sc_made s))"

text \<open>\<^verbatim>\<open>reject\<close> returns the error it throws.\<close>

definition reject :: "effect_scope \<Rightarrow> diagnostic \<Rightarrow> effect_scope \<times> err_value" where
  "reject s d = mint_refusal s d (\<not> sc_started s \<and> sc_writes s = 1)"

definition refusal_of :: "effect_scope \<Rightarrow> err_value \<Rightarrow> (diagnostic \<times> bool) option" where
  "refusal_of s e = (case e of Err_scope n \<Rightarrow> jm_get (sc_refused s) n | _ \<Rightarrow> None)"

definition read_proof :: "effect_scope \<Rightarrow> err_value \<Rightarrow> diagnostic option" where
  "read_proof s e =
     (case refusal_of s e of
        Some (d, safe) \<Rightarrow> if safe \<and> \<not> sc_started s \<and> sc_writes s = 0 then Some d else None
      | None \<Rightarrow> None)"

text \<open>\<^verbatim>\<open>write\<close>: before the request, and when it returned or threw.\<close>

definition write_begin :: "effect_scope \<Rightarrow> effect_scope" where
  "write_begin s = s\<lparr>sc_writes := sc_writes s + 1\<rparr>"

definition leave :: "effect_scope \<Rightarrow> effect_scope" where
  "leave s = s\<lparr>sc_writes := sc_writes s - 1\<rparr>"

definition write_returned :: "effect_scope \<Rightarrow> effect_scope" where
  "write_returned s = leave (beginEffect s)"

definition write_threw :: "effect_scope \<Rightarrow> err_value \<Rightarrow> effect_scope" where
  "write_threw s e = leave (if refusal_of s e = None then beginEffect s else s)"

text \<open>
  \<^verbatim>\<open>port\<close>: whether the scope was clean is read before the request; \<^verbatim>\<open>judged\<close> is what the port makes of
  the error. The error returned is the one rethrown.
\<close>

definition port_begin :: "effect_scope \<Rightarrow> effect_scope \<times> bool" where
  "port_begin s = (s\<lparr>sc_writes := sc_writes s + 1\<rparr>, \<not> sc_started s \<and> sc_writes s = 0)"

definition port_returned :: "effect_scope \<Rightarrow> effect_scope" where
  "port_returned s = leave (beginEffect s)"

definition port_threw :: "effect_scope \<Rightarrow> bool \<Rightarrow> err_value \<Rightarrow> diagnostic option \<Rightarrow> effect_scope \<times> err_value" where
  "port_threw s clean e judged =
     (case (if clean \<and> \<not> sc_started s then judged else None) of
        None \<Rightarrow> (leave (beginEffect s), e)
      | Some d \<Rightarrow> (case mint_refusal s d True of (s', e') \<Rightarrow> (leave s', e')))"

text \<open>\<^verbatim>\<open>guard\<close>: the members that are functions, of those asked for, mark an effect before they run.\<close>

definition guarded_key :: "(string \<times> bool) list \<Rightarrow> string list option \<Rightarrow> string \<Rightarrow> bool" where
  "guarded_key port ks key \<longleftrightarrow> jm_get port key = Some True
     \<and> (case ks of None \<Rightarrow> True | Some l \<Rightarrow> key \<in> set l)"

definition call_guarded :: "effect_scope \<Rightarrow> (string \<times> bool) list \<Rightarrow> string list option \<Rightarrow> string \<Rightarrow> effect_scope" where
  "call_guarded s port ks key = (if guarded_key port ks key then beginEffect s else s)"

section \<open>Contexts\<close>

type_synonym contexts = "(nat, effect_scope) jsmap"

definition bind_scope :: "contexts \<Rightarrow> nat \<Rightarrow> effect_scope \<Rightarrow> contexts" where
  "bind_scope cs c s = jm_set cs c s"

definition attestedRejection :: "contexts \<Rightarrow> nat \<Rightarrow> err_value \<Rightarrow> diagnostic option" where
  "attestedRejection cs c e = (case jm_get cs c of Some s \<Rightarrow> read_proof s e | None \<Rightarrow> None)"

text \<open>\<^verbatim>\<open>hostPortRequest\<close> when the request threw at once: through the scope's port, or as it is.\<close>

definition hostPortRequest_threw ::
  "contexts \<Rightarrow> nat \<Rightarrow> err_value \<Rightarrow> diagnostic option \<Rightarrow> contexts \<times> err_value" where
  "hostPortRequest_threw cs c e judged =
     (case jm_get cs c of
        None \<Rightarrow> (cs, e)
      | Some s \<Rightarrow> (case port_begin s of (s1, clean) \<Rightarrow>
          (case port_threw s1 clean e judged of (s2, e') \<Rightarrow> (jm_set cs c s2, e'))))"

section \<open>The effect sandwich\<close>

datatype effect_outcome = Outcome_ok | Outcome_error | Outcome_aborted | Outcome_unknown

record effect_row =
  er_type :: string
  er_effectId :: string
  er_body :: "(string \<times> json) list"
  er_outcome :: "effect_outcome option"
  er_durationMs :: "int option"

definition start_effect :: "string \<Rightarrow> (string \<times> json) list \<Rightarrow> effect_row" where
  "start_effect effectId body = \<lparr>er_type = ''effect/intent'', er_effectId = effectId, er_body = body,
     er_outcome = None, er_durationMs = None\<rparr>"

definition settle_effect :: "string \<Rightarrow> int \<Rightarrow> int \<Rightarrow> effect_outcome \<Rightarrow> effect_row" where
  "settle_effect effectId started now outcome = \<lparr>er_type = ''effect/settled'', er_effectId = effectId, er_body = [],
     er_outcome = Some outcome, er_durationMs = Some (max 0 (now - started))\<rparr>"

definition effectOutcome :: "bool \<Rightarrow> bool \<Rightarrow> bool \<Rightarrow> effect_outcome" where
  "effectOutcome unknown aborted failed =
     (if unknown then Outcome_unknown else if aborted then Outcome_aborted
      else if failed then Outcome_error else Outcome_ok)"

section \<open>Overlapping calls\<close>

text \<open>
  The calls in flight on one scope, each a write or a port request with what it read at its start,
  and how the calls so far ended.
\<close>

datatype in_call = In_write | In_port bool
datatype ending = Returned | Threw err_value | Guarded

type_synonym scope_run = "effect_scope \<times> in_call list \<times> ending list"

inductive scope_step :: "scope_run \<Rightarrow> scope_run \<Rightarrow> bool" where
  sc_write: "scope_step (s, fl, es) (write_begin s, In_write # fl, es)"
| sc_write_ok: "In_write \<in> set fl \<Longrightarrow> scope_step (s, fl, es) (write_returned s, remove1 In_write fl, Returned # es)"
| sc_write_err: "In_write \<in> set fl \<Longrightarrow> scope_step (s, fl, es) (write_threw s e, remove1 In_write fl, Threw e # es)"
| sc_port: "port_begin s = (s', clean) \<Longrightarrow> scope_step (s, fl, es) (s', In_port clean # fl, es)"
| sc_port_ok: "In_port clean \<in> set fl \<Longrightarrow>
    scope_step (s, fl, es) (port_returned s, remove1 (In_port clean) fl, Returned # es)"
| sc_port_err: "In_port clean \<in> set fl \<Longrightarrow> port_threw s clean e judged = (s', e') \<Longrightarrow>
    scope_step (s, fl, es) (s', remove1 (In_port clean) fl, Threw e' # es)"
| sc_reject: "reject s d = (s', e) \<Longrightarrow> scope_step (s, fl, es) (s', fl, es)"
| sc_guard: "guarded_key port ks key \<Longrightarrow> scope_step (s, fl, es) (call_guarded s port ks key, fl, Guarded # es)"

text \<open>
  The writes count the calls in flight, a made refusal is always kept, and as long as nothing has
  started every call that ended was refused by this scope.
\<close>

definition made_ok :: "(nat, diagnostic \<times> bool) jsmap \<Rightarrow> nat \<Rightarrow> bool" where
  "made_ok m n \<longleftrightarrow> (\<forall>k. jm_has m k \<longleftrightarrow> k < n)"

definition scope_ok :: "scope_run \<Rightarrow> bool" where
  "scope_ok r = (case r of (s, fl, es) \<Rightarrow>
     sc_writes s = int (length fl) \<and> made_ok (sc_refused s) (sc_made s)
     \<and> (\<not> sc_started s \<longrightarrow> (\<forall>x \<in> set es. \<exists>n < sc_made s. x = Threw (Err_scope n))))"

lemma length_remove1_int: "x \<in> set xs \<Longrightarrow> int (length (remove1 x xs)) = int (length xs) - 1"
  by (cases xs) (auto simp: length_remove1 dest: length_pos_if_in_set)

lemma made_ok_set [simp]: "made_ok m n \<Longrightarrow> made_ok (jm_set m n v) (Suc n)"
  by (auto simp: made_ok_def less_Suc_eq simp del: not_None_eq)

lemma refusal_made:
  assumes "made_ok (sc_refused s) (sc_made s)"
  shows "refusal_of s e \<noteq> None \<longleftrightarrow> (\<exists>n < sc_made s. e = Err_scope n)"
  using assms by (auto simp: refusal_of_def made_ok_def split: err_value.splits simp del: not_None_eq)

lemma scope_ok_step:
  assumes "scope_step r r'" "scope_ok r"
  shows "scope_ok r'"
  using assms
proof (induction rule: scope_step.induct)
  case (sc_write_err fl s es e)
  then have made: "made_ok (sc_refused s) (sc_made s)" by (simp add: scope_ok_def)
  with sc_write_err show ?case using refusal_made [OF made, of e]
    by (cases "refusal_of s e = None")
      (auto simp: scope_ok_def write_threw_def leave_def beginEffect_def length_remove1_int)
next
  case (sc_port_err clean fl s e judged s' e' es)
  then show ?case
    by (auto simp: scope_ok_def port_threw_def mint_refusal_def leave_def beginEffect_def length_remove1_int
        less_Suc_eq split: option.splits if_splits)
next
  case (sc_reject s d s' e fl es)
  then show ?case
    by (auto simp: scope_ok_def reject_def mint_refusal_def less_Suc_eq)
qed (auto simp: scope_ok_def write_begin_def write_returned_def leave_def beginEffect_def port_begin_def
    port_returned_def call_guarded_def length_remove1_int)

lemma scope_ok_new: "scope_ok (new_scope, [], [])"
  by (simp add: scope_ok_def new_scope_def made_ok_def)

lemma reachable_scope:
  assumes "scope_step\<^sup>*\<^sup>* (new_scope, [], []) r"
  shows "scope_ok r"
  using assms scope_ok_new scope_ok_step by (rule reachable_invariant)

lemma started_step: "scope_step r r' \<Longrightarrow> sc_started (fst r) \<Longrightarrow> sc_started (fst r')"
  by (induction rule: scope_step.induct)
    (auto simp: write_begin_def write_returned_def write_threw_def leave_def beginEffect_def port_begin_def
      port_returned_def port_threw_def call_guarded_def reject_def mint_refusal_def split: option.splits if_splits)

lemma started_forever:
  assumes "scope_step\<^sup>*\<^sup>* r r'" "sc_started (fst r)"
  shows "sc_started (fst r')"
  using assms by (induction rule: rtranclp_induct) (auto intro: started_step)


definition diag_a :: diagnostic where
  "diag_a = \<lparr>dg_code = ''E_PARAM'', dg_message = ''bad parameter'', dg_path = None,
     dg_expected = None, dg_issues = None\<rparr>"


end
