(* ===== verification/ChunkedMap.thy ===== *)
theory ChunkedMap
  imports Prelude
begin

text \<open>
  The insertion-ordered persistent map of \<^verbatim>\<open>core-ledger/src/reduce/chunked-map.ts\<close>, whose entries live in
  chunks of at most 256, and the set built on it. It refines a plain JavaScript map: the walk over
  the chunks is the abstraction, and every operation commutes with it.
\<close>

section \<open>The map\<close>

definition CHUNK :: nat where
  "CHUNK = 256"

record ('k, 'v) chunked_map =
  cm_chunks :: "('k, 'v) jsmap list"
  cm_size :: nat

definition cm_empty :: "('k, 'v) chunked_map" where
  "cm_empty = \<lparr>cm_chunks = [], cm_size = 0\<rparr>"

text \<open>\<^verbatim>\<open>#find\<close> searches from the newest chunk; the source's -1 is \<open>None\<close>.\<close>

fun find_from :: "('k, 'v) jsmap list \<Rightarrow> 'k \<Rightarrow> nat \<Rightarrow> nat option" where
  "find_from cs k 0 = None"
| "find_from cs k (Suc i) = (if jm_has (cs ! i) k then Some i else find_from cs k i)"

definition cm_find :: "('k, 'v) chunked_map \<Rightarrow> 'k \<Rightarrow> nat option" where
  "cm_find m k = find_from (cm_chunks m) k (length (cm_chunks m))"

definition cm_get :: "('k, 'v) chunked_map \<Rightarrow> 'k \<Rightarrow> 'v option" where
  "cm_get m k = (case cm_find m k of None \<Rightarrow> None | Some i \<Rightarrow> jm_get (cm_chunks m ! i) k)"

definition cm_has :: "('k, 'v) chunked_map \<Rightarrow> 'k \<Rightarrow> bool" where
  "cm_has m k \<longleftrightarrow> cm_find m k \<noteq> None"

text \<open>A new entry goes to the last chunk while that has room, else to a chunk of its own.\<close>

definition push_entry :: "('k, 'v) jsmap list \<Rightarrow> 'k \<Rightarrow> 'v \<Rightarrow> ('k, 'v) jsmap list" where
  "push_entry cs k v =
     (if cs \<noteq> [] \<and> length (last cs) < CHUNK
      then cs[length cs - 1 := jm_set (last cs) k v]
      else cs @ [[(k, v)]])"

definition cm_set :: "('k, 'v) chunked_map \<Rightarrow> 'k \<Rightarrow> 'v \<Rightarrow> ('k, 'v) chunked_map" where
  "cm_set m k v =
     (let cs = cm_chunks m in
      case cm_find m k of
        Some i \<Rightarrow> \<lparr>cm_chunks = cs[i := jm_set (cs ! i) k v], cm_size = cm_size m\<rparr>
      | None \<Rightarrow> \<lparr>cm_chunks = push_entry cs k v, cm_size = cm_size m + 1\<rparr>)"

text \<open>The loop of \<^verbatim>\<open>from\<close>: the chunks built so far and the chunk each key went to.\<close>

fun from_loop :: "('k, 'v) jsmap list \<Rightarrow> ('k, nat) jsmap \<Rightarrow> ('k \<times> 'v) list
    \<Rightarrow> ('k, 'v) jsmap list \<times> ('k, nat) jsmap" where
  "from_loop cs home [] = (cs, home)"
| "from_loop cs home ((k, v) # kvs) =
     (case jm_get home k of
        Some i \<Rightarrow> from_loop (cs[i := jm_set (cs ! i) k v]) home kvs
      | None \<Rightarrow>
          let cs' = (if cs = [] \<or> length (last cs) \<ge> CHUNK then cs @ [[]] else cs);
              n = length cs' - 1 in
          from_loop (cs'[n := jm_set (cs' ! n) k v]) (jm_set home k n) kvs)"

definition cm_from :: "('k \<times> 'v) list \<Rightarrow> ('k, 'v) chunked_map" where
  "cm_from kvs = (case from_loop [] [] kvs of (cs, home) \<Rightarrow> \<lparr>cm_chunks = cs, cm_size = length home\<rparr>)"

definition cm_walk :: "('k, 'v) chunked_map \<Rightarrow> ('k, 'v) jsmap" where
  "cm_walk m = concat (cm_chunks m)"

definition cm_keys :: "('k, 'v) chunked_map \<Rightarrow> 'k list" where
  "cm_keys m = map fst (cm_walk m)"

definition cm_values :: "('k, 'v) chunked_map \<Rightarrow> 'v list" where
  "cm_values m = map snd (cm_walk m)"

definition cm_forEach :: "('v \<Rightarrow> 'k \<Rightarrow> 's \<Rightarrow> 's) \<Rightarrow> ('k, 'v) chunked_map \<Rightarrow> 's \<Rightarrow> 's" where
  "cm_forEach callback m = fold (\<lambda>(k, v). callback v k) (cm_walk m)"

section \<open>The set\<close>

type_synonym 'a chunked_set = "('a, bool) chunked_map"

definition cs_empty :: "'a chunked_set" where
  "cs_empty = cm_empty"

definition cs_from :: "'a list \<Rightarrow> 'a chunked_set" where
  "cs_from xs = cm_from (map (\<lambda>x. (x, True)) xs)"

definition cs_size :: "'a chunked_set \<Rightarrow> nat" where
  "cs_size s = cm_size s"

definition cs_has :: "'a chunked_set \<Rightarrow> 'a \<Rightarrow> bool" where
  "cs_has s x = cm_has s x"

definition cs_add :: "'a chunked_set \<Rightarrow> 'a \<Rightarrow> 'a chunked_set" where
  "cs_add s x = (if cm_has s x then s else cm_set s x True)"

definition cs_keys :: "'a chunked_set \<Rightarrow> 'a list" where
  "cs_keys s = cm_keys s"

definition cs_entries :: "'a chunked_set \<Rightarrow> ('a \<times> 'a) list" where
  "cs_entries s = map (\<lambda>k. (k, k)) (cm_keys s)"

definition cs_forEach :: "('a \<Rightarrow> 'a \<Rightarrow> 's \<Rightarrow> 's) \<Rightarrow> 'a chunked_set \<Rightarrow> 's \<Rightarrow> 's" where
  "cs_forEach callback s = fold (\<lambda>k. callback k k) (cm_keys s)"

section \<open>Well-formed maps\<close>

text \<open>Keys do not repeat, chunks are full but for the last, and the size counts the entries.\<close>

definition chunks_ok :: "('k, 'v) jsmap list \<Rightarrow> bool" where
  "chunks_ok cs \<longleftrightarrow> jm_wf (concat cs)
     \<and> (\<forall>i < length cs. 0 < length (cs ! i) \<and> length (cs ! i) \<le> CHUNK
          \<and> (Suc i < length cs \<longrightarrow> length (cs ! i) = CHUNK))"

definition cm_wf :: "('k, 'v) chunked_map \<Rightarrow> bool" where
  "cm_wf m \<longleftrightarrow> chunks_ok (cm_chunks m) \<and> cm_size m = length (cm_walk m)"

lemma concat_update:
  assumes "i < length cs"
  shows "concat (cs[i := c]) = concat (take i cs) @ c @ concat (drop (Suc i) cs)"
  using assms by (simp add: upd_conv_take_nth_drop)

lemma concat_split:
  assumes "i < length cs"
  shows "concat cs = concat (take i cs) @ cs ! i @ concat (drop (Suc i) cs)"
  using concat_update [OF assms, of "cs ! i"] by simp

lemma find_from_Some: "find_from cs k n = Some i \<Longrightarrow> i < n \<and> jm_has (cs ! i) k"
  by (induction n) (auto split: if_splits)

lemma find_from_None: "find_from cs k n = None \<longleftrightarrow> (\<forall>i < n. \<not> jm_has (cs ! i) k)"
  by (induction n) (auto simp: less_Suc_eq)

lemma map_of_concat_None: "map_of (concat cs) k = None \<longleftrightarrow> (\<forall>c \<in> set cs. map_of c k = None)"
  by (induction cs) (auto simp: map_add_None)

lemma cm_find_None: "cm_find m k = None \<longleftrightarrow> jm_get (cm_walk m) k = None"
  unfolding cm_find_def cm_walk_def find_from_None map_of_concat_None
  by (auto simp: all_set_conv_all_nth)

lemma update_append_left: "k \<in> fst ` set xs \<Longrightarrow> AList.update k v (xs @ ys) = AList.update k v xs @ ys"
  by (induction xs) auto

lemma update_append_right: "k \<notin> fst ` set xs \<Longrightarrow> AList.update k v (xs @ ys) = xs @ AList.update k v ys"
  by (induction xs) auto

lemma update_fresh: "k \<notin> fst ` set xs \<Longrightarrow> AList.update k v xs = xs @ [(k, v)]"
  by (induction xs) auto

text \<open>The chunk that holds a key is the only one, so reading and writing go through the walk.\<close>

lemma chunk_earlier_free:
  assumes wf: "jm_wf (concat cs)" and i: "i < length cs" and k: "jm_has (cs ! i) k"
  shows "k \<notin> fst ` set (concat (take i cs))"
proof -
  have "distinct (map fst (concat (take i cs)) @ map fst (cs ! i) @ map fst (concat (drop (Suc i) cs)))"
    using wf unfolding jm_wf_def by (subst (asm) concat_split [OF i]) simp
  then have "set (map fst (concat (take i cs))) \<inter> set (map fst (cs ! i)) = {}"
    unfolding distinct_append set_append by blast
  moreover have "k \<in> set (map fst (cs ! i))" using k by (simp add: map_of_eq_None_iff)
  ultimately show ?thesis unfolding set_map by blast
qed

lemma one_chunk:
  assumes wf: "jm_wf (concat cs)" and "i < length cs" "jm_has (cs ! i) k" "j < length cs" "jm_has (cs ! j) k"
  shows "i = j"
proof -
  have no: "\<not> b < c" if "b < length cs" "c < length cs" "jm_has (cs ! b) k" "jm_has (cs ! c) k" for b c
  proof
    assume lt: "b < c"
    have "cs ! b \<in> set (take c cs)" using lt that by (auto simp: in_set_conv_nth)
    moreover have "k \<in> fst ` set (cs ! b)" using that by (simp add: map_of_eq_None_iff)
    ultimately have "k \<in> fst ` set (concat (take c cs))" by (simp only: set_concat) blast
    with chunk_earlier_free [OF wf that(2,4)] show False by simp
  qed
  from no [of i j] no [of j i] assms show ?thesis by simp
qed

lemma found_chunk:
  assumes wf: "jm_wf (concat cs)" and i: "i < length cs" and k: "jm_has (cs ! i) k"
  shows "jm_get (concat cs) k = jm_get (cs ! i) k"
    and "concat (cs[i := jm_set (cs ! i) k v]) = jm_set (concat cs) k v"
proof -
  have key: "k \<in> fst ` set (cs ! i)" using k by (simp add: map_of_eq_None_iff)
  have out: "k \<notin> fst ` set (concat (take i cs))"
    using wf i k by (rule chunk_earlier_free)
  from out have none: "jm_get (concat (take i cs)) k = None" by (simp add: map_of_eq_None_iff)
  from k none show "jm_get (concat cs) k = jm_get (cs ! i) k"
    unfolding concat_split [OF i] by (auto simp: map_add_def split: option.splits)
  have "jm_set (concat (take i cs) @ cs ! i @ concat (drop (Suc i) cs)) k v
      = concat (take i cs) @ jm_set (cs ! i) k v @ concat (drop (Suc i) cs)"
    by (simp add: update_append_right [OF out] update_append_left [OF key])
  then show "concat (cs[i := jm_set (cs ! i) k v]) = jm_set (concat cs) k v"
    by (simp only: concat_update [OF i] concat_split [OF i, symmetric])
qed

lemma push_entry_concat:
  assumes "k \<notin> fst ` set (concat cs)"
  shows "concat (push_entry cs k v) = concat cs @ [(k, v)]"
proof (cases "cs \<noteq> [] \<and> length (last cs) < CHUNK")
  case True
  then obtain ds d where cs: "cs = ds @ [d]" by (metis append_butlast_last_id)
  with assms True show ?thesis by (simp add: push_entry_def update_fresh image_Un)
next
  case False
  then show ?thesis unfolding push_entry_def by (simp only: if_False) simp
qed

lemma cm_set_absent:
  "cm_find m k = None \<Longrightarrow> cm_set m k v = \<lparr>cm_chunks = push_entry (cm_chunks m) k v, cm_size = cm_size m + 1\<rparr>"
  by (simp add: cm_set_def Let_def)

lemma cm_set_present:
  "cm_find m k = Some i \<Longrightarrow>
     cm_set m k v = \<lparr>cm_chunks = (cm_chunks m)[i := jm_set (cm_chunks m ! i) k v], cm_size = cm_size m\<rparr>"
  by (simp add: cm_set_def Let_def)

lemma cm_walk_set:
  assumes "cm_wf m"
  shows "cm_walk (cm_set m k v) = jm_set (cm_walk m) k v"
proof (cases "cm_find m k")
  case None
  then have "k \<notin> fst ` set (concat (cm_chunks m))"
    by (simp add: cm_find_None cm_walk_def map_of_eq_None_iff)
  with None show ?thesis by (simp add: cm_set_absent cm_walk_def push_entry_concat update_fresh)
next
  case (Some i)
  then have "i < length (cm_chunks m)" "jm_has (cm_chunks m ! i) k"
    unfolding cm_find_def by (auto dest: find_from_Some)
  with assms Some found_chunk(2) [of "cm_chunks m" i k v] show ?thesis
    by (simp add: cm_set_present cm_walk_def cm_wf_def chunks_ok_def)
qed

lemma cm_get_walk:
  assumes "cm_wf m"
  shows "cm_get m k = jm_get (cm_walk m) k"
proof (cases "cm_find m k")
  case None
  then have "jm_get (cm_walk m) k = None" by (simp add: cm_find_None)
  with None show ?thesis by (simp add: cm_get_def)
next
  case (Some i)
  then have "i < length (cm_chunks m)" "jm_has (cm_chunks m ! i) k"
    unfolding cm_find_def by (auto dest: find_from_Some)
  with assms Some found_chunk(1) [of "cm_chunks m" i k] show ?thesis
    by (simp add: cm_get_def cm_walk_def cm_wf_def chunks_ok_def)
qed

lemma cm_has_walk: "cm_has m k \<longleftrightarrow> jm_has (cm_walk m) k"
  by (simp add: cm_has_def cm_find_None)

lemma chunks_ok_push:
  assumes ok: "chunks_ok cs" and k: "k \<notin> fst ` set (concat cs)"
  shows "chunks_ok (push_entry cs k v)"
proof -
  have wf: "jm_wf (concat (push_entry cs k v))"
    using ok k by (simp add: push_entry_concat chunks_ok_def jm_wf_def image_iff)
  show ?thesis
  proof (cases "cs \<noteq> [] \<and> length (last cs) < CHUNK")
    case True
    then obtain ds d where cs: "cs = ds @ [d]" by (metis append_butlast_last_id)
    have len: "length (jm_set d k v) = Suc (length d)"
      using k by (simp add: cs update_fresh image_Un)
    have ds: "\<forall>i < length ds. length (ds ! i) = CHUNK"
      using ok by (auto simp: chunks_ok_def cs nth_append)
    show ?thesis
      using wf True len ds by (auto simp: chunks_ok_def push_entry_def cs nth_append CHUNK_def less_Suc_eq)
  next
    case False
    have last: "length (cs ! (length cs - 1)) = CHUNK" if ne: "cs \<noteq> []"
    proof -
      have "CHUNK \<le> length (cs ! (length cs - 1))" using False ne by (simp add: last_conv_nth)
      moreover have "length (cs ! (length cs - 1)) \<le> CHUNK" using ok ne by (simp add: chunks_ok_def)
      ultimately show ?thesis by simp
    qed
    have pe: "push_entry cs k v = cs @ [[(k, v)]]"
      using False unfolding push_entry_def by (simp only: if_False)
    have full: "length (cs ! i) = CHUNK" if i: "i < length cs" for i
    proof (cases "Suc i < length cs")
      case True
      with ok i show ?thesis by (simp add: chunks_ok_def)
    next
      case False
      with i have "i = length cs - 1" by simp
      moreover from i have "cs \<noteq> []" by auto
      ultimately show ?thesis using last by simp
    qed
    have some: "cs ! i \<noteq> []" if i: "i < length cs" for i
      using full [OF i] by (auto simp: CHUNK_def)
    show ?thesis
      using wf full some unfolding pe by (auto simp: chunks_ok_def nth_append CHUNK_def)
  qed
qed

lemma length_update_present: "jm_has c k \<Longrightarrow> length (jm_set c k v) = length c"
  by (induction c) (auto split: if_splits)

lemma cm_wf_empty [simp]: "cm_wf cm_empty"
  by (simp add: cm_wf_def chunks_ok_def cm_empty_def cm_walk_def)

lemma cm_wf_set [simp, intro]:
  assumes wf: "cm_wf m"
  shows "cm_wf (cm_set m k v)"
proof (cases "cm_find m k")
  case None
  then have k: "k \<notin> fst ` set (concat (cm_chunks m))"
    by (simp add: cm_find_None cm_walk_def map_of_eq_None_iff)
  from wf None chunks_ok_push [OF _ k] push_entry_concat [OF k] show ?thesis
    by (simp add: cm_wf_def cm_set_absent cm_walk_def)
next
  case (Some i)
  then have i: "i < length (cm_chunks m)" and has: "jm_has (cm_chunks m ! i) k"
    unfolding cm_find_def by (auto dest: find_from_Some)
  have walk: "concat ((cm_chunks m)[i := jm_set (cm_chunks m ! i) k v]) = jm_set (cm_walk m) k v"
    using found_chunk(2) [of "cm_chunks m" i k v] wf i has
    by (simp add: cm_wf_def chunks_ok_def cm_walk_def)
  have "jm_has (cm_walk m) k" using Some by (metis cm_find_None option.distinct(1))
  then have size: "length (jm_set (cm_walk m) k v) = length (cm_walk m)" by (rule length_update_present)
  have "chunks_ok ((cm_chunks m)[i := jm_set (cm_chunks m ! i) k v])"
    using wf i walk length_update_present [OF has, of v]
    by (auto simp: cm_wf_def chunks_ok_def cm_walk_def nth_list_update simp del: length_0_conv length_greater_0_conv)
  with wf size walk show ?thesis by (simp add: cm_wf_def cm_set_present [OF Some] cm_walk_def)
qed

interpretation chunked_store: keyed_store cm_empty cm_set cm_get cm_wf
  by unfold_locales
    (auto simp: cm_get_walk cm_walk_set, simp add: cm_walk_def cm_empty_def)

section \<open>Building a map in one pass\<close>

lemma find_from_unique:
  assumes "jm_wf (concat cs)" "i < length cs" "jm_has (cs ! i) k"
  shows "find_from cs k (length cs) = Some i"
proof (cases "find_from cs k (length cs)")
  case None
  with assms show ?thesis by (auto simp: find_from_None)
next
  case (Some j)
  then have j: "j < length cs" "jm_has (cs ! j) k" by (auto dest: find_from_Some)
  from one_chunk [OF assms j] have "i = j" .
  with Some show ?thesis by simp
qed

text \<open>What the loop keeps: \<open>home\<close> names, for every key written so far, the one chunk that has it.\<close>

definition home_ok :: "('k, 'v) jsmap list \<Rightarrow> ('k, nat) jsmap \<Rightarrow> bool" where
  "home_ok cs home \<longleftrightarrow> chunks_ok cs \<and> length home = length (concat cs)
     \<and> (\<forall>k i. jm_get home k = Some i \<longleftrightarrow> i < length cs \<and> jm_has (cs ! i) k)"

lemma home_find:
  assumes "home_ok cs home"
  shows "find_from cs k (length cs) = jm_get home k"
proof (cases "jm_get home k")
  case None
  have "\<not> jm_has (cs ! i) k" if i: "i < length cs" for i
  proof
    assume "jm_has (cs ! i) k"
    with assms i have "jm_get home k = Some i" unfolding home_ok_def by blast
    with None show False by simp
  qed
  then have "find_from cs k (length cs) = None" unfolding find_from_None by blast
  with None show ?thesis by simp
next
  case (Some i)
  with assms have "i < length cs" "jm_has (cs ! i) k" "jm_wf (concat cs)"
    unfolding home_ok_def chunks_ok_def by blast+
  with Some show ?thesis by (simp add: find_from_unique)
qed

lemma from_loop_absent:
  assumes "jm_get home k = None"
  shows "from_loop cs home ((k, v) # kvs)
    = from_loop (push_entry cs k v) (jm_set home k (length (push_entry cs k v) - 1)) kvs"
proof (cases "cs = [] \<or> length (last cs) \<ge> CHUNK")
  case True
  then have "push_entry cs k v = cs @ [[(k, v)]]" unfolding push_entry_def by auto
  with assms True show ?thesis by (simp add: Let_def)
next
  case False
  with assms show ?thesis by (simp add: Let_def push_entry_def last_conv_nth)
qed

lemma push_entry_has:
  assumes k: "k \<notin> fst ` set (concat cs)"
  shows "i < length (push_entry cs k v) \<and> jm_has (push_entry cs k v ! i) k'
     \<longleftrightarrow> (if k' = k then i = length (push_entry cs k v) - 1 else i < length cs \<and> jm_has (cs ! i) k')"
proof -
  have out: "\<not> jm_has (cs ! j) k" if "j < length cs" for j
    using k that by (auto simp: image_iff map_of_eq_None_iff)
  show ?thesis
  proof (cases "cs \<noteq> [] \<and> length (last cs) < CHUNK")
    case True
    then obtain ds d where cs: "cs = ds @ [d]" by (metis append_butlast_last_id)
    have ds: "\<not> jm_has (ds ! j) k" if "j < length ds" for j
      using out [of j] that by (simp add: cs nth_append)
    have d: "\<not> jm_has d k" using out [of "length ds"] by (simp add: cs)
    show ?thesis
      using True ds d by (auto simp: cs push_entry_def nth_append less_Suc_eq split: if_splits)
  next
    case False
    then have "push_entry cs k v = cs @ [[(k, v)]]" unfolding push_entry_def by (simp only: if_False)
    with out show ?thesis by (auto simp: nth_append less_Suc_eq split: if_splits)
  qed
qed

lemma from_loop_sets:
  assumes "home_ok cs home"
  shows "(case from_loop cs home kvs of (cs', home') \<Rightarrow> \<lparr>cm_chunks = cs', cm_size = length home'\<rparr>)
    = foldl (\<lambda>m (k, v). cm_set m k v) \<lparr>cm_chunks = cs, cm_size = length home\<rparr> kvs"
  using assms
proof (induction kvs arbitrary: cs home)
  case Nil
  then show ?case by simp
next
  case (Cons p kvs)
  obtain k v where p: "p = (k, v)" by force
  let ?m = "\<lparr>cm_chunks = cs, cm_size = length home\<rparr>"
  have find: "cm_find ?m k = jm_get home k" using home_find [OF Cons.prems] by (simp add: cm_find_def)
  have wf: "cm_wf ?m" using Cons.prems by (simp add: home_ok_def cm_wf_def cm_walk_def)
  have wf': "cm_wf (cm_set ?m k v)" using wf by simp
  show ?case
  proof (cases "jm_get home k")
    case None
    let ?n = "length (push_entry cs k v) - 1"
    have fresh: "k \<notin> fst ` set (concat cs)"
      using find None by (simp add: cm_find_None cm_walk_def map_of_eq_None_iff)
    have size: "length (jm_set home k ?n) = Suc (length home)"
      using None by (simp add: update_fresh map_of_eq_None_iff)
    have set: "cm_set ?m k v = \<lparr>cm_chunks = push_entry cs k v, cm_size = length (jm_set home k ?n)\<rparr>"
      using find None size by (simp add: cm_set_absent)
    have "chunks_ok (push_entry cs k v)" "length (jm_set home k ?n) = length (concat (push_entry cs k v))"
      using wf' unfolding set by (simp_all add: cm_wf_def cm_walk_def)
    moreover have "jm_get (jm_set home k ?n) k' = Some i
        \<longleftrightarrow> i < length (push_entry cs k v) \<and> jm_has (push_entry cs k v ! i) k'" for k' i
      unfolding push_entry_has [OF fresh] using Cons.prems by (auto simp: home_ok_def)
    ultimately have "home_ok (push_entry cs k v) (jm_set home k ?n)"
      unfolding home_ok_def by blast
    from Cons.IH [OF this] show ?thesis
      unfolding p from_loop_absent [OF None] by (simp add: set)
  next
    case (Some i)
    let ?cs = "cs[i := jm_set (cs ! i) k v]"
    have set: "cm_set ?m k v = \<lparr>cm_chunks = ?cs, cm_size = length home\<rparr>"
      using find Some by (simp add: cm_set_present)
    have i: "i < length cs" "jm_has (cs ! i) k" using Cons.prems Some unfolding home_ok_def by blast+
    have "jm_has (?cs ! j) k' = jm_has (cs ! j) k'" if "j < length cs" for j k'
      using that i by (auto simp: nth_list_update)
    moreover have "chunks_ok ?cs" "length home = length (concat ?cs)"
      using wf' unfolding set by (simp_all add: cm_wf_def cm_walk_def)
    ultimately have "home_ok ?cs home"
      using Cons.prems by (auto simp: home_ok_def)
    from Cons.IH [OF this] show ?thesis by (simp add: p Some set)
  qed
qed

section \<open>What the map promises\<close>

text \<open>
  C23. The persistent map behaves as a plain JavaScript map: after any list of writes, its entries
  in iteration order, its size and every lookup are those of a map written the same way, and
  building it from a list of entries in one pass gives the very same chunks as writing them one by
  one.
\<close>

theorem chunked_map_refines:
  "cm_from kvs = foldl (\<lambda>m (k, v). cm_set m k v) cm_empty kvs
   \<and> cm_walk (cm_from kvs) = foldl (\<lambda>m (k, v). jm_set m k v) [] kvs
   \<and> cm_size (cm_from kvs) = length (foldl (\<lambda>m (k, v). jm_set m k v) [] kvs)
   \<and> cm_get (cm_from kvs) k = jm_get (foldl (\<lambda>m (k, v). jm_set m k v) [] kvs) k"
proof -
  have "home_ok [] []" by (simp add: home_ok_def chunks_ok_def)
  from from_loop_sets [OF this, of kvs]
  have built: "cm_from kvs = foldl (\<lambda>m (k, v). cm_set m k v) cm_empty kvs"
    by (simp add: cm_from_def cm_empty_def)
  have "cm_wf (foldl (\<lambda>m (k, v). cm_set m k v) m kvs)
      \<and> cm_walk (foldl (\<lambda>m (k, v). cm_set m k v) m kvs) = foldl (\<lambda>m (k, v). jm_set m k v) (cm_walk m) kvs"
    if "cm_wf m" for m :: "('a, 'b) chunked_map"
    using that by (induction kvs arbitrary: m) (auto simp: cm_walk_set)
  from this [OF cm_wf_empty] have "cm_wf (cm_from kvs)"
    and "cm_walk (cm_from kvs) = foldl (\<lambda>m (k, v). jm_set m k v) [] kvs"
    by (simp_all add: built) (simp add: cm_walk_def cm_empty_def)
  with built show ?thesis by (simp add: cm_get_walk cm_wf_def)
qed

text \<open>
  A map of \<open>n\<close> entries takes no more than \<open>n\<close> divided by 256, rounded up, chunks, so one write copies
  at most 256 entries and a chunk list of that length.
\<close>

theorem chunk_count:
  assumes wf: "cm_wf m"
  shows "length (cm_chunks m) = (cm_size m + CHUNK - 1) div CHUNK
    \<and> (\<forall>c \<in> set (cm_chunks m). length c \<le> CHUNK)"
proof (cases "cm_chunks m = []")
  case True
  with wf show ?thesis by (simp add: cm_wf_def cm_walk_def CHUNK_def)
next
  case False
  then obtain ds d where cs: "cm_chunks m = ds @ [d]" by (metis append_butlast_last_id)

  have full: "length (ds ! i) = CHUNK" if "i < length ds" for i
    using wf that by (auto simp: cm_wf_def chunks_ok_def cs nth_append dest: spec [of _ i])
  have d: "0 < length d" "length d \<le> CHUNK"
    using wf by (auto simp: cm_wf_def chunks_ok_def cs nth_append dest: spec [of _ "length ds"])
  have each: "\<forall>c \<in> set ds. length c = CHUNK" using full by (auto simp: in_set_conv_nth)
  then have "length (concat ds) = CHUNK * length ds" by (induction ds) auto
  then have "cm_size m + CHUNK - 1 = CHUNK * Suc (length ds) + (length d - 1)"
    using wf d by (cases d) (simp_all add: cm_wf_def cm_walk_def cs)
  then have "(cm_size m + CHUNK - 1) div CHUNK = Suc (length ds) + (length d - 1) div CHUNK"
    by (simp add: CHUNK_def)
  moreover have "(length d - 1) div CHUNK = 0" using d by (simp add: CHUNK_def)
  ultimately show ?thesis using each d by (auto simp: cs)
qed

theorem chunk_count_witness: "length (cm_chunks (cm_set cm_empty (1::int) True)) = 1"
proof -
  have "cm_wf (cm_set cm_empty (1::int) True)" by simp
  note chunk_count [OF this]
  moreover have "(cm_size (cm_set cm_empty (1::int) True) + CHUNK - 1) div CHUNK = 1" by code_simp
  ultimately show ?thesis by simp
qed

end
