(* ===== verification/EntryMeta.thy ===== *)
theory EntryMeta imports Storage begin

text \<open>
  \<^verbatim>\<open>packages/core-ledger/src/reduce/refinement-entry-meta.ts\<close>: what a refinement entry is valid
  for and how often it was confirmed, and what a removed entry leaves behind. Both are folded from one
  kind of row, against the register cell the entry has at that point.
\<close>

section \<open>Records\<close>

text \<open>\<^verbatim>\<open>RegisterCell\<close> of \<^verbatim>\<open>reduce/state.ts\<close>, its value the JSON of the row that set it.\<close>

record reg_cell =
  cl_seq :: int
  cl_value :: json

record task_scope =
  ts_id :: string
  ts_revision :: int

text \<open>
  The fields Core writes; \<^verbatim>\<open>kind\<close> is kept as the JSON of the row, since the code tests only what
  \<^verbatim>\<open>String(kind)\<close> reads.
\<close>

record meta_fields =
  em_kind :: json
  em_id :: string
  em_contentHash :: string
  em_applicability :: string
  em_taskScope :: "task_scope option"
  em_count :: int
  em_usedEvidence :: "string list"
  em_lastConfirmedSeq :: "int option"
  em_handedOff :: "bool option"
  em_user :: bool

record entry_meta = meta_fields +
  em_entrySeq :: int
  em_seq :: int

record entry_tombstone =
  tb_kind :: json
  tb_id :: string
  tb_version :: int
  tb_seq :: int

definition REFINEMENT_ENTRY_META_EVENT :: string where
  "REFINEMENT_ENTRY_META_EVENT = ''x/core/refinement-entry-meta''"

section \<open>The checks\<close>

definition ENTRY_KINDS :: "string list" where
  "ENTRY_KINDS = [''prompt'', ''memory'', ''skill'', ''subagent'']"

definition isSeq :: "json option \<Rightarrow> bool" where
  "isSeq v = (case v of Some (JNum n) \<Rightarrow> n \<le> max_safe_integer \<and> 0 \<le> n | _ \<Rightarrow> False)"

definition is_obj :: "json option \<Rightarrow> bool" where
  "is_obj v = (case v of Some x \<Rightarrow> is_plain_object x | None \<Rightarrow> False)"

text \<open>\<^verbatim>\<open>===\<close> between values read from two rows: two objects are never the same one.\<close>

definition strict_eq :: "json option \<Rightarrow> json option \<Rightarrow> bool" where
  "strict_eq x y = (x = y \<and> (\<forall>v \<in> set_option x. v = JNull \<or> \<not> is_typeof_object v))"

definition bool_of :: "json option \<Rightarrow> bool option" where
  "bool_of v = (case v of Some (JBool b) \<Rightarrow> Some b | _ \<Rightarrow> None)"

definition string_array :: "json option \<Rightarrow> string list option" where
  "string_array v = (case v of
       Some (JArr xs) \<Rightarrow> those (map (\<lambda>x. jstr (Some x)) xs)
     | _ \<Rightarrow> None)"

definition scope_of :: "json option \<Rightarrow> task_scope option" where
  "scope_of t = (case (jstr (jget t ''id''), jnum (jget t ''revision'')) of
       (Some i, Some r) \<Rightarrow> if isSeq (jget t ''revision'') then Some \<lparr>ts_id = i, ts_revision = r\<rparr> else None
     | _ \<Rightarrow> None)"

definition metaOf :: "json option \<Rightarrow> meta_fields option" where
  "metaOf d =
     (let kind = jget d ''kind''; tscope = jget d ''taskScope''; conf = jget d ''confirmations'' in
      case (jstr (jget d ''id''), jstr (jget d ''contentHash''), jstr (jget d ''applicability'')) of
        (Some i, Some h, Some a) \<Rightarrow>
          if js_string kind \<notin> set ENTRY_KINDS \<or> i = '''' then None
          else if h = '''' then None
          else if a \<noteq> ''task'' \<and> a \<noteq> ''session'' then None
          else if tscope \<noteq> None \<and> scope_of tscope = None then None
          else if \<not> isSeq (jget conf ''count'') \<or> string_array (jget conf ''usedEvidence'') = None then None
          else if jget d ''lastConfirmedSeq'' \<noteq> None \<and> \<not> isSeq (jget d ''lastConfirmedSeq'') then None
          else if jget d ''handedOff'' \<noteq> None \<and> bool_of (jget d ''handedOff'') = None then None
          else if jget d ''reach'' \<noteq> None \<and> jget d ''reach'' \<noteq> Some (JStr ''user'') then None
          else Some \<lparr>em_kind = the kind, em_id = i, em_contentHash = h, em_applicability = a,
                 em_taskScope = scope_of tscope,
                 em_count = the (jnum (jget conf ''count'')),
                 em_usedEvidence = the (string_array (jget conf ''usedEvidence'')),
                 em_lastConfirmedSeq = jnum (jget d ''lastConfirmedSeq''),
                 em_handedOff = bool_of (jget d ''handedOff''),
                 em_user = (jget d ''reach'' = Some (JStr ''user''))\<rparr>
      | _ \<Rightarrow> None)"

section \<open>The folds\<close>

definition core_row :: "event \<Rightarrow> bool" where
  "core_row e = (e_origin e = ''system'' \<and> e_trusted e \<and> is_obj (Some (e_data e))
     \<and> jget (Some (e_data e)) ''version'' = Some (JNum 1))"

definition foldEntryMeta :: "reg_cell option \<Rightarrow> event \<Rightarrow> entry_meta option" where
  "foldEntryMeta cell e =
     (let d = Some (e_data e) in
      case cell of
        None \<Rightarrow> None
      | Some c \<Rightarrow>
          if \<not> core_row e then None
          else if jget d ''removed'' \<noteq> None then None
          else case metaOf d of
            None \<Rightarrow> None
          | Some m \<Rightarrow>
              if \<not> strict_eq (jget (Some (cl_value c)) ''kind'') (Some (em_kind m))
                 \<or> jget (Some (cl_value c)) ''id'' \<noteq> Some (JStr (em_id m)) then None
              else Some (meta_fields.extend m (entry_meta.fields (cl_seq c) (e_seq e))))"

definition foldEntryTombstone :: "reg_cell option \<Rightarrow> event \<Rightarrow> entry_tombstone option" where
  "foldEntryTombstone cell e =
     (let d = Some (e_data e) in
      if \<not> core_row e \<or> cell \<noteq> None then None
      else case jstr (jget d ''id'') of
        None \<Rightarrow> None
      | Some i \<Rightarrow>
          if jget d ''removed'' \<noteq> Some (JBool True) \<or> js_string (jget d ''kind'') \<notin> set ENTRY_KINDS \<or> i = ''''
          then None
          else if \<not> isSeq (jget d ''entryVersion'') then None
          else Some \<lparr>tb_kind = the (jget d ''kind''), tb_id = i,
                 tb_version = the (jnum (jget d ''entryVersion'')), tb_seq = e_seq e\<rparr>)"

section \<open>Rows and what they fold to\<close>

text \<open>\<^verbatim>\<open>{ version: 1, ...meta }\<close>, as \<^verbatim>\<open>metaRow\<close> of \<^verbatim>\<open>core/src/refinement/confirmations.ts\<close> writes it.\<close>

definition opt_member :: "string \<Rightarrow> json option \<Rightarrow> (string \<times> json) list" where
  "opt_member k v = (case v of None \<Rightarrow> [] | Some x \<Rightarrow> [(k, x)])"

definition meta_json :: "('a) meta_fields_scheme \<Rightarrow> json" where
  "meta_json m = JObj ([(''version'', JNum 1), (''kind'', em_kind m), (''id'', JStr (em_id m)),
       (''contentHash'', JStr (em_contentHash m)), (''applicability'', JStr (em_applicability m))]
     @ opt_member ''taskScope'' (map_option (\<lambda>t. JObj [(''id'', JStr (ts_id t)), (''revision'', JNum (ts_revision t))])
         (em_taskScope m))
     @ [(''confirmations'', JObj [(''count'', JNum (em_count m)),
           (''usedEvidence'', JArr (map JStr (em_usedEvidence m)))])]
     @ opt_member ''lastConfirmedSeq'' (map_option JNum (em_lastConfirmedSeq m))
     @ opt_member ''handedOff'' (map_option JBool (em_handedOff m))
     @ (if em_user m then [(''reach'', JStr ''user'')] else []))"

definition meta_ok :: "('a) meta_fields_scheme \<Rightarrow> bool" where
  "meta_ok m \<longleftrightarrow> (\<exists>k \<in> set ENTRY_KINDS. em_kind m = JStr k) \<and> em_id m \<noteq> '''' \<and> em_contentHash m \<noteq> ''''
     \<and> (em_applicability m = ''task'' \<or> em_applicability m = ''session'')
     \<and> (\<forall>t \<in> set_option (em_taskScope m). 0 \<le> ts_revision t \<and> ts_revision t \<le> max_safe_integer)
     \<and> 0 \<le> em_count m \<and> em_count m \<le> max_safe_integer
     \<and> (\<forall>n \<in> set_option (em_lastConfirmedSeq m). 0 \<le> n \<and> n \<le> max_safe_integer)"

lemma string_array_JStr [simp]: "string_array (Some (JArr (map JStr xs))) = Some xs"
proof -
  have "those (map ((\<lambda>x. jstr (Some x)) \<circ> JStr) xs) = Some xs" by (induction xs) (auto simp: jstr_def)
  then show ?thesis by (simp add: string_array_def)
qed

lemma isSeq_JNum [simp]: "isSeq (Some (JNum n)) \<longleftrightarrow> n \<le> max_safe_integer \<and> 0 \<le> n"
  by (simp add: isSeq_def)

lemma jnum_JNum [simp]: "jnum (Some (JNum n)) = Some n"
  by (simp add: jnum_def)

lemma jnum_None [simp]: "jnum None = None"
  by (simp add: jnum_def)

lemma jstr_JStr [simp]: "jstr (Some (JStr s)) = Some s"
  by (simp add: jstr_def)

lemma bool_of_simps [simp]: "bool_of (Some (JBool b)) = Some b" "bool_of None = None"
  by (simp_all add: bool_of_def)

lemma meta_json_get:
  "jget (Some (meta_json m)) ''kind'' = Some (em_kind m)"
  "jget (Some (meta_json m)) ''id'' = Some (JStr (em_id m))"
  "jget (Some (meta_json m)) ''version'' = Some (JNum 1)"
  "jget (Some (meta_json m)) ''contentHash'' = Some (JStr (em_contentHash m))"
  "jget (Some (meta_json m)) ''applicability'' = Some (JStr (em_applicability m))"
  "jget (Some (meta_json m)) ''removed'' = None"
  "jget (Some (meta_json m)) ''taskScope''
     = map_option (\<lambda>t. JObj [(''id'', JStr (ts_id t)), (''revision'', JNum (ts_revision t))]) (em_taskScope m)"
  "jget (Some (meta_json m)) ''confirmations'' = Some (JObj [(''count'', JNum (em_count m)),
     (''usedEvidence'', JArr (map JStr (em_usedEvidence m)))])"
  "jget (Some (meta_json m)) ''lastConfirmedSeq'' = map_option JNum (em_lastConfirmedSeq m)"
  "jget (Some (meta_json m)) ''handedOff'' = map_option JBool (em_handedOff m)"
  "jget (Some (meta_json m)) ''reach'' = (if em_user m then Some (JStr ''user'') else None)"
  by (simp_all add: meta_json_def opt_member_def split: option.split)

lemma metaOf_meta_json:
  fixes m :: meta_fields
  assumes "meta_ok m"
  shows "metaOf (Some (meta_json m)) = Some m"
proof -
  obtain k where k: "em_kind m = JStr k" "k \<in> set ENTRY_KINDS" using assms by (auto simp: meta_ok_def)
  have scope: "scope_of (map_option (\<lambda>t. JObj [(''id'', JStr (ts_id t)), (''revision'', JNum (ts_revision t))]) (em_taskScope m))
      = em_taskScope m"
    using assms by (cases "em_taskScope m") (auto simp: scope_of_def meta_ok_def jstr_def)
  have last: "jnum (map_option JNum x) = x" "bool_of (map_option JBool y) = y" for x y
    by (cases x; simp) (cases y; simp)
  have kind: "js_string (Some (em_kind m)) \<in> set ENTRY_KINDS" using k by simp
  have app: "em_applicability m \<noteq> ''task'' \<and> em_applicability m \<noteq> ''session'' \<longleftrightarrow> False"
    and ne: "em_id m \<noteq> ''''" "em_contentHash m \<noteq> ''''"
    and cnt: "isSeq (Some (JNum (em_count m)))"
    using assms by (auto simp: meta_ok_def)
  have lst: "map_option JNum (em_lastConfirmedSeq m) \<noteq> None \<and> \<not> isSeq (map_option JNum (em_lastConfirmedSeq m)) \<longleftrightarrow> False"
    using assms by (cases "em_lastConfirmedSeq m") (auto simp: meta_ok_def)
  have sc: "map_option f (em_taskScope m) \<noteq> None \<and> em_taskScope m = None \<longleftrightarrow> False" for f :: "task_scope \<Rightarrow> json"
    by (cases "em_taskScope m") simp_all
  have ho: "map_option JBool (em_handedOff m) \<noteq> None \<and> em_handedOff m = None \<longleftrightarrow> False"
    by (cases "em_handedOff m") simp_all
  have rc: "(if em_user m then Some (JStr ''user'') else None) \<noteq> None
      \<and> (if em_user m then Some (JStr ''user'') else None) \<noteq> Some (JStr ''user'') \<longleftrightarrow> False" by simp
  show ?thesis
    unfolding metaOf_def Let_def meta_json_get scope last lst sc ho rc jget_JObj jstr_JStr
    using kind ne cnt app by simp
qed

end
