(* ===== verification/RefinementRun.thy ===== *)
theory RefinementRun imports Storage Lifecycle begin

text \<open>
  \<^verbatim>\<open>packages/core-ledger/src/reduce/refinement-run.ts\<close>: the states of a background refinement run
  and the fold of one of its rows. The facts a row adds (\<^verbatim>\<open>plan\<close>, \<^verbatim>\<open>readSet\<close> and so on) are
  carried as the JSON the row holds, as \<^verbatim>\<open>structuredClone\<close> carries them.
\<close>

section \<open>States\<close>

datatype run_state =
  Queued | Planning | Proposed | Applied | NoOp | Rejected | Superseded | Cancelled | UnknownRun

definition run_state_names :: "(string \<times> run_state) list" where
  "run_state_names = [(''queued'', Queued), (''planning'', Planning), (''proposed'', Proposed),
     (''applied'', Applied), (''no-op'', NoOp), (''rejected'', Rejected), (''superseded'', Superseded),
     (''cancelled'', Cancelled), (''unknown'', UnknownRun)]"

text \<open>\<^verbatim>\<open>STATES.has(state)\<close>: the state a row names, if it names one.\<close>

definition run_state_of :: "json option \<Rightarrow> run_state option" where
  "run_state_of v = (case v of Some (JStr s) \<Rightarrow> map_of run_state_names s | _ \<Rightarrow> None)"

definition TERMINAL_RUN_STATES :: "run_state list" where
  "TERMINAL_RUN_STATES = [Applied, NoOp, Rejected, Superseded, Cancelled, UnknownRun]"

fun NEXT :: "run_state \<Rightarrow> run_state list" where
  "NEXT Queued = [Planning, Superseded, Cancelled, Rejected]"
| "NEXT Planning = [Queued, Proposed, NoOp, Rejected, Cancelled, UnknownRun]"
| "NEXT Proposed = [Applied, Rejected, Cancelled]"
| "NEXT Applied = []"
| "NEXT NoOp = []"
| "NEXT Rejected = []"
| "NEXT Superseded = []"
| "NEXT Cancelled = []"
| "NEXT UnknownRun = []"

definition canMoveRun :: "run_state \<Rightarrow> run_state \<Rightarrow> bool" where
  "canMoveRun from to = (to \<in> set (NEXT from))"

definition terminalRun :: "run_state \<Rightarrow> bool" where
  "terminalRun s = (s \<in> set TERMINAL_RUN_STATES)"

interpretation run_life: lifecycle canMoveRun terminalRun
proof
  fix s t
  assume "terminalRun s" "canMoveRun s t"
  then show "t = s" by (cases s) (simp_all add: terminalRun_def TERMINAL_RUN_STATES_def canMoveRun_def)
qed

section \<open>Rows\<close>

record run_trigger =
  rt_kind :: json
  rt_seq :: int
  rt_focus :: "string option"
  rt_saveTo :: "string option"
  rt_allowUnpriced :: bool

record run_record =
  rr_runId :: string
  rr_trigger :: run_trigger
  rr_state :: run_state
  rr_reason :: "string option"
  rr_detail :: "string option"
  rr_queuedSeq :: int
  rr_seq :: int
  rr_facts :: "(string, json) jsmap"

definition REFINEMENT_RUN_EVENT :: string where
  "REFINEMENT_RUN_EVENT = ''x/core/refinement-run''"

definition KINDS :: "string list" where
  "KINDS = [''manual'', ''model'', ''compaction'', ''repeated-failure'']"

definition FACTS :: "string list" where
  "FACTS = [''settingsRevision'', ''evidenceHash'', ''readSet'', ''attempt'', ''evidence'', ''fullEntries'',
     ''shownEntries'', ''workspaceRefs'', ''target'', ''plan'']"

definition triggerOf :: "json option \<Rightarrow> run_trigger option" where
  "triggerOf t =
     (if \<not> js_truthy t \<or> \<not> (\<exists>v \<in> set_option t. is_typeof_object v) \<or> js_string (jget t ''kind'') \<notin> set KINDS
      then None
      else case jget t ''seq'' of
        Some (JNum n) \<Rightarrow>
          if \<bar>n\<bar> > max_safe_integer \<or> n < 0 then None
          else if jget t ''focus'' \<noteq> None \<and> jstr (jget t ''focus'') = None then None
          else if jget t ''saveTo'' \<noteq> None \<and> jget t ''saveTo'' \<noteq> Some (JStr ''workspace'')
               \<and> jget t ''saveTo'' \<noteq> Some (JStr ''user'') then None
          else if jget t ''saveTo'' = Some (JStr ''user'') \<and> jget t ''kind'' \<noteq> Some (JStr ''manual'')
               \<and> jget t ''kind'' \<noteq> Some (JStr ''model'') then None
          else if jget t ''allowUnpriced'' \<noteq> None
               \<and> (jget t ''allowUnpriced'' \<noteq> Some (JBool True) \<or> jget t ''kind'' \<noteq> Some (JStr ''manual'')) then None
          else Some \<lparr>rt_kind = the (jget t ''kind''), rt_seq = n, rt_focus = jstr (jget t ''focus''),
                     rt_saveTo = jstr (jget t ''saveTo''),
                     rt_allowUnpriced = (jget t ''allowUnpriced'' = Some (JBool True))\<rparr>
      | _ \<Rightarrow> None)"

definition copy_facts :: "json option \<Rightarrow> (string, json) jsmap \<Rightarrow> (string, json) jsmap" where
  "copy_facts d facts =
     foldl (\<lambda>m k. case jget d k of None \<Rightarrow> m | Some v \<Rightarrow> jm_set m k v) facts FACTS"

definition foldRefinementRun :: "run_record option \<Rightarrow> event \<Rightarrow> run_record option" where
  "foldRefinementRun prev e =
     (let d = Some (e_data e) in
      if e_origin e \<noteq> ''system'' \<or> \<not> e_trusted e \<or> jget d ''version'' \<noteq> Some (JNum 1) then None
      else case (jstr (jget d ''runId''), run_state_of (jget d ''state'')) of
        (Some runId, Some st) \<Rightarrow>
          if runId = '''' then None
          else (let base = (case prev of
                    Some p \<Rightarrow> if canMoveRun (rr_state p) st then Some p else None
                  | None \<Rightarrow>
                      (case triggerOf (jget d ''trigger'') of
                         None \<Rightarrow> None
                       | Some tr \<Rightarrow>
                           if st = Queued \<or> st = Rejected \<or> (st = Proposed \<and> jget d ''plan'' \<noteq> None)
                           then Some \<lparr>rr_runId = runId, rr_trigger = tr, rr_state = st, rr_reason = None,
                                  rr_detail = None, rr_queuedSeq = e_seq e, rr_seq = e_seq e, rr_facts = []\<rparr>
                           else None))
                in map_option (\<lambda>b. b\<lparr>rr_state := st, rr_seq := e_seq e, rr_reason := jstr (jget d ''reason''),
                       rr_detail := jstr (jget d ''detail''), rr_facts := copy_facts d (rr_facts b)\<rparr>) base)
      | _ \<Rightarrow> None)"

text \<open>What the reducer keeps: a row the fold leaves out changes nothing.\<close>

definition fold_run_row :: "run_record option \<Rightarrow> event \<Rightarrow> run_record option" where
  "fold_run_row prev e = (case foldRefinementRun prev e of None \<Rightarrow> prev | Some r \<Rightarrow> Some r)"

section \<open>What a history of rows can do\<close>

lemma foldRefinementRun_Some:
  assumes "foldRefinementRun (Some p) e = Some r"
  shows "canMoveRun (rr_state p) (rr_state r)" "rr_trigger r = rr_trigger p" "rr_runId r = rr_runId p"
    "rr_queuedSeq r = rr_queuedSeq p" "e_origin e = ''system''" "e_trusted e"
  using assms by (auto simp: foldRefinementRun_def Let_def split: if_splits option.splits)

lemma foldRefinementRun_None:
  assumes "foldRefinementRun None e = Some r"
  shows "rr_state r \<in> {Queued, Rejected, Proposed}" "rr_queuedSeq r = e_seq e"
    "rr_state r = Proposed \<Longrightarrow> jget (Some (e_data e)) ''plan'' \<noteq> None"
  using assms by (auto simp: foldRefinementRun_def Let_def split: if_splits option.splits)

lemma copy_facts_keeps:
  assumes "jm_get m k = Some v"
  shows "jm_get (copy_facts d m) k \<noteq> None"
proof -
  have "jm_get m k \<noteq> None \<Longrightarrow>
    jm_get (foldl (\<lambda>m k. case jget d k of None \<Rightarrow> m | Some v \<Rightarrow> jm_set m k v) m ks) k \<noteq> None" for ks
    by (induction ks arbitrary: m) (auto split: option.split)
  then show ?thesis using assms by (simp add: copy_facts_def)
qed

lemma copy_facts_plan:
  assumes "jget d ''plan'' = Some v"
  shows "jm_get (copy_facts d m) ''plan'' = Some v"
  using assms by (simp add: copy_facts_def FACTS_def split: option.split)

text \<open>A run that proposes or has applied something carries the plan it proposed, when it opened so.\<close>

lemma opened_with_plan:
  assumes "foldRefinementRun None e = Some r" "rr_state r = Proposed"
  shows "jm_get (rr_facts r) ''plan'' \<noteq> None"
proof -
  obtain v where v: "jget (Some (e_data e)) ''plan'' = Some v"
    using foldRefinementRun_None(3) [OF assms] by auto
  have "rr_facts r = copy_facts (Some (e_data e)) []"
    using assms(1) by (auto simp: foldRefinementRun_def Let_def split: if_splits option.splits)
  then show ?thesis by (simp add: copy_facts_plan [OF v])
qed

lemma fold_rows_moves:
  "foldl fold_run_row (Some p) es = Some r \<Longrightarrow> canMoveRun\<^sup>*\<^sup>* (rr_state p) (rr_state r)
     \<and> rr_trigger r = rr_trigger p \<and> rr_queuedSeq r = rr_queuedSeq p \<and> rr_runId r = rr_runId p"
proof (induction es arbitrary: p)
  case (Cons e es)
  show ?case
  proof (cases "foldRefinementRun (Some p) e")
    case None
    then show ?thesis using Cons by (simp add: fold_run_row_def)
  next
    case (Some q)
    with Cons have "canMoveRun\<^sup>*\<^sup>* (rr_state q) (rr_state r) \<and> rr_trigger r = rr_trigger q
      \<and> rr_queuedSeq r = rr_queuedSeq q \<and> rr_runId r = rr_runId q"
      by (simp add: fold_run_row_def)
    with foldRefinementRun_Some [OF Some] show ?thesis
      by (auto intro: converse_rtranclp_into_rtranclp)
  qed
qed simp

lemma terminal_run_frozen:
  assumes "terminalRun (rr_state p)"
  shows "foldl fold_run_row (Some p) es = Some p"
proof (induction es)
  case (Cons e es)
  have "foldRefinementRun (Some p) e = None"
  proof (rule ccontr)
    assume "foldRefinementRun (Some p) e \<noteq> None"
    then obtain r where "foldRefinementRun (Some p) e = Some r" by blast
    then have "canMoveRun (rr_state p) (rr_state r)" by (rule foldRefinementRun_Some)
    with assms show False
      by (cases "rr_state p") (simp_all add: terminalRun_def TERMINAL_RUN_STATES_def canMoveRun_def)
  qed
  then show ?case using Cons by (simp add: fold_run_row_def)
qed simp

text \<open>
  C35. The rows of a run, whatever is appended, only take the edges of its state machine: whoever
  wrote them, the trigger, the run id and the row that queued it never change, the state reached is
  reachable over the edges, only Core's own trusted rows count, and once the run is in a terminal
  state no further row changes anything of its record.
\<close>

theorem run_history:
  assumes "foldl fold_run_row (Some p) es = Some r"
  shows "canMoveRun\<^sup>*\<^sup>* (rr_state p) (rr_state r) \<and> rr_trigger r = rr_trigger p
    \<and> rr_queuedSeq r = rr_queuedSeq p \<and> rr_runId r = rr_runId p
    \<and> (terminalRun (rr_state p) \<longrightarrow> r = p)
    \<and> ((\<forall>e \<in> set es. e_origin e \<noteq> ''system'' \<or> \<not> e_trusted e) \<longrightarrow> r = p)"
proof -
  have "r = p" if foreign: "\<forall>e \<in> set es. e_origin e \<noteq> ''system'' \<or> \<not> e_trusted e"
  proof -
    have "foldl fold_run_row (Some p) es = Some p"
      using foreign
    proof (induction es)
      case (Cons e es)
      then have "foldRefinementRun (Some p) e = None" by (auto simp: foldRefinementRun_def)
      then show ?case using Cons by (simp add: fold_run_row_def)
    qed simp
    then show ?thesis using assms by simp
  qed
  moreover have "r = p" if "terminalRun (rr_state p)"
    using terminal_run_frozen [OF that] assms by simp
  ultimately show ?thesis using fold_rows_moves [OF assms] by blast
qed

definition run_row :: "int \<Rightarrow> string \<Rightarrow> event" where
  "run_row n st = stamp n \<lparr>e_ts = ''t'', e_id = ''i'', e_type = REFINEMENT_RUN_EVENT,
     e_data = JObj [(''version'', JNum 1), (''runId'', JStr ''r1''), (''state'', JStr st),
       (''trigger'', JObj [(''kind'', JStr ''manual''), (''seq'', JNum 0)])],
     e_actor = JNull, e_origin = ''system'', e_trusted = True, e_lane = None, e_v = None, e_register = None,
     e_ignorable = True, e_surfaceOp = None, e_sourceEventSeqs = None\<rparr>"

definition run_a :: run_record where
  "run_a = the (foldRefinementRun None (run_row 1 ''queued''))"

theorem run_history_witness:
  "foldl fold_run_row (Some run_a) [run_row 2 ''applied'', run_row 3 ''cancelled'', run_row 4 ''planning'']
     = Some (run_a\<lparr>rr_state := Cancelled, rr_seq := 3\<rparr>)
   \<and> canMoveRun\<^sup>*\<^sup>* Queued Cancelled"
proof -
  have eq: "foldl fold_run_row (Some run_a) [run_row 2 ''applied'', run_row 3 ''cancelled'', run_row 4 ''planning'']
      = Some (run_a\<lparr>rr_state := Cancelled, rr_seq := 3\<rparr>)" by code_simp
  have "rr_state run_a = Queued" by code_simp
  with run_history [OF eq] eq show ?thesis by simp
qed

end
