(* ===== verification/Regex.thy ===== *)
theory Regex
  imports Js
begin

text \<open>
  Regular expressions as the source writes them, run by derivatives, with the language each denotes.
  Strings are sequences of 8-bit code units, read as the first 256 Unicode code points; ASCII is
  where every rule of the command table lives.
\<close>

section \<open>Character classes\<close>

definition code :: "char \<Rightarrow> nat" where
  "code c = of_char c"

definition in_range :: "nat \<Rightarrow> nat \<Rightarrow> char \<Rightarrow> bool" where
  "in_range a b c \<longleftrightarrow> a \<le> code c \<and> code c \<le> b"

definition is_upper_az :: "char \<Rightarrow> bool" where
  "is_upper_az = in_range 65 90"

definition is_lower_az :: "char \<Rightarrow> bool" where
  "is_lower_az = in_range 97 122"

definition is_letter :: "char \<Rightarrow> bool" where
  "is_letter c \<longleftrightarrow> is_upper_az c \<or> is_lower_az c"

definition is_alnum :: "char \<Rightarrow> bool" where
  "is_alnum c \<longleftrightarrow> is_letter c \<or> is_digit c"

text \<open>\<^verbatim>\<open>\w\<close>, and \<^verbatim>\<open>\s\<close> on 8-bit code units.\<close>

definition is_word_char :: "char \<Rightarrow> bool" where
  "is_word_char c \<longleftrightarrow> is_alnum c \<or> code c = 95"

definition is_rx_space :: "char \<Rightarrow> bool" where
  "is_rx_space c \<longleftrightarrow> in_range 9 13 c \<or> code c = 32 \<or> code c = 160"

definition is_line_end :: "char \<Rightarrow> bool" where
  "is_line_end c \<longleftrightarrow> code c = 10 \<or> code c = 13"

text \<open>\<^verbatim>\<open>toLowerCase\<close>: ASCII capitals, and the Latin-1 ones.\<close>

definition lower_char :: "char \<Rightarrow> char" where
  "lower_char c =
     (if is_upper_az c \<or> (in_range 192 222 c \<and> code c \<noteq> 215) then char_of (code c + 32) else c)"

definition toLowerCase :: "string \<Rightarrow> string" where
  "toLowerCase = map lower_char"

section \<open>Expressions and their languages\<close>

text \<open>A character class is a list of ranges of code units.\<close>

type_synonym cls = "(nat \<times> nat) list"

fun in_cls :: "nat \<Rightarrow> cls \<Rightarrow> bool" where
  "in_cls n [] = False"
| "in_cls n ((a, b) # rs) = (if a \<le> n then (if n \<le> b then True else in_cls n rs) else in_cls n rs)"

definition c_upper :: cls where "c_upper = [(65, 90)]"
definition c_lower :: cls where "c_lower = [(97, 122)]"
definition c_letter :: cls where "c_letter = c_upper @ c_lower"
definition c_digit :: cls where "c_digit = [(48, 57)]"
definition c_alnum :: cls where "c_alnum = c_letter @ c_digit"
definition c_word :: cls where "c_word = c_alnum @ [(95, 95)]"
definition c_chars :: "string \<Rightarrow> cls" where "c_chars s = map (\<lambda>c. (code c, code c)) s"

text \<open>\<^verbatim>\<open>.\<close> on 8-bit code units: everything but line feed and carriage return.\<close>

definition c_dot :: cls where "c_dot = [(0, 9), (11, 12), (14, 255)]"
definition c_all :: cls where "c_all = [(0, 255)]"

datatype rx = Zero | One | Cls cls | Alt rx rx | Seq rx rx | Star rx

inductive_set repeats :: "string set \<Rightarrow> string set" for L where
  repeats_Nil: "[] \<in> repeats L"
| repeats_app: "u \<in> L \<Longrightarrow> v \<in> repeats L \<Longrightarrow> u @ v \<in> repeats L"

fun lang :: "rx \<Rightarrow> string set" where
  "lang Zero = {}"
| "lang One = {[]}"
| "lang (Cls rs) = {[c] |c. in_cls (code c) rs}"
| "lang (Alt r s) = lang r \<union> lang s"
| "lang (Seq r s) = {u @ v |u v. u \<in> lang r \<and> v \<in> lang s}"
| "lang (Star r) = repeats (lang r)"

fun nullable :: "rx \<Rightarrow> bool" where
  "nullable Zero = False"
| "nullable One = True"
| "nullable (Cls rs) = False"
| "nullable (Alt r s) = (nullable r \<or> nullable s)"
| "nullable (Seq r s) = (nullable r \<and> nullable s)"
| "nullable (Star r) = True"

fun mk_alt :: "rx \<Rightarrow> rx \<Rightarrow> rx" where
  "mk_alt Zero s = s"
| "mk_alt r s = (case s of Zero \<Rightarrow> r | _ \<Rightarrow> Alt r s)"

fun mk_seq :: "rx \<Rightarrow> rx \<Rightarrow> rx" where
  "mk_seq Zero s = Zero"
| "mk_seq One s = s"
| "mk_seq r s = Seq r s"

fun deriv :: "nat \<Rightarrow> rx \<Rightarrow> rx" where
  "deriv n Zero = Zero"
| "deriv n One = Zero"
| "deriv n (Cls rs) = (if in_cls n rs then One else Zero)"
| "deriv n (Alt r s) = mk_alt (deriv n r) (deriv n s)"
| "deriv n (Seq r s) =
     (if nullable r then mk_alt (mk_seq (deriv n r) s) (deriv n s) else mk_seq (deriv n r) s)"
| "deriv n (Star r) = mk_seq (deriv n r) (Star r)"

text \<open>The codes are read one by one; once nothing can match any more the rest is not looked at.\<close>

fun run_codes :: "rx \<Rightarrow> nat list \<Rightarrow> bool" where
  "run_codes r [] = nullable r"
| "run_codes r (n # ns) = (case deriv n r of Zero \<Rightarrow> False | r' \<Rightarrow> run_codes r' ns)"

definition rx_match :: "rx \<Rightarrow> string \<Rightarrow> bool" where
  "rx_match r s = run_codes r (map code s)"

lemma nullable_lang: "nullable r \<longleftrightarrow> [] \<in> lang r"
  by (induction r) (auto intro: repeats_Nil)

lemma lang_mk_alt [simp]: "lang (mk_alt r s) = lang r \<union> lang s"
  by (cases r; cases s) auto

lemma lang_mk_seq [simp]: "lang (mk_seq r s) = lang (Seq r s)"
  by (cases r) auto

lemma repeats_Cons: "c # w \<in> repeats L \<longleftrightarrow> (\<exists>u v. w = u @ v \<and> c # u \<in> L \<and> v \<in> repeats L)"
proof
  assume "c # w \<in> repeats L"
  then show "\<exists>u v. w = u @ v \<and> c # u \<in> L \<and> v \<in> repeats L"
    by (induction "c # w" arbitrary: w rule: repeats.induct) (auto simp: Cons_eq_append_conv append_eq_Cons_conv)
next
  assume "\<exists>u v. w = u @ v \<and> c # u \<in> L \<and> v \<in> repeats L"
  then show "c # w \<in> repeats L" by (auto dest: repeats_app [of "c # u" for u])
qed

lemma lang_deriv: "w \<in> lang (deriv (code c) r) \<longleftrightarrow> c # w \<in> lang r"
proof (induction r arbitrary: w)
  case (Seq r s)
  then show ?case by (auto simp: nullable_lang Cons_eq_append_conv)
next
  case (Star r)
  then show ?case by (auto simp: repeats_Cons)
qed auto

lemma rx_match_lang: "rx_match r s \<longleftrightarrow> s \<in> lang r"
  unfolding rx_match_def
proof (induction s arbitrary: r)
  case Nil
  then show ?case by (simp add: nullable_lang)
next
  case (Cons c s)
  have "run_codes r (map code (c # s)) = (s \<in> lang (deriv (code c) r))"
    using Cons.IH [of "deriv (code c) r"] by (cases "deriv (code c) r") simp_all
  then show ?case by (simp add: lang_deriv)
qed

section \<open>What the patterns are written with\<close>

definition chr :: "char \<Rightarrow> rx" where
  "chr c = Cls [(code c, code c)]"

definition one_of :: "string \<Rightarrow> rx" where
  "one_of cs = Cls (c_chars cs)"

text \<open>An ASCII letter of a pattern with the flag \<^verbatim>\<open>i\<close> stands for both its cases.\<close>

definition ichr :: "char \<Rightarrow> rx" where
  "ichr c = (let n = code c in
     Cls (if is_lower_az c then [(n, n), (n - 32, n - 32)]
          else if is_upper_az c then [(n, n), (n + 32, n + 32)] else [(n, n)]))"

definition seq_all :: "rx list \<Rightarrow> rx" where
  "seq_all rs = foldr Seq rs One"

definition alt_all :: "rx list \<Rightarrow> rx" where
  "alt_all rs = foldr Alt rs Zero"

definition lit :: "string \<Rightarrow> rx" where
  "lit s = seq_all (map chr s)"

definition ilit :: "string \<Rightarrow> rx" where
  "ilit s = seq_all (map ichr s)"

definition opt :: "rx \<Rightarrow> rx" where
  "opt r = Alt One r"

definition some_of :: "rx \<Rightarrow> rx" where
  "some_of r = Seq r (Star r)"

definition any :: rx where
  "any = Star (Cls c_all)"

text \<open>A pattern with \<^verbatim>\<open>^\<close> and \<^verbatim>\<open>$\<close>; with \<^verbatim>\<open>^\<close> only; with neither.\<close>

definition rx_full :: "rx \<Rightarrow> string \<Rightarrow> bool" where
  "rx_full r s = rx_match r s"

definition rx_starts :: "rx \<Rightarrow> string \<Rightarrow> bool" where
  "rx_starts r s = rx_match (Seq r any) s"

definition rx_finds :: "rx \<Rightarrow> string \<Rightarrow> bool" where
  "rx_finds r s = rx_match (Seq any (Seq r any)) s"

lemma in_cls_all: "in_cls (code c) c_all"
proof -
  have "code c < 256" by (simp add: code_def)
  then show ?thesis by (simp add: c_all_def)
qed

lemma repeats_all: "s \<in> repeats {[c] |c. in_cls (code c) c_all}"
proof (induction s)
  case Nil
  show ?case by (rule repeats_Nil)
next
  case (Cons c s)
  have "[c] \<in> {[c] |c. in_cls (code c) c_all}" using in_cls_all by blast
  from repeats_app [OF this Cons.IH] show ?case by simp
qed

lemma lang_any [simp]: "lang any = UNIV"
  using repeats_all by (auto simp: any_def)

lemma rx_starts_iff: "rx_starts r s \<longleftrightarrow> (\<exists>u v. s = u @ v \<and> u \<in> lang r)"
  by (auto simp: rx_starts_def rx_match_lang)

lemma rx_finds_iff: "rx_finds r s \<longleftrightarrow> (\<exists>a u v. s = a @ u @ v \<and> u \<in> lang r)"
  by (auto simp: rx_finds_def rx_match_lang)

lemma lang_chr [simp]: "lang (chr c) = {[c]}"
  by (auto simp: chr_def code_def)

lemma lang_lit [simp]: "lang (lit s) = {s}"
  by (induction s) (auto simp: lit_def seq_all_def)

end
