(* ===== verification/RefinementSave.thy ===== *)
theory RefinementSave imports EntryMeta Regex begin

text \<open>
  \<^verbatim>\<open>packages/core-ledger/src/reduce/refinement-save.ts\<close>: the receipt of a save of task
  experience, checked member by member and rebuilt from its known fields only. The string unions of the
  source are the lists the checks look a value up in.
\<close>

section \<open>Records\<close>

record save_source =
  sv_sessionKey :: string
  sv_kind :: string
  sv_entryId :: string
  sv_contentHash :: string
  sv_runId :: "string option"
  sv_initiator :: string
  sv_fromWorkflow :: bool

datatype save_target = Memory_paragraph string string | Skill_target string string string

record save_receipt =
  sr_receiptId :: string
  sr_commandId :: string
  sr_initiator :: string
  sr_source :: save_source
  sr_outcome :: string
  sr_reason :: "string option"
  sr_steps :: "(string \<times> string) list"
  sr_target :: "save_target option"
  sr_user :: bool
  sr_userMemoryRead :: "bool option"
  sr_at :: int

record save_record = save_receipt +
  sr_seq :: int

definition REFINEMENT_SAVE_EVENT :: string where
  "REFINEMENT_SAVE_EVENT = ''x/core/refinement-save''"

definition SAVE_STEPS :: "string list" where
  "SAVE_STEPS = [''switch'', ''revocation'', ''confirmations'', ''rules'', ''memory-mode'', ''capacity'']"

definition SAVE_REFUSALS :: "string list" where
  "SAVE_REFUSALS = [''refinement-off'', ''user-revoked'', ''unconfirmed'', ''source-rules'', ''static-check'',
     ''memory-off'', ''memory-full'', ''unsupported-provider'', ''subagent-review-unavailable'',
     ''child-session'', ''unavailable'', ''conflict'', ''approval-expired'', ''user-memory-budget'',
     ''model-cannot-write-user'', ''workflow-run-unavailable'', ''workflow-run-not-completed'',
     ''workflow-definition-too-large'', ''workflow-already-saved'']"

definition INITIATORS :: "string list" where
  "INITIATORS = [''auto'', ''user'', ''model'']"

definition OUTCOMES :: "string list" where
  "OUTCOMES = [''saved'', ''installed'', ''awaiting-approval'', ''refused'', ''unknown'']"

definition VERDICTS :: "string list" where
  "VERDICTS = [''pass'', ''fail'', ''skip'']"

definition RECEIPT_FIELDS :: "string list" where
  "RECEIPT_FIELDS = [''receiptId'', ''commandId'', ''initiator'', ''source'', ''outcome'', ''reason'',
     ''steps'', ''target'', ''layer'', ''userMemoryRead'', ''at'']"

definition MAX_TEXT :: nat where
  "MAX_TEXT = 4096"

text \<open>\<^verbatim>\<open>/^[a-z][a-z0-9]*(?:-[a-z0-9]+)*$/u\<close>\<close>

definition LATER_REASON :: rx where
  "LATER_REASON = Seq (Cls c_lower) (Seq (Star (Cls (c_lower @ c_digit)))
     (Star (Seq (chr CHR ''-'') (some_of (Cls (c_lower @ c_digit))))))"

section \<open>The checks\<close>

definition text_of :: "json option \<Rightarrow> string option" where
  "text_of v = (case v of
       Some (JStr s) \<Rightarrow> if length s > 0 \<and> length s \<le> MAX_TEXT then Some s else None
     | _ \<Rightarrow> None)"

definition oneOf :: "json option \<Rightarrow> string list \<Rightarrow> string option" where
  "oneOf v allowed = find (\<lambda>c. v = Some (JStr c)) allowed"

definition checkedSource :: "json option \<Rightarrow> save_source option" where
  "checkedSource raw =
     (case (text_of (jget raw ''sessionKey''), oneOf (jget raw ''kind'') ENTRY_KINDS, text_of (jget raw ''entryId''),
            text_of (jget raw ''contentHash''), oneOf (jget raw ''initiator'') INITIATORS) of
        (Some k, Some kd, Some en, Some h, Some i) \<Rightarrow>
          if jget raw ''runId'' \<noteq> None \<and> text_of (jget raw ''runId'') = None then None
          else Some \<lparr>sv_sessionKey = k, sv_kind = kd, sv_entryId = en, sv_contentHash = h,
                 sv_runId = text_of (jget raw ''runId''), sv_initiator = i,
                 sv_fromWorkflow = (jget raw ''fromWorkflow'' = Some (JBool True))\<rparr>
      | _ \<Rightarrow> None)"

text \<open>The source returns null for an absent target and undefined for a bad one: \<open>Some None\<close> and \<open>None\<close>.\<close>

definition checkedTarget :: "json option \<Rightarrow> save_target option option" where
  "checkedTarget raw =
     (if raw = None then Some None
      else if jget raw ''kind'' = Some (JStr ''memory-paragraph'') then
        (case (text_of (jget raw ''paragraphId''), text_of (jget raw ''fileHash'')) of
           (Some p, Some h) \<Rightarrow> Some (Some (Memory_paragraph p h)) | _ \<Rightarrow> None)
      else if jget raw ''kind'' = Some (JStr ''skill'') then
        (case (text_of (jget raw ''name''), text_of (jget raw ''resourceId''), text_of (jget raw ''revision'')) of
           (Some n, Some r, Some v) \<Rightarrow> Some (Some (Skill_target n r v)) | _ \<Rightarrow> None)
      else None)"

definition checked_reason :: "json option \<Rightarrow> string option" where
  "checked_reason v = (case oneOf v SAVE_REFUSALS of
       Some r \<Rightarrow> Some r
     | None \<Rightarrow> (case v of
         Some (JStr s) \<Rightarrow> if length s \<le> 64 \<and> rx_full LATER_REASON s then Some s else None
       | _ \<Rightarrow> None))"

fun checked_steps :: "json list \<Rightarrow> (string \<times> string) list option" where
  "checked_steps [] = Some []"
| "checked_steps (x # xs) =
     (case (oneOf (jget (Some x) ''step'') SAVE_STEPS, oneOf (jget (Some x) ''verdict'') VERDICTS) of
        (Some st, Some v) \<Rightarrow> map_option ((#) (st, v)) (checked_steps xs)
      | _ \<Rightarrow> None)"

definition checkedReceipt :: "json option \<Rightarrow> save_receipt option" where
  "checkedReceipt raw =
     (let reason = checked_reason (jget raw ''reason''); layer = jget raw ''layer'';
          umr = jget raw ''userMemoryRead'' in
      case (text_of (jget raw ''receiptId''), text_of (jget raw ''commandId''),
            oneOf (jget raw ''initiator'') INITIATORS, checkedSource (jget raw ''source''),
            oneOf (jget raw ''outcome'') OUTCOMES, jnum (jget raw ''at'')) of
        (Some r, Some c, Some i, Some s, Some out, Some tm) \<Rightarrow>
          if layer \<noteq> None \<and> layer \<noteq> Some (JStr ''user'') then None
          else if umr \<noteq> None \<and> bool_of umr = None then None
          else (case (checkedTarget (jget raw ''target''), jget raw ''steps'') of
              (Some target, Some (JArr xs)) \<Rightarrow>
                if jget raw ''reason'' \<noteq> None \<and> reason = None then None
                else map_option (\<lambda>steps. \<lparr>sr_receiptId = r, sr_commandId = c, sr_initiator = i, sr_source = s,
                  sr_outcome = out, sr_reason = reason, sr_steps = steps, sr_target = target,
                  sr_user = (layer = Some (JStr ''user'')), sr_userMemoryRead = bool_of umr, sr_at = tm\<rparr>)
                  (checked_steps xs)
            | _ \<Rightarrow> None)
      | _ \<Rightarrow> None)"

section \<open>The fold\<close>

fun members :: "json option \<Rightarrow> (string \<times> json) list" where
  "members (Some (JObj kvs)) = kvs"
| "members _ = []"

text \<open>
  \<^verbatim>\<open>key in receipt.source\<close>: the own members of the rebuilt source, and what every object
  inherits.
\<close>

definition object_prototype :: "string list" where
  "object_prototype = [''constructor'', ''__defineGetter__'', ''__defineSetter__'', ''hasOwnProperty'',
     ''__lookupGetter__'', ''__lookupSetter__'', ''isPrototypeOf'', ''propertyIsEnumerable'', ''toString'',
     ''valueOf'', ''__proto__'', ''toLocaleString'']"

definition source_keys :: "save_source \<Rightarrow> string list" where
  "source_keys s = [''sessionKey'', ''kind'', ''entryId'', ''contentHash'', ''initiator'']
     @ (if sv_runId s \<noteq> None then [''runId''] else []) @ (if sv_fromWorkflow s then [''fromWorkflow''] else [])"

definition foldRefinementSave :: "event \<Rightarrow> save_record option" where
  "foldRefinementSave e =
     (if \<not> core_row e then None
      else let fields = filter (\<lambda>kv. fst kv \<noteq> ''version'') (members (Some (e_data e))) in
        if \<exists>kv \<in> set fields. fst kv \<notin> set RECEIPT_FIELDS then None
        else case checkedReceipt (Some (JObj fields)) of
          None \<Rightarrow> None
        | Some r \<Rightarrow>
            if \<exists>kv \<in> set (members (map_of fields ''source'')).
                 fst kv \<notin> set (source_keys (sr_source r)) \<union> set object_prototype
            then None
            else Some (save_receipt.extend r (save_record.fields (e_seq e))))"

section \<open>Rows and what they fold to\<close>

text \<open>\<^verbatim>\<open>{ version: 1, ...receipt }\<close>, as \<^verbatim>\<open>refinementSaveRow\<close> of
  \<^verbatim>\<open>core/src/refinement/workspace.ts\<close> writes it.\<close>

definition source_json :: "save_source \<Rightarrow> json" where
  "source_json s = JObj ([(''sessionKey'', JStr (sv_sessionKey s)), (''kind'', JStr (sv_kind s)),
       (''entryId'', JStr (sv_entryId s)), (''contentHash'', JStr (sv_contentHash s))]
     @ opt_member ''runId'' (map_option JStr (sv_runId s)) @ [(''initiator'', JStr (sv_initiator s))]
     @ (if sv_fromWorkflow s then [(''fromWorkflow'', JBool True)] else []))"

fun target_json :: "save_target \<Rightarrow> json" where
  "target_json (Memory_paragraph p h) =
     JObj [(''kind'', JStr ''memory-paragraph''), (''paragraphId'', JStr p), (''fileHash'', JStr h)]"
| "target_json (Skill_target n r v) =
     JObj [(''kind'', JStr ''skill''), (''name'', JStr n), (''resourceId'', JStr r), (''revision'', JStr v)]"

definition receipt_members :: "('a) save_receipt_scheme \<Rightarrow> (string \<times> json) list" where
  "receipt_members r = [(''receiptId'', JStr (sr_receiptId r)), (''commandId'', JStr (sr_commandId r)),
       (''initiator'', JStr (sr_initiator r)), (''source'', source_json (sr_source r)),
       (''outcome'', JStr (sr_outcome r))]
     @ opt_member ''reason'' (map_option JStr (sr_reason r))
     @ [(''steps'', JArr (map (\<lambda>(st, v). JObj [(''step'', JStr st), (''verdict'', JStr v)]) (sr_steps r)))]
     @ opt_member ''target'' (map_option target_json (sr_target r))
     @ (if sr_user r then [(''layer'', JStr ''user'')] else [])
     @ opt_member ''userMemoryRead'' (map_option JBool (sr_userMemoryRead r))
     @ [(''at'', JNum (sr_at r))]"

definition receipt_json :: "('a) save_receipt_scheme \<Rightarrow> json" where
  "receipt_json r = JObj ((''version'', JNum 1) # receipt_members r)"

text \<open>A receipt as a save writes it: texts of bounded length, names from the lists.\<close>

definition text_ok :: "string \<Rightarrow> bool" where
  "text_ok s \<longleftrightarrow> s \<noteq> '''' \<and> length s \<le> MAX_TEXT"

definition source_ok :: "save_source \<Rightarrow> bool" where
  "source_ok s \<longleftrightarrow> text_ok (sv_sessionKey s) \<and> sv_kind s \<in> set ENTRY_KINDS \<and> text_ok (sv_entryId s)
     \<and> text_ok (sv_contentHash s) \<and> (\<forall>x \<in> set_option (sv_runId s). text_ok x)
     \<and> sv_initiator s \<in> set INITIATORS"

fun target_ok :: "save_target \<Rightarrow> bool" where
  "target_ok (Memory_paragraph p h) \<longleftrightarrow> text_ok p \<and> text_ok h"
| "target_ok (Skill_target n r v) \<longleftrightarrow> text_ok n \<and> text_ok r \<and> text_ok v"

definition receipt_ok :: "('a) save_receipt_scheme \<Rightarrow> bool" where
  "receipt_ok r \<longleftrightarrow> text_ok (sr_receiptId r) \<and> text_ok (sr_commandId r) \<and> sr_initiator r \<in> set INITIATORS
     \<and> source_ok (sr_source r) \<and> sr_outcome r \<in> set OUTCOMES
     \<and> (\<forall>x \<in> set_option (sr_reason r). x \<in> set SAVE_REFUSALS \<or> length x \<le> 64 \<and> rx_full LATER_REASON x)
     \<and> (\<forall>(st, v) \<in> set (sr_steps r). st \<in> set SAVE_STEPS \<and> v \<in> set VERDICTS)
     \<and> (\<forall>t \<in> set_option (sr_target r). target_ok t)"

lemma text_of_JStr [simp]: "text_of (Some (JStr s)) = (if text_ok s then Some s else None)"
  by (simp add: text_of_def text_ok_def)

lemma text_of_None [simp]: "text_of None = None"
  by (simp add: text_of_def)

lemma oneOf_JStr: "oneOf (Some (JStr s)) xs = (if s \<in> set xs then Some s else None)"
  by (induction xs) (auto simp: oneOf_def)

lemma oneOf_Some: "oneOf v xs = Some s \<Longrightarrow> v = Some (JStr s) \<and> s \<in> set xs"
  by (auto simp: oneOf_def find_Some_iff)

lemma text_of_Some: "text_of v = Some s \<longleftrightarrow> v = Some (JStr s) \<and> text_ok s"
  by (auto simp: text_of_def text_ok_def split: option.split json.split)

lemma source_json_get:
  "jget (Some (source_json s)) ''sessionKey'' = Some (JStr (sv_sessionKey s))"
  "jget (Some (source_json s)) ''kind'' = Some (JStr (sv_kind s))"
  "jget (Some (source_json s)) ''entryId'' = Some (JStr (sv_entryId s))"
  "jget (Some (source_json s)) ''contentHash'' = Some (JStr (sv_contentHash s))"
  "jget (Some (source_json s)) ''runId'' = map_option JStr (sv_runId s)"
  "jget (Some (source_json s)) ''initiator'' = Some (JStr (sv_initiator s))"
  "jget (Some (source_json s)) ''fromWorkflow'' = (if sv_fromWorkflow s then Some (JBool True) else None)"
  by (simp_all add: source_json_def opt_member_def split: option.split)

lemma checkedSource_json:
  assumes "source_ok s"
  shows "checkedSource (Some (source_json s)) = Some s"
proof -
  have r: "text_of (map_option JStr (sv_runId s)) = sv_runId s"
    using assms by (cases "sv_runId s") (simp_all add: source_ok_def)
  then have "(map_option JStr (sv_runId s) \<noteq> None \<and> text_of (map_option JStr (sv_runId s)) = None) = False"
    by (cases "sv_runId s") simp_all
  with r assms show ?thesis
    by (simp add: checkedSource_def source_json_get oneOf_JStr source_ok_def)
qed

lemma checkedTarget_json:
  assumes "\<forall>t \<in> set_option x. target_ok t"
  shows "checkedTarget (map_option target_json x) = Some x"
proof (cases x)
  case (Some t)
  then show ?thesis using assms by (cases t) (simp_all add: checkedTarget_def)
qed (simp add: checkedTarget_def)

lemma checked_reason_json:
  assumes "\<forall>x \<in> set_option r. x \<in> set SAVE_REFUSALS \<or> length x \<le> 64 \<and> rx_full LATER_REASON x"
  shows "checked_reason (map_option JStr r) = r"
proof (cases r)
  case None
  have "oneOf None xs = None" for xs by (induction xs) (auto simp: oneOf_def)
  with None show ?thesis by (simp add: checked_reason_def)
next
  case (Some x)
  with assms show ?thesis by (auto simp: checked_reason_def oneOf_JStr)
qed

lemma checked_steps_json:
  assumes "\<forall>(st, v) \<in> set steps. st \<in> set SAVE_STEPS \<and> v \<in> set VERDICTS"
  shows "checked_steps (map (\<lambda>(st, v). JObj [(''step'', JStr st), (''verdict'', JStr v)]) steps) = Some steps"
  using assms by (induction steps) (auto simp: oneOf_JStr)

lemma receipt_members_get:
  "map_of (receipt_members r) ''receiptId'' = Some (JStr (sr_receiptId r))"
  "map_of (receipt_members r) ''commandId'' = Some (JStr (sr_commandId r))"
  "map_of (receipt_members r) ''initiator'' = Some (JStr (sr_initiator r))"
  "map_of (receipt_members r) ''source'' = Some (source_json (sr_source r))"
  "map_of (receipt_members r) ''outcome'' = Some (JStr (sr_outcome r))"
  "map_of (receipt_members r) ''reason'' = map_option JStr (sr_reason r)"
  "map_of (receipt_members r) ''steps''
     = Some (JArr (map (\<lambda>(st, v). JObj [(''step'', JStr st), (''verdict'', JStr v)]) (sr_steps r)))"
  "map_of (receipt_members r) ''target'' = map_option target_json (sr_target r)"
  "map_of (receipt_members r) ''layer'' = (if sr_user r then Some (JStr ''user'') else None)"
  "map_of (receipt_members r) ''userMemoryRead'' = map_option JBool (sr_userMemoryRead r)"
  "map_of (receipt_members r) ''at'' = Some (JNum (sr_at r))"
  by (simp_all add: receipt_members_def opt_member_def split: option.split)

lemma checkedReceipt_members:
  fixes r :: save_receipt
  assumes "receipt_ok r"
  shows "checkedReceipt (Some (JObj (receipt_members r))) = Some r"
proof -
  have reason: "checked_reason (map_option JStr (sr_reason r)) = sr_reason r"
    and source: "checkedSource (Some (source_json (sr_source r))) = Some (sr_source r)"
    and target: "checkedTarget (map_option target_json (sr_target r)) = Some (sr_target r)"
    and steps: "checked_steps (map (\<lambda>(st, v). JObj [(''step'', JStr st), (''verdict'', JStr v)]) (sr_steps r))
      = Some (sr_steps r)"
    using assms by (simp_all add: receipt_ok_def checked_reason_json checkedSource_json checkedTarget_json
        checked_steps_json)
  have b: "bool_of (map_option JBool x) = x" "(map_option f y \<noteq> None \<and> y = None) = False" for x y f
    by (cases x; simp) (cases y; simp)
  have names: "text_ok (sr_receiptId r)" "text_ok (sr_commandId r)" "sr_initiator r \<in> set INITIATORS"
    "sr_outcome r \<in> set OUTCOMES" using assms by (simp_all add: receipt_ok_def)
  show ?thesis
    unfolding checkedReceipt_def Let_def jget_JObj receipt_members_get oneOf_JStr reason source target steps b
    using names steps by (cases "sr_user r") simp_all
qed

lemma no_version [simp]: "filter (\<lambda>kv. fst kv \<noteq> ''version'') (receipt_members r) = receipt_members r"
  by (auto simp: receipt_members_def opt_member_def split: option.split)

lemma receipt_keys: "kv \<in> set (receipt_members r) \<Longrightarrow> fst kv \<in> set RECEIPT_FIELDS"
  by (auto simp: receipt_members_def opt_member_def RECEIPT_FIELDS_def split: option.splits if_splits)

lemma source_json_keys: "kv \<in> set (members (Some (source_json s))) \<Longrightarrow> fst kv \<in> set (source_keys s)"
  by (cases "sv_runId s") (auto simp: source_json_def source_keys_def opt_member_def split: if_splits)

lemma checkedSource_ok: "checkedSource raw = Some s \<Longrightarrow> source_ok s"
  by (auto simp: checkedSource_def source_ok_def text_of_Some dest!: oneOf_Some split: option.splits if_splits)

lemma checkedTarget_ok: "checkedTarget raw = Some (Some t) \<Longrightarrow> target_ok t"
  by (auto simp: checkedTarget_def text_of_Some split: option.splits if_splits)

lemma checked_steps_ok:
  "checked_steps xs = Some steps \<Longrightarrow> \<forall>(st, v) \<in> set steps. st \<in> set SAVE_STEPS \<and> v \<in> set VERDICTS"
proof (induction xs arbitrary: steps)
  case (Cons x xs)
  then show ?case by (auto split: option.splits dest!: oneOf_Some)
qed simp

lemma checked_reason_ok:
  "checked_reason v = Some x \<Longrightarrow> x \<in> set SAVE_REFUSALS \<or> length x \<le> 64 \<and> rx_full LATER_REASON x"
  by (auto simp: checked_reason_def dest!: oneOf_Some split: option.splits json.splits if_splits)

lemma checkedReceipt_ok:
  assumes "checkedReceipt raw = Some r"
  shows "receipt_ok r"
proof -
  from assms obtain rid cid i s out tm target xs steps where
    p: "text_of (jget raw ''receiptId'') = Some rid" "text_of (jget raw ''commandId'') = Some cid"
      "oneOf (jget raw ''initiator'') INITIATORS = Some i" "checkedSource (jget raw ''source'') = Some s"
      "oneOf (jget raw ''outcome'') OUTCOMES = Some out" "jnum (jget raw ''at'') = Some tm"
      "checkedTarget (jget raw ''target'') = Some target" "checked_steps xs = Some steps"
    and r: "r = \<lparr>sr_receiptId = rid, sr_commandId = cid, sr_initiator = i, sr_source = s, sr_outcome = out,
      sr_reason = checked_reason (jget raw ''reason''), sr_steps = steps, sr_target = target,
      sr_user = (jget raw ''layer'' = Some (JStr ''user'')),
      sr_userMemoryRead = bool_of (jget raw ''userMemoryRead''), sr_at = tm\<rparr>"
    by (auto simp: checkedReceipt_def Let_def split: option.splits if_splits json.splits)
  have "\<forall>x \<in> set_option (checked_reason (jget raw ''reason'')). x \<in> set SAVE_REFUSALS
      \<or> length x \<le> 64 \<and> rx_full LATER_REASON x"
    using checked_reason_ok by (cases "checked_reason (jget raw ''reason'')") auto
  moreover have "\<forall>t \<in> set_option target. target_ok t"
    using p(7) checkedTarget_ok by (cases target) auto
  ultimately show ?thesis
    using p oneOf_Some [OF p(3)] oneOf_Some [OF p(5)] checked_steps_ok [OF p(8)] checkedSource_ok [OF p(4)]
    by (simp add: r receipt_ok_def text_of_Some)
qed

lemma fold_receipt_json:
  fixes r :: save_receipt
  assumes ok: "receipt_ok r" and e: "e_origin e = ''system''" "e_trusted e" "e_data e = receipt_json r"
  shows "foldRefinementSave e = Some (save_receipt.extend r (save_record.fields (e_seq e)))"
proof -
  have core: "core_row e"
    using e by (simp add: core_row_def is_obj_def receipt_json_def is_plain_object_def)
  have fields: "filter (\<lambda>kv. fst kv \<noteq> ''version'') (members (Some (e_data e))) = receipt_members r"
    using e by (simp add: receipt_json_def)
  have known: "(\<exists>kv \<in> set (receipt_members r). fst kv \<notin> set RECEIPT_FIELDS) = False"
    using receipt_keys by blast
  have "(\<exists>kv \<in> set (members (Some (source_json (sr_source r)))).
      fst kv \<notin> set (source_keys (sr_source r)) \<union> set object_prototype) = False"
    using source_json_keys by blast
  then show ?thesis
    unfolding foldRefinementSave_def Let_def fields known
    by (simp only: core not_True_eq_False if_False checkedReceipt_members [OF ok] option.case receipt_members_get)
qed

text \<open>
  C37. A receipt in the ledger's table is one a save could have written, whatever row it came from: the
  row is Core's own, it has no member beside the known ones, every name in the receipt is from the fixed
  lists, every text has at most 4096 characters and a reason outside the list has the shape of a refusal
  name and at most 64. And the record reads back: written again as the row a save writes, it folds to
  itself.
\<close>

theorem save_record_sound:
  assumes fold: "foldRefinementSave e = Some rec"
  shows "core_row e \<and> fst ` set (members (Some (e_data e))) \<subseteq> insert ''version'' (set RECEIPT_FIELDS)
    \<and> receipt_ok rec \<and> sr_seq rec = e_seq e
    \<and> foldRefinementSave (e\<lparr>e_data := receipt_json rec\<rparr>) = Some rec"
proof -
  let ?fields = "filter (\<lambda>kv. fst kv \<noteq> ''version'') (members (Some (e_data e)))"
  obtain r where core: "core_row e" and known: "\<forall>kv \<in> set ?fields. fst kv \<in> set RECEIPT_FIELDS"
    and r: "checkedReceipt (Some (JObj ?fields)) = Some r"
    and rec: "rec = save_receipt.extend r (save_record.fields (e_seq e))"
    using fold by (auto simp: foldRefinementSave_def Let_def split: if_splits option.splits)
  have ok: "receipt_ok r" using checkedReceipt_ok [OF r] .
  have same: "receipt_json rec = receipt_json r" "receipt_ok rec = receipt_ok r" "sr_seq rec = e_seq e"
    by (simp_all add: rec save_receipt.extend_def save_record.fields_def receipt_json_def receipt_members_def receipt_ok_def)
  have "foldRefinementSave (e\<lparr>e_data := receipt_json r\<rparr>) = Some rec"
    using fold_receipt_json [OF ok, of "e\<lparr>e_data := receipt_json r\<rparr>"] core by (simp add: rec core_row_def)
  with known core ok same show ?thesis by auto
qed

definition save_a :: save_receipt where
  "save_a = \<lparr>sr_receiptId = ''r1'', sr_commandId = ''c1'', sr_initiator = ''auto'',
     sr_source = \<lparr>sv_sessionKey = ''k'', sv_kind = ''memory'', sv_entryId = ''m1'', sv_contentHash = ''h'',
       sv_runId = None, sv_initiator = ''auto'', sv_fromWorkflow = False\<rparr>,
     sr_outcome = ''refused'', sr_reason = Some ''too-new-2'', sr_steps = [(''switch'', ''fail'')],
     sr_target = None, sr_user = False, sr_userMemoryRead = None, sr_at = 7\<rparr>"

definition save_row :: event where
  "save_row = stamp 9 \<lparr>e_ts = ''t'', e_id = ''i'', e_type = REFINEMENT_SAVE_EVENT, e_data = receipt_json save_a,
     e_actor = JNull, e_origin = ''system'', e_trusted = True, e_lane = Some ''refinement'', e_v = None,
     e_register = None, e_ignorable = True, e_surfaceOp = None, e_sourceEventSeqs = None\<rparr>"

theorem save_record_sound_witness:
  "foldRefinementSave save_row = Some (save_receipt.extend save_a (save_record.fields 9)) \<and> receipt_ok save_a"
proof -
  have h: "foldRefinementSave save_row = Some (save_receipt.extend save_a (save_record.fields 9))" by code_simp
  have "receipt_ok (save_receipt.extend save_a (save_record.fields 9)) = receipt_ok save_a"
    by (simp add: save_receipt.extend_def save_record.fields_def receipt_ok_def)
  with save_record_sound [OF h] h show ?thesis by simp
qed

end
