(* ===== verification/LedgerState.thy ===== *)
theory LedgerState imports ChunkedMap EntryMeta RefinementRun RefinementSave begin

text \<open>
  \<^verbatim>\<open>packages/core-ledger/src/reduce/state.ts\<close> and \<^verbatim>\<open>anchor.ts\<close>: everything the
  ledger folds to, and the tree of effects still in flight. A table is a JavaScript map from lanes, ids
  or register keys; a register cell holds the JSON of the row that set it.
\<close>

section \<open>Records\<close>

definition MAINTENANCE_LANE :: string where
  "MAINTENANCE_LANE = ''refinement''"

text \<open>
  A pending effect: \<^verbatim>\<open>Omit<EffectNode, 'children'>\<close>. The members an intent brings are the JSON
  of its row.
\<close>

record effect_node =
  en_effectId :: string
  en_lane :: string
  en_parentEffectId :: "json option"
  en_kind :: "json option"
  en_tool :: "json option"
  en_replay :: "json option"
  en_intentSeq :: int
  en_receiptSeq :: "int option"
  en_firstOutputSeq :: "int option"
  en_interruptedSeq :: "int option"
  en_argsSeq :: "json option"
  en_slot :: "json option"

record open_turn =
  ot_turn :: jsnum
  ot_startSeq :: int
  ot_trigger :: string
  ot_lastHeaderSeq :: "int option"

record open_step =
  os_turn :: jsnum
  os_step :: jsnum
  os_startSeq :: int

record tool_call =
  tc_seq :: int
  tc_name :: string
  tc_turn :: jsnum
  tc_step :: jsnum
  tc_lane :: string

record context_anchor =
  ca_seq :: int
  ca_total :: jsnum
  ca_cacheRead :: jsnum
  ca_input :: jsnum

type_synonym cells = "(string, reg_cell) jsmap"

record ledger_state =
  lg_lastSeq :: int
  lg_session :: "json option"
  lg_decisionStates :: cells
  lg_planItems :: cells
  lg_budgetState :: cells
  lg_artifactJobs :: cells
  lg_inbox :: cells
  lg_harnessEntries :: cells
  lg_openTurn :: "(string, open_turn) jsmap"
  lg_openStep :: "(string, open_step) jsmap"
  lg_lastTurn :: "(string, jsnum) jsmap"
  lg_lastStep :: "(string, jsnum) jsmap"
  lg_pending :: "(string, effect_node) jsmap"
  lg_resumed :: "string list"
  lg_taint :: "(string, bool) jsmap"
  lg_toolCalls :: "(string, tool_call) chunked_map"
  lg_creditsUsed :: jsnum
  lg_runs :: "(string, run_record) jsmap"
  lg_entryMeta :: "(string, entry_meta) jsmap"
  lg_tombstones :: "(string, entry_tombstone) jsmap"
  lg_saves :: "(string, save_record) jsmap"
  lg_lastLedgerTokens :: "context_anchor option"

definition initialState :: ledger_state where
  "initialState = \<lparr>lg_lastSeq = 0, lg_session = None, lg_decisionStates = [], lg_planItems = [],
     lg_budgetState = [], lg_artifactJobs = [], lg_inbox = [], lg_harnessEntries = [], lg_openTurn = [],
     lg_openStep = [], lg_lastTurn = [], lg_lastStep = [], lg_pending = [], lg_resumed = [], lg_taint = [],
     lg_toolCalls = cm_empty, lg_creditsUsed = num_of_int 0, lg_runs = [], lg_entryMeta = [],
     lg_tombstones = [], lg_saves = [], lg_lastLedgerTokens = None\<rparr>"

section \<open>The context anchor\<close>

text \<open>
  The operator \<^verbatim>\<open>+\<close> on the numbers of a row; a missing or a non-numeric operand makes the sum
  \<^verbatim>\<open>NaN\<close>, and a text operand, which the source would concatenate, is left out by the same value.
\<close>

fun js_plus :: "jsnum \<Rightarrow> jsnum \<Rightarrow> jsnum" where
  "js_plus (Fin a) (Fin b) = Fin (a + b)"
| "js_plus NaN _ = NaN"
| "js_plus _ NaN = NaN"
| "js_plus (Infinity a) (Infinity b) = (if a = b then Infinity a else NaN)"
| "js_plus (Infinity a) (Fin _) = Infinity a"
| "js_plus (Fin _) (Infinity b) = Infinity b"

definition num_operand :: "json option \<Rightarrow> jsnum" where
  "num_operand v = (case v of Some (JStr _) \<Rightarrow> NaN | Some (JArr _) \<Rightarrow> NaN | _ \<Rightarrow> js_number v)"

text \<open>Reading a member of \<^verbatim>\<open>null\<close> or of an absent value throws.\<close>

definition type_error :: "'a res" where
  "type_error = Inl (PlainError ''TypeError'')"

lemma type_error_neq [simp]: "type_error \<noteq> Inr x" "Inr x \<noteq> type_error"
  by (simp_all add: type_error_def)

definition contextAnchorOf :: "event \<Rightarrow> context_anchor option res" where
  "contextAnchorOf e =
     (let d = Some (e_data e); after = jget d ''tokensAfter''; tk = jget d ''tokens'';
          inp = num_operand (jget tk ''input''); out = num_operand (jget tk ''output'');
          cr = num_operand (jget tk ''cacheRead''); cw = num_operand (jget tk ''cacheWrite'') in
      if e_type e = ''x/core/compaction-end'' then
        Inr (case after of
            Some (JNum n) \<Rightarrow>
              if \<bar>n\<bar> \<le> max_safe_integer \<and> n \<ge> 0
              then Some \<lparr>ca_seq = e_seq e, ca_total = num_of_int n, ca_cacheRead = num_of_int 0, ca_input = num_of_int n\<rparr>
              else None
          | _ \<Rightarrow> None)
      else if e_type e \<noteq> ''cost/ledger'' then Inr None
      else if e_data e = JNull then type_error
      else if jget d ''purpose'' \<noteq> Some (JStr ''inference'') \<or> js_truthy (jget d ''interrupted'')
         \<or> js_truthy (jget d ''adjustment'') then Inr None
      else if nullish tk then type_error
      else Inr (Some \<lparr>ca_seq = e_seq e, ca_total = js_plus (js_plus (js_plus inp out) cr) cw,
             ca_cacheRead = cr, ca_input = inp\<rparr>))"

section \<open>The tree of pending effects\<close>

datatype effect_tree = Effect effect_node "effect_tree list"

text \<open>The effects a tree is built of: those of the lane, in the order of the table.\<close>

definition tree_nodes :: "ledger_state \<Rightarrow> string option \<Rightarrow> effect_node list" where
  "tree_nodes s lane = filter (\<lambda>p. \<forall>l \<in> set_option lane. en_lane p = l) (jm_values (lg_pending s))"

definition parent_in :: "effect_node list \<Rightarrow> effect_node \<Rightarrow> effect_node option" where
  "parent_in ns n = (case en_parentEffectId n of
       Some (JStr p) \<Rightarrow> find (\<lambda>m. en_effectId m = p) ns
     | _ \<Rightarrow> None)"

text \<open>
  The children of a node, in the order of the table. The depth bound is the number of nodes: every node
  has one parent, so a path down from a root meets no node twice.
\<close>

fun subtree :: "nat \<Rightarrow> effect_node list \<Rightarrow> effect_node \<Rightarrow> effect_tree" where
  "subtree 0 ns n = Effect n []"
| "subtree (Suc k) ns n = Effect n (map (subtree k ns) (filter (\<lambda>m. parent_in ns m = Some n) ns))"

definition effectTree :: "ledger_state \<Rightarrow> string option \<Rightarrow> effect_tree list" where
  "effectTree s lane =
     (let ns = tree_nodes s lane in
      map (subtree (length ns) ns) (sort_key en_intentSeq (filter (\<lambda>n. parent_in ns n = None) ns)))"

end
