(* ===== verification/Migrate.thy ===== *)
theory Migrate imports Storage Regex begin

text \<open>
  Event types and row versions: \<^verbatim>\<open>EVENT_TYPES\<close> and \<^verbatim>\<open>isEventType\<close> of
  \<^verbatim>\<open>packages/protocol/src/constants.ts\<close> with the extension pattern of the session schema, and the
  migration registry of \<^verbatim>\<open>packages/protocol/src/migrate.ts\<close>. The registry is a value here: the
  module's table is an argument of every function that reads it.
\<close>

section \<open>Event types\<close>

definition EVENT_TYPES :: "string list" where
  "EVENT_TYPES = [''session/start'', ''turn/start'', ''turn/end'', ''step/start'', ''step/end'',
     ''user/message'', ''assistant/message'', ''tool/result'',
     ''assistant/output'', ''tool/call'', ''request/header'', ''request/sent'',
     ''plan.items'', ''budget.state'', ''artifact/job'', ''inbox'', ''harness/entry'',
     ''effect/intent'', ''effect/settled'', ''verifier/signal'', ''repair/decision'', ''format/deviation'',
     ''cost/ledger'', ''decision/state'', ''feedback/rating'', ''feedback/implicit'', ''participant'',
     ''harness/refine'', ''subagent/cost'']"

text \<open>\<^verbatim>\<open>^x\/[a-zA-Z0-9._-]+\/[^\s]+$\<close>, on 8-bit code units.\<close>

definition c_not_space :: cls where
  "c_not_space = [(0, 8), (14, 31), (33, 159), (161, 255)]"

definition EXT_EVENT_PATTERN :: rx where
  "EXT_EVENT_PATTERN = Seq (lit ''x/'') (Seq (some_of (Cls (c_alnum @ c_chars ''._-'')))
     (Seq (chr CHR ''/'') (some_of (Cls c_not_space))))"

definition isEventType :: "string \<Rightarrow> bool" where
  "isEventType s = (s \<in> set EVENT_TYPES \<or> rx_full EXT_EVENT_PATTERN s)"

section \<open>The registry\<close>

type_synonym migrations = "(string, json \<Rightarrow> json) jsmap"

definition CURRENT_V :: int where
  "CURRENT_V = 1"

definition migration_key :: "string \<Rightarrow> int \<Rightarrow> string" where
  "migration_key ty v = ty @ CHR ''@'' # int_string v"

definition registerMigration :: "migrations \<Rightarrow> string \<Rightarrow> int \<Rightarrow> (json \<Rightarrow> json) \<Rightarrow> migrations res" where
  "registerMigration table ty fromV up =
     (let key = migration_key ty fromV in
      if jm_has table key then Inl (PlainError ''duplicate migration'')
      else if fromV \<ge> CURRENT_V then Inl (PlainError ''migration must target a past version'')
      else Inr (jm_set table key up))"

definition resetMigrations :: "migrations \<Rightarrow> migrations" where
  "resetMigrations table = []"

text \<open>The part of a key before and after its last at sign, and the piece after its first.\<close>

definition before_last_at :: "string \<Rightarrow> string" where
  "before_last_at k = rev (drop 1 (dropWhile (\<lambda>c. c \<noteq> CHR ''@'') (rev k)))"

definition after_last_at :: "string \<Rightarrow> string" where
  "after_last_at k = rev (takeWhile (\<lambda>c. c \<noteq> CHR ''@'') (rev k))"

definition second_piece :: "string \<Rightarrow> string" where
  "second_piece k = takeWhile (\<lambda>c. c \<noteq> CHR ''@'') (drop 1 (dropWhile (\<lambda>c. c \<noteq> CHR ''@'') k))"

definition listMigrations :: "migrations \<Rightarrow> (string \<times> jsnum) list" where
  "listMigrations table = map (\<lambda>k. (before_last_at k, number_of_string (after_last_at k))) (jm_keys table)"

definition js_min :: "jsnum \<Rightarrow> jsnum \<Rightarrow> jsnum" where
  "js_min x y = (if x = NaN \<or> y = NaN then NaN else if js_lt y x then y else x)"

definition supportedVersions :: "migrations \<Rightarrow> jsnum \<times> int" where
  "supportedVersions table =
     (foldl (\<lambda>m k. js_min m (number_of_string (second_piece k))) (num_of_int CURRENT_V) (jm_keys table), CURRENT_V)"

section \<open>Normalizing a row\<close>

function migrate_from :: "migrations \<Rightarrow> string \<Rightarrow> int \<Rightarrow> json \<Rightarrow> (int \<times> json) res" where
  "migrate_from table ty v d =
     (if v < CURRENT_V then
        (case jm_get table (migration_key ty v) of
           None \<Rightarrow> Inl (PlainError ''E_UNSUPPORTED_VERSION: no migration'')
         | Some up \<Rightarrow> migrate_from table ty (v + 1) (up d))
      else Inr (v, d))"
  by pat_completeness auto
termination by (relation "measure (\<lambda>(table, ty, v, d). nat (CURRENT_V - v))") auto

declare migrate_from.simps [simp del]

definition normalize :: "migrations \<Rightarrow> event \<Rightarrow> event res" where
  "normalize table e =
     (let v0 = (case e_v e of Some v \<Rightarrow> v | None \<Rightarrow> CURRENT_V) in
      if \<not> isEventType (e_type e) \<and> \<not> e_ignorable e then Inl (PlainError ''E_UNKNOWN_EVENT'')
      else if v0 > CURRENT_V then Inl (PlainError ''E_UNSUPPORTED_VERSION'')
      else rbind (migrate_from table (e_type e) v0 (e_data e)) (\<lambda>(v, d). Inr (e\<lparr>e_v := Some v, e_data := d\<rparr>)))"

section \<open>What normalizing promises\<close>

lemma int_string_no_at: "CHR ''@'' \<notin> set (int_string v)"
proof -
  have "CHR ''@'' \<notin> set (nat_digits n)" for n
    using nat_digits_digits [of n] by (auto simp: list_all_iff is_digit_def)
  then show ?thesis by (simp add: int_string_def)
qed

lemma after_last_at_key: "after_last_at (migration_key ty v) = int_string v"
  and before_last_at_key: "before_last_at (migration_key ty v) = ty"
proof -
  have w: "takeWhile P (xs @ [x] @ ys) = xs" "dropWhile P (xs @ [x] @ ys) = x # ys"
    if "\<forall>z \<in> set xs. P z" "\<not> P x" for P :: "char \<Rightarrow> bool" and xs x ys
    using that by (auto simp: takeWhile_append2 dropWhile_append2)
  have r: "rev (migration_key ty v) = rev (int_string v) @ [CHR ''@''] @ rev ty"
    by (simp add: migration_key_def)
  have n: "\<forall>z \<in> set (rev (int_string v)). z \<noteq> CHR ''@''" using int_string_no_at [of v] by auto
  show "after_last_at (migration_key ty v) = int_string v" "before_last_at (migration_key ty v) = ty"
    unfolding after_last_at_def before_last_at_def r using w [OF n] by simp_all
qed

lemma migration_key_inject: "migration_key a v = migration_key b w \<longleftrightarrow> a = b \<and> v = w"
  by (metis after_last_at_key before_last_at_key int_string_inject)

text \<open>A chain of registered migrations from a version to the current one is walked to its end.\<close>

lemma migrate_chain:
  "\<forall>k < n. jm_get table (migration_key ty (CURRENT_V - int n + int k)) = Some (ups k) \<Longrightarrow>
   migrate_from table ty (CURRENT_V - int n) d = Inr (CURRENT_V, fold ups [0..<n] d)"
proof (induction n arbitrary: d ups)
  case 0
  show ?case by (simp add: migrate_from.simps)
next
  case (Suc n)
  have h: "jm_get table (migration_key ty (CURRENT_V - int (Suc n))) = Some (ups 0)"
    using Suc.prems by (metis add.right_neutral of_nat_0 zero_less_Suc)
  have "\<forall>k < n. jm_get table (migration_key ty (CURRENT_V - int n + int k)) = Some (ups (Suc k))"
  proof (intro allI impI)
    fix k assume "k < n"
    then have "jm_get table (migration_key ty (CURRENT_V - int (Suc n) + int (Suc k))) = Some (ups (Suc k))"
      using Suc.prems by (meson Suc_less_eq)
    then show "jm_get table (migration_key ty (CURRENT_V - int n + int k)) = Some (ups (Suc k))"
      by (simp add: algebra_simps)
  qed
  from Suc.IH [OF this, of "ups 0 d"]
  have "migrate_from table ty (CURRENT_V - int n) (ups 0 d) = Inr (CURRENT_V, fold (\<lambda>k. ups (Suc k)) [0..<n] (ups 0 d))" .
  moreover have "fold (\<lambda>k. ups (Suc k)) [0..<n] x = fold ups [1..<Suc n] x" for x
    by (simp add: map_Suc_upt [symmetric] fold_map comp_def del: upt_Suc)
  moreover have "[0..<Suc n] = 0 # [1..<Suc n]" by (simp add: upt_conv_Cons del: upt_Suc)
  ultimately show ?case using h by (subst migrate_from.simps) (simp add: algebra_simps del: upt_Suc)
qed

lemma migrate_current: "migrate_from table ty CURRENT_V d = Inr (CURRENT_V, d)"
  by (simp add: migrate_from.simps)

lemma migrate_from_current: "v \<le> CURRENT_V \<Longrightarrow> migrate_from table ty v d = Inr (w, x) \<Longrightarrow> w = CURRENT_V"
proof (induction table ty v d rule: migrate_from.induct)
  case (1 table ty v d)
  then show ?case by (subst (asm) migrate_from.simps) (auto split: if_splits option.splits)
qed

lemma normalize_view:
  assumes "normalize table e = Inr e'"
  shows "e_v e' = Some CURRENT_V" "e_type e' = e_type e" "e_seq e' = e_seq e" "lane_of e' = lane_of e"
    "e_origin e' = e_origin e" "e_trusted e' = e_trusted e" "e_register e' = e_register e"
    "e_sourceEventSeqs e' = e_sourceEventSeqs e"
    "e_v e = None \<or> e_v e = Some CURRENT_V \<Longrightarrow> e_data e' = e_data e"
proof -
  define v0 where "v0 = (case e_v e of Some v \<Rightarrow> v | None \<Rightarrow> CURRENT_V)"
  obtain w d where m: "v0 \<le> CURRENT_V" "migrate_from table (e_type e) v0 (e_data e) = Inr (w, d)"
    "e' = e\<lparr>e_v := Some w, e_data := d\<rparr>"
    using assms by (auto simp: normalize_def Let_def v0_def res_simps split: if_splits)
  have w: "w = CURRENT_V" using migrate_from_current [OF m(1,2)] .
  show "e_v e' = Some CURRENT_V" "e_type e' = e_type e" "e_seq e' = e_seq e" "lane_of e' = lane_of e"
    "e_origin e' = e_origin e" "e_trusted e' = e_trusted e" "e_register e' = e_register e"
    "e_sourceEventSeqs e' = e_sourceEventSeqs e"
    by (simp_all add: m(3) w lane_of_def)
  assume "e_v e = None \<or> e_v e = Some CURRENT_V"
  then have "v0 = CURRENT_V" by (auto simp: v0_def)
  then show "e_data e' = e_data e" using m(2,3) by (simp add: migrate_current)
qed

text \<open>
  A row of version one minus n is read as its data put through the n registered migrations of its
  type, in order, at the current version; a row that is at the current version, named or not, keeps its
  data; and normalizing a normalized row changes nothing.
\<close>

theorem normalize_composes:
  assumes v: "(case e_v e of Some v \<Rightarrow> v | None \<Rightarrow> CURRENT_V) = CURRENT_V - int n"
    and known: "isEventType (e_type e)"
    and chain: "\<forall>k < n. jm_get table (migration_key (e_type e) (CURRENT_V - int n + int k)) = Some (ups k)"
  shows "normalize table e = Inr (e\<lparr>e_v := Some CURRENT_V, e_data := fold ups [0..<n] (e_data e)\<rparr>)
    \<and> (\<forall>e'. normalize table e = Inr e' \<longrightarrow> normalize table e' = Inr e')"
proof -
  have n: "normalize table e = Inr (e\<lparr>e_v := Some CURRENT_V, e_data := fold ups [0..<n] (e_data e)\<rparr>)"
    using known migrate_chain [OF chain, of "e_data e"] by (simp add: normalize_def Let_def v)
  moreover have "normalize table e' = Inr e'" if "normalize table e = Inr e'" for e'
    using that n known by (simp add: normalize_def Let_def migrate_current)
  ultimately show ?thesis by blast
qed

text \<open>
  The oldest version a registry reads is found by cutting each key at its first at sign, although an
  extension's type may hold one and \<open>listMigrations\<close> cuts at the last: the registry below migrates from
  version 0, and is said to start at 1.
\<close>

lemma supported_versions_misread:
  "\<exists>table. registerMigration [] ''x/acme/ping@2'' 0 (\<lambda>d. d) = Inr table \<and> isEventType ''x/acme/ping@2''
     \<and> listMigrations table = [(''x/acme/ping@2'', num_of_int 0)] \<and> supportedVersions table = (num_of_int 1, 1)"
proof -
  let ?t = "[(''x/acme/ping@2@0'', \<lambda>d :: json. d)]"
  have "registerMigration [] ''x/acme/ping@2'' 0 (\<lambda>d. d) = Inr ?t"
  proof -
    have "migration_key ''x/acme/ping@2'' 0 = ''x/acme/ping@2@0''" by code_simp
    then show ?thesis by (simp add: registerMigration_def CURRENT_V_def)
  qed
  moreover have "isEventType ''x/acme/ping@2''" "listMigrations ?t = [(''x/acme/ping@2'', num_of_int 0)]"
    "supportedVersions ?t = (num_of_int 1, 1)" by code_simp+
  ultimately show ?thesis by blast
qed

end
