(* ===== verification/CommandSplit.thy ===== *)
theory CommandSplit
  imports Regex
begin

text \<open>
  The conservative shell splitter, \<^verbatim>\<open>core-common/src/command-table/split.ts\<close>. The index of the source's
  loop is the text still to be read; \<open>None\<close> is the \<^verbatim>\<open>undefined\<close> of a command it does not understand.
\<close>

section \<open>The tables\<close>

definition OPERATORS :: "string list" where
  "OPERATORS = [''&&'', ''||'', '';'', ''|'']"

definition NL :: char where "NL = CHR 0x0A"
definition CR :: char where "CR = CHR 0x0D"
definition NUL0 :: char where "NUL0 = CHR 0x00"
definition TAB :: char where "TAB = CHR 0x09"
definition SQ :: char where "SQ = CHR 0x27"
definition DQ :: char where "DQ = CHR 0x22"
definition BACKSLASH :: char where "BACKSLASH = CHR 0x5C"
definition BACKTICK :: char where "BACKTICK = CHR 0x60"

definition OPAQUE_UNQUOTED :: "char list" where
  "OPAQUE_UNQUOTED = [CHR ''$'', BACKTICK, CHR ''<'', CHR ''>'', CHR ''('', CHR '')'', CHR ''{'', CHR ''}'',
     CHR ''&'', CHR ''*'', CHR ''?'', CHR ''['', CHR ''^'', CHR ''%'', BACKSLASH, CHR ''!'', NL, CR, NUL0]"

definition OPAQUE_DOUBLE :: "char list" where
  "OPAQUE_DOUBLE = [CHR ''$'', BACKTICK, BACKSLASH, NL, CR, NUL0]"

definition RESERVED :: "string list" where
  "RESERVED = [''if'', ''then'', ''else'', ''elif'', ''fi'', ''while'', ''until'', ''for'', ''do'', ''done'', ''case'',
     ''esac'', ''select'', ''function'', ''coproc'', ''time'', ''!'', ''[['', '']]'', ''exec'', ''eval'', ''source'',
     ''.'', ''command'', ''builtin'']"

definition ident_start :: cls where
  "ident_start = c_letter @ c_chars ''_''"

definition ASSIGNMENT :: rx where
  "ASSIGNMENT = seq_all [Cls ident_start, Star (Cls c_word), opt (chr (CHR ''+'')), chr (CHR ''='')]"

text \<open>\<^verbatim>\<open>RESERVED.has(words[0]) || ASSIGNMENT.test(words[0])\<close>; it is only asked of commands with a word.\<close>

definition unusable :: "string list \<Rightarrow> bool" where
  "unusable ws = (case ws of [] \<Rightarrow> False | w # _ \<Rightarrow> w \<in> set RESERVED \<or> rx_starts ASSIGNMENT w)"

definition BLANK :: "char \<Rightarrow> bool" where
  "BLANK c \<longleftrightarrow> c = CHR '' '' \<or> c = TAB"

section \<open>The splitter\<close>

definition starts_with :: "string \<Rightarrow> string \<Rightarrow> bool" where
  "starts_with s p \<longleftrightarrow> take (length p) s = p"

text \<open>\<^verbatim>\<open>s.indexOf(c)\<close>\<close>

fun index_of :: "char \<Rightarrow> string \<Rightarrow> nat option" where
  "index_of c [] = None"
| "index_of c (d # s) = (if d = c then Some 0 else map_option Suc (index_of c s))"

definition find_op :: "string \<Rightarrow> string option" where
  "find_op s = find (starts_with s) OPERATORS"

definition endWord :: "string list \<Rightarrow> string option \<Rightarrow> string list" where
  "endWord ws w = (case w of Some x \<Rightarrow> ws @ [x] | None \<Rightarrow> ws)"

definition onto :: "string option \<Rightarrow> string \<Rightarrow> string option" where
  "onto w s = Some ((case w of Some x \<Rightarrow> x | None \<Rightarrow> '''') @ s)"

definition bad_body :: "char \<Rightarrow> string \<Rightarrow> bool" where
  "bad_body q body =
     (if q = DQ then \<exists>c \<in> set body. c \<in> set OPAQUE_DOUBLE else \<exists>c \<in> set body. c \<in> {NL, CR, NUL0})"

lemma index_of_Some:
  "index_of c s = Some n \<Longrightarrow> n < length s \<and> s = take n s @ c # drop (Suc n) s \<and> c \<notin> set (take n s)"
  by (induction s arbitrary: n) (auto split: if_splits)

lemma index_of_None: "index_of c s = None \<longleftrightarrow> c \<notin> set s"
  by (induction s) auto

lemma index_of_append: "c \<notin> set s \<Longrightarrow> index_of c (s @ c # t) = Some (length s)"
  by (induction s) auto

lemma find_SomeD: "find P xs = Some x \<Longrightarrow> x \<in> set xs \<and> P x"
  by (induction xs) (auto split: if_splits)

lemma starts_with_append: "starts_with s p \<Longrightarrow> s = p @ drop (length p) s"
  unfolding starts_with_def by (metis append_take_drop_id)

lemma find_op_Some:
  assumes "find_op s = Some p"
  shows "p \<in> set OPERATORS \<and> s = p @ drop (length p) s \<and> p \<noteq> []"
proof -
  from assms have "p \<in> set OPERATORS" "starts_with s p" unfolding find_op_def by (simp_all add: find_SomeD)
  then show ?thesis by (auto dest: starts_with_append simp: OPERATORS_def)
qed

function (sequential) split_loop ::
  "string \<Rightarrow> string list list \<Rightarrow> string list \<Rightarrow> string option \<Rightarrow> string option \<Rightarrow> string list list option" where
  "split_loop [] cmds ws w lastOp =
     (let ws' = endWord ws w in
      if ws' \<noteq> [] then (if unusable ws' then None else Some (cmds @ [ws']))
      else if cmds = [] \<or> lastOp \<noteq> Some '';'' then None else Some cmds)"
| "split_loop (ch # rest) cmds ws w lastOp =
     (if BLANK ch then split_loop rest cmds (endWord ws w) None lastOp
      else case find_op (ch # rest) of
        Some p \<Rightarrow>
          (let ws' = endWord ws w in
           if ws' = [] \<or> unusable ws' then None
           else split_loop (drop (length p) (ch # rest)) (cmds @ [ws']) [] None (Some p))
      | None \<Rightarrow>
          if ch = SQ \<or> ch = DQ
          then (case index_of ch rest of
              None \<Rightarrow> None
            | Some n \<Rightarrow> let body = take n rest in
                if bad_body ch body then None
                else split_loop (drop (Suc n) rest) cmds ws (onto w body) lastOp)
          else if ch \<in> set OPAQUE_UNQUOTED then None
          else if (ch = CHR ''~'' \<or> ch = CHR ''='') \<and> w = None then None
          else if ch = CHR ''#'' \<and> w = None then None
          else split_loop rest cmds ws (onto w [ch]) lastOp)"
  by pat_completeness auto
termination
  by (relation "measure (\<lambda>(s, _). length s)")
    (auto dest!: find_op_Some index_of_Some simp: length_greater_0_conv [symmetric] simp del: length_greater_0_conv)

definition splitShellCommand :: "string \<Rightarrow> string list list option" where
  "splitShellCommand command =
     (if \<exists>c \<in> set command. code c > 127 then None else split_loop command [] [] None None)"

declare split_loop.simps [simp del]

lemmas split_end = split_loop.simps(1)
lemmas split_char = split_loop.simps(2)

section \<open>What the splitter understood\<close>

text \<open>
  A reading of the text that is independent of the splitter: the characters outside blanks and
  operators, each with the quote it stands in.
\<close>

function (sequential) shell_chars :: "char option \<Rightarrow> string \<Rightarrow> (char option \<times> char) list" where
  "shell_chars q [] = []"
| "shell_chars (Some q) (c # s) =
     (if c = q then shell_chars None s else (Some q, c) # shell_chars (Some q) s)"
| "shell_chars None (c # s) =
     (if BLANK c then shell_chars None s
      else case find_op (c # s) of
        Some p \<Rightarrow> shell_chars None (drop (length p) (c # s))
      | None \<Rightarrow>
          if c = SQ \<or> c = DQ then shell_chars (Some c) s else (None, c) # shell_chars None s)"
  by pat_completeness auto
termination
  by (relation "measure (\<lambda>(q, s). length s)")
    (auto dest!: find_op_Some simp: length_greater_0_conv [symmetric] simp del: length_greater_0_conv)

definition literal :: "char option \<times> char \<Rightarrow> bool" where
  "literal qc = (case qc of
       (None, c) \<Rightarrow> c \<notin> set OPAQUE_UNQUOTED
     | (Some q, c) \<Rightarrow> if q = DQ then c \<notin> set OPAQUE_DOUBLE else c \<notin> {NL, CR, NUL0})"

definition usable :: "string list \<Rightarrow> bool" where
  "usable ws \<longleftrightarrow> ws \<noteq> [] \<and> \<not> unusable ws"

definition word_text :: "string option \<Rightarrow> string" where
  "word_text w = (case w of Some x \<Rightarrow> x | None \<Rightarrow> '''')"

lemma endWord_text [simp]: "concat (endWord ws w) = concat ws @ word_text w"
  by (simp add: endWord_def word_text_def split: option.splits)

lemma onto_text [simp]: "word_text (onto w s) = word_text w @ s"
  by (simp add: onto_def word_text_def)

lemma word_text_None [simp]: "word_text None = []"
  by (simp add: word_text_def)

lemma shell_chars_quoted:
  assumes "index_of q s = Some n"
  shows "shell_chars (Some q) s = map (Pair (Some q)) (take n s) @ shell_chars None (drop (Suc n) s)"
  using assms by (induction s arbitrary: n) (auto split: if_splits)

lemma split_loop_reads:
  assumes "split_loop s cmds ws w lastOp = Some out" "\<forall>c \<in> set cmds. usable c"
  shows "(\<forall>c \<in> set out. usable c) \<and> out \<noteq> [] \<and> (\<forall>qc \<in> set (shell_chars None s). literal qc)
    \<and> concat (concat out) = concat (concat cmds) @ concat ws @ word_text w @ map snd (shell_chars None s)"
  using assms
proof (induction s cmds ws w lastOp rule: split_loop.induct)
  case (1 cmds ws w lastOp)
  have words: "concat (endWord ws w) = concat ws @ word_text w" by simp
  show ?case
  proof (cases "endWord ws w = []")
    case True
    with 1 words show ?thesis by (auto simp: split_end split: if_splits)
  next
    case False
    with 1 words show ?thesis by (auto simp: split_end usable_def Let_def split: if_splits)
  qed
next
  case (2 ch rest cmds ws w lastOp)
  show ?case
  proof (cases "BLANK ch")
    case True
    with 2(1) [OF True] 2(5,6) show ?thesis by (simp add: split_char)
  next
    case nblank: False
    show ?thesis
    proof (cases "find_op (ch # rest)")
      case (Some p)
      with nblank 2(5) have ok: "usable (endWord ws w)"
        and go: "split_loop (drop (length p) (ch # rest)) (cmds @ [endWord ws w]) [] None (Some p) = Some out"
        by (auto simp: split_char Let_def usable_def split: if_splits)
      from ok have "\<not> (endWord ws w = [] \<or> unusable (endWord ws w))" "\<forall>a \<in> set (cmds @ [endWord ws w]). usable a"
        using 2(6) by (auto simp: usable_def)
      with 2(4) [OF nblank Some refl] go nblank Some show ?thesis by simp
    next
      case nop: None
      show ?thesis
      proof (cases "ch = SQ \<or> ch = DQ")
        case quote: True
        with nblank nop 2(5) obtain n where n: "index_of ch rest = Some n"
          and good: "\<not> bad_body ch (take n rest)"
          and go: "split_loop (drop (Suc n) rest) cmds ws (onto w (take n rest)) lastOp = Some out"
          by (auto simp: split_char Let_def split: option.splits if_splits)
        from quote good have lit: "\<forall>c \<in> set (take n rest). literal (Some ch, c)"
          by (auto simp: literal_def bad_body_def)
        from 2(2) [OF nblank nop quote n refl good go 2(6)] nblank nop quote lit show ?thesis
          by (auto simp: shell_chars_quoted [OF n] comp_def)
      next
        case plain: False
        with nblank nop 2(5) have op: "ch \<notin> set OPAQUE_UNQUOTED"
          and t: "\<not> ((ch = CHR ''~'' \<or> ch = CHR ''='') \<and> w = None)" "\<not> (ch = CHR ''#'' \<and> w = None)"
          and go: "split_loop rest cmds ws (onto w [ch]) lastOp = Some out"
          by (auto simp: split_char split: if_splits)
        from 2(3) [OF nblank nop plain op t go 2(6)] nblank nop plain op show ?thesis
          by (auto simp: literal_def)
      qed
    qed
  qed
qed

text \<open>
  C28. Nothing the splitter accepts is more than plain words. When it returns commands, no character
  outside quotes opens a substitution, redirection, group, glob, escape or background job, no
  character inside double quotes is one the shell expands there, every command has a first word that
  is neither a reserved word nor an assignment, and the words hold exactly the text's characters, in
  order, less blanks, operators and quotes.
\<close>

theorem split_faithful:
  assumes "splitShellCommand c = Some cmds"
  shows "(\<forall>(q, ch) \<in> set (shell_chars None c). case q of
        None \<Rightarrow> ch \<notin> set OPAQUE_UNQUOTED
      | Some d \<Rightarrow> if d = DQ then ch \<notin> set OPAQUE_DOUBLE else ch \<notin> {NL, CR, NUL0})
    \<and> cmds \<noteq> [] \<and> (\<forall>ws \<in> set cmds. ws \<noteq> [] \<and> \<not> unusable ws)
    \<and> concat (concat cmds) = map snd (shell_chars None c)
    \<and> (\<forall>ch \<in> set c. code ch \<le> 127)"
proof -
  from assms have asc: "\<forall>ch \<in> set c. code ch \<le> 127" and "split_loop c [] [] None None = Some cmds"
    by (auto simp: splitShellCommand_def split: if_splits)
  with split_loop_reads [OF this(2)] show ?thesis by (auto simp: usable_def literal_def split: prod.splits)
qed

theorem split_faithful_witness:
  "concat (concat [[''git'', ''commit'', ''-m'', ''a b''], [''ls'']])
     = map snd (shell_chars None ''git commit -m \"a b\" && ls;'')"
proof -
  have "splitShellCommand ''git commit -m \"a b\" && ls;''
      = Some [[''git'', ''commit'', ''-m'', ''a b''], [''ls'']]" by code_simp
  from split_faithful [OF this] show ?thesis by blast
qed

section \<open>Printing and splitting\<close>

definition quote_word :: "string \<Rightarrow> string" where
  "quote_word w = SQ # w @ [SQ]"

definition render_cmd :: "string list \<Rightarrow> string" where
  "render_cmd ws = join_strings '' '' (map quote_word ws)"

definition render :: "string list list \<Rightarrow> string" where
  "render cmds = join_strings '' && '' (map render_cmd cmds)"

definition plain_word :: "string \<Rightarrow> bool" where
  "plain_word w \<longleftrightarrow> (\<forall>c \<in> set w. code c \<le> 127 \<and> c \<notin> {SQ, NL, CR, NUL0})"

definition printable :: "string list list \<Rightarrow> bool" where
  "printable cmds \<longleftrightarrow> cmds \<noteq> [] \<and> (\<forall>ws \<in> set cmds. usable ws \<and> (\<forall>w \<in> set ws. plain_word w))"

lemma find_op_SQ [simp]: "find_op (SQ # s) = None"
  by (simp add: find_op_def OPERATORS_def starts_with_def SQ_def)

lemma find_op_and [simp]: "find_op (CHR ''&'' # CHR ''&'' # s) = Some ''&&''"
  by (simp add: find_op_def OPERATORS_def starts_with_def)

lemma split_quoted:
  assumes "plain_word w"
  shows "split_loop (quote_word w @ s) cmds ws None l = split_loop s cmds ws (Some w) l"
proof -
  have "SQ \<notin> set w" "\<not> bad_body SQ w" using assms by (auto simp: plain_word_def bad_body_def SQ_def DQ_def)
  then show ?thesis
    by (simp add: quote_word_def split_char BLANK_def SQ_def [symmetric] index_of_append onto_def Let_def)
      (simp add: SQ_def TAB_def)
qed

lemma split_blank: "split_loop (CHR '' '' # s) cmds ws w l = split_loop s cmds (endWord ws w) None l"
  by (simp add: split_char BLANK_def)

lemma split_render_cmd:
  assumes "\<forall>w \<in> set (v # vs). plain_word w"
  shows "\<exists>us u. v # vs = us @ [u]
    \<and> (\<forall>ws. split_loop (render_cmd (v # vs) @ s) cmds ws None l = split_loop s cmds (ws @ us) (Some u) l)"
  using assms
proof (induction vs arbitrary: v)
  case Nil
  then show ?case by (auto simp: render_cmd_def split_quoted)
next
  case (Cons x vs)
  then obtain us u where u: "x # vs = us @ [u]"
    and go: "\<forall>ws. split_loop (render_cmd (x # vs) @ s) cmds ws None l = split_loop s cmds (ws @ us) (Some u) l"
    by force
  have "split_loop (render_cmd (v # x # vs) @ s) cmds ws None l = split_loop s cmds (ws @ (v # us)) (Some u) l" for ws
    using Cons.prems go by (simp add: render_cmd_def split_quoted split_blank endWord_def)
  with u show ?case by (metis append_Cons)
qed

lemma split_render_loop:
  assumes "printable cmds"
  shows "split_loop (render cmds) done [] None l = Some (done @ cmds)"
  using assms
proof (induction cmds arbitrary: "done" l)
  case Nil
  then show ?case by (simp add: printable_def)
next
  case (Cons ws cmds)
  then obtain v vs where ws: "ws = v # vs" and plain: "\<forall>w \<in> set (v # vs). plain_word w" and ok: "\<not> unusable ws"
    by (cases ws) (auto simp: printable_def usable_def)
  show ?case
  proof (cases cmds)
    case Nil
    from split_render_cmd [OF plain, of "[]" "done" l] obtain us u where "ws = us @ [u]"
      "split_loop (render_cmd ws) done [] None l = split_loop [] done us (Some u) l"
      unfolding ws by auto
    with ok Nil show ?thesis by (simp add: render_def split_end endWord_def)
  next
    case (Cons c cs)
    from split_render_cmd [OF plain, of "'' && '' @ render cmds" "done" l] obtain us u where u: "ws = us @ [u]"
      "split_loop (render_cmd ws @ '' && '' @ render cmds) done [] None l
         = split_loop ('' && '' @ render cmds) done us (Some u) l"
      unfolding ws by auto
    have "split_loop ('' && '' @ render cmds) done us (Some u) l = split_loop (render cmds) (done @ [ws]) [] None (Some ''&&'')"
      using ok u(1) by (simp add: split_blank endWord_def) (simp add: split_char BLANK_def TAB_def endWord_def)
    moreover have "render (ws # cmds) = render_cmd ws @ '' && '' @ render cmds" by (simp add: render_def Cons)
    moreover have "printable cmds" using Cons.prems Cons by (auto simp: printable_def)
    ultimately show ?thesis using u Cons.IH by simp
  qed
qed

definition ascii :: "string \<Rightarrow> bool" where
  "ascii s \<longleftrightarrow> list_all (\<lambda>c. code c \<le> 127) s"

lemma ascii_join: "ascii sep \<Longrightarrow> list_all ascii xs \<Longrightarrow> ascii (join_strings sep xs)"
  by (induction sep xs rule: join_strings.induct) (auto simp: ascii_def)

lemma ascii_quote: "plain_word w \<Longrightarrow> ascii (quote_word w)"
  by (simp add: ascii_def quote_word_def plain_word_def list_all_iff code_def SQ_def)

lemma ascii_sep: "ascii '' ''" "ascii '' && ''"
  by (simp_all add: ascii_def code_def)

lemma ascii_render_cmd: "\<forall>w \<in> set ws. plain_word w \<Longrightarrow> ascii (render_cmd ws)"
  unfolding render_cmd_def by (rule ascii_join) (simp_all add: ascii_sep list_all_iff ascii_quote)

lemma ascii_render: "printable cmds \<Longrightarrow> ascii (render cmds)"
  unfolding render_def by (rule ascii_join) (auto simp: ascii_sep list_all_iff printable_def intro: ascii_render_cmd)

text \<open>
  Printing commands with every word in single quotes, joined by \<^verbatim>\<open>&&\<close>, and splitting the text gives
  the commands back, for all non-empty commands of ASCII words without quotes or line ends.
\<close>

theorem split_render:
  assumes "printable cmds"
  shows "splitShellCommand (render cmds) = Some cmds"
proof -
  have "\<not> (\<exists>c \<in> set (render cmds). code c > 127)"
    using ascii_render [OF assms] by (auto simp: ascii_def list_all_iff)
  then show ?thesis using split_render_loop [OF assms, of "[]" None] by (auto simp: splitShellCommand_def)
qed

theorem split_render_witness:
  "splitShellCommand (render [[''git'', ''$(x) && y''], [''ls'']]) = Some [[''git'', ''$(x) && y''], [''ls'']]"
  by (rule split_render) code_simp

end
