(* ===== verification/HardBlock.thy ===== *)
theory HardBlock
  imports CommandSplit
begin

text \<open>
  The commands refused in every permission mode, \<^verbatim>\<open>core-common/src/command-table/hard-block.ts\<close>: the rules,
  the removal of wrapper programs, the lenient split used when the strict one gives up, and the scan.
\<close>

section \<open>Words\<close>

definition is_path_sep :: "char \<Rightarrow> bool" where
  "is_path_sep c \<longleftrightarrow> c = CHR ''/'' \<or> c = BACKSLASH"

definition last_segment :: "string \<Rightarrow> string" where
  "last_segment w = rev (takeWhile (\<lambda>c. \<not> is_path_sep c) (rev w))"

definition basename :: "string \<Rightarrow> string" where
  "basename w = toLowerCase (last_segment (case w of c # cs \<Rightarrow> if c = BACKSLASH then cs else w | [] \<Rightarrow> []))"

definition before_dashes :: "string list \<Rightarrow> string list" where
  "before_dashes ws = takeWhile (\<lambda>w. w \<noteq> ''--'') ws"

definition is_option :: "string \<Rightarrow> bool" where
  "is_option w = starts_with w ''-''"

definition flags :: "string list \<Rightarrow> string list" where
  "flags ws = filter is_option (before_dashes ws)"

definition operands :: "string list \<Rightarrow> string list" where
  "operands ws = filter (\<lambda>w. \<not> is_option w) (before_dashes ws) @ drop (Suc (length (before_dashes ws))) ws"

fun split_on :: "char \<Rightarrow> string \<Rightarrow> string list" where
  "split_on c [] = [[]]"
| "split_on c (d # s) =
     (if d = c then [] # split_on c s
      else case split_on c s of w # ws \<Rightarrow> (d # w) # ws | [] \<Rightarrow> [[d]])"

definition WHOLE_DISK :: rx where
  "WHOLE_DISK =
     (let slashes = Seq (some_of (chr (CHR ''/''))) (opt (chr (CHR ''*''))) in
      Alt slashes (Seq (alt_all [lit ''~'', lit ''$HOME'', lit ''${HOME}'']) (opt slashes)))"

text \<open>A literal absolute path, normalised.\<close>

fun disk_parts :: "string list \<Rightarrow> string list \<Rightarrow> string list" where
  "disk_parts acc [] = acc"
| "disk_parts acc (p # ps) =
     (if p = '''' \<or> p = ''.'' then disk_parts acc ps
      else if p = ''..'' then disk_parts (butlast acc) ps
      else disk_parts (acc @ [p]) ps)"

definition wholeDisk :: "string \<Rightarrow> bool" where
  "wholeDisk operand =
     (if rx_full WHOLE_DISK operand then True
      else if \<not> starts_with operand ''/'' then False
      else let parts = disk_parts [] (split_on (CHR ''/'') operand) in parts = [] \<or> parts = [''*''])"

definition device_names :: rx where
  "device_names = alt_all [lit ''sd'', lit ''nvme'', lit ''disk'', lit ''rdisk'', lit ''hd'', lit ''mmcblk'']"

definition BLOCK_DEVICE :: rx where
  "BLOCK_DEVICE = Seq (lit ''/dev/'') device_names"

section \<open>The rules\<close>

record hard_block_rule =
  hb_id :: string
  hb_match :: "string list"
  hb_notMatch :: "string list"
  hb_command :: "(string list \<Rightarrow> bool) option"
  hb_text :: "(string \<Rightarrow> bool) option"

definition word0 :: "string list \<Rightarrow> string" where
  "word0 ws = (case ws of w # _ \<Rightarrow> w | [] \<Rightarrow> '''')"

definition word1 :: "string list \<Rightarrow> string" where
  "word1 ws = (case ws of _ # w # _ \<Rightarrow> w | _ \<Rightarrow> '''')"

definition rm_recursive_flag :: rx where
  "rm_recursive_flag = seq_all [chr (CHR ''-''), Star (Cls c_letter), one_of ''rR'']"

definition rm_command :: "string list \<Rightarrow> bool" where
  "rm_command ws =
     (if basename (word0 ws) \<noteq> ''rm'' then False
      else let rest = drop 1 ws in
        if ''--no-preserve-root'' \<in> set rest then True
        else list_ex (\<lambda>f. f = ''--recursive'' \<or> rx_starts rm_recursive_flag f) (flags rest)
             \<and> list_ex wholeDisk (operands rest))"

definition rm_rule :: hard_block_rule where
  "rm_rule = \<lparr>hb_id = ''rm-root-or-home'',
     hb_match = [''rm -rf /'', ''rm -fr /*'', ''rm -r ~'', ''rm -Rf ~/'', ''rm -rf $HOME'', ''rm --recursive //'',
       ''rm --no-preserve-root x'', ''rm -rf -- /''],
     hb_notMatch = [''rm -rf ./build'', ''rm -rf ~/projects/x'', ''rm /'', ''rm file'', ''ls -rf /'', ''rm -rf /tmp/x'',
       ''rm -rf $HOME/.cache''],
     hb_command = Some rm_command, hb_text = None\<rparr>"

text \<open>\<^verbatim>\<open>([\w:.-]+)\(\)\{\1\|\1&\};?\1\<close>, tried at every place and for every length of the name.\<close>

definition fork_name_char :: "char \<Rightarrow> bool" where
  "fork_name_char c \<longleftrightarrow> is_word_char c \<or> c \<in> set '':.-''"

definition fork_at :: "string \<Rightarrow> nat \<Rightarrow> bool" where
  "fork_at s n =
     (let name = take n s; body = ''(){'' @ name @ ''|'' @ name @ ''&}'' in
      0 < n \<and> n \<le> length s \<and> list_all fork_name_char name
      \<and> (starts_with (drop n s) (body @ '';'' @ name) \<or> starts_with (drop n s) (body @ name)))"

definition fork_bomb :: "string \<Rightarrow> bool" where
  "fork_bomb s = list_ex (\<lambda>i. list_ex (fork_at (drop i s)) [1..<Suc (length s)]) [0..<length s]"

definition fork_rule :: hard_block_rule where
  "fork_rule = \<lparr>hb_id = ''fork-bomb'',
     hb_match = ['':(){ :|:& };:'', '':(){:|:&};:'', ''bomb() { bomb | bomb & }; bomb'', ''echo x; :(){ :|: & };:''],
     hb_notMatch = [''f() { g | h; }; f'', ''echo hello''],
     hb_command = None, hb_text = Some fork_bomb\<rparr>"

definition mkfs_name :: rx where
  "mkfs_name = Seq (lit ''mkfs'') (opt (Seq (chr (CHR ''.'')) (some_of (Cls c_dot))))"

definition device_command :: "string list \<Rightarrow> bool" where
  "device_command ws =
     (let name = basename (word0 ws) in
      if rx_full mkfs_name name then list_ex (\<lambda>w. starts_with w ''/dev/'') (drop 1 ws)
      else name = ''dd'' \<and> list_ex (\<lambda>w. starts_with w ''of='' \<and> rx_finds BLOCK_DEVICE w) (drop 1 ws))"

definition device_rule :: hard_block_rule where
  "device_rule = \<lparr>hb_id = ''block-device-write'',
     hb_match = [''mkfs.ext4 /dev/sda1'', ''mkfs /dev/nvme0n1'', ''dd if=x of=/dev/sda'',
       ''dd if=/dev/zero of=/dev/disk2 bs=1m'', ''echo x > /dev/sda'', ''cat x >/dev/nvme0n1''],
     hb_notMatch = [''mkfs.ext4 disk.img'', ''dd if=a of=b.img'', ''echo x > /dev/null'', ''dd if=/dev/sda of=copy.img'',
       ''ls /dev/sda''],
     hb_command = Some device_command, hb_text = Some (rx_finds (Seq (lit ''>/dev/'') device_names))\<rparr>"

definition erase_word :: rx where
  "erase_word = alt_all [ilit ''erasedisk'', ilit ''zerodisk'', ilit ''secureerase'']"

definition format_name :: rx where
  "format_name = Seq (lit ''format'') (opt (lit ''.com''))"

definition drive_word :: rx where
  "drive_word = seq_all [Cls c_letter, chr (CHR '':''), opt (chr BACKSLASH)]"

definition erase_command :: "string list \<Rightarrow> bool" where
  "erase_command ws =
     (let name = basename (word0 ws) in
      if name = ''diskutil'' then rx_full erase_word (word1 ws)
      else rx_full format_name name \<and> list_ex (rx_full drive_word) (drop 1 ws))"

definition erase_rule :: hard_block_rule where
  "erase_rule = \<lparr>hb_id = ''disk-erase'',
     hb_match = [''diskutil eraseDisk JHFS+ X disk2'', ''diskutil zeroDisk disk2'', ''diskutil secureErase 0 disk2'',
       ''format c:'', ''FORMAT D: /q''],
     hb_notMatch = [''diskutil list'', ''diskutil info disk2'', ''format file.ts'', ''echo format c:''],
     hb_command = Some erase_command, hb_text = None\<rparr>"

definition HARD_BLOCK_RULES :: "hard_block_rule list" where
  "HARD_BLOCK_RULES = [rm_rule, fork_rule, device_rule, erase_rule]"

section \<open>Wrapper programs\<close>

definition SHELLS :: "string list" where
  "SHELLS = [''bash'', ''sh'', ''zsh'', ''dash'', ''ksh'']"

definition MAX_DEPTH :: nat where
  "MAX_DEPTH = 3"

definition WRAPPERS :: "string list" where
  "WRAPPERS = [''sudo'', ''doas'', ''env'', ''command'', ''exec'', ''nohup'', ''timeout'', ''nice'']"

definition optionWithValue :: "string \<Rightarrow> string list" where
  "optionWithValue name =
     (if name = ''sudo'' then [''-u'', ''-g'', ''-h'', ''-p'', ''-C'', ''-r'', ''-t'', ''-U'', ''-D'', ''-R'']
      else if name = ''doas'' then [''-u'', ''-C'']
      else if name = ''env'' then [''-u'', ''-C'', ''-S'']
      else if name = ''nice'' then [''-n'']
      else if name = ''exec'' then [''-a'']
      else [])"

definition env_assignment :: rx where
  "env_assignment = seq_all [Cls ident_start, Star (Cls c_word), chr (CHR ''='')]"

text \<open>The inner loop: the words after a wrapper's options.\<close>

function (sequential) skip_options :: "string \<Rightarrow> string list \<Rightarrow> string list" where
  "skip_options name [] = []"
| "skip_options name (w # ws) =
     (if w = ''--'' then ws
      else if w \<in> set (optionWithValue name) then skip_options name (drop 1 ws)
      else if is_option w \<or> (name = ''env'' \<and> rx_starts env_assignment w) then skip_options name ws
      else w # ws)"
  by pat_completeness auto
termination by (relation "measure (\<lambda>(_, ws). length ws)") auto

lemma skip_options_length: "length (skip_options name ws) \<le> length ws"
  by (induction name ws rule: skip_options.induct) auto

function (sequential) unwrap :: "string list \<Rightarrow> string list" where
  "unwrap [] = []"
| "unwrap (w # ws) =
     (if rx_starts ASSIGNMENT w then unwrap ws
      else let name = basename w in
        if name \<notin> set WRAPPERS then w # ws
        else unwrap (drop (if name = ''timeout'' then 1 else 0) (skip_options name ws)))"
  by pat_completeness auto
termination
  by (relation "measure length")
    (auto simp: less_Suc_eq_le skip_options_length intro: le_trans [OF diff_le_self skip_options_length])

section \<open>The lenient split\<close>

definition end_segment :: "string list list \<Rightarrow> string list \<Rightarrow> string list list" where
  "end_segment segs ws = (if ws = [] then segs else segs @ [ws])"

definition end_word :: "string list \<Rightarrow> string \<Rightarrow> bool \<Rightarrow> string list" where
  "end_word ws w has = (if has then ws @ [w] else ws)"

definition escapable :: "char \<Rightarrow> bool" where
  "escapable c \<longleftrightarrow> c = CHR ''$'' \<or> c = BACKTICK \<or> c = DQ \<or> c = BACKSLASH \<or> c = NL"

definition separator :: "char \<Rightarrow> bool" where
  "separator c \<longleftrightarrow> c \<in> set '';&|(){}'' \<or> c = NL \<or> c = BACKTICK"

function (sequential) loose ::
  "bool \<Rightarrow> string \<Rightarrow> string list list \<Rightarrow> string list \<Rightarrow> string \<Rightarrow> bool \<Rightarrow> char option \<Rightarrow> string list list" where
  "loose honour [] segs ws w has quote = end_segment segs (end_word ws w has)"
| "loose honour (ch # rest) segs ws w has quote =
     (if honour \<and> ch = BACKSLASH \<and> quote \<noteq> Some SQ \<and> rest \<noteq> [] \<and> (quote = None \<or> escapable (hd rest))
      then (if hd rest \<noteq> NL then loose honour (tl rest) segs ws (w @ [hd rest]) True quote
            else loose honour (tl rest) segs ws w has quote)
      else case quote of
        Some q \<Rightarrow>
          if ch = q then loose honour rest segs ws w has None
          else loose honour rest segs ws (w @ [ch]) has quote
      | None \<Rightarrow>
          if (ch = DQ \<or> ch = SQ) \<and> honour then loose honour rest segs ws w True (Some ch)
          else if ch = DQ \<or> ch = SQ then loose honour rest segs ws w has None
          else if separator ch then loose honour rest (end_segment segs (end_word ws w has)) [] '''' False None
          else if ch = CHR ''$'' \<and> rest \<noteq> [] \<and> hd rest = CHR ''(''
          then loose honour (tl rest) (end_segment segs (end_word ws w has)) [] '''' False None
          else if is_rx_space ch then loose honour rest segs (end_word ws w has) '''' False None
          else loose honour rest segs ws (w @ [ch]) True None)"
  by pat_completeness auto
termination by (relation "measure (\<lambda>(_, s, _). length s)") auto

definition looseSegments :: "string \<Rightarrow> bool \<Rightarrow> string list list" where
  "looseSegments s honour = loose honour s [] [] '''' False None"

section \<open>The scan\<close>

fun first_some :: "('a \<Rightarrow> 'b option) \<Rightarrow> 'a list \<Rightarrow> 'b option" where
  "first_some f [] = None"
| "first_some f (x # xs) = (case f x of Some y \<Rightarrow> Some y | None \<Rightarrow> first_some f xs)"

lemma first_some_cong [fundef_cong]:
  "xs = ys \<Longrightarrow> (\<And>x. x \<in> set ys \<Longrightarrow> f x = g x) \<Longrightarrow> first_some f xs = first_some g ys"
  by (induction ys arbitrary: xs) (auto split: option.splits)

lemma first_some_None: "first_some f xs = None \<longleftrightarrow> (\<forall>x \<in> set xs. f x = None)"
  by (induction xs) (auto split: option.splits)

lemma first_some_SomeD: "first_some f xs = Some y \<Longrightarrow> \<exists>x \<in> set xs. f x = Some y"
  by (induction xs) (auto split: option.splits)

definition rule_by_command :: "string list \<Rightarrow> string option" where
  "rule_by_command ws = first_some (\<lambda>r. case hb_command r of
      Some p \<Rightarrow> if p ws then Some (hb_id r) else None | None \<Rightarrow> None) HARD_BLOCK_RULES"

definition rule_by_text :: "string \<Rightarrow> string option" where
  "rule_by_text s = first_some (\<lambda>r. case hb_text r of
      Some p \<Rightarrow> if p s then Some (hb_id r) else None | None \<Rightarrow> None) HARD_BLOCK_RULES"

definition command_flag :: rx where
  "command_flag = seq_all [chr (CHR ''-''), Star (Cls c_lower), chr (CHR ''c''), Star (Cls c_lower)]"

text \<open>The word after a shell's \<^verbatim>\<open>-c\<close>.\<close>

fun after_flag :: "string list \<Rightarrow> string option" where
  "after_flag [] = None"
| "after_flag (w # ws) = (if rx_full command_flag w then (case ws of p # _ \<Rightarrow> Some p | [] \<Rightarrow> None) else after_flag ws)"

definition shell_payload :: "string list \<Rightarrow> string option" where
  "shell_payload ws = (if basename (word0 ws) \<in> set SHELLS then after_flag (drop 1 ws) else None)"

definition squash :: "string \<Rightarrow> string" where
  "squash s = filter (\<lambda>c. \<not> is_rx_space c) s"

function blockedCommand :: "string list \<Rightarrow> nat \<Rightarrow> string option"
  and hardBlockedAt :: "string \<Rightarrow> nat \<Rightarrow> string option" where
  "blockedCommand ws depth =
     (let inner = unwrap ws in
      if inner = [] then None
      else case rule_by_command inner of
        Some i \<Rightarrow> Some i
      | None \<Rightarrow>
          if depth < MAX_DEPTH
          then (case shell_payload inner of Some p \<Rightarrow> hardBlockedAt p (depth + 1) | None \<Rightarrow> None)
          else None)"
| "hardBlockedAt command depth =
     (let strict = splitShellCommand command in
      case (if strict = None then rule_by_text (squash command) else None) of
        Some i \<Rightarrow> Some i
      | None \<Rightarrow>
          first_some (\<lambda>ws. blockedCommand ws depth)
            (case strict of Some cmds \<Rightarrow> cmds
             | None \<Rightarrow> looseSegments command True @ looseSegments command False))"
  by pat_completeness auto
termination
  by (relation "measure (\<lambda>x. case x of Inl (_, d) \<Rightarrow> 2 * (MAX_DEPTH - d) | Inr (_, d) \<Rightarrow> 2 * (MAX_DEPTH - d) + 1)")
    (auto simp: MAX_DEPTH_def)

declare blockedCommand.simps [simp del] hardBlockedAt.simps [simp del]

definition hardBlockedCommand :: "string \<Rightarrow> string option" where
  "hardBlockedCommand command = hardBlockedAt command 0"

text \<open>The self-check the module runs when it is loaded: false would be an error at load.\<close>

definition load_check :: bool where
  "load_check = list_all (\<lambda>r. list_all (\<lambda>s. hardBlockedCommand s = Some (hb_id r)) (hb_match r)
      \<and> list_all (\<lambda>s. hardBlockedCommand s = None) (hb_notMatch r)) HARD_BLOCK_RULES"

section \<open>What the scan catches\<close>

lemma unwrap_head: "unwrap ws = w # vs \<Longrightarrow> \<not> rx_starts ASSIGNMENT w \<and> basename w \<notin> set WRAPPERS"
  by (induction ws rule: unwrap.induct) (auto simp: Let_def split: if_splits)

lemma unwrap_idem: "unwrap (unwrap ws) = unwrap ws"
  by (cases "unwrap ws") (auto dest: unwrap_head simp: Let_def)

lemma rule_by_command_hit:
  "r \<in> set HARD_BLOCK_RULES \<Longrightarrow> hb_command r = Some p \<Longrightarrow> p ws \<Longrightarrow> rule_by_command ws \<noteq> None"
  unfolding rule_by_command_def first_some_None by (auto intro!: bexI [of _ r])

lemma commands_need_words: "r \<in> set HARD_BLOCK_RULES \<Longrightarrow> hb_command r = Some p \<Longrightarrow> \<not> p []"
proof -
  assume "r \<in> set HARD_BLOCK_RULES" "hb_command r = Some p"
  moreover have "\<not> rm_command []" "\<not> device_command []" "\<not> erase_command []" by code_simp+
  ultimately show ?thesis
    by (auto simp: HARD_BLOCK_RULES_def rm_rule_def fork_rule_def device_rule_def erase_rule_def)
qed

lemma blocked_hit:
  assumes "r \<in> set HARD_BLOCK_RULES" "hb_command r = Some p" "p (unwrap ws)"
  shows "blockedCommand ws d \<noteq> None"
proof -
  have "unwrap ws \<noteq> []" using assms commands_need_words by metis
  with rule_by_command_hit [OF assms] show ?thesis by (auto simp: blockedCommand.simps Let_def split: option.splits)
qed

lemma at_part:
  assumes "splitShellCommand c = Some parts" "ws \<in> set parts" "blockedCommand ws d \<noteq> None"
  shows "hardBlockedAt c d \<noteq> None"
  using assms(2,3) by (simp add: hardBlockedAt.simps [of c d] assms(1) Let_def first_some_None) blast

text \<open>The rules spelled out, for evaluation.\<close>

lemma fork_at_code [code]:
  "fork_at s n = (case drop n s of
       c # rest \<Rightarrow>
         if c = CHR ''('' then
           (let name = take n s; body = ''){'' @ name @ ''|'' @ name @ ''&}'' in
            0 < n \<and> list_all fork_name_char name
            \<and> (starts_with rest (body @ '';'' @ name) \<or> starts_with rest (body @ name)))
         else False
     | [] \<Rightarrow> False)"
proof (cases "drop n s")
  case Nil
  then show ?thesis by (auto simp: fork_at_def Let_def starts_with_def)
next
  case (Cons c rest)
  then have "n \<le> length s" by (cases "n \<le> length s") simp_all
  with Cons show ?thesis by (auto simp: fork_at_def Let_def starts_with_def)
qed

lemma rule_by_command_code [code]:
  "rule_by_command ws = (if rm_command ws then Some ''rm-root-or-home'' else if device_command ws then Some ''block-device-write''
     else if erase_command ws then Some ''disk-erase'' else None)"
  by (simp add: rule_by_command_def HARD_BLOCK_RULES_def rm_rule_def fork_rule_def device_rule_def erase_rule_def)

lemma rule_by_text_code [code]:
  "rule_by_text s = (if fork_bomb s then Some ''fork-bomb''
     else if rx_finds (Seq (lit ''>/dev/'') device_names) s then Some ''block-device-write'' else None)"
  by (simp add: rule_by_text_def HARD_BLOCK_RULES_def rm_rule_def fork_rule_def device_rule_def erase_rule_def)

text \<open>More levels left never block less.\<close>

lemma blocked_mono:
  "blockedCommand ws d = Some i \<Longrightarrow> d' \<le> d \<Longrightarrow> blockedCommand ws d' \<noteq> None"
  "hardBlockedAt c d = Some i \<Longrightarrow> d' \<le> d \<Longrightarrow> hardBlockedAt c d' \<noteq> None"
proof (induction ws d and c d arbitrary: i d' and i d' rule: blockedCommand_hardBlockedAt.induct)
  case (1 ws depth)
  from 1(2) have ne: "unwrap ws \<noteq> []" by (auto simp: blockedCommand.simps Let_def)
  show ?case
  proof (cases "rule_by_command (unwrap ws)")
    case (Some j)
    with ne show ?thesis by (simp add: blockedCommand.simps [of ws d'] Let_def)
  next
    case None
    with ne 1(2) obtain p where p: "depth < MAX_DEPTH" "shell_payload (unwrap ws) = Some p" "hardBlockedAt p (depth + 1) = Some i"
      by (auto simp: blockedCommand.simps Let_def split: if_splits option.splits)
    from 1(1) [OF refl ne None p(1,2) p(3), of "d' + 1"] 1(3) p(1) have "hardBlockedAt p (d' + 1) \<noteq> None" "d' < MAX_DEPTH"
      by simp_all
    with ne None p(2) show ?thesis by (simp add: blockedCommand.simps [of ws d'] Let_def)
  qed
next
  case (2 command depth)
  show ?case
  proof (cases "if splitShellCommand command = None then rule_by_text (squash command) else None")
    case (Some j)
    then show ?thesis by (simp add: hardBlockedAt.simps [of command d'] Let_def)
  next
    case None
    let ?views = "case splitShellCommand command of Some cmds \<Rightarrow> cmds
      | None \<Rightarrow> looseSegments command True @ looseSegments command False"
    from 2(2) None have "first_some (\<lambda>ws. blockedCommand ws depth) ?views = Some i"
      by (simp add: hardBlockedAt.simps [of command depth] Let_def)
    then obtain ws where ws: "ws \<in> set ?views" "blockedCommand ws depth = Some i" by (auto dest: first_some_SomeD)
    from 2(1) [OF refl None ws(1) ws(2) 2(3)] have "blockedCommand ws d' \<noteq> None" .
    with ws(1) have "first_some (\<lambda>ws. blockedCommand ws d') ?views \<noteq> None" unfolding first_some_None by auto
    then show ?thesis unfolding hardBlockedAt.simps [of command d'] Let_def None option.case .
  qed
qed

text \<open>One command handed to a shell's \<^verbatim>\<open>-c\<close> by a part of another, a number of times over.\<close>

inductive shell_nest :: "nat \<Rightarrow> string \<Rightarrow> string \<Rightarrow> bool" where
  nest_here: "shell_nest 0 c c"
| nest_shell: "splitShellCommand c0 = Some parts \<Longrightarrow> ws \<in> set parts \<Longrightarrow> shell_payload (unwrap ws) = Some c1
    \<Longrightarrow> shell_nest n c1 c \<Longrightarrow> shell_nest (Suc n) c0 c"

definition direct_hit :: "string \<Rightarrow> bool" where
  "direct_hit c \<longleftrightarrow> (\<exists>parts ws r p. splitShellCommand c = Some parts \<and> ws \<in> set parts
     \<and> r \<in> set HARD_BLOCK_RULES \<and> hb_command r = Some p \<and> p (unwrap ws))"

lemma nest_blocked:
  assumes "shell_nest n c0 c" "direct_hit c" "n + d \<le> MAX_DEPTH"
  shows "hardBlockedAt c0 d \<noteq> None"
  using assms
proof (induction arbitrary: d rule: shell_nest.induct)
  case (nest_here c)
  then obtain parts ws r p where "splitShellCommand c = Some parts" "ws \<in> set parts"
    "r \<in> set HARD_BLOCK_RULES" "hb_command r = Some p" "p (unwrap ws)" unfolding direct_hit_def by blast
  then show ?case using at_part blocked_hit by metis
next
  case (nest_shell c0 parts ws c1 n c)
  have "shell_payload [] = None" by code_simp
  with nest_shell(3) have ne: "unwrap ws \<noteq> []" by auto
  have "hardBlockedAt c1 (d + 1) \<noteq> None" using nest_shell by simp
  then have "blockedCommand ws d \<noteq> None"
    using ne nest_shell(3,7) by (auto simp: blockedCommand.simps [of ws d] Let_def split: option.splits)
  with nest_shell(1,2) show ?case by (rule at_part)
qed



text \<open>The verdicts on the samples, evaluated.\<close>

lemma rm_samples:
  "list_all (\<lambda>s. hardBlockedCommand s = Some ''rm-root-or-home'') (hb_match rm_rule)
   \<and> list_all (\<lambda>s. hardBlockedCommand s = None) (hb_notMatch rm_rule)"
  unfolding rm_rule_def hard_block_rule.simps by code_simp

lemma fork_samples:
  "list_all (\<lambda>s. hardBlockedCommand s = Some ''fork-bomb'') (hb_match fork_rule)
   \<and> list_all (\<lambda>s. hardBlockedCommand s = None) (hb_notMatch fork_rule)"
  unfolding fork_rule_def hard_block_rule.simps by code_simp

lemma device_samples:
  "list_all (\<lambda>s. hardBlockedCommand s = Some ''block-device-write'') (hb_match device_rule)
   \<and> list_all (\<lambda>s. hardBlockedCommand s = None) (hb_notMatch device_rule)"
  unfolding device_rule_def hard_block_rule.simps by code_simp

lemma erase_samples:
  "list_all (\<lambda>s. hardBlockedCommand s = Some ''disk-erase'') (hb_match erase_rule)
   \<and> list_all (\<lambda>s. hardBlockedCommand s = None) (hb_notMatch erase_rule)"
  unfolding erase_rule_def hard_block_rule.simps by code_simp

text \<open>
  The module's self-check at load passes: every sample of every rule is blocked by that very
  rule, and no look-alike is blocked by any.
\<close>

theorem load_check_passes: "load_check"
proof -
  have "hb_id rm_rule = ''rm-root-or-home''" "hb_id fork_rule = ''fork-bomb''"
    "hb_id device_rule = ''block-device-write''" "hb_id erase_rule = ''disk-erase''"
    by (simp_all add: rm_rule_def fork_rule_def device_rule_def erase_rule_def)
  note ids = this
  show ?thesis
    unfolding load_check_def HARD_BLOCK_RULES_def list.pred_inject ids
    using rm_samples fork_samples device_samples erase_samples by (simp only: simp_thms list.pred_inject)
qed

end
