(* ===== verification/CommandPrefix.thy ===== *)
theory CommandPrefix
  imports HardBlock
begin

text \<open>
  Command-prefix approvals, \<^verbatim>\<open>core-common/src/command-table/prefix.ts\<close>: the prefix a shell command may
  offer, whether granted prefixes cover a command, and the scope text a prefix is stored as.
\<close>

section \<open>JSON text of a list of strings\<close>

definition hex_digit :: "nat \<Rightarrow> char" where
  "hex_digit n = char_of (if n < 10 then 48 + n else 87 + n)"

definition json_escape_char :: "char \<Rightarrow> string" where
  "json_escape_char c =
     (if c = DQ then [BACKSLASH, DQ] else if c = BACKSLASH then [BACKSLASH, BACKSLASH]
      else if code c = 8 then [BACKSLASH, CHR ''b''] else if code c = 9 then [BACKSLASH, CHR ''t'']
      else if code c = 10 then [BACKSLASH, CHR ''n''] else if code c = 12 then [BACKSLASH, CHR ''f'']
      else if code c = 13 then [BACKSLASH, CHR ''r'']
      else if code c < 32 then BACKSLASH # ''u00'' @ [hex_digit (code c div 16), hex_digit (code c mod 16)]
      else [c])"

definition json_string :: "string \<Rightarrow> string" where
  "json_string s = DQ # concat (map json_escape_char s) @ [DQ]"

definition stringify_strings :: "string list \<Rightarrow> string" where
  "stringify_strings ts = ''['' @ join_strings '','' (map json_string ts) @ '']''"

text \<open>
  \<^verbatim>\<open>JSON.parse\<close> on the texts that denote an array of strings; every other text is \<open>None\<close>, which the guards
  after the call make \<^verbatim>\<open>undefined\<close> as well. An escape above the 8-bit range is \<open>None\<close> too: it cannot print
  back to the scope it came from.
\<close>

definition json_space :: "char \<Rightarrow> bool" where
  "json_space c \<longleftrightarrow> code c \<in> {9, 10, 13, 32}"

definition skip_space :: "string \<Rightarrow> string" where
  "skip_space = dropWhile json_space"

definition hex_value :: "char \<Rightarrow> nat option" where
  "hex_value c =
     (if is_digit c then Some (code c - 48)
      else if in_range 97 102 c then Some (code c - 87)
      else if in_range 65 70 c then Some (code c - 55) else None)"

definition unescape :: "char \<Rightarrow> char option" where
  "unescape e =
     (if e = DQ \<or> e = BACKSLASH \<or> e = CHR ''/'' then Some e
      else if e = CHR ''b'' then Some (char_of (8::nat)) else if e = CHR ''t'' then Some (char_of (9::nat))
      else if e = CHR ''n'' then Some (char_of (10::nat)) else if e = CHR ''f'' then Some (char_of (12::nat))
      else if e = CHR ''r'' then Some (char_of (13::nat)) else None)"

text \<open>What stands after a backslash: the character it denotes and the text after it.\<close>

definition escape_at :: "string \<Rightarrow> (char \<times> string) option" where
  "escape_at s =
     (case s of
        [] \<Rightarrow> None
      | e # s1 \<Rightarrow>
          if e = CHR ''u'' then
            (case s1 of
               a # b # d # f # s2 \<Rightarrow>
                 (case (hex_value a, hex_value b, hex_value d, hex_value f) of
                    (Some 0, Some 0, Some x, Some y) \<Rightarrow> Some (char_of (16 * x + y), s2)
                  | _ \<Rightarrow> None)
             | _ \<Rightarrow> None)
          else map_option (\<lambda>d. (d, s1)) (unescape e))"

lemma escape_at_shorter: "escape_at s = Some (d, rest) \<Longrightarrow> length rest < length s"
  by (auto simp: escape_at_def split: list.splits option.splits if_splits nat.splits)

function (sequential) parse_chars :: "string \<Rightarrow> string \<Rightarrow> (string \<times> string) option" where
  "parse_chars acc [] = None"
| "parse_chars acc (c # s) =
     (if c = DQ then Some (acc, s)
      else if c = BACKSLASH then
        (case escape_at s of Some (d, s1) \<Rightarrow> parse_chars (acc @ [d]) s1 | None \<Rightarrow> None)
      else if code c < 32 then None
      else parse_chars (acc @ [c]) s)"
  by pat_completeness auto
termination
  by (relation "measure (\<lambda>(_, s). length s)") (auto dest: escape_at_shorter)

lemma parse_chars_shorter: "parse_chars acc s = Some (t, rest) \<Longrightarrow> length rest < length s"
proof (induction acc s rule: parse_chars.induct)
  case (1 acc)
  then show ?case by simp
next
  case (2 acc c s)
  show ?case
  proof (cases "c = DQ \<or> c \<noteq> BACKSLASH")
    case True
    with 2 show ?thesis by (auto split: if_splits)
  next
    case False
    with 2(3) obtain d s1 where d: "escape_at s = Some (d, s1)" "parse_chars (acc @ [d]) s1 = Some (t, rest)"
      by (auto split: option.splits)
    with 2(1) False escape_at_shorter [OF d(1)] show ?thesis by force
  qed
qed

text \<open>After an opening bracket or a comma: one more string, then a comma or the end.\<close>

function parse_items :: "string list \<Rightarrow> string \<Rightarrow> (string list \<times> string) option" where
  "parse_items acc s =
     (case skip_space s of
        c # s1 \<Rightarrow>
          if c = DQ then
            (case parse_chars [] s1 of
               Some (t, s2) \<Rightarrow>
                 (case skip_space s2 of
                    d # s3 \<Rightarrow>
                      if d = CHR '','' then parse_items (acc @ [t]) s3
                      else if d = CHR '']'' then Some (acc @ [t], s3) else None
                  | [] \<Rightarrow> None)
             | None \<Rightarrow> None)
          else None
      | [] \<Rightarrow> None)"
  by pat_completeness auto
termination
proof (relation "measure (\<lambda>(_, s). length s)", goal_cases)
  case (2 acc s c s1 p t s2 d s3)
  have "length (skip_space x) \<le> length x" for x by (simp add: skip_space_def length_dropWhile_le)
  from this [of s] this [of s2] 2 parse_chars_shorter [of "[]" s1 t s2] show ?case by auto
qed simp

declare parse_items.simps [simp del]

definition parse_strings :: "string \<Rightarrow> string list option" where
  "parse_strings s =
     (case skip_space s of
        c # s1 \<Rightarrow>
          if c \<noteq> CHR ''['' then None
          else (case skip_space s1 of
              d # s2 \<Rightarrow>
                if d = CHR '']'' then (if skip_space s2 = [] then Some [] else None)
                else (case parse_items [] s1 of
                    Some (ts, rest) \<Rightarrow> if skip_space rest = [] then Some ts else None
                  | None \<Rightarrow> None)
            | [] \<Rightarrow> None)
      | [] \<Rightarrow> None)"

section \<open>The tables\<close>

definition PREFIX_SCOPE_HEAD :: string where
  "PREFIX_SCOPE_HEAD = ''shell:prefix:''"

definition MAX_PREFIX_SCOPE_LENGTH :: nat where
  "MAX_PREFIX_SCOPE_LENGTH = 256"

definition MAX_PREFIX_TOKENS :: nat where
  "MAX_PREFIX_TOKENS = 2"

definition prefixScope :: "string list \<Rightarrow> string" where
  "prefixScope tokens = PREFIX_SCOPE_HEAD @ stringify_strings tokens"

definition ALONE_OK :: "string list" where
  "ALONE_OK = [''ls'', ''cat'', ''head'', ''tail'', ''wc'', ''grep'', ''pwd'', ''echo'', ''which'', ''stat'', ''du'', ''df'', ''date'']"

definition GIT_LOG :: "string list" where
  "GIT_LOG = [''--oneline'', ''-n'', ''--graph'', ''--decorate'', ''--all'', ''--stat'', ''-p'', ''--patch'', ''--name-only'']"

datatype runs_code = Runs_no | Runs_always | Runs_for "string list"

type_synonym program_entry = "(string, string list) jsmap \<times> runs_code"

definition git_entry :: program_entry where
  "git_entry = ([
     (''status'', [''-s'', ''--short'', ''-b'', ''--branch'', ''--porcelain'']),
     (''diff'', [''--stat'', ''--name-only'', ''--name-status'', ''--cached'', ''--staged'']),
     (''log'', GIT_LOG),
     (''show'', [''--stat'', ''--name-only'', ''--oneline'']),
     (''branch'', [''-a'', ''--all'', ''-v'', ''--verbose'', ''--show-current'']),
     (''fetch'', [''--prune'', ''--all'', ''--tags'', ''-q'', ''--quiet'']),
     (''add'', [''-p'', ''--patch'', ''-u'', ''--update'', ''-A'', ''--all'']),
     (''commit'', [''-m'', ''--message'', ''--amend'', ''--no-edit'', ''-a'', ''--all'', ''-q'', ''--quiet'']),
     (''push'', [''-u'', ''--set-upstream'', ''-q'', ''--quiet'', ''-v'', ''--verbose'']),
     (''pull'', [''--rebase'', ''--ff-only'', ''-q'', ''--quiet'']),
     (''switch'', [''-c'', ''--create'']),
     (''checkout'', [''-b'']),
     (''restore'', [''--staged'', ''--worktree'']),
     (''blame'', [''-L'']),
     (''tag'', [''-l'', ''--list'']),
     (''remote'', [''-v'', ''--verbose'']),
     (''rev-parse'', [''--abbrev-ref'', ''--short'', ''--show-toplevel'']),
     (''ls-files'', [''--others'', ''--exclude-standard'', ''--modified''])], Runs_always)"

definition pip_entry :: program_entry where
  "pip_entry = ([
     (''list'', [''--outdated'', ''--format'', ''--local'', ''--user'']),
     (''show'', []),
     (''freeze'', [''--local'', ''--user''])], Runs_no)"

definition PAIRS :: "(string, program_entry) jsmap" where
  "PAIRS = [
     (''git'', git_entry),
     (''npm'', ([(''test'', []), (''ls'', [''--json'', ''--all'', ''--long'']), (''outdated'', [''--json'', ''--long''])], Runs_for [''test''])),
     (''pnpm'', ([(''test'', []), (''ls'', [''--json'', ''--long'', ''-r'', ''--recursive'']), (''outdated'', [''--json'', ''--long''])],
       Runs_for [''test''])),
     (''yarn'', ([(''test'', [])], Runs_for [''test''])),
     (''bun'', ([(''test'', [''--coverage'', ''--bail''])], Runs_for [''test''])),
     (''cargo'', ([
       (''build'', [''--release'', ''-p'', ''--package'', ''--workspace'', ''--lib'', ''--bins'', ''-q'', ''-v'']),
       (''test'', [''--release'', ''-p'', ''--package'', ''--workspace'', ''--lib'', ''--no-run'', ''-q'', ''-v'']),
       (''check'', [''-p'', ''--package'', ''--workspace'', ''--all-targets'', ''-q'']),
       (''clippy'', [''-p'', ''--package'', ''--workspace'', ''--all-targets'', ''-q'']),
       (''fmt'', [''--check'', ''--all'']),
       (''doc'', [''--no-deps'', ''-p'', ''--package'', ''--workspace'']),
       (''tree'', [''-p'', ''--package'', ''--depth''])], Runs_always)),
     (''go'', ([
       (''build'', [''-v'', ''-race'']),
       (''test'', [''-v'', ''-race'', ''-run'', ''-count'', ''-short'', ''-cover'', ''-json'', ''-timeout'', ''-bench'', ''-benchmem'']),
       (''vet'', []), (''fmt'', []), (''list'', [''-m'', ''-json''])], Runs_always)),
     (''uv'', ([
       (''sync'', [''--frozen'', ''--locked'', ''--all-extras'', ''--dev'', ''--no-dev'']),
       (''lock'', [''--locked'', ''--check''])], Runs_always)),
     (''pip'', pip_entry), (''pip3'', pip_entry)]"

text \<open>The options a pair allows; \<open>None\<close> when it is no pair of the table.\<close>

definition pair_options :: "string \<Rightarrow> string \<Rightarrow> string list option" where
  "pair_options program sub = (case jm_get PAIRS program of Some (cmds, _) \<Rightarrow> jm_get cmds sub | None \<Rightarrow> None)"

section \<open>Secrets\<close>

definition some_times :: "nat \<Rightarrow> rx \<Rightarrow> rx" where
  "some_times n r = Seq (seq_all (replicate n r)) (Star r)"

definition secret_head :: rx where
  "secret_head = alt_all [lit ''sk-'', lit ''ghp_'', seq_all [lit ''gh'', one_of ''osur'', lit ''_''], lit ''github_pat_'',
     seq_all [lit ''xox'', one_of ''abprs'', lit ''-''],
     Seq (lit ''AKIA'') (some_times 8 (Cls (c_digit @ c_upper)))]"

definition name_chars :: cls where
  "name_chars = c_word @ c_chars ''.-''"

definition secret_assignment :: rx where
  "secret_assignment = seq_all [Star (Cls name_chars),
     alt_all [ilit ''key'', ilit ''token'', ilit ''secret'', seq_all [ilit ''passw'', opt (ilit ''or''), ilit ''d''], ilit ''credential''],
     Star (Cls name_chars), chr (CHR ''=''), Cls c_dot]"

definition blob_char :: "char \<Rightarrow> bool" where
  "blob_char c \<longleftrightarrow> is_word_char c \<or> c \<in> set ''+/=-''"

definition looksLikeSecret :: "string \<Rightarrow> bool" where
  "looksLikeSecret token =
     (if rx_starts secret_head token then True
      else if rx_full (ilit ''bearer'') token then True
      else if rx_starts secret_assignment token then True
      else 24 \<le> length token \<and> list_all blob_char token \<and> list_ex is_digit token \<and> list_ex is_letter token)"

text \<open>\<^verbatim>\<open>word.replace(/^["']|["']$/g, '')\<close>\<close>

definition strip_quotes :: "string \<Rightarrow> string" where
  "strip_quotes w =
     (let a = (case w of c # cs \<Rightarrow> if c = DQ \<or> c = SQ then cs else w | [] \<Rightarrow> []) in
      if a \<noteq> [] \<and> (last a = DQ \<or> last a = SQ) then butlast a else a)"

definition mask_word :: "string \<Rightarrow> string \<times> bool" where
  "mask_word w =
     (let bare = strip_quotes w in
      if \<not> looksLikeSecret bare then (w, False)
      else (case index_of (CHR ''='') bare of
          Some n \<Rightarrow> (take (n + 1) bare @ ''***'', True)
        | None \<Rightarrow> (''***'', True)))"

text \<open>The words of the text, each a maximal run without blanks, replaced in place.\<close>

fun mask_loop :: "string \<Rightarrow> string \<Rightarrow> string \<times> bool" where
  "mask_loop w [] = (if w = [] then ([], False) else mask_word w)"
| "mask_loop w (c # s) =
     (if \<not> is_rx_space c then mask_loop (w @ [c]) s
      else case (if w = [] then ([], False) else mask_word w) of
        (out, m) \<Rightarrow> (case mask_loop [] s of (rest, m') \<Rightarrow> (out @ c # rest, m \<or> m')))"

definition maskSecrets :: "string \<Rightarrow> string \<times> bool" where
  "maskSecrets s = mask_loop [] s"

section \<open>Prefixes\<close>

definition executable_suffix :: "string \<Rightarrow> string" where
  "executable_suffix w =
     (let n = length w - 4 in
      if 4 \<le> length w \<and> drop n w \<in> {''.exe'', ''.cmd'', ''.bat'', ''.com''} then take n w else w)"

definition programName :: "string \<Rightarrow> string" where
  "programName word = executable_suffix (toLowerCase (last_segment word))"

definition isBannedPrefix :: "string list \<Rightarrow> bool" where
  "isBannedPrefix tokens =
     (let program = word0 tokens in
      if program = '''' \<or> programName program \<noteq> program then True
      else if (if length tokens = 1 then program \<notin> set ALONE_OK else pair_options program (word1 tokens) = None)
      then True
      else list_ex looksLikeSecret tokens)"

definition bad_token :: "string \<Rightarrow> bool" where
  "bad_token t \<longleftrightarrow> t = '''' \<or> (\<exists>c \<in> set t. c \<in> {NL, CR, NUL0})"

definition parsePrefixScope :: "string \<Rightarrow> string list option" where
  "parsePrefixScope scope =
     (if \<not> starts_with scope PREFIX_SCOPE_HEAD \<or> length scope > MAX_PREFIX_SCOPE_LENGTH then None
      else case parse_strings (drop (length PREFIX_SCOPE_HEAD) scope) of
        None \<Rightarrow> None
      | Some tokens \<Rightarrow>
          if tokens = [] \<or> length tokens > MAX_PREFIX_TOKENS \<or> list_ex bad_token tokens then None
          else if isBannedPrefix tokens then None
          else if scope = prefixScope tokens then Some tokens else None)"

definition REFSPEC_SUBCOMMANDS :: "string list" where
  "REFSPEC_SUBCOMMANDS = [''fetch'', ''pull'', ''push'']"

text \<open>\<^verbatim>\<open>word.split('=')[0]\<close>\<close>

definition before_eq :: "string \<Rightarrow> string" where
  "before_eq w = takeWhile (\<lambda>c. c \<noteq> CHR ''='') w"

definition refused_word :: "string \<Rightarrow> string \<Rightarrow> string list \<Rightarrow> string \<Rightarrow> bool" where
  "refused_word program sub allowed w \<longleftrightarrow>
     (is_option w \<and> w \<noteq> ''--'' \<and> before_eq w \<notin> set allowed)
     \<or> (program = ''git'' \<and> sub \<in> set REFSPEC_SUBCOMMANDS \<and> (\<exists>c \<in> set w. c \<in> set ''+:''))"

definition deniedArgument :: "string list \<Rightarrow> bool" where
  "deniedArgument ws =
     (if length ws < 3 then False
      else case pair_options (word0 ws) (word1 ws) of
        None \<Rightarrow> False
      | Some allowed \<Rightarrow> list_ex (refused_word (word0 ws) (word1 ws) allowed) (drop 2 ws))"

definition SUBCOMMAND_WORD :: rx where
  "SUBCOMMAND_WORD = Seq (Cls c_letter) (Star (Cls (c_word @ c_chars ''.:-'')))"

definition commandPrefix :: "string list \<Rightarrow> string list option" where
  "commandPrefix ws =
     (case ws of
        [] \<Rightarrow> None
      | [program] \<Rightarrow> if program = '''' then None else Some [program]
      | program # second # _ \<Rightarrow>
          if program = '''' then None
          else if \<not> rx_full SUBCOMMAND_WORD second then None else Some [program, second])"

definition startsWithPrefix :: "string list \<Rightarrow> string list \<Rightarrow> bool" where
  "startsWithPrefix ws pre \<longleftrightarrow> length ws \<ge> length pre \<and> take (length pre) ws = pre"

definition coveredByPrefixes :: "string \<Rightarrow> string list list \<Rightarrow> bool" where
  "coveredByPrefixes command prefixes =
     (if prefixes = [] \<or> hardBlockedCommand command \<noteq> None then False
      else let usable = filter (\<lambda>p. \<not> isBannedPrefix p) prefixes in
        case splitShellCommand command of
          None \<Rightarrow> False
        | Some parts \<Rightarrow> list_all (\<lambda>ws. \<not> deniedArgument ws \<and> list_ex (startsWithPrefix ws) usable) parts)"

record prefix_offer =
  po_tokens :: "string list"
  po_scope :: string
  po_runsProjectCode :: bool

definition runs_project_code :: "string list \<Rightarrow> bool" where
  "runs_project_code tokens =
     (case jm_get PAIRS (word0 tokens) of
        Some (_, Runs_always) \<Rightarrow> True
      | Some (_, Runs_for l) \<Rightarrow> length tokens \<ge> 2 \<and> word1 tokens \<in> set l
      | _ \<Rightarrow> False)"

definition offerPrefix :: "string \<Rightarrow> string list list \<Rightarrow> prefix_offer option" where
  "offerPrefix command existing =
     (if (\<exists>c \<in> set command. c \<in> {NL, CR, NUL0}) \<or> hardBlockedCommand command \<noteq> None then None
      else case splitShellCommand command of
        None \<Rightarrow> None
      | Some parts \<Rightarrow>
         (let uncovered = filter (\<lambda>ws. \<not> list_ex (startsWithPrefix ws) existing) parts in
          case uncovered of
            [] \<Rightarrow> None
          | first # _ \<Rightarrow>
             (case commandPrefix first of
                None \<Rightarrow> None
              | Some tokens \<Rightarrow>
                  if isBannedPrefix tokens \<or> list_ex deniedArgument uncovered then None
                  else if \<not> list_all (\<lambda>ws. startsWithPrefix ws tokens) uncovered then None
                  else if length (prefixScope tokens) > MAX_PREFIX_SCOPE_LENGTH then None
                  else Some \<lparr>po_tokens = tokens, po_scope = prefixScope tokens,
                             po_runsProjectCode = runs_project_code tokens\<rparr>)))"

section \<open>Accepted options\<close>

definition PREFIX_OPTION :: string where
  "PREFIX_OPTION = ''allow_prefix_session''"

definition SESSION_GRANT_OPTIONS :: "string list" where
  "SESSION_GRANT_OPTIONS = [''allowed-session'', PREFIX_OPTION]"

text \<open>
  Two JSON values print to the same text exactly when they are the same value, so comparing the texts
  of the parsed and the offered tokens is comparing the values.
\<close>

definition acceptedOptions :: "string \<Rightarrow> json \<Rightarrow> string list \<Rightarrow> string list" where
  "acceptedOptions purpose subject options =
     (let offered = jget (Some subject) ''prefixGrant'' in
      case (case jget offered ''scope'' of Some (JStr s) \<Rightarrow> parsePrefixScope s | _ \<Rightarrow> None) of
        Some tokens \<Rightarrow>
          if purpose = ''tool.permission'' \<and> jget offered ''tokens'' = Some (JArr (map JStr tokens))
          then options @ [PREFIX_OPTION] else options
      | None \<Rightarrow> options)"

section \<open>Scopes print and parse\<close>

lemma hex_round: "n < 16 \<Longrightarrow> hex_value (hex_digit n) = Some n"
  by (auto simp: hex_value_def hex_digit_def is_digit_def in_range_def code_def)

lemma hex_zero: "hex_value (CHR ''0'') = Some 0"
  by (simp add: hex_value_def is_digit_def code_def)

lemma code_inj: "code c = code d \<longleftrightarrow> c = d"
  by (simp add: code_def)

lemma escape_hex:
  assumes "code c < 32"
  shows "escape_at (''u00'' @ hex_digit (code c div 16) # hex_digit (code c mod 16) # s) = Some (c, s)"
proof -
  have "code c div 16 < 16" "code c mod 16 < 16" using assms by auto
  then show ?thesis by (simp add: escape_at_def hex_round hex_zero) (simp add: code_def)
qed

lemma escape_plain:
  "unescape e = Some d \<Longrightarrow> e \<noteq> CHR ''u'' \<Longrightarrow> escape_at (e # s) = Some (d, s)"
  by (simp add: escape_at_def)

lemma control_chars:
  "char_of (8::nat) = CHR 0x08" "char_of (9::nat) = CHR 0x09" "char_of (10::nat) = CHR 0x0A"
  "char_of (12::nat) = CHR 0x0C" "char_of (13::nat) = CHR 0x0D"
  by code_simp+

lemma parse_escaped: "parse_chars acc (json_escape_char c @ s) = parse_chars (acc @ [c]) s"
proof -
  have slash: "parse_chars acc (BACKSLASH # t) = parse_chars (acc @ [c]) s" if "escape_at t = Some (c, s)" for t
    using that by (simp add: BACKSLASH_def DQ_def)
  have esc: ?thesis if "json_escape_char c = [BACKSLASH, e]" "unescape e = Some c" "e \<noteq> CHR ''u''" for e
    using that(1) slash [OF escape_plain [OF that(2,3)]] by simp
  have c: "c = char_of n" if "code c = n" for n using that by (simp add: code_def flip: that)
  consider "c = DQ" | "c = BACKSLASH" | "code c = 8" | "code c = 9" | "code c = 10" | "code c = 12" | "code c = 13"
    | "c \<noteq> DQ" "c \<noteq> BACKSLASH" "code c \<notin> {8, 9, 10, 12, 13}" "code c < 32"
    | "c \<noteq> DQ" "c \<noteq> BACKSLASH" "code c \<ge> 32" by force
  then show ?thesis
  proof cases
    case 1
    show ?thesis by (rule esc [of DQ]) (simp_all add: 1 json_escape_char_def unescape_def DQ_def)
  next
    case 2
    show ?thesis by (rule esc [of BACKSLASH]) (simp_all add: 2 json_escape_char_def unescape_def DQ_def BACKSLASH_def)
  next
    case 3
    show ?thesis by (rule esc [of "CHR ''b''"]) (simp_all add: c [OF 3] control_chars json_escape_char_def unescape_def DQ_def BACKSLASH_def code_def)
  next
    case 4
    show ?thesis by (rule esc [of "CHR ''t''"]) (simp_all add: c [OF 4] control_chars json_escape_char_def unescape_def DQ_def BACKSLASH_def code_def)
  next
    case 5
    show ?thesis by (rule esc [of "CHR ''n''"]) (simp_all add: c [OF 5] control_chars json_escape_char_def unescape_def DQ_def BACKSLASH_def code_def)
  next
    case 6
    show ?thesis by (rule esc [of "CHR ''f''"]) (simp_all add: c [OF 6] control_chars json_escape_char_def unescape_def DQ_def BACKSLASH_def code_def)
  next
    case 7
    show ?thesis by (rule esc [of "CHR ''r''"]) (simp_all add: c [OF 7] control_chars json_escape_char_def unescape_def DQ_def BACKSLASH_def code_def)
  next
    case 8
    then have "json_escape_char c = BACKSLASH # ''u00'' @ [hex_digit (code c div 16), hex_digit (code c mod 16)]"
      by (simp add: json_escape_char_def)
    with slash [OF escape_hex [OF 8(4)]] show ?thesis by simp
  next
    case 9
    then have "json_escape_char c = [c]" by (simp add: json_escape_char_def)
    with 9 show ?thesis by simp
  qed
qed

lemma parse_json_string: "parse_chars [] (concat (map json_escape_char t) @ DQ # s) = Some (t, s)"
proof -
  have "parse_chars acc (concat (map json_escape_char t) @ DQ # s) = Some (acc @ t, s)" for acc
    by (induction t arbitrary: acc) (simp_all add: parse_escaped)
  from this [of "[]"] show ?thesis by simp
qed

lemma skip_nonspace: "\<not> json_space c \<Longrightarrow> skip_space (c # s) = c # s"
  by (simp add: skip_space_def)

lemma nonspace [simp]: "\<not> json_space DQ" "\<not> json_space (CHR '','')" "\<not> json_space (CHR '']'')" "\<not> json_space (CHR ''['')"
  by (simp_all add: json_space_def DQ_def code_def)

lemma parse_item_last: "parse_items acc (json_string t @ CHR '']'' # s) = Some (acc @ [t], s)"
  by (simp add: parse_items.simps [of acc "_"] json_string_def skip_nonspace parse_json_string)

lemma parse_item_next: "parse_items acc (json_string t @ CHR '','' # s) = parse_items (acc @ [t]) s"
  by (subst parse_items.simps) (simp add: json_string_def skip_nonspace parse_json_string)

lemma parse_items_join:
  "parse_items acc (join_strings '','' (map json_string (t # ts)) @ CHR '']'' # s) = Some (acc @ t # ts, s)"
  by (induction ts arbitrary: acc t) (simp_all add: parse_item_last parse_item_next)

lemma parse_stringify: "parse_strings (stringify_strings ts) = Some ts"
proof (cases ts)
  case Nil
  then show ?thesis by (simp add: stringify_strings_def parse_strings_def skip_nonspace) (simp add: skip_space_def)
next
  case (Cons t us)
  obtain r where r: "join_strings '','' (map json_string (t # us)) = DQ # r"
    by (cases us) (simp_all add: json_string_def)
  have "parse_items [] (DQ # r @ '']'') = Some (t # us, [])"
    using parse_items_join [of "[]" t us "[]"] r by simp
  then show ?thesis
    by (simp add: Cons stringify_strings_def parse_strings_def skip_nonspace r [simplified])
      (simp add: skip_space_def DQ_def)
qed

lemma starts_with_self: "starts_with (p @ s) p"
  by (simp add: starts_with_def)

lemma prefixScope_inj: "prefixScope t = prefixScope u \<Longrightarrow> t = u"
  unfolding prefixScope_def using parse_stringify by (metis option.inject same_append_eq)

lemma scope_parse:
  "parsePrefixScope s = Some t \<longleftrightarrow> s = prefixScope t \<and> length s \<le> 256 \<and> (length t = 1 \<or> length t = 2)
      \<and> \<not> list_ex bad_token t \<and> \<not> isBannedPrefix t"
proof -
  have parse: "parse_strings (drop (length PREFIX_SCOPE_HEAD) (prefixScope t)) = Some t"
    by (simp add: prefixScope_def parse_stringify)
  have len: "t \<noteq> [] \<and> length t \<le> 2 \<longleftrightarrow> length t = 1 \<or> length t = 2"
    by (cases t) (auto simp: le_Suc_eq)
  show ?thesis
  proof
    assume a: "parsePrefixScope s = Some t"
    then have "s = prefixScope t" "length s \<le> 256" "t \<noteq> [] \<and> length t \<le> 2" "\<not> list_ex bad_token t" "\<not> isBannedPrefix t"
      by (auto simp: parsePrefixScope_def MAX_PREFIX_SCOPE_LENGTH_def MAX_PREFIX_TOKENS_def
          split: if_splits option.splits)
    with len show "s = prefixScope t \<and> length s \<le> 256 \<and> (length t = 1 \<or> length t = 2)
      \<and> \<not> list_ex bad_token t \<and> \<not> isBannedPrefix t" by simp
  next
    assume a: "s = prefixScope t \<and> length s \<le> 256 \<and> (length t = 1 \<or> length t = 2)
      \<and> \<not> list_ex bad_token t \<and> \<not> isBannedPrefix t"
    with len have "t \<noteq> []" "length t \<le> 2" by blast+
    moreover have "starts_with s PREFIX_SCOPE_HEAD" using a by (simp add: prefixScope_def starts_with_self)
    ultimately show "parsePrefixScope s = Some t"
      using a parse by (auto simp: parsePrefixScope_def MAX_PREFIX_SCOPE_LENGTH_def MAX_PREFIX_TOKENS_def)
  qed
qed

text \<open>
  A scope text and the prefix it stores determine each other: a text parses to tokens exactly
  when it is the text those tokens print to, is at most 256 characters long, and the tokens are one
  or two well-formed words that may be granted; and no two prefixes print to the same text.
\<close>

theorem scope_roundtrip:
  "(parsePrefixScope s = Some t \<longleftrightarrow> s = prefixScope t \<and> length s \<le> 256 \<and> (length t = 1 \<or> length t = 2)
      \<and> \<not> list_ex bad_token t \<and> \<not> isBannedPrefix t)
   \<and> (prefixScope t = prefixScope u \<longleftrightarrow> t = u)"
  using scope_parse prefixScope_inj by blast

section \<open>What a grant covers and an offer promises\<close>

lemma prefix_word0: "startsWithPrefix ws p \<Longrightarrow> p \<noteq> [] \<Longrightarrow> word0 ws = word0 p"
  by (cases ws; cases p) (auto simp: startsWithPrefix_def word0_def)

lemma prefix_word1: "startsWithPrefix ws p \<Longrightarrow> 2 \<le> length p \<Longrightarrow> word1 ws = word1 p \<and> 2 \<le> length ws"
  by (cases p rule: remdups_adj.cases; cases ws rule: remdups_adj.cases)
    (auto simp: startsWithPrefix_def word1_def)

lemma banned_Nil: "isBannedPrefix []"
  by (simp add: isBannedPrefix_def word0_def)

lemma not_banned:
  "\<not> isBannedPrefix p \<Longrightarrow> p \<noteq> [] \<and> programName (word0 p) = word0 p
     \<and> (length p = 1 \<and> word0 p \<in> set ALONE_OK \<or> 2 \<le> length p \<and> pair_options (word0 p) (word1 p) \<noteq> None)"
  by (cases p) (auto simp: isBannedPrefix_def Let_def word0_def Suc_le_eq split: if_splits list.splits)

lemma denied_words:
  assumes "\<not> deniedArgument ws" "2 \<le> length ws" "pair_options (word0 ws) (word1 ws) = Some allowed"
    "w \<in> set (drop 2 ws)"
  shows "\<not> refused_word (word0 ws) (word1 ws) allowed w"
proof -
  have "3 \<le> length ws" using assms(2,4) by (cases "length ws = 2") auto
  with assms show ?thesis by (auto simp: deniedArgument_def list_ex_iff)
qed

text \<open>
  Whatever prefixes a session holds, a command they cover is not hard-blocked, is fully understood
  by the splitter, and every part of it runs either a program of the harmless list or a program and
  subcommand of the table, spelled exactly as listed; after a listed pair every option is one the pair
  allows, and a fetch, pull or push of git carries no forced or deleting refspec.
\<close>

theorem covered_only_listed:
  assumes "coveredByPrefixes c ps"
  shows "hardBlockedCommand c = None
    \<and> (\<exists>parts. splitShellCommand c = Some parts \<and> (\<forall>ws \<in> set parts.
         (\<exists>p \<in> set ps. take (length p) ws = p) \<and> programName (word0 ws) = word0 ws
         \<and> (word0 ws \<in> set ALONE_OK
            \<or> (\<exists>allowed. pair_options (word0 ws) (word1 ws) = Some allowed
                 \<and> (\<forall>w \<in> set (drop 2 ws). is_option w \<longrightarrow> w = ''--'' \<or> before_eq w \<in> set allowed)
                 \<and> (word0 ws = ''git'' \<and> word1 ws \<in> {''fetch'', ''pull'', ''push''}
                      \<longrightarrow> (\<forall>w \<in> set (drop 2 ws). CHR ''+'' \<notin> set w \<and> CHR '':'' \<notin> set w))))))"
proof -
  from assms obtain parts where free: "hardBlockedCommand c = None" and s: "splitShellCommand c = Some parts"
    and cov: "\<forall>ws \<in> set parts. \<not> deniedArgument ws \<and> (\<exists>p \<in> set ps. \<not> isBannedPrefix p \<and> startsWithPrefix ws p)"
    by (auto simp: coveredByPrefixes_def Let_def list_all_iff list_ex_iff split: if_splits option.splits)
  have "(\<exists>p \<in> set ps. take (length p) ws = p) \<and> programName (word0 ws) = word0 ws
      \<and> (word0 ws \<in> set ALONE_OK
         \<or> (\<exists>allowed. pair_options (word0 ws) (word1 ws) = Some allowed
              \<and> (\<forall>w \<in> set (drop 2 ws). \<not> refused_word (word0 ws) (word1 ws) allowed w)))"
    if ws: "ws \<in> set parts" for ws
  proof -
    from cov ws obtain p where nd: "\<not> deniedArgument ws" and p: "p \<in> set ps" "\<not> isBannedPrefix p" "startsWithPrefix ws p"
      by blast
    note nb = not_banned [OF p(2)]
    then have w0: "word0 ws = word0 p" using prefix_word0 [OF p(3)] by blast
    show ?thesis
    proof (cases "word0 p \<in> set ALONE_OK")
      case True
      with p nb w0 show ?thesis by (auto simp: startsWithPrefix_def)
    next
      case False
      with nb obtain allowed where "2 \<le> length p" and al: "pair_options (word0 p) (word1 p) = Some allowed" by auto
      with prefix_word1 [OF p(3)] have "word1 ws = word1 p" "2 \<le> length ws" by auto
      with denied_words [OF nd _ , of allowed] al w0 p nb show ?thesis by (auto simp: startsWithPrefix_def)
    qed
  qed
  then show ?thesis using free s
    by (intro conjI exI [of _ parts]) (fastforce simp: refused_word_def REFSPEC_SUBCOMMANDS_def)+
qed

lemma command_prefix_starts: "commandPrefix ws = Some t \<Longrightarrow> startsWithPrefix ws t \<and> t \<noteq> [] \<and> length t \<le> 2 \<and> set t \<subseteq> set ws"
  by (cases ws rule: remdups_adj.cases) (auto simp: commandPrefix_def startsWithPrefix_def split: if_splits)

lemma shell_chars_set: "snd ` set (shell_chars q s) \<subseteq> set s"
proof (induction q s rule: shell_chars.induct)
  case (3 c s)
  show ?case
  proof (cases "find_op (c # s)")
    case None
    with 3 show ?thesis by auto
  next
    case (Some p)
    have sub: "set (drop (length p) (c # s)) \<subseteq> set (c # s)" by (rule set_drop_subset)
    show ?thesis
    proof (cases "BLANK c")
      case True
      with 3(1) show ?thesis by auto
    next
      case False
      from 3(4) [OF False Some] sub False Some show ?thesis by simp
    qed
  qed
qed auto

lemma split_word_chars:
  assumes "splitShellCommand c = Some parts" "ws \<in> set parts" "w \<in> set ws" "ch \<in> set w"
  shows "ch \<in> set c"
proof -
  from assms(1) have "split_loop c [] [] None None = Some parts" by (auto simp: splitShellCommand_def split: if_splits)
  from split_loop_reads [OF this] have "concat (concat parts) = map snd (shell_chars None c)" by simp
  moreover have "ch \<in> set (concat (concat parts))" using assms by auto
  ultimately show ?thesis using shell_chars_set [of None c] by auto
qed

lemma command_prefix_nonempty: "commandPrefix ws = Some t \<Longrightarrow> [] \<notin> set t"
  by (cases ws rule: remdups_adj.cases)
    (auto simp: commandPrefix_def rx_full_def rx_match_def SUBCOMMAND_WORD_def split: if_splits)

text \<open>
  C30. An offer keeps its word. On a session without prefixes, the offered scope is one that parses back
  to the offered tokens, and once it is granted the very command that offered it is covered.
\<close>

theorem offer_covers:
  assumes "offerPrefix c [] = Some offer"
  shows "parsePrefixScope (po_scope offer) = Some (po_tokens offer) \<and> coveredByPrefixes c [po_tokens offer]"
proof -
  from assms obtain first rest where clean: "\<forall>ch \<in> set c. ch \<notin> {NL, CR, NUL0}" and free: "hardBlockedCommand c = None"
    and s: "splitShellCommand c = Some (first # rest)" and t: "commandPrefix first = Some (po_tokens offer)"
    and nb: "\<not> isBannedPrefix (po_tokens offer)" and nd: "\<not> list_ex deniedArgument (first # rest)"
    and all: "list_all (\<lambda>ws. startsWithPrefix ws (po_tokens offer)) (first # rest)"
    and scope: "po_scope offer = prefixScope (po_tokens offer)" "length (po_scope offer) \<le> 256"
    by (auto simp: offerPrefix_def Let_def MAX_PREFIX_SCOPE_LENGTH_def split: if_splits option.splits list.splits)
  have len: "length (po_tokens offer) = 1 \<or> length (po_tokens offer) = 2"
    using command_prefix_starts [OF t] by (cases "po_tokens offer") (auto simp: le_Suc_eq)
  have "\<not> bad_token w" if w: "w \<in> set (po_tokens offer)" for w
  proof -
    from w command_prefix_starts [OF t] have "w \<in> set first" by auto
    then have "\<forall>ch \<in> set w. ch \<in> set c" using split_word_chars [OF s] by auto
    moreover have "w \<noteq> []" using command_prefix_nonempty [OF t] w by auto
    ultimately show ?thesis using clean by (auto simp: bad_token_def)
  qed
  then have "\<not> list_ex bad_token (po_tokens offer)" by (auto simp: list_ex_iff)
  with scope len nb have "parsePrefixScope (po_scope offer) = Some (po_tokens offer)"
    unfolding scope_parse by blast
  moreover have "coveredByPrefixes c [po_tokens offer]"
    using free s nb nd all by (auto simp: coveredByPrefixes_def list_all_iff list_ex_iff)
  ultimately show ?thesis ..
qed

theorem offer_covers_witness:
  "coveredByPrefixes ''git log --oneline -n 3'' [[''git'', ''log'']]"
proof -
  have "offerPrefix ''git log --oneline -n 3'' [] = Some \<lparr>po_tokens = [''git'', ''log''],
      po_scope = prefixScope [''git'', ''log''], po_runsProjectCode = True\<rparr>" by code_simp
  from offer_covers [OF this] show ?thesis by simp
qed

theorem covered_only_listed_witness:
  "hardBlockedCommand ''git log -n 3 && ls'' = None"
proof -
  have "coveredByPrefixes ''git log -n 3 && ls'' [[''git'', ''log''], [''rm''], [''ls'']]" by code_simp
  from covered_only_listed [OF this] show ?thesis by (rule conjunct1)
qed

text \<open>
  With prefixes already granted an offer need not help: a part that starts with a granted prefix
  counts as covered even when its options are refused, so the offer is made and the command is still
  not covered after it is granted.
\<close>

theorem offer_may_not_cover:
  "\<exists>offer. offerPrefix ''npm test && git status --foo'' [[''git'', ''status'']] = Some offer
     \<and> \<not> coveredByPrefixes ''npm test && git status --foo'' [[''git'', ''status''], po_tokens offer]"
proof -
  have "offerPrefix ''npm test && git status --foo'' [[''git'', ''status'']]
      = Some \<lparr>po_tokens = [''npm'', ''test''], po_scope = prefixScope [''npm'', ''test''], po_runsProjectCode = True\<rparr>"
    by code_simp
  moreover have "\<not> coveredByPrefixes ''npm test && git status --foo'' [[''git'', ''status''], [''npm'', ''test'']]"
    by code_simp
  ultimately show ?thesis by (metis prefix_offer.select_convs(1))
qed

end
