(* ===== verification/Decision.thy ===== *)
theory Decision imports CommandPrefix Storage begin

text \<open>
  \<^verbatim>\<open>packages/core-ledger/src/reduce/decision.ts\<close>: the fold of a \<^verbatim>\<open>decision/state\<close> row, a full
  snapshot of one question put to a person. A snapshot is the JSON the row holds, read member by
  member. What the fold takes from elsewhere is an argument: the check of the payload against its
  schema, \<^verbatim>\<open>canonicalJson\<close>, the digest of a subject, \<^verbatim>\<open>Date.parse\<close> and the automatic answer of
  \<^verbatim>\<open>packages/protocol\<close>.
\<close>

section \<open>Environment\<close>

record decision_env =
  de_valid :: "json \<Rightarrow> bool"
  de_canon :: "json option \<Rightarrow> string"
  de_digest :: "json option \<Rightarrow> string"
  de_date :: "json option \<Rightarrow> jsnum"
  de_automatic :: "json \<Rightarrow> json option"

definition js_leq :: "jsnum \<Rightarrow> jsnum \<Rightarrow> bool" where
  "js_leq x y \<longleftrightarrow> x \<noteq> NaN \<and> y \<noteq> NaN \<and> \<not> js_lt y x"

definition decision_fail :: "string \<Rightarrow> 'a res" where
  "decision_fail m = throw E_RELATION (''decision/state: '' @ m)"

definition decisionSubjectDigest :: "decision_env \<Rightarrow> json option \<Rightarrow> string" where
  "decisionSubjectDigest env subject = de_digest env subject"

text \<open>Members of a snapshot.\<close>

abbreviation sn :: "json \<Rightarrow> string \<Rightarrow> json option" where
  "sn s k \<equiv> jget (Some s) k"

definition not_null :: "json option \<Rightarrow> bool" where
  "not_null v = (v \<noteq> Some JNull)"

definition sn_answered :: "json \<Rightarrow> bool" where
  "sn_answered s = (jget (sn s ''result'') ''reason'' = Some (JStr ''answered''))"

definition sn_option :: "json \<Rightarrow> json option" where
  "sn_option s = jget (jget (sn s ''result'') ''response'') ''option''"

definition sn_purpose :: "json \<Rightarrow> json option" where
  "sn_purpose s = jget (jget (sn s ''request'') ''spec'') ''purpose''"

definition sn_automatic :: "json \<Rightarrow> bool" where
  "sn_automatic s = (sn_answered s \<and> jget (sn s ''result'') ''code'' = Some (JStr ''full-access''))"

definition string_list :: "json option \<Rightarrow> string list" where
  "string_list v = (case v of Some (JArr xs) \<Rightarrow> List.map_filter (\<lambda>x. jstr (Some x)) xs | _ \<Rightarrow> [])"

text \<open>\<^verbatim>\<open>acceptedOptions(next.request.spec)\<close>.\<close>

definition sn_accepted :: "json \<Rightarrow> string list" where
  "sn_accepted s =
     (let spec = jget (sn s ''request'') ''spec'' in
      acceptedOptions (js_string (jget spec ''purpose''))
        (case jget spec ''subject'' of Some v \<Rightarrow> v | None \<Rightarrow> JNull) (string_list (jget spec ''options'')))"

section \<open>The checks\<close>

definition check_owner :: "json \<Rightarrow> event \<Rightarrow> unit res" where
  "check_owner nxt e =
     (if e_origin e \<noteq> ''system'' \<or> \<not> e_trusted e \<or> e_register e \<noteq> Some ''decision/state''
         \<or> jget (sn nxt ''request'') ''lane'' \<noteq> Some (JStr (lane_of e))
      then decision_fail ''untrusted owner'' else Inr ())"

definition check_request :: "decision_env \<Rightarrow> json \<Rightarrow> unit res" where
  "check_request env nxt =
     (let rq = sn nxt ''request'' in
      if not_null (jget rq ''expiresAt'')
         \<and> js_leq (de_date env (jget rq ''expiresAt'')) (de_date env (jget rq ''createdAt''))
      then decision_fail ''invalid deadline''
      else if Some (JStr (decisionSubjectDigest env (jget (jget rq ''spec'') ''subject''))) \<noteq> jget rq ''subjectDigest''
      then decision_fail ''subject digest'' else Inr ())"

definition check_automatic :: "decision_env \<Rightarrow> json \<Rightarrow> unit res" where
  "check_automatic env nxt =
     (let rs = sn nxt ''result''; by' = jget rs ''answeredBy'';
          confirm = (sn_purpose nxt = Some (JStr ''business.confirm''));
          business = (if sn_automatic nxt \<and> confirm then de_automatic env nxt else None) in
      if sn_automatic nxt
         \<and> (sn_option nxt \<noteq> Some (JStr ''allowed-once'')
            \<or> (if confirm
               then business = None \<or> jget (jget rs ''response'') ''value'' \<noteq> jget business ''responseValue''
                    \<or> \<not> js_truthy (jget rs ''authorization'')
                    \<or> jget (jget by' ''attrs'') ''confirmationMode'' \<noteq> Some (JStr ''auto-confirmed under full access'')
               else jget by' ''role'' \<noteq> Some (JStr ''system''))
            \<or> jget (jget by' ''attrs'') ''permissionPolicy'' \<noteq> Some (JStr ''full-access'')
            \<or> not_null (sn nxt ''answerCommand''))
      then decision_fail ''invalid automatic permission'' else Inr ())"

definition check_initial :: "json \<Rightarrow> unit res" where
  "check_initial nxt =
     (if sn nxt ''revision'' \<noteq> Some (JNum 1) \<or> (not_null (sn nxt ''result'') \<and> \<not> sn_automatic nxt)
         \<or> not_null (sn nxt ''consumption'') \<or> not_null (sn nxt ''answerCommand'')
         \<or> not_null (sn nxt ''invalidation'')
      then decision_fail ''invalid initial state'' else Inr ())"

definition revokes_grant :: "decision_env \<Rightarrow> json \<Rightarrow> json \<Rightarrow> bool" where
  "revokes_grant env prev nxt \<longleftrightarrow>
     not_null (sn prev ''consumption'') \<and> \<not> not_null (sn prev ''invalidation'') \<and> sn_answered prev
     \<and> (sn_option prev = Some (JStr ''allowed-session'') \<or> sn_option prev = Some (JStr ''allow_prefix_session''))
     \<and> jget (sn nxt ''invalidation'') ''code'' = Some (JStr ''grant-revoked'')
     \<and> de_canon env (sn nxt ''consumption'') = de_canon env (sn prev ''consumption'')"

definition check_next :: "decision_env \<Rightarrow> json \<Rightarrow> json \<Rightarrow> unit res" where
  "check_next env prev nxt =
     (let revokes = revokes_grant env prev nxt;
          changed = length (filter id
            [de_canon env (sn nxt ''result'') \<noteq> de_canon env (sn prev ''result''),
             not_null (sn nxt ''consumption''), not_null (sn nxt ''invalidation'')]) in
      if jnum (sn nxt ''revision'') \<noteq> map_option (\<lambda>n. n + 1) (jnum (sn prev ''revision''))
         \<or> de_canon env (sn nxt ''handle'') \<noteq> de_canon env (sn prev ''handle'')
         \<or> de_canon env (sn nxt ''request'') \<noteq> de_canon env (sn prev ''request'')
      then decision_fail ''immutable request or revision changed''
      else if \<not> revokes
         \<and> (not_null (sn prev ''consumption'') \<or> not_null (sn prev ''invalidation'')
            \<or> (not_null (sn prev ''result'') \<and> \<not> sn_answered prev))
      then decision_fail ''terminal state''
      else if not_null (sn prev ''result'')
         \<and> (de_canon env (sn nxt ''result'') \<noteq> de_canon env (sn prev ''result'')
            \<or> de_canon env (sn nxt ''answerCommand'') \<noteq> de_canon env (sn prev ''answerCommand''))
      then decision_fail ''answer changed''
      else if changed \<noteq> (if revokes then 2 else 1)
      then decision_fail ''one transition required'' else Inr ())"

definition check_answer :: "decision_env \<Rightarrow> json option \<Rightarrow> json \<Rightarrow> event \<Rightarrow> unit res" where
  "check_answer env prev nxt e =
     (let rq = sn nxt ''request''; rs = sn nxt ''result''; cmd = sn nxt ''answerCommand'' in
      if sn_answered nxt then
        (if js_lt (de_date env (jget rs ''at'')) (de_date env (jget rq ''createdAt''))
         then decision_fail ''answer before request''
         else if \<not> sn_automatic nxt
            \<and> \<not> (\<exists>p \<in> set_option prev. js_truthy (sn p ''result''))
            \<and> (jget cmd ''revision'' \<noteq> sn nxt ''revision'' \<or> jget cmd ''seq'' \<noteq> Some (JNum (e_seq e)))
         then decision_fail ''answer receipt mismatch''
         else if \<not> (\<exists>w \<in> set_option (jstr (sn_option nxt)). w \<in> set (sn_accepted nxt))
            \<or> (\<not> sn_automatic nxt \<and> \<not> not_null cmd)
         then decision_fail ''unoffered answer''
         else if not_null (jget rq ''expiresAt'')
            \<and> js_leq (de_date env (jget rq ''expiresAt'')) (de_date env (jget rs ''at''))
         then decision_fail ''late answer'' else Inr ())
      else if not_null cmd then decision_fail ''receipt without human answer'' else Inr ())"

definition check_closed :: "decision_env \<Rightarrow> json \<Rightarrow> unit res" where
  "check_closed env nxt =
     (let rq = sn nxt ''request''; cs = sn nxt ''consumption'' in
      if not_null (sn nxt ''invalidation'') \<and> \<not> sn_answered nxt
      then decision_fail ''invalidation without original answer''
      else if not_null cs then
        (if \<not> sn_answered nxt \<or> jget cs ''operationId'' \<noteq> jget rq ''operationId''
         then decision_fail ''consumption without result or original operation''
         else if js_lt (de_date env (jget cs ''at'')) (de_date env (jget (sn nxt ''result'') ''at''))
         then decision_fail ''consumption before answer''
         else if not_null (jget rq ''expiresAt'')
            \<and> js_leq (de_date env (jget rq ''expiresAt'')) (de_date env (jget cs ''at''))
         then decision_fail ''expired consumption'' else Inr ())
      else Inr ())"

definition reduceDecision :: "decision_env \<Rightarrow> json option \<Rightarrow> event \<Rightarrow> json res" where
  "reduceDecision env prev e =
     (let nxt = e_data e in
      if \<not> de_valid env nxt then decision_fail ''invalid snapshot''
      else rbind (check_owner nxt e) (\<lambda>_.
        rbind (check_request env nxt) (\<lambda>_.
        rbind (check_automatic env nxt) (\<lambda>_.
        rbind (case prev of None \<Rightarrow> check_initial nxt | Some p \<Rightarrow> check_next env p nxt) (\<lambda>_.
        rbind (check_answer env prev nxt e) (\<lambda>_.
        rbind (check_closed env nxt) (\<lambda>_. Inr nxt)))))))"

text \<open>The rows of one decision, in order.\<close>

fun decision_history :: "decision_env \<Rightarrow> json option \<Rightarrow> event list \<Rightarrow> json option res" where
  "decision_history env prev [] = Inr prev"
| "decision_history env prev (e # es) =
     rbind (reduceDecision env prev e) (\<lambda>s. decision_history env (Some s) es)"


section \<open>What a history of snapshots promises\<close>

lemma revokes_invalid: "revokes_grant env p q \<Longrightarrow> not_null (sn q ''invalidation'')"
  by (auto simp: revokes_grant_def not_null_def)

text \<open>One row on top of another.\<close>

lemma reduceDecision_next:
  assumes "reduceDecision env (Some p) e = Inr q"
  shows "check_next env p q = Inr ()" "q = e_data e"
  using assms by (auto simp: reduceDecision_def decision_fail_def Let_def res_simps split: if_splits)

lemma check_next_facts:
  assumes "check_next env p q = Inr ()"
  shows "jnum (sn q ''revision'') = map_option (\<lambda>n. n + 1) (jnum (sn p ''revision''))"
    "de_canon env (sn q ''handle'') = de_canon env (sn p ''handle'')"
    "de_canon env (sn q ''request'') = de_canon env (sn p ''request'')"
    "not_null (sn p ''result'') \<Longrightarrow> de_canon env (sn q ''result'') = de_canon env (sn p ''result'')
       \<and> de_canon env (sn q ''answerCommand'') = de_canon env (sn p ''answerCommand'')"
    "not_null (sn p ''consumption'') \<Longrightarrow> revokes_grant env p q"
    "\<not> not_null (sn p ''invalidation'')"
proof -
  have r: "revokes_grant env p q \<Longrightarrow> \<not> not_null (sn p ''invalidation'')" by (simp add: revokes_grant_def)
  show "jnum (sn q ''revision'') = map_option (\<lambda>n. n + 1) (jnum (sn p ''revision''))"
    "de_canon env (sn q ''handle'') = de_canon env (sn p ''handle'')"
    "de_canon env (sn q ''request'') = de_canon env (sn p ''request'')"
    "not_null (sn p ''result'') \<Longrightarrow> de_canon env (sn q ''result'') = de_canon env (sn p ''result'')
       \<and> de_canon env (sn q ''answerCommand'') = de_canon env (sn p ''answerCommand'')"
    "not_null (sn p ''consumption'') \<Longrightarrow> revokes_grant env p q"
    "\<not> not_null (sn p ''invalidation'')"
    using assms r by (auto simp: check_next_def decision_fail_def Let_def split: if_splits)
qed

lemma invalidated_stops:
  assumes "not_null (sn p ''invalidation'')" "decision_history env (Some p) es = Inr r"
  shows "es = []"
proof (cases es)
  case (Cons e es')
  with assms(2) obtain q where "reduceDecision env (Some p) e = Inr q" by (auto elim: rbindE)
  from check_next_facts(6) [OF reduceDecision_next(1) [OF this]] assms(1) show ?thesis by simp
qed

lemma consumed_stops:
  assumes "not_null (sn p ''consumption'')" "decision_history env (Some p) es = Inr (Some r)"
  shows "length es \<le> 1 \<and> de_canon env (sn r ''consumption'') = de_canon env (sn p ''consumption'')"
proof (cases es)
  case Nil
  then show ?thesis using assms(2) by simp
next
  case (Cons e es')
  with assms(2) obtain q where q: "reduceDecision env (Some p) e = Inr q" "decision_history env (Some q) es' = Inr (Some r)"
    by (auto elim: rbindE)
  have rev: "revokes_grant env p q"
    using check_next_facts(5) [OF reduceDecision_next(1) [OF q(1)]] assms(1) .
  have "es' = []" using invalidated_stops [OF revokes_invalid [OF rev] q(2)] .
  with q(2) Cons rev show ?thesis by (simp add: revokes_grant_def)
qed


text \<open>A question and its answer.\<close>

fun json_text :: "json \<Rightarrow> string" where
  "json_text JNull = ''null''"
| "json_text (JBool b) = (if b then ''true'' else ''false'')"
| "json_text (JNum n) = ''#'' @ int_string n"
| "json_text (JStr s) = CHR 0x22 # s @ [CHR 0x22]"
| "json_text (JArr xs) = ''['' @ join_strings '','' (map json_text xs) @ '']''"
| "json_text (JObj kvs) = ''{'' @ join_strings '','' (map (\<lambda>(k, v). k @ '':'' @ json_text v) kvs) @ ''}''"

definition env_a :: decision_env where
  "env_a = \<lparr>de_valid = \<lambda>_. True, de_canon = (\<lambda>v. case v of None \<Rightarrow> ''undefined'' | Some j \<Rightarrow> json_text j),
     de_digest = (\<lambda>_. ''d''), de_date = (\<lambda>v. case v of Some (JNum n) \<Rightarrow> num_of_int n | _ \<Rightarrow> NaN),
     de_automatic = (\<lambda>_. None)\<rparr>"

definition snapshot_a :: "int \<Rightarrow> json \<Rightarrow> json \<Rightarrow> json" where
  "snapshot_a rv res cmd = JObj [(''revision'', JNum rv), (''handle'', JObj [(''id'', JStr ''h'')]),
     (''request'', JObj [(''lane'', JStr ''main''), (''expiresAt'', JNull), (''createdAt'', JNum 1),
        (''subjectDigest'', JStr ''d''), (''operationId'', JStr ''o''),
        (''spec'', JObj [(''subject'', JNull), (''purpose'', JStr ''ask''), (''options'', JArr [JStr ''yes''])])]),
     (''result'', res), (''consumption'', JNull), (''answerCommand'', cmd), (''invalidation'', JNull)]"

definition answer_row :: event where
  "answer_row = stamp 5 \<lparr>e_ts = ''t'', e_id = ''i'', e_type = ''decision/state'',
     e_data = snapshot_a 2 (JObj [(''reason'', JStr ''answered''), (''at'', JNum 2),
         (''response'', JObj [(''option'', JStr ''yes'')])])
       (JObj [(''revision'', JNum 2), (''seq'', JNum 5)]),
     e_actor = JNull, e_origin = ''system'', e_trusted = True, e_lane = None, e_v = None,
     e_register = Some ''decision/state'', e_ignorable = False, e_surfaceOp = None, e_sourceEventSeqs = None\<rparr>"


end
