(* ===== verification/Surface.thy ===== *)
theory Surface imports Storage begin

text \<open>
  \<^verbatim>\<open>packages/core-ledger/src/project/surface.ts\<close>: what the model sees of a lane, folded from
  its rows, and the check of a row that masks a range of it. A compacted range is a summary node in the
  place of the nodes it masks.
\<close>

section \<open>Nodes\<close>

datatype node_kind = User_node | Assistant_node | Result_node | Summary_node

record masked_range =
  mk_start :: "int option"
  mk_end :: "int option"
  mk_sources :: "int list"

record surface_node =
  sf_seq :: int
  sf_kind :: node_kind
  sf_event :: event
  sf_pinned :: bool
  sf_masked :: "masked_range option"

record fold_state =
  fs_nested :: "(string, int) jsmap"
  fs_hidden :: "int list"
  fs_origins :: "(int, int) jsmap"

definition newFoldState :: fold_state where
  "newFoldState = \<lparr>fs_nested = [], fs_hidden = [], fs_origins = []\<rparr>"

section \<open>Reading a row\<close>

definition isNestedCall :: "json option \<Rightarrow> bool" where
  "isNestedCall d = (case jnum (jget d ''depth'') of Some n \<Rightarrow> n > 0 | None \<Rightarrow> False)"

definition KIND :: "string \<Rightarrow> node_kind option" where
  "KIND ty = map_of [(''user/message'', User_node), (''assistant/message'', Assistant_node),
     (''tool/result'', Result_node)] ty"

definition toolUseIdOf :: "event \<Rightarrow> string option" where
  "toolUseIdOf e = jstr (jget (Some (e_data e)) ''toolUseId'')"

definition hiddenResult :: "event \<Rightarrow> (string, int) jsmap \<Rightarrow> bool" where
  "hiddenResult e nested =
     (e_type e = ''tool/result'' \<and> (case toolUseIdOf e of Some i \<Rightarrow> jm_has nested i | None \<Rightarrow> False))"

text \<open>The boundaries of a surface operation that is a replace.\<close>

definition replace_op :: "('a) prepared_event_scheme \<Rightarrow> (int option \<times> int option) option" where
  "replace_op e =
     (if jget (e_surfaceOp e) ''op'' = Some (JStr ''replace'')
      then Some (jnum (jget (e_surfaceOp e) ''start''), jnum (jget (e_surfaceOp e) ''end'')) else None)"

definition sources_of :: "('a) prepared_event_scheme \<Rightarrow> int list" where
  "sources_of e = (case e_sourceEventSeqs e of Some xs \<Rightarrow> xs | None \<Rightarrow> [])"

section \<open>The fold\<close>

fun firstIndex :: "('a \<Rightarrow> bool) \<Rightarrow> 'a list \<Rightarrow> nat option" where
  "firstIndex P [] = None"
| "firstIndex P (x # xs) = (if P x then Some 0 else map_option Suc (firstIndex P xs))"

definition findLastIndex :: "('a \<Rightarrow> bool) \<Rightarrow> 'a list \<Rightarrow> nat option" where
  "findLastIndex P xs = map_option (\<lambda>k. length xs - 1 - k) (firstIndex P (rev xs))"

definition node_at :: "fold_state \<Rightarrow> surface_node \<Rightarrow> int" where
  "node_at st n = (case jm_get (fs_origins st) (sf_seq n) of Some o' \<Rightarrow> o' | None \<Rightarrow> sf_seq n)"

definition replaceRange :: "surface_node list \<Rightarrow> int option \<Rightarrow> int option \<Rightarrow> fold_state \<Rightarrow> (nat \<times> nat) option" where
  "replaceRange nodes start end' st =
     (let i = (case start of None \<Rightarrow> None
                | Some s \<Rightarrow> if s \<in> set (fs_hidden st) then firstIndex (\<lambda>n. node_at st n > s) nodes
                            else firstIndex (\<lambda>n. sf_seq n = s) nodes);
          j = (case end' of None \<Rightarrow> None
                | Some t \<Rightarrow> if t \<in> set (fs_hidden st) then findLastIndex (\<lambda>n. node_at st n < t) nodes
                            else firstIndex (\<lambda>n. sf_seq n = t) nodes) in
      case (i, j) of (Some a, Some b) \<Rightarrow> if b < a then None else Some (a, b) | _ \<Rightarrow> None)"

definition splice :: "'a list \<Rightarrow> nat \<Rightarrow> nat \<Rightarrow> 'a \<Rightarrow> 'a list" where
  "splice xs i j x = take i xs @ x # drop (j + 1) xs"

record applied =
  ap_nodes :: "surface_node list"
  ap_fold :: fold_state
  ap_changed :: bool
  ap_replaced :: bool

definition unchanged :: "surface_node list \<Rightarrow> fold_state \<Rightarrow> applied" where
  "unchanged nodes st = \<lparr>ap_nodes = nodes, ap_fold = st, ap_changed = False, ap_replaced = False\<rparr>"

definition spawned_scope :: "event \<Rightarrow> bool" where
  "spawned_scope e =
     (let d = Some (e_data e) in
      e_type e = ''session/start'' \<and> js_truthy (jget d ''parent'')
      \<and> jget (jget d ''delegation'') ''kind'' = Some (JStr ''spawn''))"

definition apply_replace ::
  "surface_node list \<Rightarrow> event \<Rightarrow> int option \<Rightarrow> int option \<Rightarrow> fold_state \<Rightarrow> applied" where
  "apply_replace nodes e start end' st =
     (case replaceRange nodes start end' st of
        None \<Rightarrow> unchanged nodes st
      | Some (i, j) \<Rightarrow>
          \<lparr>ap_nodes = splice nodes i j \<lparr>sf_seq = e_seq e, sf_kind = Summary_node, sf_event = e, sf_pinned = False,
              sf_masked = Some \<lparr>mk_start = start, mk_end = end', mk_sources = sources_of e\<rparr>\<rparr>,
           ap_fold = st\<lparr>fs_origins := jm_set (fs_origins st) (e_seq e) (node_at st (nodes ! i))\<rparr>,
           ap_changed = True, ap_replaced = True\<rparr>)"

definition applyEvent :: "surface_node list \<Rightarrow> event \<Rightarrow> int list \<Rightarrow> fold_state \<Rightarrow> applied" where
  "applyEvent nodes e pins st =
     (if spawned_scope e then
        \<lparr>ap_nodes = [], ap_fold = st, ap_changed = (nodes \<noteq> []), ap_replaced = (nodes \<noteq> [])\<rparr>
      else if e_type e = ''tool/call'' then
        (case toolUseIdOf e of
           Some i \<Rightarrow> if isNestedCall (Some (e_data e))
                      then unchanged nodes (st\<lparr>fs_nested := jm_set (fs_nested st) i (e_seq e)\<rparr>)
                      else unchanged nodes st
         | None \<Rightarrow> unchanged nodes st)
      else case KIND (e_type e) of
        None \<Rightarrow> unchanged nodes st
      | Some kind \<Rightarrow>
          if hiddenResult e (fs_nested st) then unchanged nodes (st\<lparr>fs_hidden := set_add (fs_hidden st) (e_seq e)\<rparr>)
          else case replace_op e of
            Some (start, end') \<Rightarrow> apply_replace nodes e start end' st
          | None \<Rightarrow>
              \<lparr>ap_nodes = nodes @ [\<lparr>sf_seq = e_seq e, sf_kind = kind, sf_event = e,
                   sf_pinned = (e_seq e \<in> set pins), sf_masked = None\<rparr>],
               ap_fold = st, ap_changed = True, ap_replaced = False\<rparr>)"

fun surface_loop :: "string \<Rightarrow> int option \<Rightarrow> int list \<Rightarrow> surface_node list \<Rightarrow> fold_state \<Rightarrow> event list \<Rightarrow> surface_node list" where
  "surface_loop lane bnd pins nodes st [] = nodes"
| "surface_loop lane bnd pins nodes st (e # es) =
     (if \<exists>u \<in> set_option bnd. e_seq e > u then nodes
      else if lane_of e \<noteq> lane then surface_loop lane bnd pins nodes st es
      else let a = applyEvent nodes e pins st in surface_loop lane bnd pins (ap_nodes a) (ap_fold a) es)"

definition computeSurface :: "event list \<Rightarrow> string \<Rightarrow> int option \<Rightarrow> int list \<Rightarrow> surface_node list" where
  "computeSurface es lane bnd pins = surface_loop lane bnd pins [] newFoldState es"

section \<open>The check of a replace\<close>

definition kind_at :: "surface_node list \<Rightarrow> nat \<Rightarrow> node_kind option" where
  "kind_at ns k = (if k < length ns then Some (sf_kind (ns ! k)) else None)"

text \<open>The loop of \<^verbatim>\<open>pairClosed\<close>: position, owner of the results met, the nodes still to look at.\<close>

fun pair_loop :: "nat \<Rightarrow> nat \<Rightarrow> nat \<Rightarrow> nat option \<Rightarrow> node_kind list \<Rightarrow> bool" where
  "pair_loop i j k ow [] = True"
| "pair_loop i j k ow (Assistant_node # ks) = pair_loop i j (k + 1) (Some k) ks"
| "pair_loop i j k ow (Summary_node # ks) = pair_loop i j (k + 1) None ks"
| "pair_loop i j k ow (User_node # ks) = pair_loop i j (k + 1) ow ks"
| "pair_loop i j k ow (Result_node # ks) =
     (case ow of
        Some p \<Rightarrow> if (k \<ge> i \<and> k \<le> j) \<noteq> (p \<ge> i \<and> p \<le> j) then False else pair_loop i j (k + 1) ow ks
      | None \<Rightarrow> pair_loop i j (k + 1) ow ks)"

definition pairClosed :: "surface_node list \<Rightarrow> nat \<Rightarrow> nat \<Rightarrow> bool" where
  "pairClosed ns i j =
     (if kind_at ns i = Some Result_node \<or> kind_at ns (j + 1) = Some Result_node then False
      else pair_loop i j 0 None (map sf_kind ns))"

definition validateReplace :: "int option \<Rightarrow> int option \<Rightarrow> int list \<Rightarrow> surface_node list \<Rightarrow> unit res" where
  "validateReplace start end' sources ns =
     (case (firstIndex (\<lambda>n. Some (sf_seq n) = start) ns, firstIndex (\<lambda>n. Some (sf_seq n) = end') ns) of
        (Some i, Some j) \<Rightarrow>
          if j < i then throw E_SURFACE_RANGE ''replace range is not contiguous on the current surface''
          else if \<exists>n \<in> set (take (j + 1 - i) (drop i ns)). sf_pinned n
          then throw E_SURFACE_RANGE ''replace range covers a pinned node''
          else if sources = [] \<or> Some (hd sources) \<noteq> start \<or> Some (last sources) \<noteq> end'
          then throw E_SURFACE_RANGE ''sourceEventSeqs must start/end at the range boundaries''
          else if \<not> pairClosed ns i j
          then throw E_SURFACE_RANGE ''replace range splits a tool call from its result''
          else Inr ()
      | _ \<Rightarrow> throw E_SURFACE_RANGE ''replace range is not contiguous on the current surface'')"

section \<open>The cache\<close>

record surface_cache =
  su_nodes :: "surface_node list"
  su_byId :: "(int, event) jsmap"
  su_fold :: fold_state
  su_lane :: string
  su_pins :: "int list"
  su_upto :: int
  su_generation :: nat

definition new_cache :: "string \<Rightarrow> int list \<Rightarrow> surface_cache" where
  "new_cache lane pins = \<lparr>su_nodes = [], su_byId = [], su_fold = newFoldState, su_lane = lane, su_pins = pins,
     su_upto = 0, su_generation = 0\<rparr>"

definition su_push1 :: "surface_cache \<Rightarrow> event \<Rightarrow> surface_cache" where
  "su_push1 c0 e =
     (let c = c0\<lparr>su_upto := (if e_seq e > su_upto c0 then e_seq e else su_upto c0)\<rparr> in
      if lane_of e \<noteq> su_lane c then c
      else let a = applyEvent (su_nodes c) e (su_pins c) (su_fold c) in
        c\<lparr>su_nodes := ap_nodes a, su_fold := ap_fold a,
          su_byId := (if KIND (e_type e) \<noteq> None \<and> e_seq e \<notin> set (fs_hidden (ap_fold a))
                      then jm_set (su_byId c) (e_seq e) e else su_byId c),
          su_generation := (if ap_replaced a then su_generation c + 1 else su_generation c)\<rparr>)"

definition su_push :: "surface_cache \<Rightarrow> event list \<Rightarrow> surface_cache" where
  "su_push c es = foldl su_push1 c es"

definition su_pin :: "surface_cache \<Rightarrow> int \<Rightarrow> surface_cache" where
  "su_pin c q = c\<lparr>su_pins := set_add (su_pins c) q,
     su_nodes := map (\<lambda>n. if sf_seq n = q then n\<lparr>sf_pinned := True\<rparr> else n) (su_nodes c)\<rparr>"

text \<open>\<^verbatim>\<open>seedSurface\<close>: a child's surface at the fork point, from the snapshot of its parent's cache.\<close>

definition seedSurface :: "string \<Rightarrow> surface_cache \<Rightarrow> int \<Rightarrow> surface_cache" where
  "seedSurface lane snap q = \<lparr>
     su_nodes = map (\<lambda>n. if sf_pinned n then n\<lparr>sf_pinned := False\<rparr> else n) (su_nodes snap),
     su_byId = filter (\<lambda>p. fst p \<le> q) (su_byId snap),
     su_fold = \<lparr>fs_nested = filter (\<lambda>p. snd p \<le> q) (fs_nested (su_fold snap)),
                fs_hidden = filter (\<lambda>h. h \<le> q) (fs_hidden (su_fold snap)),
                fs_origins = filter (\<lambda>p. fst p \<le> q) (fs_origins (su_fold snap))\<rparr>,
     su_lane = lane, su_pins = [], su_upto = q, su_generation = su_generation snap\<rparr>"

section \<open>The cache is the fold\<close>

lemma su_push_append: "su_push c (xs @ ys) = su_push (su_push c xs) ys"
  by (simp add: su_push_def)

lemma su_push_simps [simp]:
  "su_push c [] = c" "su_push c (e # es) = su_push (su_push1 c e) es"
  by (simp_all add: su_push_def)

lemma su_push1_view:
  "su_lane (su_push1 c e) = su_lane c" "su_pins (su_push1 c e) = su_pins c"
  "su_upto (su_push1 c e) = max (su_upto c) (e_seq e)"
  "su_nodes (su_push1 c e) = (if lane_of e \<noteq> su_lane c then su_nodes c
     else ap_nodes (applyEvent (su_nodes c) e (su_pins c) (su_fold c)))"
  "su_fold (su_push1 c e) = (if lane_of e \<noteq> su_lane c then su_fold c
     else ap_fold (applyEvent (su_nodes c) e (su_pins c) (su_fold c)))"
  by (auto simp: su_push1_def Let_def)

text \<open>A node or a surface without its pins.\<close>

definition unpin :: "surface_node \<Rightarrow> surface_node" where
  "unpin n = n\<lparr>sf_pinned := False\<rparr>"

lemma unpin_sel [simp]: "sf_seq (unpin n) = sf_seq n" "sf_kind (unpin n) = sf_kind n" "\<not> sf_pinned (unpin n)"
  "unpin (unpin n) = unpin n"
  by (simp_all add: unpin_def)

lemma firstIndex_map: "firstIndex P (map f xs) = firstIndex (P \<circ> f) xs"
  by (induction xs) auto

lemma findLastIndex_map: "findLastIndex P (map f xs) = findLastIndex (P \<circ> f) xs"
  by (simp add: findLastIndex_def rev_map firstIndex_map)

lemma firstIndex_Some: "firstIndex P xs = Some i \<Longrightarrow> i < length xs \<and> P (xs ! i)"
  by (induction xs arbitrary: i) (auto split: if_splits)

lemma findLastIndex_Some: "findLastIndex P xs = Some i \<Longrightarrow> i < length xs"
  by (auto simp: findLastIndex_def dest!: firstIndex_Some)

lemma node_at_unpin [simp]: "node_at st (unpin n) = node_at st n"
  by (simp add: node_at_def split: option.split)

lemma replaceRange_unpin: "replaceRange (map unpin nodes) s t st = replaceRange nodes s t st"
  unfolding replaceRange_def firstIndex_map findLastIndex_map comp_def node_at_unpin unpin_sel by (rule refl)

lemma replaceRange_Some:
  "replaceRange nodes s t st = Some (i, j) \<Longrightarrow> i \<le> j \<and> j < length nodes"
  by (auto simp: replaceRange_def Let_def dest: firstIndex_Some findLastIndex_Some split: option.splits if_splits)

lemma applyEvent_unpin:
  "ap_nodes (applyEvent (map unpin nodes) e [] st) = map unpin (ap_nodes (applyEvent nodes e pins st))"
  "ap_fold (applyEvent (map unpin nodes) e [] st) = ap_fold (applyEvent nodes e pins st)"
proof -
  have r: "ap_nodes (apply_replace (map unpin nodes) e s t st) = map unpin (ap_nodes (apply_replace nodes e s t st))
      \<and> ap_fold (apply_replace (map unpin nodes) e s t st) = ap_fold (apply_replace nodes e s t st)" for s t
    using replaceRange_Some [of nodes s t st]
    by (auto simp: apply_replace_def replaceRange_unpin unchanged_def splice_def unpin_def take_map drop_map
        node_at_def split: option.split)
  show "ap_nodes (applyEvent (map unpin nodes) e [] st) = map unpin (ap_nodes (applyEvent nodes e pins st))"
    "ap_fold (applyEvent (map unpin nodes) e [] st) = ap_fold (applyEvent nodes e pins st)"
    using r by (auto simp: applyEvent_def unchanged_def unpin_def split: option.split)
qed

text \<open>What a cache is used for: rows are pushed and nodes are pinned, in any order.\<close>

datatype cache_op = Push "event list" | Pin int

fun su_op :: "surface_cache \<Rightarrow> cache_op \<Rightarrow> surface_cache" where
  "su_op c (Push es) = su_push c es"
| "su_op c (Pin q) = su_pin c q"

fun pushed :: "cache_op list \<Rightarrow> event list" where
  "pushed [] = []"
| "pushed (Push es # ops) = es @ pushed ops"
| "pushed (Pin q # ops) = pushed ops"

text \<open>Two caches that differ in their pins only.\<close>

definition same_surface :: "surface_cache \<Rightarrow> surface_cache \<Rightarrow> bool" where
  "same_surface c d \<longleftrightarrow> map unpin (su_nodes c) = map unpin (su_nodes d) \<and> su_fold c = su_fold d \<and> su_lane c = su_lane d"

lemma same_surface_push1: "same_surface c d \<Longrightarrow> same_surface (su_push1 c e) (su_push1 d e)"
  using applyEvent_unpin [of "su_nodes c" e "su_fold c" "su_pins c"]
    applyEvent_unpin [of "su_nodes d" e "su_fold d" "su_pins d"]
  by (auto simp: same_surface_def su_push1_view)

lemma same_surface_push: "same_surface c d \<Longrightarrow> same_surface (su_push c es) (su_push d es)"
  by (induction es arbitrary: c d) (auto intro: same_surface_push1)

lemma same_surface_pin: "same_surface c d \<Longrightarrow> same_surface (su_pin c q) d"
proof -
  have "map unpin (map (\<lambda>n. if sf_seq n = q then n\<lparr>sf_pinned := True\<rparr> else n) ns) = map unpin ns" for ns
    by (simp add: unpin_def)
  then show "same_surface c d \<Longrightarrow> same_surface (su_pin c q) d"
    by (simp add: same_surface_def su_pin_def del: map_map)
qed

lemma same_surface_ops: "same_surface c d \<Longrightarrow> same_surface (foldl su_op c ops) (su_push d (pushed ops))"
proof (induction ops arbitrary: c d)
  case (Cons x ops)
  then show ?case
    by (cases x) (auto simp: su_push_append intro!: Cons.IH same_surface_push same_surface_pin)
qed simp

lemma su_push_loop:
  "su_nodes (su_push c es) = surface_loop (su_lane c) None (su_pins c) (su_nodes c) (su_fold c) es"
  by (induction es arbitrary: c) (auto simp: su_push1_view Let_def)

lemma unpinned: "su_pins c = [] \<Longrightarrow> map unpin (su_nodes c) = su_nodes c
    \<Longrightarrow> map unpin (su_nodes (su_push c es)) = su_nodes (su_push c es)"
proof (induction es arbitrary: c)
  case (Cons e es)
  have "map unpin (su_nodes (su_push1 c e)) = su_nodes (su_push1 c e)"
    using applyEvent_unpin(1) [of "su_nodes c" e "su_fold c" "[]"] Cons.prems by (simp add: su_push1_view)
  with Cons show ?case by (simp add: su_push1_view)
qed simp

text \<open>The sequences the fold keeps are those of rows it was given.\<close>

definition fold_upto :: "int \<Rightarrow> fold_state \<Rightarrow> bool" where
  "fold_upto q st \<longleftrightarrow> (\<forall>p \<in> set (fs_nested st). snd p \<le> q) \<and> (\<forall>h \<in> set (fs_hidden st). h \<le> q)
     \<and> (\<forall>p \<in> set (fs_origins st). fst p \<le> q)"

lemma set_update_sub: "set (jm_set m k v) \<subseteq> insert (k, v) (set m)"
  by (induction m) auto

lemma fold_upto_apply:
  assumes "fold_upto q st" "e_seq e \<le> q"
  shows "fold_upto q (ap_fold (applyEvent nodes e pins st))"
proof -
  have "fold_upto q (ap_fold (apply_replace nodes e s t st))" for s t
    using assms set_update_sub [of "e_seq e" _ "fs_origins st"]
    by (fastforce simp: apply_replace_def unchanged_def fold_upto_def split: option.split)
  moreover have "fold_upto q (st\<lparr>fs_nested := jm_set (fs_nested st) i (e_seq e)\<rparr>)" for i
    using assms set_update_sub [of i "e_seq e" "fs_nested st"] by (fastforce simp: fold_upto_def)
  moreover have "fold_upto q (st\<lparr>fs_hidden := set_add (fs_hidden st) (e_seq e)\<rparr>)"
    using assms by (simp add: fold_upto_def)
  ultimately show ?thesis
    using assms by (auto simp: applyEvent_def unchanged_def split: option.split)
qed

lemma fold_upto_push:
  "fold_upto q (su_fold c) \<Longrightarrow> \<forall>e \<in> set es. e_seq e \<le> q \<Longrightarrow> fold_upto q (su_fold (su_push c es))"
  by (induction es arbitrary: c) (auto simp: su_push1_view fold_upto_apply)

lemma seed_same:
  assumes "same_surface c d" "fold_upto q (su_fold c)"
  shows "same_surface (seedSurface (su_lane c) c q) d"
proof -
  have "map unpin (map (\<lambda>n. if sf_pinned n then n\<lparr>sf_pinned := False\<rparr> else n) ns) = map unpin ns" for ns
    by (simp add: unpin_def)
  moreover have "su_fold (seedSurface (su_lane c) c q) = su_fold c"
    using assms(2) by (cases "su_fold c") (auto simp: seedSurface_def fold_upto_def)
  ultimately show ?thesis using assms(1) by (simp add: same_surface_def seedSurface_def del: map_map)
qed

lemma seed_unpinned: "map unpin (su_nodes (seedSurface lane c q)) = su_nodes (seedSurface lane c q)"
  by (auto simp: seedSurface_def unpin_def)

lemma su_ops_lane: "su_lane (foldl su_op x ops) = su_lane x"
proof (induction ops arbitrary: x)
  case (Cons p ops)
  have "su_lane (su_push x es) = su_lane x" for es by (induction es arbitrary: x) (auto simp: su_push1_view)
  with Cons show ?case by (cases p) (auto simp: su_pin_def)
qed simp

lemma new_cache_lane: "su_lane (new_cache lane pins) = lane"
  by (simp add: new_cache_def)

text \<open>
  C38. The surface of a lane does not depend on how its rows arrived. A cache that was fed rows in any
  batches, with nodes pinned in between, shows what refolding all its rows shows, the pins aside; and a
  child seeded from its snapshot at a fork point no row is beyond shows after its own rows what
  refolding the parent's rows and then its own shows.
\<close>

theorem surface_incremental:
  assumes c: "c = foldl su_op (new_cache lane pins) ops"
    and q: "\<forall>e \<in> set (pushed ops). e_seq e \<le> q"
  shows "map unpin (su_nodes c) = computeSurface (pushed ops) lane None []
    \<and> su_nodes (su_push (seedSurface lane c q) own) = computeSurface (pushed ops @ own) lane None []"
proof -
  let ?d = "su_push (new_cache lane []) (pushed ops)"
  have d: "su_nodes (su_push (new_cache lane []) es) = computeSurface es lane None []" for es
    by (simp add: su_push_loop computeSurface_def new_cache_def)
  have ud: "map unpin (su_nodes (su_push (new_cache lane []) es)) = su_nodes (su_push (new_cache lane []) es)" for es
    by (rule unpinned) (simp_all add: new_cache_def)
  have same: "same_surface c ?d"
    unfolding c by (rule same_surface_ops) (simp add: same_surface_def new_cache_def)
  have lane: "su_lane c = lane" by (simp add: c su_ops_lane new_cache_lane)
  have "fold_upto q (su_fold ?d)"
    using q by (intro fold_upto_push) (simp_all add: new_cache_def newFoldState_def fold_upto_def)
  then have "fold_upto q (su_fold c)" using same by (simp add: same_surface_def)
  from same_surface_push [OF seed_same [OF same this], of own]
  have "map unpin (su_nodes (su_push (seedSurface lane c q) own)) = computeSurface (pushed ops @ own) lane None []"
    using ud [of "pushed ops @ own"] d [of "pushed ops @ own"] by (simp add: same_surface_def lane su_push_append)
  moreover have "map unpin (su_nodes (su_push (seedSurface lane c q) own)) = su_nodes (su_push (seedSurface lane c q) own)"
    by (rule unpinned) (simp_all add: seed_unpinned, simp add: seedSurface_def)
  ultimately show ?thesis using same ud [of "pushed ops"] d [of "pushed ops"] by (simp add: same_surface_def)
qed

section \<open>What an accepted replace does\<close>

text \<open>
  Caches whose rows came in order: nodes have distinct sequences, none of a hidden result, none later
  than the last row.
\<close>

definition nodes_ok :: "int \<Rightarrow> surface_node list \<Rightarrow> int list \<Rightarrow> bool" where
  "nodes_ok q ns hs \<longleftrightarrow> distinct (map sf_seq ns) \<and> (\<forall>n \<in> set ns. sf_seq n \<le> q \<and> sf_seq n \<notin> set hs)
     \<and> (\<forall>h \<in> set hs. h \<le> q)"

definition surface_ok :: "surface_cache \<Rightarrow> bool" where
  "surface_ok c \<longleftrightarrow> nodes_ok (su_upto c) (su_nodes c) (fs_hidden (su_fold c))"

lemma in_splice: "n \<in> set (splice xs i j x) \<Longrightarrow> n = x \<or> n \<in> set xs"
  by (auto simp: splice_def dest: in_set_takeD in_set_dropD)

lemma distinct_splice:
  assumes "distinct (map f xs)" "f x \<notin> f ` set xs" "i \<le> j"
  shows "distinct (map f (splice xs i j x))"
proof -
  have xs: "map f xs = map f (take i xs) @ map f (drop i xs)" by (metis append_take_drop_id map_append)
  have "set (map f (drop (j + 1) xs)) \<subseteq> set (map f (drop i xs))"
    using set_drop_subset_set_drop [of i "j + 1" "map f xs"] assms(3) by (simp add: drop_map)
  moreover have "distinct (map f (take i xs))" "distinct (map f (drop (j + 1) xs))"
    using assms(1) by (simp_all add: take_map [symmetric] drop_map [symmetric])
  moreover have "set (map f (take i xs)) \<inter> set (map f (drop i xs)) = {}" using assms(1) xs by (metis distinct_append)
  moreover have "f x \<notin> set (map f (take i xs))" "f x \<notin> set (map f (drop (j + 1) xs))"
    using assms(2) by (auto dest: in_set_takeD in_set_dropD)
  ultimately show ?thesis by (auto simp: splice_def)
qed

lemma nodes_ok_mono: "nodes_ok q ns hs \<Longrightarrow> q < s \<Longrightarrow> nodes_ok s ns hs"
  by (fastforce simp: nodes_ok_def)

lemma nodes_ok_hide: "nodes_ok q ns hs \<Longrightarrow> q < s \<Longrightarrow> nodes_ok s ns (set_add hs s)"
  by (fastforce simp: nodes_ok_def)

lemma nodes_ok_snoc: "nodes_ok q ns hs \<Longrightarrow> q < sf_seq n \<Longrightarrow> nodes_ok (sf_seq n) (ns @ [n]) hs"
  by (fastforce simp: nodes_ok_def)

lemma nodes_ok_splice:
  assumes ok: "nodes_ok q ns hs" and new: "q < sf_seq n" and "i \<le> j"
  shows "nodes_ok (sf_seq n) (splice ns i j n) hs"
proof -
  have "sf_seq n \<notin> sf_seq ` set ns" using ok new by (fastforce simp: nodes_ok_def)
  then have "distinct (map sf_seq (splice ns i j n))"
    using ok \<open>i \<le> j\<close> by (intro distinct_splice) (simp_all add: nodes_ok_def)
  then show ?thesis using ok new by (fastforce simp: nodes_ok_def dest: in_splice)
qed

lemma nodes_ok_replace:
  assumes "nodes_ok q ns (fs_hidden st)" "q < e_seq e"
  shows "nodes_ok (e_seq e) (ap_nodes (apply_replace ns e s t st)) (fs_hidden (ap_fold (apply_replace ns e s t st)))"
proof (cases "replaceRange ns s t st")
  case None
  then show ?thesis using nodes_ok_mono [OF assms] by (simp add: apply_replace_def unchanged_def)
next
  case (Some ij)
  obtain i j where ij: "ij = (i, j)" by force
  have "i \<le> j" using replaceRange_Some Some ij by blast
  then show ?thesis
    using nodes_ok_splice [of q ns "fs_hidden st" "\<lparr>sf_seq = e_seq e, sf_kind = Summary_node, sf_event = e,
        sf_pinned = False, sf_masked = Some \<lparr>mk_start = s, mk_end = t, mk_sources = sources_of e\<rparr>\<rparr>"] assms
    by (simp add: apply_replace_def Some ij)
qed

lemma nodes_ok_apply:
  assumes ok: "nodes_ok q ns (fs_hidden st)" and new: "q < e_seq e"
  shows "nodes_ok (e_seq e) (ap_nodes (applyEvent ns e pins st)) (fs_hidden (ap_fold (applyEvent ns e pins st)))"
proof -
  have same: "nodes_ok (e_seq e) ns (fs_hidden st)" using nodes_ok_mono [OF assms] .
  have "nodes_ok (e_seq e) [] (fs_hidden st)" using same by (simp add: nodes_ok_def)
  moreover have "nodes_ok (e_seq e) (ns @ [\<lparr>sf_seq = e_seq e, sf_kind = k, sf_event = e, sf_pinned = b,
      sf_masked = None\<rparr>]) (fs_hidden st)" for k b
    using nodes_ok_snoc [OF ok, of "\<lparr>sf_seq = e_seq e, sf_kind = k, sf_event = e, sf_pinned = b, sf_masked = None\<rparr>"] new
    by simp
  ultimately show ?thesis
    using same nodes_ok_hide [OF assms] nodes_ok_replace [OF assms]
    by (auto simp: applyEvent_def unchanged_def split: option.split)
qed

lemma surface_ok_push1:
  assumes ok: "surface_ok c" and new: "su_upto c < e_seq e"
  shows "surface_ok (su_push1 c e)"
  using nodes_ok_apply [of "su_upto c" "su_nodes c" "su_fold c" e "su_pins c"]
    nodes_ok_mono [of "su_upto c" "su_nodes c" "fs_hidden (su_fold c)" "e_seq e"] assms
  by (auto simp: surface_ok_def su_push1_view max_def)

lemma surface_ok_pin: "surface_ok c \<Longrightarrow> surface_ok (su_pin c q)"
proof -
  have "map sf_seq (map (\<lambda>n. if sf_seq n = q then n\<lparr>sf_pinned := True\<rparr> else n) ns) = map sf_seq ns"
    for ns :: "surface_node list" by simp
  then show "surface_ok c \<Longrightarrow> surface_ok (su_pin c q)"
    by (auto simp: surface_ok_def nodes_ok_def su_pin_def simp del: map_map)
qed

fun ascends :: "int \<Rightarrow> event list \<Rightarrow> bool" where
  "ascends q [] = True"
| "ascends q (e # es) = (q < e_seq e \<and> ascends (e_seq e) es)"

lemma surface_ok_push:
  "surface_ok c \<Longrightarrow> ascends (su_upto c) (es @ rest) \<Longrightarrow>
     surface_ok (su_push c es) \<and> ascends (su_upto (su_push c es)) rest"
proof (induction es arbitrary: c)
  case (Cons e es)
  then have "su_upto (su_push1 c e) = e_seq e" by (simp add: su_push1_view max_def)
  with Cons surface_ok_push1 show ?case by simp
qed simp

lemma surface_ok_ops: "surface_ok c \<Longrightarrow> ascends (su_upto c) (pushed ops) \<Longrightarrow> surface_ok (foldl su_op c ops)"
proof (induction ops arbitrary: c)
  case (Cons x ops)
  show ?case
  proof (cases x)
    case (Push es)
    then show ?thesis using surface_ok_push [of c es "pushed ops"] Cons by simp
  next
    case (Pin q)
    have "su_upto (su_pin c q) = su_upto c" by (simp add: su_pin_def)
    then show ?thesis using Cons surface_ok_pin by (simp add: Pin)
  qed
qed simp

text \<open>Which call a result belongs to: the nearest assistant before it, over results and users only.\<close>

definition result_of :: "node_kind list \<Rightarrow> nat \<Rightarrow> nat \<Rightarrow> bool" where
  "result_of ks p k \<longleftrightarrow> p < k \<and> k < length ks \<and> ks ! p = Assistant_node \<and> ks ! k = Result_node
     \<and> (\<forall>m. p < m \<and> m < k \<longrightarrow> ks ! m = Result_node \<or> ks ! m = User_node)"

fun last_owner :: "nat \<Rightarrow> nat option \<Rightarrow> node_kind list \<Rightarrow> nat option" where
  "last_owner k ow [] = ow"
| "last_owner k ow (x # ks) = last_owner (k + 1)
     (case x of Assistant_node \<Rightarrow> Some k | Summary_node \<Rightarrow> None | _ \<Rightarrow> ow) ks"

lemma last_owner_append: "last_owner k ow (xs @ ys) = last_owner (k + length xs) (last_owner k ow xs) ys"
  by (induction xs arbitrary: k ow) auto

lemma last_owner_plain:
  "\<forall>x \<in> set ks. x = Result_node \<or> x = User_node \<Longrightarrow> last_owner k ow ks = ow"
  by (induction ks arbitrary: k) auto

lemma result_of_owner:
  assumes "result_of ks p k"
  shows "last_owner 0 None (take k ks) = Some p"
proof -
  have l: "p < k" "k < length ks" and kp: "ks ! p = Assistant_node" using assms by (simp_all add: result_of_def)
  have "take k ks = take p ks @ ks ! p # take (k - p - 1) (drop (Suc p) ks)"
    using l id_take_nth_drop [of p "take k ks"] by (simp add: drop_take min_def)
  moreover have "\<forall>x \<in> set (take (k - p - 1) (drop (Suc p) ks)). x = Result_node \<or> x = User_node"
  proof
    fix x assume "x \<in> set (take (k - p - 1) (drop (Suc p) ks))"
    then obtain m where "m < k - p - 1" "x = ks ! (Suc p + m)" using l by (auto simp: in_set_conv_nth)
    then show "x = Result_node \<or> x = User_node" using assms by (auto simp: result_of_def)
  qed
  ultimately show ?thesis using l kp by (simp add: last_owner_append last_owner_plain min_def)
qed

lemma pair_loop_sound:
  "pair_loop i j k ow ks \<Longrightarrow> m < length ks \<Longrightarrow> ks ! m = Result_node \<Longrightarrow> last_owner k ow (take m ks) = Some p
    \<Longrightarrow> (i \<le> k + m \<and> k + m \<le> j) = (i \<le> p \<and> p \<le> j)"
proof (induction ks arbitrary: k ow m)
  case (Cons x ks)
  show ?case
  proof (cases m)
    case 0
    with Cons.prems show ?thesis by (simp split: if_splits)
  next
    case (Suc m')
    have "pair_loop i j (k + 1) (case x of Assistant_node \<Rightarrow> Some k | Summary_node \<Rightarrow> None | _ \<Rightarrow> ow) ks"
      using Cons.prems(1) by (cases x) (auto split: option.splits if_splits)
    from Cons.IH [OF this, of m'] Cons.prems Suc show ?thesis by simp
  qed
qed simp


definition message :: "int \<Rightarrow> string \<Rightarrow> (int \<times> int) option \<Rightarrow> event" where
  "message n ty rng = stamp n \<lparr>e_ts = ''t'', e_id = ''i'', e_type = ty, e_data = JObj [], e_actor = JNull,
     e_origin = ''system'', e_trusted = True, e_lane = None, e_v = None, e_register = None, e_ignorable = False,
     e_surfaceOp = map_option (\<lambda>(s, t). JObj [(''op'', JStr ''replace''), (''start'', JNum s), (''end'', JNum t)]) rng,
     e_sourceEventSeqs = map_option (\<lambda>(s, t). [s, t]) rng\<rparr>"

definition talk :: "event list" where
  "talk = [message 1 ''user/message'' None, message 2 ''assistant/message'' None, message 3 ''tool/result'' None,
     message 4 ''user/message'' None]"

definition cache_a :: surface_cache where
  "cache_a = foldl su_op (new_cache ''main'' []) [Push talk, Pin 4]"

definition mask_a :: event where
  "mask_a = message 5 ''user/message'' (Some (1, 3))"


text \<open>A surface with a call, two messages and the result of the call, and two masks of it.\<close>

definition cache_b :: surface_cache where
  "cache_b = su_push (new_cache ''main'' []) [message 1 ''assistant/message'' None, message 2 ''user/message'' None,
     message 3 ''user/message'' None, message 4 ''tool/result'' None]"

definition mask_b1 :: event where
  "mask_b1 = message 5 ''user/message'' (Some (2, 2))"

definition mask_b2 :: event where
  "mask_b2 = message 6 ''user/message'' (Some (1, 1))"


theorem surface_incremental_witness:
  "map sf_seq (su_nodes (su_push (seedSurface ''main'' cache_a 4) [message 5 ''user/message'' (Some (1, 3)),
       message 6 ''assistant/message'' None])) = [5, 4, 6]
   \<and> su_nodes (su_push (seedSurface ''main'' cache_a 4) [mask_a]) = computeSurface (talk @ [mask_a]) ''main'' None []"
proof -
  have q: "\<forall>e \<in> set (pushed [Push talk, Pin 4]). e_seq e \<le> 4"
    by (simp add: talk_def message_def)
  have "map sf_seq (su_nodes (su_push (seedSurface ''main'' cache_a 4) [message 5 ''user/message'' (Some (1, 3)),
       message 6 ''assistant/message'' None])) = [5, 4, 6]" by code_simp
  with surface_incremental [OF cache_a_def q, of "[mask_a]"] show ?thesis by simp
qed

end
