(* ===== verification/Reducer.thy ===== *)
theory Reducer imports LedgerState Migrate Decision Surface begin

text \<open>
  \<^verbatim>\<open>packages/core-ledger/src/reduce/reducer.ts\<close>: the fold of one row into the ledger state, one
  definition per case of the switch over the row's type. The source copies a table the first time a row
  writes it; a value is never changed here, so the copies are the values themselves.
\<close>

record reduce_env =
  re_decision :: decision_env
  re_migrations :: migrations

section \<open>Registers\<close>

definition OBJECT_REGISTERS :: "string list" where
  "OBJECT_REGISTERS = [''plan.items'', ''budget.state'', ''artifact/job'', ''inbox'', ''harness/entry'']"

definition lifecycleId :: "json option \<Rightarrow> string \<Rightarrow> string res" where
  "lifecycleId d field = (case jstr (jget d field) of
       Some v \<Rightarrow> if v \<noteq> '''' then Inr v else throw E_ENVELOPE ''must be a non-empty string''
     | None \<Rightarrow> throw E_ENVELOPE ''must be a non-empty string'')"

definition setRegister :: "cells \<Rightarrow> string \<Rightarrow> string \<Rightarrow> int \<Rightarrow> json \<Rightarrow> cells res" where
  "setRegister cells reg key n data =
     (if isRegisterTombstone reg data then Inr (jm_delete cells key)
      else if reg \<in> set OBJECT_REGISTERS \<and> \<not> is_plain_object data
      then throw E_ENVELOPE ''data must be an object''
      else Inr (jm_set cells key \<lparr>cl_seq = n, cl_value = data\<rparr>))"

definition reduce_register :: "reduce_env \<Rightarrow> ledger_state \<Rightarrow> event \<Rightarrow> ledger_state res" where
  "reduce_register env s e =
     (case e_register e of
        None \<Rightarrow> Inr s
      | Some reg \<Rightarrow>
          let key = registerKey e; d = e_data e; n = e_seq e in
          if reg = ''decision/state'' then
            rbind (reduceDecision (re_decision env) (map_option cl_value (jm_get (lg_decisionStates s) key)) e) (\<lambda>v.
              Inr (s\<lparr>lg_decisionStates := jm_set (lg_decisionStates s) key \<lparr>cl_seq = n, cl_value = v\<rparr>\<rparr>))
          else if reg = ''plan.items'' then
            rbind (setRegister (lg_planItems s) reg key n d) (\<lambda>c. Inr (s\<lparr>lg_planItems := c\<rparr>))
          else if reg = ''budget.state'' then
            rbind (setRegister (lg_budgetState s) reg key n d) (\<lambda>c. Inr (s\<lparr>lg_budgetState := c\<rparr>))
          else if reg = ''artifact/job'' then
            rbind (setRegister (lg_artifactJobs s) reg key n d) (\<lambda>c. Inr (s\<lparr>lg_artifactJobs := c\<rparr>))
          else if reg = ''inbox'' then
            rbind (setRegister (lg_inbox s) reg key n d) (\<lambda>c. Inr (s\<lparr>lg_inbox := c\<rparr>))
          else if reg = ''harness/entry'' then
            rbind (setRegister (lg_harnessEntries s) reg key n d) (\<lambda>c. Inr (s\<lparr>lg_harnessEntries := c\<rparr>))
          else Inr s)"

section \<open>Sessions and turns\<close>

definition fork_reset :: "ledger_state \<Rightarrow> ledger_state" where
  "fork_reset s = s\<lparr>lg_decisionStates := [], lg_budgetState := [], lg_inbox := [], lg_openTurn := [],
     lg_openStep := [], lg_lastStep := [], lg_pending := [], lg_resumed := [], lg_taint := [], lg_runs := [],
     lg_saves := [], lg_toolCalls := cm_empty, lg_creditsUsed := num_of_int 0\<rparr>"

definition red_session_start :: "ledger_state \<Rightarrow> event \<Rightarrow> ledger_state res" where
  "red_session_start s e =
     (let d = Some (e_data e) in
      if e_data e = JNull then type_error
      else let s1 = (if js_truthy (jget d ''parent'') then fork_reset s else s);
               s2 = (if js_truthy (jget d ''parent'') \<and> jget (jget d ''delegation'') ''kind'' = Some (JStr ''spawn'')
                     then s1\<lparr>lg_lastLedgerTokens := None\<rparr> else s1) in
           Inr (s2\<lparr>lg_session := d\<rparr>))"

definition gate_owners :: "string list" where
  "gate_owners = [''core/tool-permission'', ''core/gate'', ''core/unknown-outcome'']"

definition continuation_mismatch :: "json option \<Rightarrow> json \<Rightarrow> string \<Rightarrow> bool" where
  "continuation_mismatch d durable lane =
     (let rq = jget (Some durable) ''request''; ow = jstr (jget rq ''owner'') in
      jget d ''trigger'' \<noteq> Some (JStr ''approval-resume'')
      \<or> \<not> (\<exists>w \<in> set_option ow. w \<in> set gate_owners)
      \<or> jget rq ''sourcePackage'' \<noteq> Some (JStr ''@agnes/core'')
      \<or> jget rq ''lane'' \<noteq> Some (JStr lane)
      \<or> js_truthy (jget (Some durable) ''consumption'')
      \<or> ((ow = Some ''core/tool-permission'' \<or> ow = Some ''core/unknown-outcome'')
         \<and> jget rq ''operationId'' \<noteq> jget (jget d ''continues'') ''toolUseId''))"

definition check_continuation :: "ledger_state \<Rightarrow> json option \<Rightarrow> string \<Rightarrow> ledger_state res" where
  "check_continuation s d lane =
     (case jget (jget d ''continues'') ''requestId'' of
        None \<Rightarrow> Inr s
      | Some rid \<Rightarrow>
          case Option.bind (jstr (Some rid)) (jm_get (lg_decisionStates s)) of
            None \<Rightarrow> throw E_RELATION ''continuation requires a decision on this lane''
          | Some c \<Rightarrow>
              if continuation_mismatch d (cl_value c) lane
              then throw E_RELATION ''continuation does not match the original decision gate''
              else if jget (jget (Some (cl_value c)) ''request'') ''owner'' = Some (JStr ''core/gate'') then
                (if the (jstr (Some rid)) \<in> set (lg_resumed s)
                 then throw E_RELATION ''approval decision already consumed''
                 else Inr (s\<lparr>lg_resumed := set_add (lg_resumed s) (the (jstr (Some rid)))\<rparr>))
              else Inr s)"

definition open_turn_on :: "ledger_state \<Rightarrow> event \<Rightarrow> ledger_state" where
  "open_turn_on s e =
     (let d = Some (e_data e); lane = lane_of e; n = js_number (jget d ''turn'') in
      s\<lparr>lg_openTurn := jm_set (lg_openTurn s) lane
          \<lparr>ot_turn = n, ot_startSeq = e_seq e, ot_trigger = js_string (jget d ''trigger''), ot_lastHeaderSeq = None\<rparr>,
        lg_lastTurn := jm_set (lg_lastTurn s) lane n,
        lg_taint := jm_set (lg_taint s) lane
          (e_origin e = ''system'' \<and> e_trusted e \<and> jget d ''inputTainted'' = Some (JBool True))\<rparr>)"

definition red_turn_start :: "ledger_state \<Rightarrow> event \<Rightarrow> ledger_state res" where
  "red_turn_start s e =
     (if jm_has (lg_openTurn s) (lane_of e) then throw E_RELATION ''turn already open''
      else rbind (check_continuation s (Some (e_data e)) (lane_of e)) (\<lambda>s1. Inr (open_turn_on s1 e)))"

definition red_turn_end :: "ledger_state \<Rightarrow> event \<Rightarrow> ledger_state" where
  "red_turn_end s e = (let lane = lane_of e in
     s\<lparr>lg_openTurn := jm_delete (lg_openTurn s) lane, lg_openStep := jm_delete (lg_openStep s) lane,
       lg_lastStep := jm_delete (lg_lastStep s) lane\<rparr>)"

definition red_step_start :: "ledger_state \<Rightarrow> event \<Rightarrow> ledger_state" where
  "red_step_start s e =
     (let d = Some (e_data e); n = js_number (jget d ''step'') in
      s\<lparr>lg_openStep := jm_set (lg_openStep s) (lane_of e)
          \<lparr>os_turn = js_number (jget d ''turn''), os_step = n, os_startSeq = e_seq e\<rparr>,
        lg_lastStep := jm_set (lg_lastStep s) (lane_of e) n\<rparr>)"

definition red_step_end :: "ledger_state \<Rightarrow> event \<Rightarrow> ledger_state" where
  "red_step_end s e = s\<lparr>lg_openStep := jm_delete (lg_openStep s) (lane_of e)\<rparr>"

section \<open>Requests and effects\<close>

definition red_request_header :: "ledger_state \<Rightarrow> event \<Rightarrow> ledger_state" where
  "red_request_header s e = (case jm_get (lg_openTurn s) (lane_of e) of
       Some t \<Rightarrow> s\<lparr>lg_openTurn := jm_set (lg_openTurn s) (lane_of e) (t\<lparr>ot_lastHeaderSeq := Some (e_seq e)\<rparr>)\<rparr>
     | None \<Rightarrow> s)"

definition is_inference :: "effect_node \<Rightarrow> bool" where
  "is_inference p = (en_kind p = Some (JStr ''inference''))"

definition find_inference :: "ledger_state \<Rightarrow> int \<Rightarrow> string \<Rightarrow> effect_node option" where
  "find_inference s intent lane =
     find (\<lambda>p. en_intentSeq p = intent \<and> is_inference p \<and> en_lane p = lane) (jm_values (lg_pending s))"

definition put_pending :: "ledger_state \<Rightarrow> effect_node \<Rightarrow> ledger_state" where
  "put_pending s p = s\<lparr>lg_pending := jm_set (lg_pending s) (en_effectId p) p\<rparr>"

definition red_request_sent :: "ledger_state \<Rightarrow> event \<Rightarrow> ledger_state" where
  "red_request_sent s e =
     (case sources_of e of
        [header, intent] \<Rightarrow>
          if \<not> (header < intent \<and> intent < e_seq e)
             \<or> \<not> (\<exists>t \<in> set_option (jm_get (lg_openTurn s) (lane_of e)). ot_lastHeaderSeq t = Some header)
             \<or> \<not> jm_has (lg_openStep s) (lane_of e) then s
          else (case find_inference s intent (lane_of e) of
              None \<Rightarrow> s
            | Some p \<Rightarrow> if en_receiptSeq p \<noteq> None then s else put_pending s (p\<lparr>en_receiptSeq := Some (e_seq e)\<rparr>))
      | _ \<Rightarrow> s)"

definition red_assistant_output :: "ledger_state \<Rightarrow> event \<Rightarrow> ledger_state" where
  "red_assistant_output s e =
     (let d = Some (e_data e) in
      case Option.bind (jstr (jget d ''effectId'')) (jm_get (lg_pending s)) of
        None \<Rightarrow> s
      | Some p \<Rightarrow>
          if \<not> is_inference p \<or> en_lane p \<noteq> lane_of e then s
          else let first = (en_firstOutputSeq p = None);
                   cut = (jget d ''state'' = Some (JStr ''interrupted'') \<and> en_interruptedSeq p = None) in
            if first \<or> cut then
              put_pending s (p\<lparr>en_firstOutputSeq := (if first then Some (e_seq e) else en_firstOutputSeq p),
                en_interruptedSeq := (if cut then Some (e_seq e) else en_interruptedSeq p)\<rparr>)
            else s)"

definition red_assistant_message :: "ledger_state \<Rightarrow> event \<Rightarrow> ledger_state" where
  "red_assistant_message s e =
     (case find (\<lambda>p. is_inference p \<and> en_lane p = lane_of e \<and> en_firstOutputSeq p = None) (jm_values (lg_pending s)) of
        None \<Rightarrow> s
      | Some p \<Rightarrow> put_pending s (p\<lparr>en_firstOutputSeq := Some (e_seq e)\<rparr>))"

definition intent_node :: "string \<Rightarrow> event \<Rightarrow> effect_node" where
  "intent_node effectId e =
     (let d = Some (e_data e) in
      \<lparr>en_effectId = effectId, en_lane = lane_of e, en_parentEffectId = jget d ''parentEffectId'',
       en_kind = jget d ''kind'', en_tool = jget d ''tool'', en_replay = jget d ''replay'', en_intentSeq = e_seq e,
       en_receiptSeq = None, en_firstOutputSeq = None, en_interruptedSeq = None, en_argsSeq = jget d ''argsSeq'',
       en_slot = jget d ''slot''\<rparr>)"

definition red_effect_intent :: "ledger_state \<Rightarrow> event \<Rightarrow> ledger_state res" where
  "red_effect_intent s e =
     rbind (lifecycleId (Some (e_data e)) ''effectId'') (\<lambda>i. Inr (put_pending s (intent_node i e)))"

definition drop_pending :: "ledger_state \<Rightarrow> string \<Rightarrow> ledger_state" where
  "drop_pending s i = s\<lparr>lg_pending := jm_delete (lg_pending s) i\<rparr>"

definition late_receipt :: "event \<Rightarrow> ledger_state \<Rightarrow> json \<Rightarrow> ledger_state" where
  "late_receipt e s receipt =
     (case jstr (jget (Some receipt) ''effectId'') of
        None \<Rightarrow> s
      | Some i \<Rightarrow>
          if js_string (jget (Some receipt) ''outcome'') \<notin> {''ok'', ''error'', ''aborted'', ''unknown''} then s
          else (case jm_get (lg_pending s) i of
              None \<Rightarrow> s
            | Some p \<Rightarrow> if en_lane p = lane_of e \<and> en_intentSeq p \<in> set (sources_of e) then drop_pending s i else s))"

definition red_late_receipts :: "ledger_state \<Rightarrow> event \<Rightarrow> ledger_state" where
  "red_late_receipts s e =
     (let d = Some (e_data e) in
      case jget d ''effects'' of
        Some (JArr receipts) \<Rightarrow>
          if e_origin e \<noteq> ''system'' \<or> \<not> e_trusted e \<or> jget d ''version'' \<noteq> Some (JNum 1) then s
          else foldl (late_receipt e) s receipts
      | _ \<Rightarrow> s)"

definition red_effect_settled :: "ledger_state \<Rightarrow> event \<Rightarrow> ledger_state res" where
  "red_effect_settled s e = rbind (lifecycleId (Some (e_data e)) ''effectId'') (\<lambda>i. Inr (drop_pending s i))"

section \<open>Refinement\<close>

definition red_refinement_run :: "ledger_state \<Rightarrow> event \<Rightarrow> ledger_state" where
  "red_refinement_run s e =
     (case Option.bind (jstr (jget (Some (e_data e)) ''runId'')) (\<lambda>i. foldRefinementRun (jm_get (lg_runs s) i) e) of
        None \<Rightarrow> s
      | Some r \<Rightarrow> s\<lparr>lg_runs := jm_set (lg_runs s) (rr_runId r) r\<rparr>)"

definition meta_key :: "json option \<Rightarrow> string" where
  "meta_key d = string_or_empty (jget d ''kind'') @ NUL # string_or_empty (jget d ''id'')"

definition red_entry_meta :: "ledger_state \<Rightarrow> event \<Rightarrow> ledger_state" where
  "red_entry_meta s e =
     (let key = meta_key (Some (e_data e)); cell = jm_get (lg_harnessEntries s) key;
          s1 = (case foldEntryMeta cell e of None \<Rightarrow> s | Some m \<Rightarrow> s\<lparr>lg_entryMeta := jm_set (lg_entryMeta s) key m\<rparr>) in
      case foldEntryTombstone cell e of
        None \<Rightarrow> s1
      | Some t \<Rightarrow> s1\<lparr>lg_tombstones := jm_set (lg_tombstones s1) key t\<rparr>)"

definition red_save :: "ledger_state \<Rightarrow> event \<Rightarrow> ledger_state" where
  "red_save s e = (case foldRefinementSave e of
       None \<Rightarrow> s | Some r \<Rightarrow> s\<lparr>lg_saves := jm_set (lg_saves s) (sr_receiptId r) r\<rparr>)"

section \<open>Calls and costs\<close>

definition red_tool_call :: "ledger_state \<Rightarrow> event \<Rightarrow> ledger_state" where
  "red_tool_call s e =
     (let d = Some (e_data e); lane = lane_of e in
      s\<lparr>lg_toolCalls := cm_set (lg_toolCalls s) (js_string (jget d ''toolUseId''))
          \<lparr>tc_seq = e_seq e, tc_name = js_string (jget d ''name''),
           tc_turn = (case jm_get (lg_openTurn s) lane of Some t \<Rightarrow> ot_turn t | None \<Rightarrow> num_of_int 0),
           tc_step = (case jm_get (lg_openStep s) lane of Some t \<Rightarrow> os_step t | None \<Rightarrow> num_of_int 0),
           tc_lane = lane\<rparr>\<rparr>)"

definition inherited_cost :: "ledger_state \<Rightarrow> event \<Rightarrow> bool res" where
  "inherited_cost s e =
     (case jget (lg_session s) ''parent'' of
        None \<Rightarrow> Inr False
      | Some JNull \<Rightarrow> type_error
      | Some p \<Rightarrow> Inr (js_leq (num_of_int (e_seq e)) (js_number (jget (Some p) ''boundarySeq''))))"

definition nullish_or :: "json option \<Rightarrow> json option \<Rightarrow> json option" where
  "nullish_or v w = (if nullish v then w else v)"

definition red_cost_ledger :: "ledger_state \<Rightarrow> event \<Rightarrow> ledger_state res" where
  "red_cost_ledger s e =
     rbind (inherited_cost s e) (\<lambda>inherited.
       let d = Some (e_data e); adj = jget d ''adjustment''; parent = jget (lg_session s) ''parent'' in
       if inherited \<or> lane_of e = MAINTENANCE_LANE then Inr s
       else if e_data e = JNull then type_error
       else if \<not> js_truthy adj \<or> \<not> js_truthy parent
          \<or> js_lt (js_number (jget parent ''boundarySeq'')) (js_number (jget adj ''of''))
       then Inr (s\<lparr>lg_creditsUsed := js_plus (lg_creditsUsed s)
              (num_operand (nullish_or (jget adj ''delta'') (nullish_or (jget d ''credits'') (Some (JNum 0)))))\<rparr>)
       else Inr s)"

section \<open>The fold\<close>

definition reduce_type :: "ledger_state \<Rightarrow> event \<Rightarrow> ledger_state res" where
  "reduce_type s e =
     (let ty = e_type e in
      if ty = ''session/start'' then red_session_start s e
      else if ty = ''turn/start'' then red_turn_start s e
      else if ty = ''turn/end'' then Inr (red_turn_end s e)
      else if ty = ''step/start'' then Inr (red_step_start s e)
      else if ty = ''step/end'' then Inr (red_step_end s e)
      else if ty = ''request/header'' then Inr (red_request_header s e)
      else if ty = ''request/sent'' then Inr (red_request_sent s e)
      else if ty = ''assistant/output'' then Inr (red_assistant_output s e)
      else if ty = ''assistant/message'' then Inr (red_assistant_message s e)
      else if ty = ''effect/intent'' then red_effect_intent s e
      else if ty = ''x/core/late-effect-receipt'' then Inr (red_late_receipts s e)
      else if ty = ''effect/settled'' then red_effect_settled s e
      else if ty = REFINEMENT_RUN_EVENT then Inr (red_refinement_run s e)
      else if ty = REFINEMENT_ENTRY_META_EVENT then Inr (red_entry_meta s e)
      else if ty = REFINEMENT_SAVE_EVENT then Inr (red_save s e)
      else if ty = ''tool/call'' then Inr (red_tool_call s e)
      else if ty = ''cost/ledger'' then red_cost_ledger s e
      else Inr s)"

definition reduce_anchor :: "ledger_state \<Rightarrow> event \<Rightarrow> ledger_state res" where
  "reduce_anchor s e = rbind (contextAnchorOf e) (\<lambda>a. case a of
       None \<Rightarrow> Inr s | Some _ \<Rightarrow> Inr (s\<lparr>lg_lastLedgerTokens := a\<rparr>))"

fun some_reference :: "json list \<Rightarrow> bool res" where
  "some_reference [] = Inr False"
| "some_reference (b # bs) =
     (if b = JNull then type_error
      else if jget (Some b) ''type'' = Some (JStr ''text'') \<and> jget (Some b) ''reference'' \<noteq> None then Inr True
      else some_reference bs)"

definition tainting :: "event \<Rightarrow> bool res" where
  "tainting e =
     (if e_type e \<noteq> ''user/message'' \<and> e_type e \<noteq> ''tool/result'' then Inr False
      else if \<not> e_trusted e then Inr True
      else if e_type e \<noteq> ''user/message'' then Inr False
      else case jget (Some (e_data e)) ''content'' of
        None \<Rightarrow> Inr False
      | Some JNull \<Rightarrow> Inr False
      | Some (JArr bs) \<Rightarrow> some_reference bs
      | _ \<Rightarrow> type_error)"

definition reduce_taint :: "ledger_state \<Rightarrow> event \<Rightarrow> ledger_state res" where
  "reduce_taint s e = rbind (tainting e) (\<lambda>t.
     Inr (if t \<and> jm_has (lg_openTurn s) (lane_of e) then s\<lparr>lg_taint := jm_set (lg_taint s) (lane_of e) True\<rparr> else s))"

definition readable :: "reduce_env \<Rightarrow> event \<Rightarrow> event res" where
  "readable env raw =
     (if isEventType (e_type raw) then normalize (re_migrations env) raw
      else if e_ignorable raw then Inr raw
      else throw E_UNKNOWN_EVENT (e_type raw))"

definition reduce :: "reduce_env \<Rightarrow> ledger_state \<Rightarrow> event \<Rightarrow> ledger_state res" where
  "reduce env prev raw =
     rbind (readable env raw) (\<lambda>e.
     rbind (reduce_register env (prev\<lparr>lg_lastSeq := e_seq e\<rparr>) e) (\<lambda>s1.
     rbind (reduce_type s1 e) (\<lambda>s2.
     rbind (reduce_anchor s2 e) (\<lambda>s3. reduce_taint s3 e))))"

fun reduce_rows :: "reduce_env \<Rightarrow> int option \<Rightarrow> ledger_state \<Rightarrow> event list \<Rightarrow> ledger_state res" where
  "reduce_rows env bnd s [] = Inr s"
| "reduce_rows env bnd s (e # es) =
     (if \<exists>u \<in> set_option bnd. e_seq e > u then Inr s
      else rbind (reduce env s e) (\<lambda>s'. reduce_rows env bnd s' es))"

definition foldEvents :: "reduce_env \<Rightarrow> event list \<Rightarrow> int option \<Rightarrow> ledger_state res" where
  "foldEvents env es bnd = reduce_rows env bnd initialState es"

end
