(* ===== verification/Relations.thy ===== *)
theory Relations imports Reducer begin

text \<open>
  \<^verbatim>\<open>packages/core-ledger/src/log/relations.ts\<close>: the check of a batch against the state it will
  be appended to. The batch is simulated row by row, and what a row must stand in relation to is looked
  up in the state the rows before it leave.
\<close>

section \<open>Tables\<close>

definition IN_TURN :: "string list" where
  "IN_TURN = [''step/start'', ''step/end'', ''tool/call'', ''tool/result'', ''request/header'', ''request/sent'',
     ''effect/intent'', ''effect/settled'', ''assistant/message'', ''assistant/output'', ''plan.items'',
     ''verifier/signal'', ''repair/decision'', ''format/deviation'', ''x/core/op-mark'']"

definition MAINTENANCE_EFFECTS :: "string list" where
  "MAINTENANCE_EFFECTS = [''effect/intent'', ''effect/settled'']"

definition CLOSER_CODES :: "string list" where
  "CLOSER_CODES = [''TOOL_NOT_STARTED'', ''TOOL_OUTCOME_UNKNOWN'']"

text \<open>\<^verbatim>\<open>CheckedEvent\<close>: a row on its way to storage has no sequence yet, one already stored has.\<close>

type_synonym checked_event = "prepared_event \<times> int option"

definition number_eq :: "jsnum \<Rightarrow> jsnum \<Rightarrow> bool" where
  "number_eq x y \<longleftrightarrow> x = y \<and> x \<noteq> NaN"

section \<open>The checks of a row\<close>

definition chk_turn :: "ledger_state \<Rightarrow> prepared_event \<Rightarrow> unit res" where
  "chk_turn s e =
     (let lane = lane_of e; turn = jm_has (lg_openTurn s) lane in
      if e_type e = ''turn/start'' \<and> turn then throw E_LANE_BUSY ''turn already open''
      else if e_type e \<in> set IN_TURN \<and> \<not> turn \<and> \<not> (lane = MAINTENANCE_LANE \<and> e_type e \<in> set MAINTENANCE_EFFECTS)
      then throw E_RELATION ''outside an open turn''
      else Inr ())"

definition next_step_number :: "ledger_state \<Rightarrow> string \<Rightarrow> jsnum" where
  "next_step_number s lane =
     js_plus (case jm_get (lg_lastStep s) lane of Some n \<Rightarrow> n | None \<Rightarrow> num_of_int 0) (num_of_int 1)"

definition chk_step :: "ledger_state \<Rightarrow> prepared_event \<Rightarrow> unit res" where
  "chk_step s e =
     (if e_type e \<noteq> ''step/start'' then Inr ()
      else if jm_has (lg_openStep s) (lane_of e) then throw E_RELATION ''step already open''
      else if \<not> number_eq (js_number (jget (Some (e_data e)) ''step'')) (next_step_number s (lane_of e))
      then throw E_RELATION ''step out of order''
      else Inr ())"

text \<open>The rows that a consumption may rest on: the intent it names, or a checkpoint of the same decision.\<close>

definition associated_row :: "json option \<Rightarrow> json \<Rightarrow> prepared_event \<Rightarrow> prepared_event \<Rightarrow> bool" where
  "associated_row previous consumption e row =
     (e_lane row = e_lane e
      \<and> (if jget (Some consumption) ''effectId'' = Some JNull
         then e_type row = ''x/core/loop-checkpoint''
            \<or> (e_type row = ''x/core/decision-checkpoint'' \<and> e_origin row = ''system'' \<and> e_trusted row
               \<and> jget (jget (Some (e_data row)) ''handle'') ''id'' = jget (jget previous ''handle'') ''id''
               \<and> jget (Some (e_data row)) ''operationId'' = jget (jget previous ''request'') ''operationId'')
         else e_type row = ''effect/intent''
            \<and> jget (Some (e_data row)) ''effectId'' = jget (Some consumption) ''effectId''))"

definition stored_decision :: "ledger_state \<Rightarrow> prepared_event \<Rightarrow> json option" where
  "stored_decision s e =
     map_option cl_value (jm_get (lg_decisionStates s) (js_string (jget (jget (Some (e_data e)) ''handle'') ''id'')))"

definition chk_consumption :: "checked_event list \<Rightarrow> ledger_state \<Rightarrow> prepared_event \<Rightarrow> unit res" where
  "chk_consumption batch s e =
     (let consumption = jget (Some (e_data e)) ''consumption''; previous = stored_decision s e in
      if e_type e = ''decision/state'' \<and> js_truthy consumption \<and> \<not> js_truthy (jget previous ''consumption'')
         \<and> \<not> (\<exists>row \<in> set batch. associated_row previous (the consumption) e (fst row))
      then throw E_RELATION ''Decision consumption requires the original intent or next checkpoint in the same batch''
      else Inr ())"

definition same_step :: "tool_call \<Rightarrow> open_step \<Rightarrow> bool" where
  "same_step c p \<longleftrightarrow> number_eq (tc_turn c) (os_turn p) \<and> number_eq (tc_step c) (os_step p)"

definition chk_result :: "ledger_state \<Rightarrow> prepared_event \<Rightarrow> unit res" where
  "chk_result s e =
     (if e_type e \<noteq> ''tool/result'' then Inr ()
      else let d = Some (e_data e); lane = lane_of e;
             call = cm_get (lg_toolCalls s) (js_string (jget d ''toolUseId''));
             sameStep = (\<exists>c \<in> set_option call. \<exists>p \<in> set_option (jm_get (lg_openStep s) lane). same_step c p);
             closer = (js_string (jget d ''code'') \<in> set CLOSER_CODES \<and> sources_of e \<noteq> []);
             resume = (\<exists>t \<in> set_option (jm_get (lg_openTurn s) lane). ot_trigger t = ''approval-resume''
                         \<and> (\<exists>c \<in> set_option call. tc_seq c \<in> set (sources_of e))) in
        if \<not> sameStep \<and> \<not> closer \<and> \<not> resume then throw E_RELATION ''without prior tool/call in this step''
        else Inr ())"

definition chk_sent :: "ledger_state \<Rightarrow> prepared_event \<Rightarrow> int \<Rightarrow> unit res" where
  "chk_sent s e n =
     (if e_type e \<noteq> ''request/sent'' then Inr ()
      else let lane = lane_of e;
             binds = (case sources_of e of
                 [header, intent] \<Rightarrow> header < intent \<and> intent < n
                   \<and> (\<exists>t \<in> set_option (jm_get (lg_openTurn s) lane). ot_lastHeaderSeq t = Some header)
               | _ \<Rightarrow> False) in
        if \<not> binds then throw E_RELATION ''request/sent must source the current header then intent''
        else if \<not> jm_has (lg_openStep s) lane then throw E_RELATION ''request/sent outside an open step''
        else case find_inference s (sources_of e ! 1) lane of
          None \<Rightarrow> throw E_RELATION ''request/sent without pending inference intent''
        | Some p \<Rightarrow>
            if en_receiptSeq p \<noteq> None then throw E_RELATION ''duplicate request/sent for inference effect''
            else if en_firstOutputSeq p \<noteq> None then throw E_RELATION ''request/sent after model output''
            else Inr ())"

definition chk_output :: "ledger_state \<Rightarrow> prepared_event \<Rightarrow> unit res" where
  "chk_output s e =
     (let d = Some (e_data e); started = (jget d ''state'' = Some (JStr ''started'')) in
      if e_type e \<noteq> ''assistant/output'' then Inr ()
      else case jm_get (lg_pending s) (case jstr (jget d ''effectId'') of Some i \<Rightarrow> i | None \<Rightarrow> '''') of
        None \<Rightarrow> throw E_RELATION ''assistant/output without pending inference on its lane''
      | Some p \<Rightarrow>
          if \<not> is_inference p \<or> en_lane p \<noteq> lane_of e
          then throw E_RELATION ''assistant/output without pending inference on its lane''
          else if started \<and> (en_receiptSeq p = None \<or> en_firstOutputSeq p \<noteq> None)
          then throw E_RELATION ''assistant/output started before the receipt or twice''
          else if \<not> started \<and> en_interruptedSeq p \<noteq> None
          then throw E_RELATION ''assistant/output after the stream was recorded as cut''
          else Inr ())"

definition chk_turn_end :: "ledger_state \<Rightarrow> prepared_event \<Rightarrow> unit res" where
  "chk_turn_end s e =
     (if e_type e = ''turn/end'' \<and> jm_has (lg_openStep s) (lane_of e)
      then throw E_RELATION ''turn/end with open step'' else Inr ())"

type_synonym surfaces = "(string, surface_cache) jsmap"

definition chk_replace :: "surfaces \<Rightarrow> prepared_event \<Rightarrow> unit res" where
  "chk_replace caches e =
     (case replace_op e of
        None \<Rightarrow> Inr ()
      | Some (start, end') \<Rightarrow>
          case jm_get caches (lane_of e) of
            None \<Rightarrow> throw E_SURFACE_RANGE ''no surface cache for lane to validate a replace''
          | Some c \<Rightarrow> validateReplace start end' (sources_of e) (su_nodes c))"

definition check_row :: "checked_event list \<Rightarrow> surfaces \<Rightarrow> ledger_state \<Rightarrow> prepared_event \<Rightarrow> int \<Rightarrow> unit res" where
  "check_row batch caches s e n =
     rbind (chk_turn s e) (\<lambda>_. rbind (chk_step s e) (\<lambda>_. rbind (chk_consumption batch s e) (\<lambda>_.
     rbind (chk_result s e) (\<lambda>_. rbind (chk_sent s e n) (\<lambda>_. rbind (chk_output s e) (\<lambda>_.
     rbind (chk_turn_end s e) (\<lambda>_. chk_replace caches e)))))))"

section \<open>The batch\<close>

definition checked_seq :: "ledger_state \<Rightarrow> checked_event \<Rightarrow> int" where
  "checked_seq s row = (case snd row of Some n \<Rightarrow> n | None \<Rightarrow> lg_lastSeq s + 1)"

text \<open>The loop over the batch; what it returns is the simulated state, which the source keeps in a local.\<close>

fun check_rows :: "reduce_env \<Rightarrow> checked_event list \<Rightarrow> surfaces \<Rightarrow> ledger_state \<Rightarrow> checked_event list \<Rightarrow> ledger_state res" where
  "check_rows env batch caches s [] = Inr s"
| "check_rows env batch caches s (row # rows) =
     (let n = checked_seq s row in
      rbind (check_row batch caches s (fst row) n) (\<lambda>_.
      rbind (reduce env s (stamp n (fst row))) (\<lambda>s'. check_rows env batch caches s' rows)))"

definition check_op_lanes :: "string list option \<Rightarrow> ledger_state \<Rightarrow> unit res" where
  "check_op_lanes opLanes s = (case opLanes of
       None \<Rightarrow> Inr ()
     | Some lanes \<Rightarrow>
         if \<exists>lane \<in> set (jm_keys (lg_openTurn s) @ lanes). jm_has (lg_openTurn s) lane \<noteq> (lane \<in> set lanes)
         then throw E_RELATION ''open turn must match op.state presence'' else Inr ())"

definition checkRelations ::
  "reduce_env \<Rightarrow> checked_event list \<Rightarrow> ledger_state \<Rightarrow> surfaces \<Rightarrow> string list option \<Rightarrow> unit res" where
  "checkRelations env batch start caches opLanes =
     rbind (check_rows env batch caches start batch) (check_op_lanes opLanes)"

text \<open>\<^verbatim>\<open>opLanesAfter\<close>: the write of the batch is a lane and the cell it stores, null to remove it.\<close>

definition opLanesAfter :: "string list \<Rightarrow> (string \<times> json) option \<Rightarrow> string list" where
  "opLanesAfter lanes op = (case op of
       None \<Rightarrow> lanes
     | Some (lane, d) \<Rightarrow> if d = JNull then removeAll lane lanes else set_add lanes lane)"

text \<open>
  \<^verbatim>\<open>makeRelationCheck\<close>: the check a log runs before it writes; without a log the pairing of
  turns and counters is not checked.
\<close>

definition makeRelationCheck ::
  "reduce_env \<Rightarrow> ledger_state \<Rightarrow> surfaces \<Rightarrow> checked_event list \<Rightarrow> string list option \<Rightarrow> (string \<times> json) option \<Rightarrow> unit res" where
  "makeRelationCheck env state caches events lanes op =
     checkRelations env events state caches (map_option (\<lambda>ls. opLanesAfter ls op) lanes)"

end
