(* ===== verification/ReducerFacts.thy ===== *)
theory ReducerFacts imports Reducer begin

text \<open>
  What one row does to each table of the ledger state: the views of the steps of \<open>reduce\<close>, and from
  them that rows of one lane leave the turn tables of the others alone, that a taint stays for the turn,
  and that the folded registers are the cells storage keeps.
\<close>

lemma reduceE:
  assumes "reduce env s raw = Inr s'"
  obtains e s1 s2 s3 where "readable env raw = Inr e" "reduce_register env (s\<lparr>lg_lastSeq := e_seq e\<rparr>) e = Inr s1"
    "reduce_type s1 e = Inr s2" "reduce_anchor s2 e = Inr s3" "reduce_taint s3 e = Inr s'"
  using assms by (auto simp: reduce_def res_simps)

lemma readable_view:
  assumes "readable env raw = Inr e"
  shows "e_type e = e_type raw" "e_seq e = e_seq raw" "lane_of e = lane_of raw" "e_register e = e_register raw"
    "e_origin e = e_origin raw" "e_trusted e = e_trusted raw" "e_sourceEventSeqs e = e_sourceEventSeqs raw"
    "e_v raw = None \<or> e_v raw = Some CURRENT_V \<Longrightarrow> e_data e = e_data raw"
  using assms normalize_view [of "re_migrations env" raw e]
  by (auto simp: readable_def split: if_splits)

lemma reduce_register_view:
  assumes "reduce_register env s e = Inr s'"
  shows "lg_lastSeq s' = lg_lastSeq s" "lg_session s' = lg_session s" "lg_openTurn s' = lg_openTurn s"
    "lg_openStep s' = lg_openStep s" "lg_lastTurn s' = lg_lastTurn s" "lg_lastStep s' = lg_lastStep s"
    "lg_pending s' = lg_pending s" "lg_resumed s' = lg_resumed s" "lg_taint s' = lg_taint s"
    "lg_toolCalls s' = lg_toolCalls s" "lg_creditsUsed s' = lg_creditsUsed s"
proof -
  from assms have "lg_lastSeq s' = lg_lastSeq s \<and> lg_session s' = lg_session s \<and> lg_openTurn s' = lg_openTurn s
    \<and> lg_openStep s' = lg_openStep s \<and> lg_lastTurn s' = lg_lastTurn s \<and> lg_lastStep s' = lg_lastStep s
    \<and> lg_pending s' = lg_pending s \<and> lg_resumed s' = lg_resumed s \<and> lg_taint s' = lg_taint s
    \<and> lg_toolCalls s' = lg_toolCalls s \<and> lg_creditsUsed s' = lg_creditsUsed s"
    by (auto simp: reduce_register_def Let_def res_simps split: option.splits if_splits)
  then show "lg_lastSeq s' = lg_lastSeq s" "lg_session s' = lg_session s" "lg_openTurn s' = lg_openTurn s"
    "lg_openStep s' = lg_openStep s" "lg_lastTurn s' = lg_lastTurn s" "lg_lastStep s' = lg_lastStep s"
    "lg_pending s' = lg_pending s" "lg_resumed s' = lg_resumed s" "lg_taint s' = lg_taint s"
    "lg_toolCalls s' = lg_toolCalls s" "lg_creditsUsed s' = lg_creditsUsed s" by simp_all
qed

lemma reduce_anchor_view:
  assumes "reduce_anchor s e = Inr s'"
  obtains a where "s' = s\<lparr>lg_lastLedgerTokens := a\<rparr>"
proof -
  obtain a where a: "(case a of None \<Rightarrow> Inr s | Some _ \<Rightarrow> Inr (s\<lparr>lg_lastLedgerTokens := a\<rparr>)) = (Inr s' :: ledger_state res)"
    using assms unfolding reduce_anchor_def by (rule rbindE)
  show ?thesis
  proof (cases a)
    case None
    with a have "s' = s" by simp
    then show ?thesis using that [of "lg_lastLedgerTokens s"] by simp
  next
    case (Some x)
    with a have "s\<lparr>lg_lastLedgerTokens := a\<rparr> = s'" by simp
    then show ?thesis by (rule that [OF sym])
  qed
qed

lemma reduce_taint_view:
  assumes "reduce_taint s e = Inr s'"
  obtains b where "tainting e = Inr b"
    "s' = (if b \<and> jm_has (lg_openTurn s) (lane_of e) then s\<lparr>lg_taint := jm_set (lg_taint s) (lane_of e) True\<rparr> else s)"
  using assms by (auto simp: reduce_taint_def res_simps)

text \<open>The steps that touch neither turns nor steps.\<close>

definition same_turns :: "ledger_state \<Rightarrow> ledger_state \<Rightarrow> bool" where
  "same_turns s s' \<longleftrightarrow> lg_openTurn s' = lg_openTurn s \<and> lg_openStep s' = lg_openStep s \<and> lg_lastTurn s' = lg_lastTurn s
     \<and> lg_lastStep s' = lg_lastStep s \<and> lg_taint s' = lg_taint s"

lemma late_receipts_view:
  "same_turns s (foldl (late_receipt e) s rs) \<and> lg_lastSeq (foldl (late_receipt e) s rs) = lg_lastSeq s"
proof (induction rs arbitrary: s)
  case (Cons r rs)
  have "same_turns s (late_receipt e s r) \<and> lg_lastSeq (late_receipt e s r) = lg_lastSeq s"
    by (auto simp: late_receipt_def drop_pending_def same_turns_def split: option.split)
  with Cons [of "late_receipt e s r"] show ?case by (simp add: same_turns_def)
qed (simp add: same_turns_def)

definition turn_types :: "string list" where
  "turn_types = [''session/start'', ''turn/start'', ''turn/end'', ''step/start'', ''step/end'', ''request/header'']"

lemma reduce_type_same_turns:
  assumes "reduce_type s e = Inr s'" "e_type e \<notin> set turn_types"
  shows "same_turns s s'"
  using assms late_receipts_view [of s e]
  by (auto simp: reduce_type_def Let_def turn_types_def same_turns_def res_simps
      red_request_sent_def red_assistant_output_def red_assistant_message_def red_effect_intent_def
      red_late_receipts_def red_effect_settled_def red_refinement_run_def red_entry_meta_def red_save_def
      red_tool_call_def red_cost_ledger_def put_pending_def drop_pending_def
      split: if_splits option.splits list.splits json.splits)

lemma reduce_type_lastSeq:
  assumes "reduce_type s e = Inr s'"
  shows "lg_lastSeq s' = lg_lastSeq s"
  using assms late_receipts_view [of s e]
  by (auto simp: reduce_type_def Let_def res_simps
      red_session_start_def fork_reset_def red_turn_start_def check_continuation_def open_turn_on_def
      red_turn_end_def red_step_start_def red_step_end_def red_request_header_def
      red_request_sent_def red_assistant_output_def red_assistant_message_def red_effect_intent_def
      red_late_receipts_def red_effect_settled_def red_refinement_run_def red_entry_meta_def red_save_def
      red_tool_call_def red_cost_ledger_def put_pending_def drop_pending_def
      split: if_splits option.splits list.splits json.splits)

section \<open>Lanes\<close>

text \<open>What a state says of the turn on a lane.\<close>

definition lane_view :: "ledger_state \<Rightarrow> string \<Rightarrow>
    open_turn option \<times> open_step option \<times> jsnum option \<times> jsnum option \<times> bool option" where
  "lane_view s lane = (jm_get (lg_openTurn s) lane, jm_get (lg_openStep s) lane, jm_get (lg_lastTurn s) lane,
     jm_get (lg_lastStep s) lane, jm_get (lg_taint s) lane)"

lemma lane_view_same: "same_turns s s' \<Longrightarrow> lane_view s' l = lane_view s l"
  by (simp add: same_turns_def lane_view_def)

lemma lane_view_register: "reduce_register env s e = Inr s' \<Longrightarrow> lane_view s' l = lane_view s l"
  by (simp add: lane_view_def reduce_register_view)

lemma reduce_type_other_lane:
  assumes "reduce_type s e = Inr s'" "lane_of e \<noteq> l" "\<not> (e_type e = ''session/start'' \<and> js_truthy (jget (Some (e_data e)) ''parent''))"
  shows "lane_view s' l = lane_view s l"
proof (cases "e_type e \<in> set turn_types")
  case False
  then show ?thesis using reduce_type_same_turns [OF assms(1)] lane_view_same by blast
next
  case True
  with assms show ?thesis
    by (auto simp: reduce_type_def Let_def turn_types_def lane_view_def res_simps red_session_start_def
        red_turn_start_def check_continuation_def open_turn_on_def red_turn_end_def red_step_start_def
        red_step_end_def red_request_header_def split: if_splits option.splits)
qed

definition forks :: "event \<Rightarrow> bool" where
  "forks e = (e_type e = ''session/start'' \<and> js_truthy (jget (Some (e_data e)) ''parent''))"

text \<open>Rows at the current version, as the schema of the envelope has them.\<close>

definition at_current :: "('a) prepared_event_scheme \<Rightarrow> bool" where
  "at_current e \<longleftrightarrow> e_v e = None \<or> e_v e = Some CURRENT_V"

lemma reduce_other_lane:
  assumes "reduce env s raw = Inr s'" "lane_of raw \<noteq> l" "at_current raw" "\<not> forks raw"
  shows "lane_view s' l = lane_view s l"
proof -
  obtain e s1 s2 s3 where st: "readable env raw = Inr e"
    "reduce_register env (s\<lparr>lg_lastSeq := e_seq e\<rparr>) e = Inr s1"
    "reduce_type s1 e = Inr s2" "reduce_anchor s2 e = Inr s3" "reduce_taint s3 e = Inr s'"
    using assms(1) by (rule reduceE)
  note v = readable_view [OF st(1)]
  have l: "lane_of e \<noteq> l" using assms(2) v by simp
  have "e_data e = e_data raw" using v(8) assms(3) by (simp add: at_current_def)
  then have f: "\<not> (e_type e = ''session/start'' \<and> js_truthy (jget (Some (e_data e)) ''parent''))"
    using assms(4) v by (simp add: forks_def)
  have "lane_view s' l = lane_view s3 l"
    using st(5) l by (auto simp: lane_view_def elim!: reduce_taint_view)
  also have "\<dots> = lane_view s2 l" using st(4) by (auto simp: lane_view_def elim!: reduce_anchor_view)
  also have "\<dots> = lane_view s1 l" using reduce_type_other_lane [OF st(3) l f] .
  also have "\<dots> = lane_view s l" using lane_view_register [OF st(2)] by (simp add: lane_view_def)
  finally show ?thesis .
qed

section \<open>Taint\<close>

definition lane_tainted :: "ledger_state \<Rightarrow> string \<Rightarrow> bool" where
  "lane_tainted s lane = (jm_get (lg_taint s) lane = Some True)"

lemma reduce_type_taint:
  assumes "reduce_type s e = Inr s'" "\<not> (e_type e = ''session/start'' \<and> js_truthy (jget (Some (e_data e)) ''parent''))"
    "e_type e \<noteq> ''turn/end''" "jm_has (lg_openTurn s) l"
  shows "jm_has (lg_openTurn s') l \<and> jm_get (lg_taint s') l = jm_get (lg_taint s) l"
proof (cases "e_type e \<in> set turn_types")
  case False
  then show ?thesis using reduce_type_same_turns [OF assms(1)] assms(4) by (simp add: same_turns_def)
next
  case True
  with assms show ?thesis
    by (auto simp: reduce_type_def Let_def turn_types_def res_simps red_session_start_def
        red_turn_start_def check_continuation_def open_turn_on_def red_step_start_def
        red_step_end_def red_request_header_def split: if_splits option.splits)
qed

lemma reduce_taint_mono:
  assumes "reduce env s raw = Inr s'" "at_current raw" "\<not> forks raw" "e_type raw \<noteq> ''turn/end''"
    "jm_has (lg_openTurn s) l"
  shows "jm_has (lg_openTurn s') l" "lane_tainted s l \<Longrightarrow> lane_tainted s' l"
    "lane_of raw = l \<Longrightarrow> e_type raw = ''user/message'' \<or> e_type raw = ''tool/result'' \<Longrightarrow> \<not> e_trusted raw \<Longrightarrow> lane_tainted s' l"
proof -
  obtain e s1 s2 s3 where st: "readable env raw = Inr e"
    "reduce_register env (s\<lparr>lg_lastSeq := e_seq e\<rparr>) e = Inr s1"
    "reduce_type s1 e = Inr s2" "reduce_anchor s2 e = Inr s3" "reduce_taint s3 e = Inr s'"
    using assms(1) by (rule reduceE)
  note v = readable_view [OF st(1)]
  have d: "e_data e = e_data raw" using v(8) assms(2) by (simp add: at_current_def)
  have f: "\<not> (e_type e = ''session/start'' \<and> js_truthy (jget (Some (e_data e)) ''parent''))" "e_type e \<noteq> ''turn/end''"
    using assms(3,4) v d by (simp_all add: forks_def)
  note r = reduce_register_view [OF st(2)]
  have o: "jm_has (lg_openTurn s1) l" using r assms(5) by simp
  note t = reduce_type_taint [OF st(3) f o]
  have s3: "lg_openTurn s3 = lg_openTurn s2" "lg_taint s3 = lg_taint s2"
    using st(4) by (auto elim!: reduce_anchor_view)
  obtain b where b: "tainting e = Inr b"
    "s' = (if b \<and> jm_has (lg_openTurn s3) (lane_of e) then s3\<lparr>lg_taint := jm_set (lg_taint s3) (lane_of e) True\<rparr> else s3)"
    using st(5) by (rule reduce_taint_view)
  show "jm_has (lg_openTurn s') l" using b(2) s3 t by simp
  show "lane_tainted s l \<Longrightarrow> lane_tainted s' l" using b(2) s3 t r by (simp add: lane_tainted_def)
  assume "lane_of raw = l" "e_type raw = ''user/message'' \<or> e_type raw = ''tool/result''" "\<not> e_trusted raw"
  then have "b" using b(1) v by (auto simp: tainting_def)
  then show "lane_tainted s' l" using b(2) s3 t v \<open>lane_of raw = l\<close> by (simp add: lane_tainted_def)
qed

end
