(* ===== verification/RelationFacts.thy ===== *)
theory RelationFacts imports Relations ReducerFacts begin

text \<open>
  The state a relation check keeps: turns, steps and pending effects of every state that accepted
  batches lead to are well formed, and a batch the check accepts is one the fold accepts.
\<close>

section \<open>Well-formed states\<close>

definition step_numbered :: "jsnum \<Rightarrow> bool" where
  "step_numbered n \<longleftrightarrow> (\<exists>k \<ge> 1. n = num_of_int k)"

definition turns_ok :: "ledger_state \<Rightarrow> bool" where
  "turns_ok s \<longleftrightarrow>
     (\<forall>l p. jm_get (lg_openStep s) l = Some p \<longrightarrow> jm_get (lg_lastStep s) l = Some (os_step p))
     \<and> (\<forall>l n. jm_get (lg_lastStep s) l = Some n \<longrightarrow> jm_has (lg_openTurn s) l \<and> step_numbered n)
     \<and> (\<forall>l t. jm_get (lg_openTurn s) l = Some t \<longrightarrow>
          jm_get (lg_lastTurn s) l = Some (ot_turn t) \<and> jm_has (lg_taint s) l)"

text \<open>
  The rows of a request to a model come in the order intent, receipt, first output, cut, and only an
  inference has the last three.
\<close>

definition node_ok :: "int \<Rightarrow> effect_node \<Rightarrow> bool" where
  "node_ok q p \<longleftrightarrow> en_intentSeq p \<le> q
     \<and> (\<forall>r. en_receiptSeq p = Some r \<longrightarrow> is_inference p \<and> en_intentSeq p < r \<and> r \<le> q)
     \<and> (\<forall>f. en_firstOutputSeq p = Some f \<longrightarrow> is_inference p \<and> en_intentSeq p < f \<and> f \<le> q
          \<and> (\<forall>r. en_receiptSeq p = Some r \<longrightarrow> r < f))
     \<and> (\<forall>c. en_interruptedSeq p = Some c \<longrightarrow> is_inference p \<and> c \<le> q
          \<and> (\<exists>f. en_firstOutputSeq p = Some f \<and> f \<le> c))"

definition pending_ok :: "ledger_state \<Rightarrow> bool" where
  "pending_ok s \<longleftrightarrow> jm_wf (lg_pending s)
     \<and> (\<forall>i p. jm_get (lg_pending s) i = Some p \<longrightarrow> en_effectId p = i \<and> i \<noteq> '''' \<and> node_ok (lg_lastSeq s) p)"

definition ledger_ok :: "ledger_state \<Rightarrow> bool" where
  "ledger_ok s \<longleftrightarrow> turns_ok s \<and> pending_ok s"

lemma ledger_ok_initial [simp]: "ledger_ok initialState"
  by (simp add: ledger_ok_def turns_ok_def pending_ok_def initialState_def)

lemma turns_ok_same: "same_turns s s' \<Longrightarrow> turns_ok s \<Longrightarrow> turns_ok s'"
  by (simp add: same_turns_def turns_ok_def)

lemma js_plus_int [simp]: "js_plus (num_of_int a) (num_of_int b) = num_of_int (a + b)"
  by (simp add: num_of_int_def)

section \<open>Turns and steps\<close>

text \<open>What the checks give of the turn tables, in one place.\<close>

lemma check_row_turn:
  assumes "check_row batch caches s e n = Inr ()"
  shows "e_type e = ''step/start'' \<Longrightarrow> jm_has (lg_openTurn s) (lane_of e)"
    "e_type e = ''step/start'' \<Longrightarrow> \<not> jm_has (lg_openStep s) (lane_of e)"
    "e_type e = ''step/start'' \<Longrightarrow> js_number (jget (Some (e_data e)) ''step'') = next_step_number s (lane_of e)"
    "e_type e = ''turn/end'' \<Longrightarrow> \<not> jm_has (lg_openStep s) (lane_of e)"
    "e_type e = ''turn/start'' \<Longrightarrow> \<not> jm_has (lg_openTurn s) (lane_of e)"
proof -
  have t: "chk_turn s e = Inr ()" and st: "chk_step s e = Inr ()" and te: "chk_turn_end s e = Inr ()"
    using assms by (auto simp: check_row_def res_simps)
  show "e_type e = ''step/start'' \<Longrightarrow> jm_has (lg_openTurn s) (lane_of e)"
    "e_type e = ''turn/start'' \<Longrightarrow> \<not> jm_has (lg_openTurn s) (lane_of e)"
    using t by (auto simp: chk_turn_def Let_def IN_TURN_def MAINTENANCE_EFFECTS_def split: if_splits)
  show "e_type e = ''step/start'' \<Longrightarrow> \<not> jm_has (lg_openStep s) (lane_of e)"
    "e_type e = ''step/start'' \<Longrightarrow> js_number (jget (Some (e_data e)) ''step'') = next_step_number s (lane_of e)"
    using st by (auto simp: chk_step_def number_eq_def split: if_splits)
  show "e_type e = ''turn/end'' \<Longrightarrow> \<not> jm_has (lg_openStep s) (lane_of e)"
    using te by (auto simp: chk_turn_end_def split: if_splits)
qed

lemma next_step_numbered:
  assumes "turns_ok s"
  shows "step_numbered (next_step_number s l)"
proof (cases "jm_get (lg_lastStep s) l")
  case None
  then show ?thesis by (auto simp: next_step_number_def step_numbered_def intro: exI [of _ 1])
next
  case (Some n)
  then have "step_numbered n" using assms by (simp add: turns_ok_def)
  then obtain k where "k \<ge> 1" "n = num_of_int k" by (auto simp: step_numbered_def)
  with Some show ?thesis by (auto simp: next_step_number_def step_numbered_def intro!: exI [of _ "k + 1"])
qed

lemma turns_ok_type:
  assumes ok: "turns_ok s" and red: "reduce_type s e = Inr s'"
    and step: "e_type e = ''step/start'' \<Longrightarrow> jm_has (lg_openTurn s) (lane_of e)
      \<and> js_number (jget (Some (e_data e)) ''step'') = next_step_number s (lane_of e)"
  shows "turns_ok s'"
proof (cases "e_type e \<in> set turn_types")
  case False
  then show ?thesis using reduce_type_same_turns [OF red] turns_ok_same ok by blast
next
  case True
  have fork: "turns_ok (fork_reset s)" by (simp add: turns_ok_def fork_reset_def)
  have same: "same_turns s t \<Longrightarrow> turns_ok t" for t using turns_ok_same ok by blast
  have samef: "same_turns (fork_reset s) t \<Longrightarrow> turns_ok t" for t using turns_ok_same fork by blast
  have start: "turns_ok (red_step_start s e)" if "e_type e = ''step/start''"
    using ok step [OF that] next_step_numbered [OF ok]
    by (auto simp: turns_ok_def red_step_start_def Let_def)
  have cont: "same_turns s t" if "check_continuation s d l = Inr t" for t d l
    using that by (auto simp: check_continuation_def same_turns_def split: option.splits if_splits)
  have turn: "turns_ok (open_turn_on t e)" if "same_turns s t" "\<not> jm_has (lg_openTurn s) (lane_of e)" for t
    using ok that by (auto simp: turns_ok_def same_turns_def open_turn_on_def Let_def)
  have ends: "turns_ok (red_turn_end s e)" "turns_ok (red_step_end s e)" "turns_ok (red_request_header s e)"
    using ok by (auto simp: turns_ok_def red_turn_end_def red_step_end_def red_request_header_def Let_def
        split: option.split)
  have sess: "turns_ok s'" if "red_session_start s e = Inr s'"
  proof -
    have "same_turns s s' \<or> same_turns (fork_reset s) s'"
      using that by (auto simp: red_session_start_def Let_def same_turns_def split: if_splits)
    then show ?thesis using same samef by blast
  qed
  show ?thesis
    using red True start ends sess turn cont
    by (auto simp: reduce_type_def Let_def turn_types_def red_turn_start_def res_simps split: if_splits)
qed

section \<open>Pending effects\<close>

lemma node_ok_mono: "node_ok q p \<Longrightarrow> q \<le> r \<Longrightarrow> node_ok r p"
  unfolding node_ok_def by fastforce

lemma pending_ok_mono: "pending_ok s \<Longrightarrow> lg_pending s' = lg_pending s \<Longrightarrow> lg_lastSeq s \<le> lg_lastSeq s' \<Longrightarrow> pending_ok s'"
  by (auto simp: pending_ok_def intro: node_ok_mono)

lemma pending_ok_put:
  "pending_ok s \<Longrightarrow> en_effectId p \<noteq> '''' \<Longrightarrow> node_ok (lg_lastSeq s) p \<Longrightarrow> pending_ok (put_pending s p)"
  by (auto simp: pending_ok_def put_pending_def)

lemma pending_ok_drop: "pending_ok s \<Longrightarrow> pending_ok (drop_pending s i)"
  by (auto simp: pending_ok_def drop_pending_def)

lemma pending_ok_found:
  assumes "pending_ok s" "find P (jm_values (lg_pending s)) = Some p"
  shows "P p" "jm_get (lg_pending s) (en_effectId p) = Some p" "node_ok (lg_lastSeq s) p" "en_effectId p \<noteq> ''''"
proof -
  have in_vals: "p \<in> set (jm_values (lg_pending s))" and P: "P p"
    using assms(2) by (auto simp: find_Some_iff)
  then obtain i where "(i, p) \<in> set (lg_pending s)" by auto
  then have g: "jm_get (lg_pending s) i = Some p" using assms(1) by (simp add: pending_ok_def jm_wf_get_iff)
  then show "P p" "jm_get (lg_pending s) (en_effectId p) = Some p" "node_ok (lg_lastSeq s) p" "en_effectId p \<noteq> ''''"
    using P assms(1) by (auto simp: pending_ok_def)
qed

lemma pending_ok_late: "pending_ok s \<Longrightarrow> pending_ok (foldl (late_receipt e) s rs)"
proof (induction rs arbitrary: s)
  case (Cons r rs)
  have "pending_ok (late_receipt e s r)"
    using Cons.prems pending_ok_drop by (auto simp: late_receipt_def split: option.split)
  with Cons.IH show ?case by simp
qed simp

text \<open>A row numbered \<open>n\<close> finds nodes whose sequences are all below \<open>n\<close>.\<close>

definition before :: "int \<Rightarrow> ledger_state \<Rightarrow> bool" where
  "before n s \<longleftrightarrow> (\<forall>i p. jm_get (lg_pending s) i = Some p \<longrightarrow> node_ok (n - 1) p)"

lemma pending_ok_sent:
  assumes ok: "pending_ok s" and b: "before (e_seq e) s" "lg_lastSeq s = e_seq e"
    and no_output: "\<And>p. find_inference s (sources_of e ! 1) (lane_of e) = Some p \<Longrightarrow> en_firstOutputSeq p = None"
  shows "pending_ok (red_request_sent s e)"
proof -
  have "pending_ok (put_pending s (p\<lparr>en_receiptSeq := Some (e_seq e)\<rparr>))"
    if src: "sources_of e = [h, i]" and i: "i < e_seq e" and f: "find_inference s i (lane_of e) = Some p"
      "en_receiptSeq p = None" for h i p
  proof -
    note p = pending_ok_found [OF ok f(1) [unfolded find_inference_def]]
    have "en_firstOutputSeq p = None" using no_output src f by simp
    then have "node_ok (e_seq e) (p\<lparr>en_receiptSeq := Some (e_seq e)\<rparr>)"
      using p(1,3) i b by (auto simp: node_ok_def is_inference_def)
    then show ?thesis using p b by (intro pending_ok_put [OF ok]) auto
  qed
  then show ?thesis
    using ok by (auto simp: red_request_sent_def split: list.splits option.splits)
qed

lemma pending_ok_output:
  assumes ok: "pending_ok s" and b: "before (e_seq e) s" "lg_lastSeq s = e_seq e"
  shows "pending_ok (red_assistant_output s e)"
proof -
  have "pending_ok (put_pending s (p\<lparr>en_firstOutputSeq := (if f then Some (e_seq e) else en_firstOutputSeq p),
      en_interruptedSeq := (if c then Some (e_seq e) else en_interruptedSeq p)\<rparr>))"
    if g: "jm_get (lg_pending s) i = Some p" "is_inference p" and f: "f = (en_firstOutputSeq p = None)" for i p f c
  proof -
    have q: "node_ok (e_seq e - 1) p" "en_effectId p \<noteq> ''''" using g ok b by (auto simp: before_def pending_ok_def)
    have "node_ok (e_seq e) (p\<lparr>en_firstOutputSeq := (if f then Some (e_seq e) else en_firstOutputSeq p),
      en_interruptedSeq := (if c then Some (e_seq e) else en_interruptedSeq p)\<rparr>)"
      using q(1) g(2) f by (cases "en_firstOutputSeq p"; cases c) (fastforce simp: node_ok_def is_inference_def)+
    then show ?thesis using q b by (intro pending_ok_put [OF ok]) auto
  qed
  note put = this
  show ?thesis
  proof (cases "Option.bind (jstr (jget (Some (e_data e)) ''effectId'')) (jm_get (lg_pending s))")
    case None
    then show ?thesis using ok by (simp add: red_assistant_output_def)
  next
    case (Some p)
    then obtain i where "jm_get (lg_pending s) i = Some p" by (auto simp: bind_eq_Some_conv)
    from put [OF this _ refl] Some ok show ?thesis by (simp add: red_assistant_output_def Let_def)
  qed
qed

lemma pending_ok_message:
  assumes ok: "pending_ok s" and b: "before (e_seq e) s" "lg_lastSeq s = e_seq e"
  shows "pending_ok (red_assistant_message s e)"
proof -
  have "pending_ok (put_pending s (p\<lparr>en_firstOutputSeq := Some (e_seq e)\<rparr>))"
    if f: "find (\<lambda>p. is_inference p \<and> en_lane p = lane_of e \<and> en_firstOutputSeq p = None) (jm_values (lg_pending s)) = Some p" for p
  proof -
    note p = pending_ok_found [OF ok f]
    have "node_ok (e_seq e - 1) p" using p(2) b by (auto simp: before_def)
    then have "node_ok (e_seq e) (p\<lparr>en_firstOutputSeq := Some (e_seq e)\<rparr>)"
      using p(1) by (fastforce simp: node_ok_def is_inference_def)
    then show ?thesis using p b by (intro pending_ok_put [OF ok]) auto
  qed
  then show ?thesis using ok by (auto simp: red_assistant_message_def split: option.splits)
qed

lemma lifecycleId_ne: "lifecycleId d field = Inr i \<Longrightarrow> i \<noteq> ''''"
  by (auto simp: lifecycleId_def split: option.splits if_splits)

lemma pending_ok_type:
  assumes ok: "pending_ok s" and b: "before (e_seq e) s" "lg_lastSeq s = e_seq e" and red: "reduce_type s e = Inr s'"
    and sent: "\<And>p. e_type e = ''request/sent'' \<Longrightarrow> find_inference s (sources_of e ! 1) (lane_of e) = Some p
      \<Longrightarrow> en_firstOutputSeq p = None"
  shows "pending_ok s'"
proof -
  have same: "pending_ok t" if "lg_pending t = lg_pending s" "lg_lastSeq t = lg_lastSeq s" for t
    using pending_ok_mono [OF ok] that by simp
  have fork: "pending_ok t" if "lg_pending t = []" for t using that by (simp add: pending_ok_def)
  have intent: "pending_ok t" if r: "red_effect_intent s e = Inr t" for t
  proof -
    obtain i where l: "lifecycleId (Some (e_data e)) ''effectId'' = Inr i" "t = put_pending s (intent_node i e)"
      using r by (auto simp: red_effect_intent_def elim: rbindE)
    with lifecycleId_ne have i: "i \<noteq> ''''" "t = put_pending s (intent_node i e)" by blast+
    then show ?thesis using b(2) by (auto simp: intent_node_def Let_def node_ok_def intro!: pending_ok_put [OF ok])
  qed
  have settled: "pending_ok t" if "red_effect_settled s e = Inr t" for t
    using that pending_ok_drop [OF ok] by (auto simp: red_effect_settled_def res_simps)
  have late: "pending_ok (red_late_receipts s e)"
    using ok pending_ok_late by (auto simp: red_late_receipts_def Let_def split: option.split json.split)
  have sess: "pending_ok t" if "red_session_start s e = Inr t" for t
  proof -
    have "lg_pending t = [] \<or> (lg_pending t = lg_pending s \<and> lg_lastSeq t = lg_lastSeq s)"
      using that by (auto simp: red_session_start_def fork_reset_def Let_def split: if_splits)
    then show ?thesis using same fork by blast
  qed
  have turn: "pending_ok t" if "red_turn_start s e = Inr t" for t
    using that by (auto simp: red_turn_start_def check_continuation_def open_turn_on_def Let_def res_simps intro!: same
        split: if_splits option.splits)
  have cost: "pending_ok t" if "red_cost_ledger s e = Inr t" for t
    using that by (auto simp: red_cost_ledger_def Let_def res_simps intro!: same split: if_splits)
  have plain: "pending_ok (red_turn_end s e)" "pending_ok (red_step_start s e)" "pending_ok (red_step_end s e)"
    "pending_ok (red_request_header s e)" "pending_ok (red_refinement_run s e)" "pending_ok (red_entry_meta s e)"
    "pending_ok (red_save s e)" "pending_ok (red_tool_call s e)"
    by (rule same; simp add: red_turn_end_def red_step_start_def red_step_end_def red_request_header_def
        red_refinement_run_def red_entry_meta_def red_save_def red_tool_call_def Let_def split: option.split)+
  show ?thesis
    using red ok plain late sess turn cost intent settled pending_ok_sent [OF ok b sent]
      pending_ok_output [OF ok b] pending_ok_message [OF ok b]
    by (auto simp: reduce_type_def Let_def split: if_splits)
qed

section \<open>One checked row\<close>

lemma check_row_sent:
  assumes "check_row batch caches s e n = Inr ()" "e_type e = ''request/sent''"
    "find_inference s (sources_of e ! 1) (lane_of e) = Some p"
  shows "en_firstOutputSeq p = None"
proof -
  have "chk_sent s e n = Inr ()" using assms(1) by (auto simp: check_row_def res_simps)
  then show ?thesis using assms(2,3) by (auto simp: chk_sent_def Let_def split: if_splits)
qed

lemma stamp_more [simp]:
  "e_origin (stamp n e) = e_origin e" "e_trusted (stamp n e) = e_trusted e" "e_v (stamp n e) = e_v e"
  "e_sourceEventSeqs (stamp n e) = e_sourceEventSeqs e" "e_surfaceOp (stamp n e) = e_surfaceOp e"
  "e_ignorable (stamp n e) = e_ignorable e" "lane_of (stamp n e) = lane_of e" "sources_of (stamp n e) = sources_of e"
  by (simp_all add: stamp_def prepared_event.extend_def event.fields_def lane_of_def sources_of_def)

lemma before_new: "pending_ok s \<Longrightarrow> lg_lastSeq s < n \<Longrightarrow> before n s"
  using node_ok_mono [of "lg_lastSeq s" _ "n - 1"] by (simp add: pending_ok_def before_def)

lemma ledger_ok_row:
  assumes ok: "ledger_ok s" and chk: "check_row batch caches s e n = Inr ()" and new: "lg_lastSeq s < n"
    and cur: "at_current e" and red: "reduce env s (stamp n e) = Inr s'"
  shows "ledger_ok s' \<and> lg_lastSeq s' = n"
proof -
  obtain r s1 s2 s3 where st: "readable env (stamp n e) = Inr r"
    "reduce_register env (s\<lparr>lg_lastSeq := e_seq r\<rparr>) r = Inr s1"
    "reduce_type s1 r = Inr s2" "reduce_anchor s2 r = Inr s3" "reduce_taint s3 r = Inr s'"
    using red by (rule reduceE)
  note v = readable_view [OF st(1)]
  have d: "e_data r = e_data e" using v(8) cur by (simp add: at_current_def)
  have v': "e_type r = e_type e" "e_seq r = n" "lane_of r = lane_of e" "sources_of r = sources_of e"
    using v by (simp_all add: sources_of_def)
  note g = reduce_register_view [OF st(2)]
  have turns1: "turns_ok s1" using ok g by (simp add: ledger_ok_def turns_ok_def)
  have pend1: "pending_ok s1"
    using ok g new v' by (intro pending_ok_mono [of s s1]) (simp_all add: ledger_ok_def)
  have before1: "before (e_seq r) s1" "lg_lastSeq s1 = e_seq r"
    using before_new [of s "e_seq r"] ok g new v' by (simp_all add: ledger_ok_def before_def)
  note ct = check_row_turn [OF chk]
  have "turns_ok s2"
  proof (rule turns_ok_type [OF turns1 st(3)])
    assume "e_type r = ''step/start''"
    then show "jm_has (lg_openTurn s1) (lane_of r)
      \<and> js_number (jget (Some (e_data r)) ''step'') = next_step_number s1 (lane_of r)"
      using ct v' d g by (simp add: next_step_number_def)
  qed
  moreover have "pending_ok s2"
  proof (rule pending_ok_type [OF pend1 before1 st(3)])
    fix p assume "e_type r = ''request/sent''" "find_inference s1 (sources_of r ! 1) (lane_of r) = Some p"
    then show "en_firstOutputSeq p = None"
      using check_row_sent [OF chk] v' g by (simp add: find_inference_def)
  qed
  moreover have "lg_lastSeq s2 = n" using reduce_type_lastSeq [OF st(3)] before1(2) v' by simp
  moreover obtain a where "s3 = s2\<lparr>lg_lastLedgerTokens := a\<rparr>" using st(4) by (rule reduce_anchor_view)
  moreover obtain b where "s' = (if b \<and> jm_has (lg_openTurn s3) (lane_of r)
      then s3\<lparr>lg_taint := jm_set (lg_taint s3) (lane_of r) True\<rparr> else s3)"
    using st(5) by (rule reduce_taint_view)
  ultimately show ?thesis by (auto simp: ledger_ok_def turns_ok_def pending_ok_def)
qed

section \<open>Checked batches\<close>

text \<open>
  The rows of a batch as storage numbers them: a row that has a number keeps it, one that has none gets
  the number after the last.
\<close>

fun numbered :: "int \<Rightarrow> checked_event list \<Rightarrow> event list" where
  "numbered q [] = []"
| "numbered q (row # rows) =
     (let n = (case snd row of Some n \<Rightarrow> n | None \<Rightarrow> q + 1) in stamp n (fst row) # numbered n rows)"

lemma check_rows_fold:
  assumes "check_rows env batch caches s rows = Inr s'" "ledger_ok s"
    "ascends (lg_lastSeq s) (numbered (lg_lastSeq s) rows)" "\<forall>row \<in> set rows. at_current (fst row)"
  shows "reduce_rows env None s (numbered (lg_lastSeq s) rows) = Inr s' \<and> ledger_ok s'"
  using assms
proof (induction rows arbitrary: s)
  case (Cons row rows)
  define n where "n = checked_seq s row"
  have n: "(case snd row of Some n \<Rightarrow> n | None \<Rightarrow> lg_lastSeq s + 1) = n"
    by (simp add: n_def checked_seq_def)
  obtain t where chk: "check_row batch caches s (fst row) n = Inr ()"
    and red: "reduce env s (stamp n (fst row)) = Inr t" and rest: "check_rows env batch caches t rows = Inr s'"
    using Cons.prems(1) by (auto simp: Let_def res_simps n_def)
  have new: "lg_lastSeq s < n" and asc: "ascends n (numbered n rows)"
    using Cons.prems(3) by (simp_all add: Let_def n)
  have t: "ledger_ok t" "lg_lastSeq t = n"
    using ledger_ok_row [OF Cons.prems(2) chk new _ red] Cons.prems(4) by simp_all
  from Cons.IH [OF rest t(1)] asc t(2) Cons.prems(4)
  have "reduce_rows env None t (numbered n rows) = Inr s' \<and> ledger_ok s'" by simp
  with red show ?case by (simp add: Let_def n)
qed simp

text \<open>The states a session's appends lead to: each batch is checked against the state and then folded.\<close>

inductive appended :: "reduce_env \<Rightarrow> ledger_state \<Rightarrow> bool" for env where
  appended_new: "appended env initialState"
| appended_batch: "appended env s \<Longrightarrow> checkRelations env batch s caches (Some lanes) = Inr () \<Longrightarrow>
    ascends (lg_lastSeq s) (numbered (lg_lastSeq s) batch) \<Longrightarrow> \<forall>row \<in> set batch. at_current (fst row) \<Longrightarrow>
    reduce_rows env None s (numbered (lg_lastSeq s) batch) = Inr s' \<Longrightarrow> appended env s'"

lemma appended_ok: "appended env s \<Longrightarrow> ledger_ok s"
proof (induction rule: appended.induct)
  case (appended_batch s batch caches lanes s')
  obtain t where "check_rows env batch caches s batch = Inr t"
    using appended_batch.hyps(2) by (auto simp: checkRelations_def res_simps)
  from check_rows_fold [OF this appended_batch.IH appended_batch.hyps(3,4)] appended_batch.hyps(5)
  show ?case by simp
qed simp

end
