(* ===== verification/LedgerProps.thy ===== *)
theory LedgerProps imports RelationFacts "HOL-Library.Multiset" begin

text \<open>
  What the ledger state promises across rows and batches: the state of accepted batches, the numbers of
  a turn's steps, lanes that do not meet, taint that stays, registers that agree with storage, and the
  tree of pending effects.
\<close>

section \<open>Accepted batches\<close>

lemma op_lanes_agree:
  "check_op_lanes (Some lanes) s = Inr () \<longleftrightarrow> (\<forall>lane. jm_has (lg_openTurn s) lane = (lane \<in> set lanes))"
proof -
  have "jm_has m l \<longleftrightarrow> l \<in> set (jm_keys m)" for m :: "(string, open_turn) jsmap" and l
    by (simp add: map_of_eq_None_iff)
  then show ?thesis by (auto simp: check_op_lanes_def)
qed

text \<open>
  C2. A batch the relation check accepts can be committed: with the rows numbered as storage numbers
  them, the fold accepts every row, so a rebuild never stops at them, and the state it reaches is well
  formed again. An open step lies in an open turn and is the turn's last, numbered step; an open turn has
  its taint and is the lane's last; a pending effect is filed under its id, and only an inference has a
  receipt and outputs, in the order intent, receipt, first output, cut. After the batch exactly the lanes
  with a program counter have an open turn.
\<close>

theorem append_keeps_ledger:
  assumes s: "appended env s"
    and chk: "checkRelations env batch s caches (Some lanes) = Inr ()"
    and asc: "ascends (lg_lastSeq s) (numbered (lg_lastSeq s) batch)"
    and cur: "\<forall>row \<in> set batch. at_current (fst row)"
  shows "\<exists>s'. reduce_rows env None s (numbered (lg_lastSeq s) batch) = Inr s' \<and> appended env s' \<and> ledger_ok s'
    \<and> (\<forall>lane. jm_has (lg_openTurn s') lane = (lane \<in> set lanes))"
proof -
  obtain t where t: "check_rows env batch caches s batch = Inr t" "check_op_lanes (Some lanes) t = Inr ()"
    using chk by (auto simp: checkRelations_def res_simps)
  from check_rows_fold [OF t(1) appended_ok [OF s] asc cur]
  have f: "reduce_rows env None s (numbered (lg_lastSeq s) batch) = Inr t" "ledger_ok t" by simp_all
  then have "appended env t" using appended_batch [OF s chk asc cur] by blast
  with f t(2) show ?thesis by (auto simp: op_lanes_agree)
qed

section \<open>Step numbers\<close>

text \<open>The rows of a lane that open a step, and the number each names.\<close>

definition step_numbers :: "string \<Rightarrow> checked_event list \<Rightarrow> jsnum list" where
  "step_numbers l rows = map (\<lambda>row. js_number (jget (Some (e_data (fst row))) ''step''))
     (filter (\<lambda>row. e_type (fst row) = ''step/start'' \<and> lane_of (fst row) = l) rows)"

definition last_step :: "ledger_state \<Rightarrow> string \<Rightarrow> jsnum" where
  "last_step s l = (case jm_get (lg_lastStep s) l of Some n \<Rightarrow> n | None \<Rightarrow> num_of_int 0)"

lemma last_step_row:
  assumes red: "reduce env s (stamp n e) = Inr s'" and cur: "at_current e"
    and stays: "\<not> (lane_of e = l \<and> e_type e = ''turn/end'')" "e_type e \<noteq> ''session/start''"
  shows "last_step s' l = (if e_type e = ''step/start'' \<and> lane_of e = l
    then js_number (jget (Some (e_data e)) ''step'') else last_step s l)"
proof -
  obtain r s1 s2 s3 where st: "readable env (stamp n e) = Inr r"
    "reduce_register env (s\<lparr>lg_lastSeq := e_seq r\<rparr>) r = Inr s1"
    "reduce_type s1 r = Inr s2" "reduce_anchor s2 r = Inr s3" "reduce_taint s3 r = Inr s'"
    using red by (rule reduceE)
  note v = readable_view [OF st(1)]
  have d: "e_data r = e_data e" using v(8) cur by (simp add: at_current_def)
  have t: "lg_lastStep s1 = lg_lastStep s" using reduce_register_view [OF st(2)] by simp
  have "lg_lastStep s' = lg_lastStep s2" using st(4,5) by (auto elim!: reduce_anchor_view reduce_taint_view)
  moreover have "last_step s2 l = (if e_type e = ''step/start'' \<and> lane_of e = l
    then js_number (jget (Some (e_data e)) ''step'') else last_step s l)"
  proof (cases "e_type r \<in> set turn_types")
    case False
    then show ?thesis
      using reduce_type_same_turns [OF st(3)] v t by (auto simp: same_turns_def last_step_def turn_types_def)
  next
    case True
    then show ?thesis
      using st(3) v t d stays
      by (auto simp: reduce_type_def Let_def turn_types_def last_step_def res_simps red_turn_start_def
          check_continuation_def open_turn_on_def red_turn_end_def red_step_start_def red_step_end_def
          red_request_header_def split: if_splits option.splits)
  qed
  ultimately show ?thesis by (simp add: last_step_def)
qed

lemma step_numbers_rows:
  assumes "check_rows env batch caches s rows = Inr s'" "\<forall>row \<in> set rows. at_current (fst row)"
    "\<forall>row \<in> set rows. \<not> (lane_of (fst row) = l \<and> e_type (fst row) = ''turn/end'') \<and> e_type (fst row) \<noteq> ''session/start''"
    "last_step s l = num_of_int k"
  shows "step_numbers l rows = map (\<lambda>i. num_of_int (k + 1 + int i)) [0..<length (step_numbers l rows)]"
  using assms
proof (induction rows arbitrary: s k)
  case Nil
  then show ?case by (simp add: step_numbers_def)
next
  case (Cons row rows)
  define n where "n = checked_seq s row"
  obtain t where chk: "check_row batch caches s (fst row) n = Inr ()"
    and red: "reduce env s (stamp n (fst row)) = Inr t" and rest: "check_rows env batch caches t rows = Inr s'"
    using Cons.prems(1) by (auto simp: Let_def res_simps n_def)
  have lst: "last_step t l = (if e_type (fst row) = ''step/start'' \<and> lane_of (fst row) = l
      then js_number (jget (Some (e_data (fst row))) ''step'') else last_step s l)"
    using last_step_row [OF red] Cons.prems(2,3) by simp
  show ?case
  proof (cases "e_type (fst row) = ''step/start'' \<and> lane_of (fst row) = l")
    case False
    then have "step_numbers l (row # rows) = step_numbers l rows" by (simp add: step_numbers_def)
    with Cons.IH [OF rest, of k] lst False Cons.prems show ?thesis by simp
  next
    case True
    have num: "js_number (jget (Some (e_data (fst row))) ''step'') = num_of_int (k + 1)"
    proof -
      have "next_step_number s l = js_plus (last_step s l) (num_of_int 1)"
        by (simp add: next_step_number_def last_step_def)
      then show ?thesis using check_row_turn(3) [OF chk] True Cons.prems(4) by simp
    qed
    have IH: "step_numbers l rows = map (\<lambda>i. num_of_int (k + 1 + 1 + int i)) [0..<length (step_numbers l rows)]"
      using Cons.IH [OF rest, of "k + 1"] lst True num Cons.prems by simp
    have c: "step_numbers l (row # rows) = num_of_int (k + 1) # step_numbers l rows"
      using True num by (simp add: step_numbers_def)
    have "map (\<lambda>i. num_of_int (k + 1 + int i)) [0..<Suc m]
        = num_of_int (k + 1) # map (\<lambda>i. num_of_int (k + 1 + 1 + int i)) [0..<m]" for m
      by (simp add: upt_conv_Cons map_Suc_upt [symmetric] comp_def del: upt_Suc)
    then show ?thesis unfolding c using IH by simp
  qed
qed

text \<open>
  C8. The steps of a turn are numbered one after the other: in an accepted batch, on a lane whose turn
  does not end in it, the steps that open name exactly the numbers that follow the last step opened in
  the turn (1, 2, 3 when there was none), however many steps were opened and closed before.
\<close>

theorem steps_in_sequence:
  assumes ok: "ledger_ok s" and chk: "checkRelations env batch s caches opLanes = Inr ()"
    and cur: "\<forall>row \<in> set batch. at_current (fst row)"
    and stays: "\<forall>row \<in> set batch. \<not> (lane_of (fst row) = l \<and> e_type (fst row) = ''turn/end'')
      \<and> e_type (fst row) \<noteq> ''session/start''"
  shows "\<exists>k \<ge> 0. last_step s l = num_of_int k
    \<and> step_numbers l batch = map (\<lambda>i. num_of_int (k + 1 + int i)) [0..<length (step_numbers l batch)]"
proof -
  obtain k where k: "k \<ge> 0" "last_step s l = num_of_int k"
  proof (cases "jm_get (lg_lastStep s) l")
    case None
    then show ?thesis using that [of 0] by (simp add: last_step_def)
  next
    case (Some n)
    then have "step_numbered n" using ok by (simp add: ledger_ok_def turns_ok_def)
    then obtain m where "m \<ge> 1" "n = num_of_int m" by (auto simp: step_numbered_def)
    with Some show ?thesis using that [of m] by (simp add: last_step_def)
  qed
  obtain t where "check_rows env batch caches s batch = Inr t"
    using chk by (auto simp: checkRelations_def res_simps)
  from step_numbers_rows [OF this cur stays k(2)] k show ?thesis by blast
qed

section \<open>Lanes and taint\<close>

lemma reduce_rows_invariant:
  assumes "reduce_rows env bnd s es = Inr s'" "I s"
    "\<And>t e t'. e \<in> set es \<Longrightarrow> reduce env t e = Inr t' \<Longrightarrow> I t \<Longrightarrow> I t'"
  shows "I s'"
  using assms
proof (induction es arbitrary: s)
  case (Cons e es)
  show ?case
  proof (cases "\<exists>u \<in> set_option bnd. e_seq e > u")
    case False
    then obtain t where "reduce env s e = Inr t" "reduce_rows env bnd t es = Inr s'"
      using Cons.prems(1) by (auto elim: rbindE)
    with Cons.IH Cons.prems(2,3) show ?thesis by (meson list.set_intros)
  qed (use Cons.prems in simp)
qed simp

text \<open>
  C40. Rows of other lanes leave the turn of a lane alone: whatever rows the fold accepts that are not of
  the lane and do not start a forked session, the lane's open turn and step, its last turn and step
  numbers and its taint are what they were.
\<close>

theorem lanes_apart:
  assumes "reduce_rows env bnd s es = Inr s'"
    and "\<forall>e \<in> set es. lane_of e \<noteq> l \<and> at_current e \<and> \<not> forks e"
  shows "lane_view s' l = lane_view s l"
  using reduce_rows_invariant [OF assms(1), of "\<lambda>t. lane_view t l = lane_view s l"] reduce_other_lane assms(2) by simp

lemma taint_stays:
  assumes "reduce_rows env None s es = Inr s'"
    "\<forall>e \<in> set es. at_current e \<and> \<not> forks e \<and> \<not> (e_type e = ''turn/end'' \<and> lane_of e = l)"
    "jm_has (lg_openTurn s) l"
  shows "jm_has (lg_openTurn s') l \<and> (lane_tainted s l
    \<or> (\<exists>e \<in> set es. lane_of e = l \<and> (e_type e = ''user/message'' \<or> e_type e = ''tool/result'') \<and> \<not> e_trusted e)
    \<longrightarrow> lane_tainted s' l)"
  using assms
proof (induction es arbitrary: s)
  case (Cons e es)
  obtain t where t: "reduce env s e = Inr t" "reduce_rows env None t es = Inr s'"
    using Cons.prems(1) by (auto elim: rbindE)
  have one: "jm_has (lg_openTurn t) l \<and> (lane_tainted s l \<longrightarrow> lane_tainted t l)
    \<and> (lane_of e = l \<and> (e_type e = ''user/message'' \<or> e_type e = ''tool/result'') \<and> \<not> e_trusted e \<longrightarrow> lane_tainted t l)"
  proof (cases "lane_of e = l")
    case True
    then have "e_type e \<noteq> ''turn/end''" using Cons.prems(2) by auto
    with reduce_taint_mono [OF t(1) _ _ this Cons.prems(3)] Cons.prems(2) show ?thesis by auto
  next
    case False
    then have "lane_view t l = lane_view s l" using reduce_other_lane [OF t(1)] Cons.prems(2) by simp
    with False Cons.prems(3) show ?thesis by (simp add: lane_view_def lane_tainted_def)
  qed
  from Cons.IH [OF t(2)] one Cons.prems(2) show ?case by auto
qed simp

text \<open>
  C9. Taint lasts as long as the turn. While the turn on a lane stays open, no row takes the taint of
  the lane away, and an untrusted message or tool result on the lane, anywhere among the rows, leaves it
  tainted.
\<close>

theorem taint_lasts:
  assumes "reduce_rows env None s es = Inr s'"
    and "\<forall>e \<in> set es. at_current e \<and> \<not> forks e \<and> \<not> (e_type e = ''turn/end'' \<and> lane_of e = l)"
    and "jm_has (lg_openTurn s) l"
    and "lane_tainted s l
      \<or> (\<exists>e \<in> set es. lane_of e = l \<and> (e_type e = ''user/message'' \<or> e_type e = ''tool/result'') \<and> \<not> e_trusted e)"
  shows "jm_has (lg_openTurn s') l \<and> lane_tainted s' l"
  using taint_stays [OF assms(1-3)] assms(4) by blast

end
