(* ===== verification/LedgerRegs.thy ===== *)
theory LedgerRegs imports LedgerProps begin

text \<open>
  The registers of the folded state against the register map of storage, and the tree of pending
  effects.
\<close>

section \<open>Registers\<close>

definition FOLDED_REGISTERS :: "string list" where
  "FOLDED_REGISTERS = [''decision/state'', ''plan.items'', ''budget.state'', ''artifact/job'', ''inbox'', ''harness/entry'']"

text \<open>The table of a register.\<close>

definition state_cells :: "ledger_state \<Rightarrow> string \<Rightarrow> cells" where
  "state_cells s reg =
     (if reg = ''decision/state'' then lg_decisionStates s
      else if reg = ''plan.items'' then lg_planItems s
      else if reg = ''budget.state'' then lg_budgetState s
      else if reg = ''artifact/job'' then lg_artifactJobs s
      else if reg = ''inbox'' then lg_inbox s
      else lg_harnessEntries s)"

definition cell_of_row :: "register_row \<Rightarrow> reg_cell" where
  "cell_of_row r = \<lparr>cl_seq = r_seq r, cl_value = r_data r\<rparr>"

definition cells_agree :: "ledger_state \<Rightarrow> register_map \<Rightarrow> bool" where
  "cells_agree s m \<longleftrightarrow> (\<forall>reg \<in> set FOLDED_REGISTERS. \<forall>key.
     jm_get (state_cells s reg) key = map_option cell_of_row (rm_get m reg key))"

definition same_cells :: "ledger_state \<Rightarrow> ledger_state \<Rightarrow> bool" where
  "same_cells s s' \<longleftrightarrow> (\<forall>reg \<in> set FOLDED_REGISTERS. state_cells s' reg = state_cells s reg)"

lemma same_cells_iff: "same_cells s s' \<longleftrightarrow> lg_decisionStates s' = lg_decisionStates s \<and> lg_planItems s' = lg_planItems s
    \<and> lg_budgetState s' = lg_budgetState s \<and> lg_artifactJobs s' = lg_artifactJobs s \<and> lg_inbox s' = lg_inbox s
    \<and> lg_harnessEntries s' = lg_harnessEntries s"
  by (simp add: same_cells_def FOLDED_REGISTERS_def state_cells_def)

lemma late_receipts_cells: "same_cells s (foldl (late_receipt e) s rs)"
proof (induction rs arbitrary: s)
  case (Cons r rs)
  have "same_cells s (late_receipt e s r)"
    by (auto simp: late_receipt_def drop_pending_def same_cells_iff split: option.split)
  with Cons [of "late_receipt e s r"] show ?case by (simp add: same_cells_def)
qed (simp add: same_cells_def)

lemma reduce_type_cells:
  assumes "reduce_type s e = Inr s'" "\<not> (e_type e = ''session/start'' \<and> js_truthy (jget (Some (e_data e)) ''parent''))"
  shows "same_cells s s'"
proof -
  have cont: "same_cells s t" if "check_continuation s d l = Inr t" for t d l
    using that by (auto simp: check_continuation_def same_cells_iff split: option.splits if_splits)
  have open_turn: "same_cells s t \<Longrightarrow> same_cells s (open_turn_on t e)" for t
    by (simp add: same_cells_iff open_turn_on_def Let_def)
  have turn: "same_cells s t" if "red_turn_start s e = Inr t" for t
    using that cont open_turn by (auto simp: red_turn_start_def res_simps split: if_splits)
  have sess: "same_cells s t" if "red_session_start s e = Inr t" "e_type e = ''session/start''" for t
    using that assms(2) by (auto simp: red_session_start_def same_cells_iff Let_def split: if_splits)
  have cost: "same_cells s t" if "red_cost_ledger s e = Inr t" for t
    using that by (auto simp: red_cost_ledger_def same_cells_iff Let_def res_simps split: if_splits)
  have pend: "same_cells s (put_pending s p)" "same_cells s (drop_pending s i)" "same_cells s s" for p i
    by (simp_all add: same_cells_iff put_pending_def drop_pending_def)
  have intent: "same_cells s t" if "red_effect_intent s e = Inr t" for t
    using that pend by (auto simp: red_effect_intent_def res_simps)
  have settled: "same_cells s t" if "red_effect_settled s e = Inr t" for t
    using that pend by (auto simp: red_effect_settled_def res_simps)
  have late: "same_cells s (red_late_receipts s e)"
    using late_receipts_cells pend by (simp add: red_late_receipts_def Let_def split: option.split json.split)
  have plain: "same_cells s (red_turn_end s e)" "same_cells s (red_step_start s e)" "same_cells s (red_step_end s e)"
    "same_cells s (red_request_header s e)" "same_cells s (red_refinement_run s e)" "same_cells s (red_entry_meta s e)"
    "same_cells s (red_save s e)" "same_cells s (red_tool_call s e)"
    by (simp_all add: same_cells_iff red_turn_end_def red_step_start_def red_step_end_def red_request_header_def
        red_refinement_run_def red_entry_meta_def red_save_def red_tool_call_def Let_def split: option.split)
  have reqs: "same_cells s (red_request_sent s e)" "same_cells s (red_assistant_output s e)"
    "same_cells s (red_assistant_message s e)"
    using pend by (auto simp: red_request_sent_def red_assistant_output_def red_assistant_message_def Let_def
        split: option.split list.split)
  show ?thesis
    using assms(1) turn sess cost intent settled late plain reqs pend(3) by (auto simp: reduce_type_def Let_def split: if_splits)
qed

lemma reduceDecision_value:
  assumes "reduceDecision env p e = Inr v"
  shows "v = e_data e" "de_valid env (e_data e)"
proof -
  show "de_valid env (e_data e)"
    using assms by (auto simp: reduceDecision_def decision_fail_def Let_def split: if_splits)
  then show "v = e_data e" using assms by (auto simp: reduceDecision_def Let_def res_simps)
qed

lemma setRegister_get:
  assumes "setRegister c reg key n d = Inr c'"
  shows "jm_get c' k = (if key = k then (if isRegisterTombstone reg d then None else Some \<lparr>cl_seq = n, cl_value = d\<rparr>)
    else jm_get c k)"
  using assms by (auto simp: setRegister_def split: if_splits)

lemma reduce_register_set:
  assumes red: "reduce_register env s e = Inr s'" and reg: "e_register e = Some w"
    and w: "w \<in> set FOLDED_REGISTERS" "w \<noteq> ''decision/state''"
  shows "\<exists>c. setRegister (state_cells s w) w (registerKey e) (e_seq e) (e_data e) = Inr c
    \<and> (\<forall>r \<in> set FOLDED_REGISTERS. state_cells s' r = (if r = w then c else state_cells s r))"
proof -
  have "w = ''plan.items'' \<or> w = ''budget.state'' \<or> w = ''artifact/job'' \<or> w = ''inbox'' \<or> w = ''harness/entry''"
    using w by (simp add: FOLDED_REGISTERS_def)
  then show ?thesis
  proof (elim disjE)
    assume w: "w = ''plan.items''"
    then obtain c where c: "setRegister (lg_planItems s) w (registerKey e) (e_seq e) (e_data e) = Inr c" "s' = s\<lparr>lg_planItems := c\<rparr>"
      using red reg by (auto simp: reduce_register_def Let_def res_simps)
    then show ?thesis by (intro exI [of _ c]) (simp add: w FOLDED_REGISTERS_def state_cells_def)
  next
    assume w: "w = ''budget.state''"
    then obtain c where c: "setRegister (lg_budgetState s) w (registerKey e) (e_seq e) (e_data e) = Inr c" "s' = s\<lparr>lg_budgetState := c\<rparr>"
      using red reg by (auto simp: reduce_register_def Let_def res_simps)
    then show ?thesis by (intro exI [of _ c]) (simp add: w FOLDED_REGISTERS_def state_cells_def)
  next
    assume w: "w = ''artifact/job''"
    then obtain c where c: "setRegister (lg_artifactJobs s) w (registerKey e) (e_seq e) (e_data e) = Inr c" "s' = s\<lparr>lg_artifactJobs := c\<rparr>"
      using red reg by (auto simp: reduce_register_def Let_def res_simps)
    then show ?thesis by (intro exI [of _ c]) (simp add: w FOLDED_REGISTERS_def state_cells_def)
  next
    assume w: "w = ''inbox''"
    then obtain c where c: "setRegister (lg_inbox s) w (registerKey e) (e_seq e) (e_data e) = Inr c" "s' = s\<lparr>lg_inbox := c\<rparr>"
      using red reg by (auto simp: reduce_register_def Let_def res_simps)
    then show ?thesis by (intro exI [of _ c]) (simp add: w FOLDED_REGISTERS_def state_cells_def)
  next
    assume w: "w = ''harness/entry''"
    then obtain c where c: "setRegister (lg_harnessEntries s) w (registerKey e) (e_seq e) (e_data e) = Inr c" "s' = s\<lparr>lg_harnessEntries := c\<rparr>"
      using red reg by (auto simp: reduce_register_def Let_def res_simps)
    then show ?thesis by (intro exI [of _ c]) (simp add: w FOLDED_REGISTERS_def state_cells_def)
  qed
qed

text \<open>A register write lands in the table of its register, under the key storage uses, and nowhere else.\<close>

lemma reduce_register_cells:
  assumes red: "reduce_register env s e = Inr s'" and reg: "e_register e = Some w"
    and null: "\<not> de_valid (re_decision env) JNull" and r: "r \<in> set FOLDED_REGISTERS"
  shows "jm_get (state_cells s' r) k =
    (if r = w \<and> registerKey e = k
     then (if isRegisterTombstone w (e_data e) then None else Some \<lparr>cl_seq = e_seq e, cl_value = e_data e\<rparr>)
     else jm_get (state_cells s r) k)"
proof (cases "w = ''decision/state''")
  case True
  obtain v where v: "reduceDecision (re_decision env) (map_option cl_value (jm_get (lg_decisionStates s) (registerKey e))) e = Inr v"
    "s' = s\<lparr>lg_decisionStates := jm_set (lg_decisionStates s) (registerKey e) \<lparr>cl_seq = e_seq e, cl_value = v\<rparr>\<rparr>"
    using red reg True by (auto simp: reduce_register_def Let_def res_simps)
  note q = reduceDecision_value [OF v(1)]
  have "\<not> isRegisterTombstone w (e_data e)"
    using q(2) null True by (auto simp: isRegisterTombstone_def)
  then show ?thesis using r q(1) True by (auto simp: v(2) state_cells_def FOLDED_REGISTERS_def)
next
  case False
  show ?thesis
  proof (cases "w \<in> set FOLDED_REGISTERS")
    case True
    obtain c where c: "setRegister (state_cells s w) w (registerKey e) (e_seq e) (e_data e) = Inr c"
      "\<forall>r \<in> set FOLDED_REGISTERS. state_cells s' r = (if r = w then c else state_cells s r)"
      using reduce_register_set [OF red reg True False] by blast
    then show ?thesis using r setRegister_get [OF c(1)] by auto
  next
    case False
    then have "s' = s" using red reg by (auto simp: reduce_register_def FOLDED_REGISTERS_def Let_def)
    then show ?thesis using False r by auto
  qed
qed

lemma registerKey_cong:
  "e_register e = e_register f \<Longrightarrow> e_data e = e_data f \<Longrightarrow> lane_of e = lane_of f \<Longrightarrow> registerKey e = registerKey f"
  by (simp add: registerKey_def Let_def)

text \<open>A row the two folds read alike: at the current version, no fork, a register name without NUL.\<close>

definition plain_row :: "event \<Rightarrow> bool" where
  "plain_row e \<longleftrightarrow> at_current e \<and> \<not> forks e \<and> (\<forall>r \<in> set_option (e_register e). nul_free r)"

lemma FOLDED_nul_free: "reg \<in> set FOLDED_REGISTERS \<Longrightarrow> nul_free reg"
  by (auto simp: FOLDED_REGISTERS_def nul_free_def NUL_def)

lemma cells_agree_row:
  assumes agree: "cells_agree s m" and red: "reduce env s raw = Inr s'" and plain: "plain_row raw"
    and null: "\<not> de_valid (re_decision env) JNull"
  shows "cells_agree s' (rm_fold_events m [raw])"
proof -
  obtain e s1 s2 s3 where st: "readable env raw = Inr e"
    "reduce_register env (s\<lparr>lg_lastSeq := e_seq e\<rparr>) e = Inr s1"
    "reduce_type s1 e = Inr s2" "reduce_anchor s2 e = Inr s3" "reduce_taint s3 e = Inr s'"
    using red by (rule reduceE)
  note v = readable_view [OF st(1)]
  have d: "e_data e = e_data raw" using v(8) plain by (simp add: plain_row_def at_current_def)
  have f: "\<not> (e_type e = ''session/start'' \<and> js_truthy (jget (Some (e_data e)) ''parent''))"
    using plain v d by (simp add: plain_row_def forks_def)
  have "same_cells s1 s2" using reduce_type_cells [OF st(3) f] .
  moreover have "same_cells s2 s'" using st(4,5) by (auto simp: same_cells_iff elim!: reduce_anchor_view reduce_taint_view)
  ultimately have c: "state_cells s' r = state_cells s1 r" if "r \<in> set FOLDED_REGISTERS" for r
    using that by (simp add: same_cells_def)
  have c0: "state_cells (s\<lparr>lg_lastSeq := x\<rparr>) r = state_cells s r" for x r by (simp add: state_cells_def)
  have "jm_get (state_cells s' r) k = map_option cell_of_row (rm_get (rm_fold_events m [raw]) r k)"
    if r: "r \<in> set FOLDED_REGISTERS" for r k
  proof (cases "e_register raw")
    case None
    then have "s1 = s\<lparr>lg_lastSeq := e_seq e\<rparr>" using st(2) v by (simp add: reduce_register_def)
    then show ?thesis using agree r c None c0 by (simp add: cells_agree_def rm_fold_events_def row_of_def map_filter_def)
  next
    case (Some w)
    have nf: "nul_free w" "nul_free r" using plain Some FOLDED_nul_free [OF r] by (simp_all add: plain_row_def)
    have key: "registerKey e = registerKey raw" by (rule registerKey_cong) (simp_all add: v d)
    let ?row = "\<lparr>r_register = w, r_key = registerKey raw, r_seq = e_seq raw, r_data = e_data raw\<rparr>"
    have ne: "r \<noteq> []" using r by (auto simp: FOLDED_REGISTERS_def)
    have "rm_fold_events m [raw] = (if w = [] then m else rm_apply m ?row)"
      by (simp add: rm_fold_events_def row_of_def map_filter_def Some)
    then show ?thesis
      using ne reduce_register_cells [OF st(2) _ null r, of w k] rm_get_apply [of ?row r m k] nf agree r c key d v Some c0
      by (auto simp: cells_agree_def cell_of_row_def)
  qed
  then show ?thesis by (simp add: cells_agree_def)
qed


section \<open>The tree of pending effects\<close>

fun effects_of :: "effect_tree \<Rightarrow> effect_node list" where
  "effects_of (Effect n ts) = n # concat (map effects_of ts)"

text \<open>Nodes as an append leaves them: one per id, and a parent that is pending was asked for earlier.\<close>

definition nodes_acyclic :: "effect_node list \<Rightarrow> bool" where
  "nodes_acyclic ns \<longleftrightarrow> distinct ns \<and> (\<forall>n \<in> set ns. \<forall>p. parent_in ns n = Some p \<longrightarrow> en_intentSeq p < en_intentSeq n)"

definition kids :: "effect_node list \<Rightarrow> effect_node \<Rightarrow> effect_node list" where
  "kids ns n = filter (\<lambda>m. parent_in ns m = Some n) ns"

text \<open>The nodes at a depth, and the nodes of a forest cut at a depth.\<close>

fun level :: "effect_node list \<Rightarrow> nat \<Rightarrow> effect_node list" where
  "level ns 0 = filter (\<lambda>n. parent_in ns n = None) ns"
| "level ns (Suc i) = filter (\<lambda>m. \<exists>p \<in> set (level ns i). parent_in ns m = Some p) ns"

definition forest :: "nat \<Rightarrow> effect_node list \<Rightarrow> effect_node list \<Rightarrow> effect_node list" where
  "forest k ns xs = concat (map (\<lambda>n. effects_of (subtree k ns n)) xs)"

lemma parent_in_mem: "parent_in ns n = Some p \<Longrightarrow> p \<in> set ns"
  by (auto simp: parent_in_def find_Some_iff split: option.splits json.splits)

lemma forest_0: "forest 0 ns xs = xs"
  by (induction xs) (simp_all add: forest_def)

lemma mset_concat_kids:
  "distinct xs \<Longrightarrow> mset (concat (map (kids ns) xs)) = mset (filter (\<lambda>m. \<exists>p \<in> set xs. parent_in ns m = Some p) ns)"
proof (induction xs)
  case (Cons x xs)
  have "filter_mset (\<lambda>m. \<exists>p \<in> set (x # xs). parent_in ns m = Some p) (mset ns)
      = filter_mset (\<lambda>m. parent_in ns m = Some x) (mset ns)
        + filter_mset (\<lambda>m. \<exists>p \<in> set xs. parent_in ns m = Some p) (mset ns)"
    using Cons.prems by (intro multiset_eqI) auto
  with Cons show ?case by (simp add: kids_def)
qed simp

lemma forest_Suc: "mset (forest (Suc k) ns xs) = mset xs + mset (forest k ns (concat (map (kids ns) xs)))"
proof (induction xs)
  case (Cons x xs)
  have "effects_of (subtree (Suc k) ns x) = x # forest k ns (kids ns x)"
    by (simp add: forest_def kids_def comp_def)
  with Cons show ?case by (simp add: forest_def)
qed (simp add: forest_def)

lemma forest_mset: "mset xs = mset ys \<Longrightarrow> mset (forest k ns xs) = mset (forest k ns ys)"
proof -
  have "mset (forest k ns zs) = (\<Sum>n \<in># mset zs. mset (effects_of (subtree k ns n)))" for zs
    by (induction zs) (simp_all add: forest_def)
  then show "mset xs = mset ys \<Longrightarrow> mset (forest k ns xs) = mset (forest k ns ys)" by simp
qed

lemma level_distinct: "distinct ns \<Longrightarrow> distinct (level ns i)"
  by (cases i) simp_all

lemma forest_levels:
  "distinct ns \<Longrightarrow> mset xs = mset (level ns i) \<Longrightarrow>
     mset (forest k ns xs) = (\<Sum>j \<in> {i..i + k}. mset (level ns j))"
proof (induction k arbitrary: xs i)
  case 0
  then show ?case by (simp add: forest_0)
next
  case (Suc k)
  have d: "distinct xs" using Suc.prems level_distinct by (metis mset_eq_imp_distinct_iff)
  have s: "set xs = set (level ns i)" using Suc.prems(2) mset_eq_setD by blast
  have "mset (concat (map (kids ns) xs)) = mset (level ns (Suc i))"
    using mset_concat_kids [OF d] s by simp
  from Suc.IH [OF Suc.prems(1) this]
  have "mset (forest (Suc k) ns xs) = mset (level ns i) + (\<Sum>j \<in> {Suc i..Suc i + k}. mset (level ns j))"
    using forest_Suc Suc.prems(2) by metis
  also have "\<dots> = (\<Sum>j \<in> {i..i + Suc k}. mset (level ns j))"
    by (simp add: sum.atLeast_Suc_atMost [of i "i + k"])
  finally show ?case .
qed

lemma level_unique: "n \<in> set (level ns i) \<Longrightarrow> n \<in> set (level ns j) \<Longrightarrow> i = j"
proof (induction i arbitrary: j n)
  case 0
  then show ?case by (cases j) auto
next
  case (Suc i)
  then obtain p where p: "p \<in> set (level ns i)" "parent_in ns n = Some p" by auto
  then obtain j' where "j = Suc j'" "p \<in> set (level ns j')" using Suc.prems(2) by (cases j) auto
  with Suc.IH p show ?case by blast
qed

definition rank :: "effect_node list \<Rightarrow> effect_node \<Rightarrow> nat" where
  "rank ns n = card {m \<in> set ns. en_intentSeq m < en_intentSeq n}"

lemma rank_less: "p \<in> set ns \<Longrightarrow> en_intentSeq p < en_intentSeq n \<Longrightarrow> rank ns p < rank ns n"
  unfolding rank_def by (rule psubset_card_mono) auto

lemma rank_bound: "n \<in> set ns \<Longrightarrow> rank ns n < length ns"
proof -
  assume "n \<in> set ns"
  then have "{m \<in> set ns. en_intentSeq m < en_intentSeq n} \<subset> set ns" by auto
  then have "rank ns n < card (set ns)" unfolding rank_def by (simp add: psubset_card_mono)
  then show ?thesis using card_length [of ns] by simp
qed

lemma level_exists:
  assumes "nodes_acyclic ns"
  shows "n \<in> set ns \<Longrightarrow> \<exists>i \<le> rank ns n. n \<in> set (level ns i)"
proof (induction "rank ns n" arbitrary: n rule: less_induct)
  case less
  show ?case
  proof (cases "parent_in ns n")
    case None
    then show ?thesis using less.prems by (intro exI [of _ 0]) simp
  next
    case (Some p)
    have p: "p \<in> set ns" "en_intentSeq p < en_intentSeq n"
      using parent_in_mem [OF Some] assms Some less.prems by (auto simp: nodes_acyclic_def)
    then obtain i where "i \<le> rank ns p" "p \<in> set (level ns i)" using less.hyps rank_less by blast
    then show ?thesis using Some less.prems rank_less [OF p] by (intro exI [of _ "Suc i"]) auto
  qed
qed

text \<open>
  The tree of pending effects leaves out no effect and shows none twice: for any lane, or all of
  them, the nodes of the tree are exactly the pending effects asked for. Its roots are those whose parent
  is not among them, a settled parent hiding nothing, in the order they were asked for.
\<close>

theorem effect_tree_complete:
  assumes "nodes_acyclic (tree_nodes s lane)"
  shows "mset (concat (map effects_of (effectTree s lane))) = mset (tree_nodes s lane)
    \<and> map (\<lambda>t. case t of Effect n ts \<Rightarrow> n) (effectTree s lane)
        = sort_key en_intentSeq (filter (\<lambda>n. parent_in (tree_nodes s lane) n = None) (tree_nodes s lane))"
proof -
  let ?ns = "tree_nodes s lane"
  have d: "distinct ?ns" using assms by (simp add: nodes_acyclic_def)
  have "concat (map effects_of (effectTree s lane)) = forest (length ?ns) ?ns (sort_key en_intentSeq (level ?ns 0))"
    by (simp add: effectTree_def forest_def Let_def comp_def)
  then have f: "mset (concat (map effects_of (effectTree s lane))) = (\<Sum>j \<in> {0..length ?ns}. mset (level ?ns j))"
    using forest_levels [OF d, of "sort_key en_intentSeq (level ?ns 0)" 0 "length ?ns"] by simp
  have "(\<Sum>j \<in> {0..length ?ns}. mset (level ?ns j)) = mset ?ns"
  proof (rule multiset_eqI)
    fix x
    have c: "count (mset (level ?ns j)) x = (if x \<in> set (level ?ns j) then 1 else 0)" for j
      using level_distinct [OF d] by (simp add: distinct_count_atmost_1)
    have sub: "set (level ?ns j) \<subseteq> set ?ns" for j by (cases j) auto
    show "count (\<Sum>j \<in> {0..length ?ns}. mset (level ?ns j)) x = count (mset ?ns) x"
    proof (cases "x \<in> set ?ns")
      case True
      obtain i where i: "i \<le> rank ?ns x" "x \<in> set (level ?ns i)" using level_exists [OF assms True] by blast
      have "i \<in> {0..length ?ns}" using i(1) rank_bound [OF True] by simp
      moreover have "x \<in> set (level ?ns j) \<longleftrightarrow> j = i" for j using level_unique i(2) by blast
      ultimately have "(\<Sum>j \<in> {0..length ?ns}. count (mset (level ?ns j)) x) = 1" by (simp add: c)
      then show ?thesis using True d by (simp add: count_sum distinct_count_atmost_1)
    next
      case False
      then have "x \<notin> set (level ?ns j)" for j using sub by blast
      then show ?thesis using False by (simp add: count_sum c)
    qed
  qed
  moreover have "map (\<lambda>t. case t of Effect n ts \<Rightarrow> n) (effectTree s lane)
        = sort_key en_intentSeq (filter (\<lambda>n. parent_in ?ns n = None) ?ns)"
  proof -
    have "(case subtree k ns n of Effect m ts \<Rightarrow> m) = n" for k ns n by (cases k) simp_all
    then show ?thesis by (simp add: effectTree_def Let_def comp_def)
  qed
  ultimately show ?thesis using f by simp
qed

end
