(* ===== verification/LedgerWitness.thy ===== *)
theory LedgerWitness imports LedgerRegs begin

text \<open>A first batch of a session and the states around it, on which the properties of the ledger state apply.\<close>

definition env_w :: reduce_env where
  "env_w = \<lparr>re_decision = env_a\<lparr>de_valid := (\<lambda>v. v \<noteq> JNull)\<rparr>, re_migrations = []\<rparr>"

definition draft_row :: "string \<Rightarrow> string \<Rightarrow> (string \<times> json) list \<Rightarrow> prepared_event" where
  "draft_row lane ty kvs = \<lparr>e_ts = ''t'', e_id = ''i'', e_type = ty, e_data = JObj kvs, e_actor = JNull,
     e_origin = ''system'', e_trusted = True, e_lane = Some lane, e_v = None,
     e_register = (if ty = ''plan.items'' then Some ty else None), e_ignorable = False,
     e_surfaceOp = None, e_sourceEventSeqs = None\<rparr>"

definition first_batch :: "checked_event list" where
  "first_batch = map (\<lambda>r. (r, None))
     [draft_row ''main'' ''turn/start'' [(''turn'', JNum 1), (''trigger'', JStr ''prompt'')],
      draft_row ''main'' ''step/start'' [(''turn'', JNum 1), (''step'', JNum 1)],
      draft_row ''main'' ''effect/intent'' [(''effectId'', JStr ''e1''), (''kind'', JStr ''inference'')],
      draft_row ''main'' ''step/end'' [(''turn'', JNum 1), (''step'', JNum 1)],
      draft_row ''main'' ''step/start'' [(''turn'', JNum 1), (''step'', JNum 2)]]"

lemma first_batch_checks: "checkRelations env_w first_batch initialState [] (Some [''main'']) = Inr ()"
  by code_simp

lemma first_batch_rows:
  "ascends (lg_lastSeq initialState) (numbered (lg_lastSeq initialState) first_batch)"
  "\<forall>row \<in> set first_batch. at_current (fst row)"
  by (simp_all add: first_batch_def draft_row_def at_current_def initialState_def)

theorem append_keeps_ledger_witness:
  "\<exists>s'. reduce_rows env_w None initialState (numbered 0 first_batch) = Inr s' \<and> ledger_ok s' \<and> jm_has (lg_openTurn s') ''main''"
proof -
  have z: "lg_lastSeq initialState = 0" by (simp add: initialState_def)
  obtain s' where s': "reduce_rows env_w None initialState (numbered (lg_lastSeq initialState) first_batch) = Inr s'"
    "ledger_ok s'" and open': "\<forall>lane. jm_has (lg_openTurn s') lane = (lane \<in> set [''main''])"
    using append_keeps_ledger [OF appended_new first_batch_checks first_batch_rows] by blast
  have "jm_has (lg_openTurn s') ''main''" using open' [rule_format, of "''main''"] by simp
  with s' show ?thesis unfolding z by blast
qed

theorem steps_in_sequence_witness:
  "step_numbers ''main'' first_batch = [num_of_int 1, num_of_int 2] \<and> last_step initialState ''main'' = num_of_int 0
   \<and> (\<exists>k \<ge> 0. last_step initialState ''main'' = num_of_int k
        \<and> step_numbers ''main'' first_batch = map (\<lambda>i. num_of_int (k + 1 + int i)) [0..<2])"
proof -
  have n: "step_numbers ''main'' first_batch = [num_of_int 1, num_of_int 2]" by code_simp
  have stays: "\<forall>row \<in> set first_batch. \<not> (lane_of (fst row) = ''main'' \<and> e_type (fst row) = ''turn/end'')
      \<and> e_type (fst row) \<noteq> ''session/start''"
    by (simp add: first_batch_def draft_row_def)
  have "length (step_numbers ''main'' first_batch) = 2" by (simp add: n)
  with steps_in_sequence [OF ledger_ok_initial first_batch_checks first_batch_rows(2) stays]
  have "\<exists>k \<ge> 0. last_step initialState ''main'' = num_of_int k
      \<and> step_numbers ''main'' first_batch = map (\<lambda>i. num_of_int (k + 1 + int i)) [0..<2]" by simp
  moreover have "last_step initialState ''main'' = num_of_int 0" by (simp add: last_step_def initialState_def)
  ultimately show ?thesis using n by blast
qed

text \<open>The state after the first batch, and rows that follow it.\<close>

definition state_w :: ledger_state where
  "state_w = (case reduce_rows env_w None initialState (numbered 0 first_batch) of Inr s \<Rightarrow> s | Inl _ \<Rightarrow> initialState)"

definition later_rows :: "event list" where
  "later_rows = [stamp 6 (draft_row ''side'' ''turn/start'' [(''turn'', JNum 1), (''trigger'', JStr ''x'')]),
     stamp 7 ((draft_row ''side'' ''user/message'' [])\<lparr>e_trusted := False\<rparr>)]"

definition state_v :: ledger_state where
  "state_v = (case reduce_rows env_w None state_w later_rows of Inr s \<Rightarrow> s | Inl _ \<Rightarrow> initialState)"

lemma later_rows_fold: "reduce_rows env_w None state_w later_rows = Inr state_v"
proof -
  have "(case reduce_rows env_w None state_w later_rows of Inr s \<Rightarrow> True | Inl _ \<Rightarrow> False)" by code_simp
  then show ?thesis by (auto simp: state_v_def split: sum.splits)
qed

theorem lanes_apart_witness:
  "lane_view state_v ''main'' = lane_view state_w ''main'' \<and> jm_has (lg_openTurn state_w) ''main''"
proof -
  have "\<forall>e \<in> set later_rows. lane_of e \<noteq> ''main'' \<and> at_current e \<and> \<not> forks e"
    by (simp add: later_rows_def draft_row_def stamp_def prepared_event.extend_def lane_of_def at_current_def forks_def)
  moreover have "jm_has (lg_openTurn state_w) ''main''" by code_simp
  ultimately show ?thesis using lanes_apart [OF later_rows_fold] by blast
qed

definition tainted_rows :: "event list" where
  "tainted_rows = [stamp 8 ((draft_row ''main'' ''user/message'' [])\<lparr>e_trusted := False\<rparr>),
     stamp 9 (draft_row ''main'' ''user/message'' [])]"

theorem taint_lasts_witness:
  "\<not> lane_tainted state_w ''main''
   \<and> (\<exists>s'. reduce_rows env_w None state_w tainted_rows = Inr s' \<and> lane_tainted s' ''main'')"
proof -
  have "(case reduce_rows env_w None state_w tainted_rows of Inr s \<Rightarrow> True | Inl _ \<Rightarrow> False)" by code_simp
  then obtain s' where s': "reduce_rows env_w None state_w tainted_rows = Inr s'" by (auto split: sum.splits)
  have rows: "\<forall>e \<in> set tainted_rows. at_current e \<and> \<not> forks e \<and> \<not> (e_type e = ''turn/end'' \<and> lane_of e = ''main'')"
    and bad: "\<exists>e \<in> set tainted_rows. lane_of e = ''main'' \<and> (e_type e = ''user/message'' \<or> e_type e = ''tool/result'') \<and> \<not> e_trusted e"
    by (simp_all add: tainted_rows_def draft_row_def stamp_def prepared_event.extend_def lane_of_def at_current_def forks_def)
  have "jm_has (lg_openTurn state_w) ''main''" "\<not> lane_tainted state_w ''main''" by code_simp+
  with taint_lasts [OF s' rows _ disjI2 [OF bad]] s' show ?thesis by blast
qed

definition plan_rows :: "event list" where
  "plan_rows = [stamp 1 (draft_row ''main'' ''plan.items'' [(''items'', JArr [])]),
     stamp 2 ((draft_row ''side'' ''plan.items'' [(''items'', JArr [])])),
     stamp 3 ((draft_row ''main'' ''plan.items'' [])\<lparr>e_data := JNull\<rparr>)]"


definition effect_w :: "string \<Rightarrow> int \<Rightarrow> string \<Rightarrow> effect_node" where
  "effect_w i n parent = \<lparr>en_effectId = i, en_lane = ''main'', en_parentEffectId = Some (JStr parent), en_kind = None,
     en_tool = None, en_replay = None, en_intentSeq = n, en_receiptSeq = None, en_firstOutputSeq = None,
     en_interruptedSeq = None, en_argsSeq = None, en_slot = None\<rparr>"

definition state_t :: ledger_state where
  "state_t = initialState\<lparr>lg_pending := [(''b'', effect_w ''b'' 5 ''gone''), (''c'', effect_w ''c'' 4 ''a''),
     (''a'', effect_w ''a'' 2 ''gone'')]\<rparr>"

theorem effect_tree_complete_witness:
  "effectTree state_t None = [Effect (effect_w ''a'' 2 ''gone'') [Effect (effect_w ''c'' 4 ''a'') []],
     Effect (effect_w ''b'' 5 ''gone'') []]
   \<and> mset (concat (map effects_of (effectTree state_t None))) = mset (tree_nodes state_t None)"
proof -
  have t: "effectTree state_t None = [Effect (effect_w ''a'' 2 ''gone'') [Effect (effect_w ''c'' 4 ''a'') []],
     Effect (effect_w ''b'' 5 ''gone'') []]" by code_simp
  have n: "tree_nodes state_t None = [effect_w ''b'' 5 ''gone'', effect_w ''c'' 4 ''a'', effect_w ''a'' 2 ''gone'']"
    by (simp add: tree_nodes_def state_t_def)
  have "nodes_acyclic (tree_nodes state_t None)"
    unfolding n nodes_acyclic_def by (auto simp: parent_in_def effect_w_def)
  from effect_tree_complete [OF this] t show ?thesis by simp
qed

end
