(* ===== verification/Jcs.thy ===== *)
theory Jcs imports Js "HOL-Library.Word" "HOL-Library.List_Lexorder" "HOL-Library.Multiset" begin

text \<open>
  \<^verbatim>\<open>packages/protocol/src/jcs.ts\<close>: the three RFC 8785 encoders of the program, and
  \<^verbatim>\<open>canonicalJson\<close> of \<^verbatim>\<open>packages/core-common/src/request/hash.ts\<close>.
  Everything that is hashed goes through one of them. Strings are lists of 16-bit code units here,
  because the encoders look at surrogates; a value is a finite tree, so the set \<^verbatim>\<open>active\<close>
  that stops on a cycle never finds one. What \<^verbatim>\<open>JSON.stringify\<close> prints for a number that is
  not a safe integer is the parameter \<open>num_text\<close>.
\<close>

section \<open>Strings of code units\<close>

type_synonym jsstr = "16 word list"

definition units :: "string \<Rightarrow> jsstr" where
  "units s = map of_char s"

definition is_high :: "16 word \<Rightarrow> bool" where
  "is_high u \<longleftrightarrow> 0xd800 \<le> u \<and> u \<le> 0xdbff"

definition is_low :: "16 word \<Rightarrow> bool" where
  "is_low u \<longleftrightarrow> 0xdc00 \<le> u \<and> u \<le> 0xdfff"

text \<open>The string iterator: a surrogate pair is one item, any other unit is one by itself.\<close>

fun points :: "jsstr \<Rightarrow> jsstr list" where
  "points [] = []"
| "points [u] = [[u]]"
| "points (u # v # us) = (if is_high u \<and> is_low v then [u, v] # points us else [u] # points (v # us))"

definition paired :: "jsstr \<Rightarrow> bool" where
  "paired p = (case p of [u] \<Rightarrow> \<not> is_high u \<and> \<not> is_low u | _ \<Rightarrow> True)"

definition isWellFormed :: "jsstr \<Rightarrow> bool" where
  "isWellFormed s = list_all paired (points s)"

text \<open>The loop for a host without \<^verbatim>\<open>String.prototype.isWellFormed\<close>.\<close>

fun surrogates_ok :: "jsstr \<Rightarrow> bool" where
  "surrogates_ok [] = True"
| "surrogates_ok [u] = (\<not> is_high u \<and> \<not> is_low u)"
| "surrogates_ok (u # v # us) =
     (if is_high u then is_low v \<and> surrogates_ok us
      else if is_low u then False else surrogates_ok (v # us))"

definition hex_unit :: "16 word \<Rightarrow> 16 word" where
  "hex_unit d = (if d < 10 then 48 + d else 87 + d)"

definition hex4 :: "16 word \<Rightarrow> jsstr" where
  "hex4 u = map (\<lambda>k. hex_unit (take_bit 4 (drop_bit k u))) [12, 8, 4, 0]"

text \<open>\<^verbatim>\<open>JSON.stringify\<close> of a string: one item at a time, between quotes.\<close>

definition escape_unit :: "16 word \<Rightarrow> jsstr" where
  "escape_unit u =
     (if u = 8 then units [CHR 92, CHR ''b''] else if u = 9 then units [CHR 92, CHR ''t'']
      else if u = 10 then units [CHR 92, CHR ''n''] else if u = 12 then units [CHR 92, CHR ''f'']
      else if u = 13 then units [CHR 92, CHR ''r'']
      else if u = 0x22 \<or> u = 0x5c then [0x5c, u]
      else if u < 0x20 \<or> is_high u \<or> is_low u then units [CHR 92, CHR ''u''] @ hex4 u
      else [u])"

definition escape_point :: "jsstr \<Rightarrow> jsstr" where
  "escape_point p = (case p of [u] \<Rightarrow> escape_unit u | _ \<Rightarrow> p)"

definition escaped :: "jsstr \<Rightarrow> jsstr" where
  "escaped s = concat (map escape_point (points s))"

definition json_quote :: "jsstr \<Rightarrow> jsstr" where
  "json_quote s = units [CHR 34] @ escaped s @ units [CHR 34]"

text \<open>The UTF-8 length of one item, as \<^verbatim>\<open>charge\<close> counts it.\<close>

definition code_point :: "jsstr \<Rightarrow> int" where
  "code_point p = (case p of [u] \<Rightarrow> uint u
     | [u, v] \<Rightarrow> 0x10000 + (uint u - 0xd800) * 0x400 + (uint v - 0xdc00) | _ \<Rightarrow> 0)"

definition point_bytes :: "jsstr \<Rightarrow> nat" where
  "point_bytes p = (let code = code_point p in
     if code < 0x80 then 1 else if code < 0x800 then 2 else if code < 0x10000 then 3 else 4)"

definition utf8_length :: "jsstr \<Rightarrow> nat" where
  "utf8_length s = sum_list (map point_bytes (points s))"

section \<open>Values\<close>

text \<open>
  An own property: absent (a hole of an array), a data property with its enumerable flag, or an
  accessor with its flag and the value it reads. An array has its prototype test, its slots and the
  number of its further own keys besides \<^verbatim>\<open>length\<close>; an object its prototype test, its
  string-keyed properties in order and whether it has a symbol key.
\<close>

datatype 'a slot = Hole | Data bool 'a | Getter bool 'a

datatype jsv =
  VUndefined | VFunction | VBigint | VNull | VBool bool | VNum jsnum | VStr jsstr
| VArr bool "jsv slot list" nat
| VObj bool "(jsstr \<times> jsv slot) list" bool

definition read_slot :: "'a slot \<Rightarrow> 'a option" where
  "read_slot s = (case s of Data True v \<Rightarrow> Some v | _ \<Rightarrow> None)"

record js_host =
  num_text :: "rat \<Rightarrow> string"
  has_isWellFormed :: bool

definition number_text :: "js_host \<Rightarrow> rat \<Rightarrow> jsstr" where
  "number_text h q = units (if is_safe_integer (Fin q) then int_string \<lfloor>q\<rfloor> else num_text h q)"

lemma read_slot_size [termination_simp]: "read_slot s = Some v \<Longrightarrow> f v < size_slot f s"
  by (cases s) (auto simp: read_slot_def split: bool.splits)

lemma size_list_sort_key: "size_list f (sort_key g xs) = size_list f xs"
proof -
  have "sum_list (map f (sort_key g xs)) = sum_list (map f xs)"
    by (metis mset_map mset_sort sum_mset_sum_list)
  then show ?thesis by (simp add: size_list_conv_sum_list)
qed

lemma members_size [termination_simp]:
  "size_list (size_prod f g) (sort_key k ms) = size_list (size_prod f g) ms"
  by (rule size_list_sort_key)

section \<open>The synchronous encoder\<close>

definition jcs_string :: "js_host \<Rightarrow> jsstr \<Rightarrow> jsstr option" where
  "jcs_string h s =
     (let fast = (if has_isWellFormed h then Some (isWellFormed s) else None) in
      if fast = Some True then Some (json_quote s)
      else if fast = Some False then None
      else if surrogates_ok s then Some (json_quote s) else None)"

text \<open>\<open>None\<close>: not a scalar; \<open>Some None\<close>: invalid.\<close>

definition jcs_scalar :: "js_host \<Rightarrow> jsv \<Rightarrow> jsstr option option" where
  "jcs_scalar h item =
     (case item of
        VNull \<Rightarrow> Some (Some (units ''null''))
      | VStr s \<Rightarrow> Some (jcs_string h s)
      | VBool b \<Rightarrow> Some (Some (units (if b then ''true'' else ''false'')))
      | VNum (Fin q) \<Rightarrow> Some (Some (number_text h q))
      | VNum _ \<Rightarrow> Some None
      | _ \<Rightarrow> None)"

definition own_keys :: "jsv slot list \<Rightarrow> nat \<Rightarrow> nat" where
  "own_keys items extra = length (filter (\<lambda>s. s \<noteq> Hole) items) + 1 + extra"

text \<open>The chunks handed to \<^verbatim>\<open>write\<close>, in order; \<open>None\<close> when the value is refused.\<close>

function jcs_encode :: "js_host \<Rightarrow> jsv \<Rightarrow> jsstr list option"
  and jcs_items :: "js_host \<Rightarrow> bool \<Rightarrow> jsv slot list \<Rightarrow> jsstr list option"
  and jcs_members :: "js_host \<Rightarrow> bool \<Rightarrow> (jsstr \<times> jsv slot) list \<Rightarrow> jsstr list option" where
  "jcs_encode h item =
     (case jcs_scalar h item of
        Some r \<Rightarrow> map_option (\<lambda>t. [t]) r
      | None \<Rightarrow>
         (case item of
            VArr plain items extra \<Rightarrow>
              if \<not> plain \<or> own_keys items extra \<noteq> length items + 1 then None
              else map_option (\<lambda>cs. units ''['' # cs @ [units '']'']) (jcs_items h False items)
          | VObj plain ms symbols \<Rightarrow>
              if \<not> plain \<or> symbols then None
              else map_option (\<lambda>cs. units ''{'' # cs @ [units ''}'']) (jcs_members h False (sort_key fst ms))
          | _ \<Rightarrow> None))"
| "jcs_items h later [] = Some []"
| "jcs_items h later (s # ss) =
     (case read_slot s of None \<Rightarrow> None | Some v \<Rightarrow>
      (case jcs_encode h v of None \<Rightarrow> None | Some cs \<Rightarrow>
       map_option (\<lambda>r. (if later then [units '','']  else []) @ cs @ r) (jcs_items h True ss)))"
| "jcs_members h later [] = Some []"
| "jcs_members h later ((k, s) # ms) =
     (case jcs_string h k of None \<Rightarrow> None | Some q \<Rightarrow>
      (case read_slot s of None \<Rightarrow> None | Some v \<Rightarrow>
       (case jcs_encode h v of None \<Rightarrow> None | Some cs \<Rightarrow>
        map_option (\<lambda>r. ((if later then units '','' else []) @ q @ units '':'') # cs @ r) (jcs_members h True ms))))"
  by pat_completeness auto
termination
  by (relation "measure (\<lambda>x. case x of Inl (h, v) \<Rightarrow> 2 * size v
        | Inr (Inl (h, m, ss)) \<Rightarrow> 2 * size_list (size_slot size) ss + 1
        | Inr (Inr (h, m, ms)) \<Rightarrow> 2 * size_list (size_prod (\<lambda>_. 0) (size_slot size)) ms + 1)")
     (auto simp: members_size dest!: read_slot_size [where f = size])

section \<open>The incremental encoder\<close>

text \<open>
  Cutting a text into slices of at most \<open>cap\<close> units between items. Both callers pass a constant of
  at least 2; below that the loop of the source would not advance.
\<close>

definition slice_length :: "nat \<Rightarrow> jsstr \<Rightarrow> nat" where
  "slice_length cap s =
     (let n = min cap (length s) in if n < length s \<and> is_high (s ! (n - 1)) then n - 1 else n)"

function slices :: "nat \<Rightarrow> jsstr \<Rightarrow> jsstr list" where
  "slices cap s =
     (if s = [] \<or> cap < 2 then []
      else take (slice_length cap s) s # slices cap (drop (slice_length cap s) s))"
  by pat_completeness auto
termination
  by (relation "measure (length \<circ> snd)") (auto simp: slice_length_def Let_def)

declare slices.simps [simp del]

definition CHUNK_UNITS :: nat where
  "CHUNK_UNITS = 64 * 1024"

definition chunk_string :: "js_host \<Rightarrow> jsstr \<Rightarrow> jsstr list option" where
  "chunk_string h s =
     map_option (\<lambda>ts. units [CHR 34] # map (\<lambda>t. butlast (tl t)) ts @ [units [CHR 34]])
       (those (map (jcs_string h) (slices CHUNK_UNITS s)))"

definition chunk_scalar :: "js_host \<Rightarrow> jsv \<Rightarrow> jsstr option option" where
  "chunk_scalar h item =
     (case item of
        VNull \<Rightarrow> Some (Some (units ''null''))
      | VBool b \<Rightarrow> Some (Some (units (if b then ''true'' else ''false'')))
      | VNum (Fin q) \<Rightarrow> Some (Some (number_text h q))
      | VNum _ \<Rightarrow> Some None
      | _ \<Rightarrow> None)"

function jcsChunks :: "js_host \<Rightarrow> jsv \<Rightarrow> jsstr list option"
  and chunk_items :: "js_host \<Rightarrow> bool \<Rightarrow> jsv slot list \<Rightarrow> jsstr list option"
  and chunk_members :: "js_host \<Rightarrow> bool \<Rightarrow> (jsstr \<times> jsv slot) list \<Rightarrow> jsstr list option" where
  "jcsChunks h item =
     (case item of
        VStr s \<Rightarrow> chunk_string h s
      | _ \<Rightarrow>
     (case chunk_scalar h item of
        Some r \<Rightarrow> map_option (\<lambda>t. [t]) r
      | None \<Rightarrow>
         (case item of
            VArr plain items extra \<Rightarrow>
              if \<not> plain \<or> own_keys items extra \<noteq> length items + 1 then None
              else map_option (\<lambda>cs. units ''['' # cs @ [units '']'']) (chunk_items h False items)
          | VObj plain ms symbols \<Rightarrow>
              if \<not> plain \<or> symbols then None
              else map_option (\<lambda>cs. units ''{'' # cs @ [units ''}'']) (chunk_members h False (sort_key fst ms))
          | _ \<Rightarrow> None)))"
| "chunk_items h later [] = Some []"
| "chunk_items h later (s # ss) =
     (case read_slot s of None \<Rightarrow> None | Some v \<Rightarrow>
      (case jcsChunks h v of None \<Rightarrow> None | Some cs \<Rightarrow>
       map_option (\<lambda>r. (if later then [units '',''] else []) @ cs @ r) (chunk_items h True ss)))"
| "chunk_members h later [] = Some []"
| "chunk_members h later ((k, s) # ms) =
     (case chunk_string h k of None \<Rightarrow> None | Some qs \<Rightarrow>
      (case read_slot s of None \<Rightarrow> None | Some v \<Rightarrow>
       (case jcsChunks h v of None \<Rightarrow> None | Some cs \<Rightarrow>
        map_option (\<lambda>r. (if later then [units '',''] else []) @ qs @ [units '':''] @ cs @ r)
          (chunk_members h True ms))))"
  by pat_completeness auto
termination
  by (relation "measure (\<lambda>x. case x of Inl (h, v) \<Rightarrow> 2 * size v
        | Inr (Inl (h, m, ss)) \<Rightarrow> 2 * size_list (size_slot size) ss + 1
        | Inr (Inr (h, m, ms)) \<Rightarrow> 2 * size_list (size_prod (\<lambda>_. 0) (size_slot size)) ms + 1)")
     (auto simp: members_size dest!: read_slot_size [where f = size])

section \<open>The bounded encoder\<close>

datatype jcs_error = Invalid_jcs_input | Byte_limit_exceeded

record jcs_out =
  o_bytes :: nat
  o_chunks :: "jsstr list"

fun charge_points :: "nat \<Rightarrow> jsstr list \<Rightarrow> nat \<Rightarrow> jcs_error + nat" where
  "charge_points maxBytes [] n = Inr n"
| "charge_points maxBytes (p # ps) n =
     (let n' = n + point_bytes p in
      if n' > maxBytes then Inl Byte_limit_exceeded else charge_points maxBytes ps n')"

definition charge :: "nat \<Rightarrow> jsstr \<Rightarrow> nat \<Rightarrow> jcs_error + nat" where
  "charge maxBytes text n = charge_points maxBytes (points text) n"

definition ebind :: "'e + 'a \<Rightarrow> ('a \<Rightarrow> 'e + 'b) \<Rightarrow> 'e + 'b" where
  "ebind x f = (case x of Inl e \<Rightarrow> Inl e | Inr a \<Rightarrow> f a)"

definition append_text :: "nat \<Rightarrow> jsstr \<Rightarrow> jcs_out \<Rightarrow> jcs_error + jcs_out" where
  "append_text maxBytes text out =
     ebind (charge maxBytes text (o_bytes out)) (\<lambda>n.
       Inr \<lparr>o_bytes = n, o_chunks = o_chunks out @ [text]\<rparr>)"

definition bounded_item :: "nat \<Rightarrow> jsstr \<Rightarrow> jsstr \<times> jcs_out \<Rightarrow> jcs_error + jsstr \<times> jcs_out" where
  "bounded_item maxBytes p st =
     (case st of (chunk, out) \<Rightarrow>
      let esc = butlast (tl (json_quote p)) in
      ebind (charge maxBytes esc (o_bytes out)) (\<lambda>n.
        let chunk' = chunk @ esc in
        if length chunk' \<ge> 256 then Inr ([], \<lparr>o_bytes = n, o_chunks = o_chunks out @ [chunk']\<rparr>)
        else Inr (chunk', out\<lparr>o_bytes := n\<rparr>)))"

fun bounded_units :: "nat \<Rightarrow> jsstr \<Rightarrow> jsstr \<times> jcs_out \<Rightarrow> jcs_error + jsstr \<times> jcs_out" where
  "bounded_units maxBytes [] st = Inr st"
| "bounded_units maxBytes [u] st =
     (if is_high u \<or> is_low u then Inl Invalid_jcs_input else bounded_item maxBytes [u] st)"
| "bounded_units maxBytes (u # v # us) st =
     (if is_high u then
        (if is_low v then ebind (bounded_item maxBytes [u, v] st) (bounded_units maxBytes us)
         else Inl Invalid_jcs_input)
      else if is_low u then Inl Invalid_jcs_input
      else ebind (bounded_item maxBytes [u] st) (bounded_units maxBytes (v # us)))"

definition bounded_string :: "nat \<Rightarrow> jsstr \<Rightarrow> jcs_out \<Rightarrow> jcs_error + jcs_out" where
  "bounded_string maxBytes s out =
     ebind (append_text maxBytes (units [CHR 34]) out) (\<lambda>out.
     ebind (bounded_units maxBytes s ([], out)) (\<lambda>(chunk, out).
     append_text maxBytes (units [CHR 34])
       (if chunk = [] then out else out\<lparr>o_chunks := o_chunks out @ [chunk]\<rparr>)))"

definition put_separator :: "nat \<Rightarrow> bool \<Rightarrow> jcs_out \<Rightarrow> jcs_error + jcs_out" where
  "put_separator maxBytes later out = (if later then append_text maxBytes (units '','') out else Inr out)"

function bounded_encode :: "js_host \<Rightarrow> nat \<Rightarrow> jsv \<Rightarrow> jcs_out \<Rightarrow> jcs_error + jcs_out"
  and bounded_items :: "js_host \<Rightarrow> nat \<Rightarrow> bool \<Rightarrow> jsv slot list \<Rightarrow> jcs_out \<Rightarrow> jcs_error + jcs_out"
  and bounded_members ::
    "js_host \<Rightarrow> nat \<Rightarrow> bool \<Rightarrow> (jsstr \<times> jsv slot) list \<Rightarrow> jcs_out \<Rightarrow> jcs_error + jcs_out" where
  "bounded_encode h mx item out =
     (case item of
        VNull \<Rightarrow> append_text mx (units ''null'') out
      | VStr s \<Rightarrow> bounded_string mx s out
      | VBool b \<Rightarrow> append_text mx (units (if b then ''true'' else ''false'')) out
      | VNum (Fin q) \<Rightarrow> append_text mx (number_text h q) out
      | VArr plain items extra \<Rightarrow>
          if \<not> plain then Inl Invalid_jcs_input
          else ebind (append_text mx (units ''['') out) (\<lambda>out.
               ebind (bounded_items h mx False items out) (\<lambda>out.
               if own_keys items extra \<noteq> length items + 1 then Inl Invalid_jcs_input
               else append_text mx (units '']'') out))
      | VObj plain ms symbols \<Rightarrow>
          if \<not> plain \<or> symbols then Inl Invalid_jcs_input
          else ebind (append_text mx (units ''{'') out) (\<lambda>out.
               ebind (bounded_members h mx False (sort_key fst ms) out) (append_text mx (units ''}'')))
      | _ \<Rightarrow> Inl Invalid_jcs_input)"
| "bounded_items h mx later [] out = Inr out"
| "bounded_items h mx later (s # ss) out =
     ebind (put_separator mx later out) (\<lambda>out.
     (case read_slot s of None \<Rightarrow> Inl Invalid_jcs_input | Some v \<Rightarrow>
      ebind (bounded_encode h mx v out) (bounded_items h mx True ss)))"
| "bounded_members h mx later [] out = Inr out"
| "bounded_members h mx later ((k, s) # ms) out =
     ebind (put_separator mx later out) (\<lambda>out.
     ebind (bounded_string mx k out) (\<lambda>out.
     ebind (append_text mx (units '':'') out) (\<lambda>out.
     (case read_slot s of None \<Rightarrow> Inl Invalid_jcs_input | Some v \<Rightarrow>
      ebind (bounded_encode h mx v out) (bounded_members h mx True ms)))))"
  by pat_completeness auto
termination
  by (relation "measure (\<lambda>x. case x of Inl (h, n, v, w) \<Rightarrow> 2 * size v
        | Inr (Inl (h, n, m, ss, w)) \<Rightarrow> 2 * size_list (size_slot size) ss + 1
        | Inr (Inr (h, n, m, ms, w)) \<Rightarrow> 2 * size_list (size_prod (\<lambda>_. 0) (size_slot size)) ms + 1)")
     (auto simp: members_size dest!: read_slot_size [where f = size])

declare jcs_encode.simps [simp del] jcsChunks.simps [simp del] bounded_encode.simps [simp del]

definition jcs :: "js_host \<Rightarrow> jsv \<Rightarrow> jsnum option \<Rightarrow> jcs_error + jsstr" where
  "jcs h value maxBytes =
     (case maxBytes of
        None \<Rightarrow> (case jcs_encode h value of Some cs \<Rightarrow> Inr (concat cs) | None \<Rightarrow> Inl Invalid_jcs_input)
      | Some n \<Rightarrow>
          if \<not> is_safe_integer n \<or> js_lt n (num_of_int 0) then Inl Invalid_jcs_input
          else ebind (bounded_encode h (nat (int_of_num n)) value \<lparr>o_bytes = 0, o_chunks = []\<rparr>)
                 (\<lambda>out. Inr (concat (o_chunks out))))"

section \<open>\<^verbatim>\<open>canonicalJson\<close>\<close>

text \<open>
  The serializer of \<^verbatim>\<open>core-common\<close> refuses nothing but a bigint: lone surrogates are escaped,
  a number that is not finite is \<^verbatim>\<open>null\<close>, undefined members are dropped, accessors are read and
  the holes of an array print as nothing.
\<close>

definition slot_value :: "'a slot \<Rightarrow> 'a option" where
  "slot_value s = (case s of Hole \<Rightarrow> None | Data _ v \<Rightarrow> Some v | Getter _ v \<Rightarrow> Some v)"

definition enumerable :: "'a slot \<Rightarrow> bool" where
  "enumerable s = (case s of Hole \<Rightarrow> False | Data e _ \<Rightarrow> e | Getter e _ \<Rightarrow> e)"

lemma slot_value_size [termination_simp]: "slot_value s = Some v \<Longrightarrow> f v < size_slot f s"
  by (cases s) (auto simp: slot_value_def)

fun join16 :: "jsstr list \<Rightarrow> jsstr" where
  "join16 [] = []"
| "join16 [t] = t"
| "join16 (t # ts) = t @ units '','' @ join16 ts"

definition kept_member :: "jsstr \<times> jsv slot \<Rightarrow> bool" where
  "kept_member m = (enumerable (snd m) \<and> slot_value (snd m) \<noteq> Some VUndefined)"

lemma size_list_filter: "size_list f (filter P xs) \<le> size_list f xs"
  by (induction xs) auto

function canonicalJson :: "js_host \<Rightarrow> jsv \<Rightarrow> jsstr option"
  and canonical_items :: "js_host \<Rightarrow> jsv slot list \<Rightarrow> jsstr list option"
  and canonical_members :: "js_host \<Rightarrow> (jsstr \<times> jsv slot) list \<Rightarrow> jsstr list option" where
  "canonicalJson h value =
     (case value of
        VUndefined \<Rightarrow> Some (units ''null'')
      | VFunction \<Rightarrow> Some (units ''null'')
      | VBigint \<Rightarrow> None
      | VNull \<Rightarrow> Some (units ''null'')
      | VBool b \<Rightarrow> Some (units (if b then ''true'' else ''false''))
      | VNum (Fin q) \<Rightarrow> Some (number_text h q)
      | VNum _ \<Rightarrow> Some (units ''null'')
      | VStr s \<Rightarrow> Some (json_quote s)
      | VArr plain items extra \<Rightarrow>
          map_option (\<lambda>ts. units ''['' @ join16 ts @ units '']'') (canonical_items h items)
      | VObj plain ms symbols \<Rightarrow>
          map_option (\<lambda>ts. units ''{'' @ join16 ts @ units ''}'')
            (canonical_members h (sort_key fst (filter kept_member ms))))"
| "canonical_items h [] = Some []"
| "canonical_items h (s # ss) =
     (case slot_value s of
        None \<Rightarrow> map_option ((#) []) (canonical_items h ss)
      | Some v \<Rightarrow>
         (case canonicalJson h (if v = VUndefined then VNull else v) of None \<Rightarrow> None | Some t \<Rightarrow>
          map_option ((#) t) (canonical_items h ss)))"
| "canonical_members h [] = Some []"
| "canonical_members h ((k, s) # ms) =
     (case slot_value s of
        None \<Rightarrow> canonical_members h ms
      | Some v \<Rightarrow>
         (case canonicalJson h v of None \<Rightarrow> None | Some t \<Rightarrow>
          map_option ((#) (json_quote k @ units '':'' @ t)) (canonical_members h ms)))"
  by pat_completeness auto
termination
proof (relation "measure (\<lambda>x. case x of Inl (h, v) \<Rightarrow> 2 * size v
        | Inr (Inl (h, ss)) \<Rightarrow> 2 * size_list (size_slot size) ss + 1
        | Inr (Inr (h, ms)) \<Rightarrow> 2 * size_list (size_prod (\<lambda>_. 0) (size_slot size)) ms + 1)", goal_cases)
  case (3 h v plain ms symbols)
  have "size_list (size_prod (\<lambda>_. 0) (size_slot size)) (filter kept_member ms)
      \<le> size_list (size_prod (\<lambda>_. 0) (size_slot size)) ms" by (rule size_list_filter)
  with 3 show ?case by (simp add: members_size)
qed (auto dest!: slot_value_size [where f = size])

declare canonicalJson.simps [simp del]

end
