(* ===== verification/Sha256.thy ===== *)
theory Sha256 imports Jcs begin

unbundle bit_operations_syntax

text \<open>
  \<^verbatim>\<open>packages/core-common/src/request/sha256-portable.ts\<close>: the hash the program uses where
  \<^verbatim>\<open>node:crypto\<close> is not available, and the reference its own tests hold the other path to.
  32-bit quantities are words, a message is a list of bytes. A digest is \<open>None\<close> for a message so
  long that the shift of the padded length overflows, where the source throws a RangeError.
\<close>

section \<open>Bytes\<close>

text \<open>\<^verbatim>\<open>TextEncoder\<close>: UTF-8, with U+FFFD for a lone surrogate.\<close>

definition utf8_point :: "jsstr \<Rightarrow> 8 word list" where
  "utf8_point p =
     (let c = (if paired p then code_point p else 0xfffd) in
      if c < 0x80 then [word_of_int c]
      else if c < 0x800 then [word_of_int (0xc0 + c div 64), word_of_int (0x80 + c mod 64)]
      else if c < 0x10000 then
        [word_of_int (0xe0 + c div 4096), word_of_int (0x80 + c div 64 mod 64), word_of_int (0x80 + c mod 64)]
      else [word_of_int (0xf0 + c div 262144), word_of_int (0x80 + c div 4096 mod 64),
            word_of_int (0x80 + c div 64 mod 64), word_of_int (0x80 + c mod 64)])"

definition utf8 :: "jsstr \<Rightarrow> 8 word list" where
  "utf8 s = concat (map utf8_point (points s))"

definition set_uint32 :: "8 word list \<Rightarrow> nat \<Rightarrow> 32 word \<Rightarrow> 8 word list" where
  "set_uint32 a i x =
     a[i := ucast (drop_bit 24 x), i + 1 := ucast (drop_bit 16 x), i + 2 := ucast (drop_bit 8 x), i + 3 := ucast x]"

definition get_uint32 :: "8 word list \<Rightarrow> nat \<Rightarrow> 32 word" where
  "get_uint32 a i =
     push_bit 24 (ucast (a ! i)) OR push_bit 16 (ucast (a ! (i + 1)))
     OR push_bit 8 (ucast (a ! (i + 2))) OR ucast (a ! (i + 3))"

section \<open>Padding\<close>

definition padded_length :: "nat \<Rightarrow> int" where
  "padded_length l = sint (push_bit 6 (signed_drop_bit 6 (word_of_nat (l + 9 + 63) :: 32 word)))"

definition padded :: "8 word list \<Rightarrow> 8 word list option" where
  "padded msg =
     (let l = length msg; n = padded_length l in
      if n < int l then None
      else let p = nat n; a = (msg @ replicate (p - l) 0)[l := 0x80];
               a = set_uint32 a (p - 4) (word_of_nat (l * 8)) in
        Some (set_uint32 a (p - 8) (word_of_nat (l * 8 div 0x100000000))))"

section \<open>The compression function\<close>

text \<open>The round constants, one list per line of the source.\<close>

definition K256 :: "32 word list" where
  "K256 = concat [
     [0x428a2f98, 0x71374491, 0xb5c0fbcf, 0xe9b5dba5, 0x3956c25b, 0x59f111f1, 0x923f82a4, 0xab1c5ed5, 0xd807aa98],
     [0x12835b01, 0x243185be, 0x550c7dc3, 0x72be5d74, 0x80deb1fe, 0x9bdc06a7, 0xc19bf174, 0xe49b69c1, 0xefbe4786],
     [0x0fc19dc6, 0x240ca1cc, 0x2de92c6f, 0x4a7484aa, 0x5cb0a9dc, 0x76f988da, 0x983e5152, 0xa831c66d, 0xb00327c8],
     [0xbf597fc7, 0xc6e00bf3, 0xd5a79147, 0x06ca6351, 0x14292967, 0x27b70a85, 0x2e1b2138, 0x4d2c6dfc, 0x53380d13],
     [0x650a7354, 0x766a0abb, 0x81c2c92e, 0x92722c85, 0xa2bfe8a1, 0xa81a664b, 0xc24b8b70, 0xc76c51a3, 0xd192e819],
     [0xd6990624, 0xf40e3585, 0x106aa070, 0x19a4c116, 0x1e376c08, 0x2748774c, 0x34b0bcb5, 0x391c0cb3, 0x4ed8aa4a],
     [0x5b9cca4f, 0x682e6ff3, 0x748f82ee, 0x78a5636f, 0x84c87814, 0x8cc70208, 0x90befffa, 0xa4506ceb, 0xbef9a3f7],
     [0xc67178f2]]"

definition initial_h :: "32 word list" where
  "initial_h = [0x6a09e667, 0xbb67ae85, 0x3c6ef372, 0xa54ff53a, 0x510e527f, 0x9b05688c, 0x1f83d9ab, 0x5be0cd19]"

definition rotr :: "32 word \<Rightarrow> nat \<Rightarrow> 32 word" where
  "rotr x n = drop_bit n x OR push_bit (32 - n) x"

definition schedule_word :: "32 word list \<Rightarrow> nat \<Rightarrow> 32 word" where
  "schedule_word w i =
     (let s0 = rotr (w ! (i - 15)) 7 XOR rotr (w ! (i - 15)) 18 XOR drop_bit 3 (w ! (i - 15));
          s1 = rotr (w ! (i - 2)) 17 XOR rotr (w ! (i - 2)) 19 XOR drop_bit 10 (w ! (i - 2)) in
      w ! (i - 16) + s0 + w ! (i - 7) + s1)"

definition schedule :: "8 word list \<Rightarrow> nat \<Rightarrow> 32 word list" where
  "schedule a off =
     foldl (\<lambda>w i. w @ [schedule_word w i]) (map (\<lambda>i. get_uint32 a (off + i * 4)) [0..<16]) [16..<64]"

record sha_vars =
  v_a :: "32 word"
  v_b :: "32 word"
  v_c :: "32 word"
  v_d :: "32 word"
  v_e :: "32 word"
  v_f :: "32 word"
  v_g :: "32 word"
  v_h :: "32 word"

definition sha_round :: "32 word list \<Rightarrow> sha_vars \<Rightarrow> nat \<Rightarrow> sha_vars" where
  "sha_round w v i =
     (let S1 = rotr (v_e v) 6 XOR rotr (v_e v) 11 XOR rotr (v_e v) 25;
          ch = (v_e v AND v_f v) XOR (NOT (v_e v) AND v_g v);
          t1 = v_h v + S1 + ch + K256 ! i + w ! i;
          S0 = rotr (v_a v) 2 XOR rotr (v_a v) 13 XOR rotr (v_a v) 22;
          maj = (v_a v AND v_b v) XOR (v_a v AND v_c v) XOR (v_b v AND v_c v);
          t2 = S0 + maj in
      \<lparr>v_a = t1 + t2, v_b = v_a v, v_c = v_b v, v_d = v_c v,
       v_e = v_d v + t1, v_f = v_e v, v_g = v_f v, v_h = v_g v\<rparr>)"

definition sha_block :: "8 word list \<Rightarrow> 32 word list \<Rightarrow> nat \<Rightarrow> 32 word list" where
  "sha_block a h off =
     (let v = foldl (sha_round (schedule a off))
            \<lparr>v_a = h ! 0, v_b = h ! 1, v_c = h ! 2, v_d = h ! 3, v_e = h ! 4, v_f = h ! 5, v_g = h ! 6, v_h = h ! 7\<rparr>
            [0..<64] in
      [h ! 0 + v_a v, h ! 1 + v_b v, h ! 2 + v_c v, h ! 3 + v_d v,
       h ! 4 + v_e v, h ! 5 + v_f v, h ! 6 + v_g v, h ! 7 + v_h v])"

section \<open>The digest\<close>

fun nat_hex :: "nat \<Rightarrow> string" where
  "nat_hex n = (if n < 16 then [''0123456789abcdef'' ! n] else nat_hex (n div 16) @ [''0123456789abcdef'' ! (n mod 16)])"

declare nat_hex.simps [simp del]

definition padStart :: "nat \<Rightarrow> char \<Rightarrow> string \<Rightarrow> string" where
  "padStart n c s = replicate (n - length s) c @ s"

definition sha256_bytes :: "8 word list \<Rightarrow> string option" where
  "sha256_bytes msg =
     map_option (\<lambda>a.
       let h = foldl (sha_block a) initial_h (map (\<lambda>i. i * 64) [0..<length a div 64]) in
       concat (map (\<lambda>x. padStart 8 CHR ''0'' (nat_hex (unat x))) h))
     (padded msg)"

definition sha256Hex :: "jsstr \<Rightarrow> string option" where
  "sha256Hex input = sha256_bytes (utf8 input)"

section \<open>The stream\<close>

record sha_stream =
  sha_chunks :: "8 word list list"
  sha_total :: nat

definition createSha256 :: sha_stream where
  "createSha256 = \<lparr>sha_chunks = [], sha_total = 0\<rparr>"

definition sha_update :: "sha_stream \<Rightarrow> jsstr \<Rightarrow> sha_stream" where
  "sha_update s chunk =
     (let part = utf8 chunk in s\<lparr>sha_chunks := sha_chunks s @ [part], sha_total := sha_total s + length part\<rparr>)"

fun place_parts :: "8 word list \<Rightarrow> nat \<Rightarrow> 8 word list list \<Rightarrow> 8 word list" where
  "place_parts all i [] = all"
| "place_parts all i (part # parts) =
     place_parts (take i all @ part @ drop (i + length part) all) (i + length part) parts"

definition digestHex :: "sha_stream \<Rightarrow> string option" where
  "digestHex s = sha256_bytes (place_parts (replicate (sha_total s) 0) 0 (sha_chunks s))"

end
