(* ===== verification/JcsFacts.thy ===== *)
theory JcsFacts imports Jcs begin

text \<open>
  The encoders of \<open>Jcs\<close> compared: what a well-formed string is, that text glued from well-formed
  pieces splits into the items of the pieces, and that the incremental and the bounded encoder
  produce the text of the synchronous one.
\<close>

section \<open>Items\<close>

lemma high_not_low [simp]: "is_high u \<Longrightarrow> \<not> is_low u"
  by (simp add: is_high_def is_low_def word_le_nat_alt)

lemma low_not_high: "is_low u \<Longrightarrow> \<not> is_high u"
  using high_not_low by blast

lemma concat_points [simp]: "concat (points s) = s"
  by (induction s rule: points.induct) auto

lemma isWellFormed_simps [simp]:
  "isWellFormed []"
  "isWellFormed [u] \<longleftrightarrow> \<not> is_high u \<and> \<not> is_low u"
  "isWellFormed (u # v # us) \<longleftrightarrow>
     (if is_high u then is_low v \<and> isWellFormed us else \<not> is_low u \<and> isWellFormed (v # us))"
  by (auto simp: isWellFormed_def paired_def)

lemma surrogates_ok_isWellFormed: "surrogates_ok s = isWellFormed s"
  by (induction s rule: surrogates_ok.induct) auto

lemma jcs_string_text: "jcs_string h s = (if isWellFormed s then Some (json_quote s) else None)"
  by (simp add: jcs_string_def surrogates_ok_isWellFormed)

lemma points_append: "isWellFormed a \<Longrightarrow> points (a @ b) = points a @ points b"
proof (induction a rule: points.induct)
  case (2 u)
  then show ?case by (cases b) auto
qed (auto split: if_splits)

lemma isWellFormed_append: "isWellFormed a \<Longrightarrow> isWellFormed (a @ b) = isWellFormed b"
  by (simp add: isWellFormed_def points_append)

lemma isWellFormed_concat: "list_all isWellFormed ts \<Longrightarrow> isWellFormed (concat ts)"
  by (induction ts) (auto simp: isWellFormed_append)

lemma points_concat: "list_all isWellFormed ts \<Longrightarrow> points (concat ts) = concat (map points ts)"
  by (induction ts) (auto simp: points_append)

definition plain_units :: "jsstr \<Rightarrow> bool" where
  "plain_units s = list_all (\<lambda>u. u < 0xd800) s"

lemma plain_unit: "u < 0xd800 \<Longrightarrow> \<not> is_high u \<and> \<not> is_low u"
  by (simp add: is_high_def is_low_def word_le_nat_alt word_less_nat_alt)

lemma plain_units_points: "plain_units s \<Longrightarrow> points s = map (\<lambda>u. [u]) s \<and> isWellFormed s"
  by (induction s rule: points.induct) (auto simp: plain_units_def dest: plain_unit)

lemma plain_units_wf: "plain_units s \<Longrightarrow> isWellFormed s"
  using plain_units_points by blast

lemma units_unit: "(of_char c :: 16 word) < 0xd800"
proof -
  have eq: "(of_char c :: 16 word) = word_of_nat (of_char c)" by (rule of_nat_of_char [symmetric])
  have "(of_char c :: nat) < 256" by (rule nat_of_char_less_256)
  then have "(of_char c :: nat) < 65536" "(of_char c :: nat) < 0xd800" by linarith+
  then have "(of_char c :: nat) mod 65536 < 0xd800" by (subst mod_less)
  then show ?thesis unfolding eq by (simp add: word_less_nat_alt unat_of_nat del: of_nat_of_char)
qed

lemma units_plain [simp]: "plain_units (units s)"
  by (induction s) (auto simp: plain_units_def units_def units_unit)

lemma units_wf [simp]: "isWellFormed (units s)"
  by (rule plain_units_wf) simp

lemma units_append [simp]: "units (a @ b) = units a @ units b"
  by (simp add: units_def)

section \<open>Escapes\<close>

lemma hex4_plain: "plain_units (hex4 u)"
proof -
  have "hex_unit (take_bit 4 x) < 0xd800" for x :: "16 word"
  proof -
    have b: "unat (take_bit 4 x) < 16"
      by (simp add: take_bit_eq_mod unat_mod)
    then have "unat (87 + take_bit 4 x) < 0xd800" "unat (48 + take_bit 4 x) < 0xd800"
      by (simp_all add: unat_word_ariths)
    then show ?thesis by (simp add: hex_unit_def word_less_nat_alt)
  qed
  then show ?thesis by (simp add: hex4_def plain_units_def)
qed

lemma escape_unit_wf:
  assumes "\<not> is_high u" "\<not> is_low u"
  shows "isWellFormed (escape_unit u)"
proof -
  have "\<not> is_high 0x5c" "\<not> is_low 0x5c" by (simp_all add: is_high_def is_low_def)
  then show ?thesis
    using assms by (simp add: escape_unit_def isWellFormed_append plain_units_wf [OF hex4_plain])
qed

lemma escape_point_wf: "paired p \<Longrightarrow> p \<in> set (points s) \<Longrightarrow> isWellFormed (escape_point p)"
proof (induction s rule: points.induct)
  case (2 u)
  then show ?case
    using escape_unit_wf [of u] by (auto simp: escape_point_def paired_def)
next
  case (3 u v us)
  have "isWellFormed (escape_point [u])" if "paired [u]"
    using that escape_unit_wf [of u] by (simp add: escape_point_def paired_def)
  with 3 show ?case by (auto simp: escape_point_def split: if_splits)
qed auto

lemma escaped_wf: "isWellFormed s \<Longrightarrow> isWellFormed (escaped s)"
  unfolding escaped_def
  by (rule isWellFormed_concat) (auto simp: list_all_iff isWellFormed_def [of s] intro: escape_point_wf)

lemma json_quote_wf: "isWellFormed s \<Longrightarrow> isWellFormed (json_quote s)"
  by (simp add: json_quote_def isWellFormed_append escaped_wf)

lemma escaped_append: "isWellFormed a \<Longrightarrow> escaped (a @ b) = escaped a @ escaped b"
  by (simp add: escaped_def points_append)

lemma escaped_concat: "list_all isWellFormed ts \<Longrightarrow> escaped (concat ts) = concat (map escaped ts)"
  by (induction ts) (auto simp: escaped_append, simp add: escaped_def)

lemma json_quote_inner [simp]: "butlast (tl (json_quote s)) = escaped s"
  by (simp add: json_quote_def units_def butlast_append)

section \<open>Cutting a text\<close>

lemma wf_cut:
  assumes "isWellFormed s" "n \<le> length s" "n = 0 \<or> n = length s \<or> \<not> is_high (s ! (n - 1))"
  shows "isWellFormed (take n s) \<and> isWellFormed (drop n s)"
  using assms
proof (induction s arbitrary: n rule: points.induct)
  case (3 u v us)
  show ?case
  proof (cases "is_high u")
    case True
    then have n: "n \<noteq> 1" using "3.prems" by auto
    show ?thesis
    proof (cases "n = 0")
      case False
      with n obtain k where k: "n = Suc (Suc k)" by (cases n; cases "n - 1") auto
      show ?thesis using "3.IH"(1) [of k] "3.prems" True
        by (cases k) (auto simp: k dest: low_not_high)
    qed (use "3.prems" in simp)
  next
    case False
    show ?thesis
    proof (cases n)
      case (Suc k)
      have "isWellFormed (take k (v # us)) \<and> isWellFormed (drop k (v # us))"
        using "3.IH"(2) [of k] "3.prems" False by (cases k) (auto simp: Suc)
      moreover have "\<not> is_low u" using "3.prems"(1) False by simp
      ultimately show ?thesis using False by (cases k) (auto simp: Suc)
    qed (use "3.prems" in simp)
  qed
qed (auto simp: le_Suc_eq)

lemma no_double_high:
  assumes "isWellFormed s" "Suc n < length s" "is_high (s ! Suc n)"
  shows "\<not> is_high (s ! n)"
  using assms
proof (induction s arbitrary: n rule: points.induct)
  case (3 u v us)
  show ?case
  proof (cases n)
    case 0
    with 3 show ?thesis by (auto simp: split: if_splits dest: low_not_high)
  next
    case (Suc k)
    show ?thesis
    proof (cases "is_high u")
      case True
      show ?thesis
      proof (cases k)
        case 0
        with 3 True show ?thesis by (auto simp: Suc dest: low_not_high)
      next
        case (Suc j)
        with \<open>n = Suc k\<close> 3 True show ?thesis by auto
      qed
    next
      case False
      with 3 show ?thesis by (auto simp: Suc)
    qed
  qed
qed auto

lemma slice_length_bounds:
  assumes "s \<noteq> []" "2 \<le> cap"
  shows "0 < slice_length cap s" "slice_length cap s \<le> length s"
  using assms by (auto simp: slice_length_def Let_def)

lemma slice_wf:
  assumes "isWellFormed s" "2 \<le> cap"
  shows "isWellFormed (take (slice_length cap s) s) \<and> isWellFormed (drop (slice_length cap s) s)"
proof (rule wf_cut [OF assms(1)])
  show "slice_length cap s \<le> length s" by (auto simp: slice_length_def Let_def)
  let ?n = "min cap (length s)"
  show "slice_length cap s = 0 \<or> slice_length cap s = length s \<or> \<not> is_high (s ! (slice_length cap s - 1))"
  proof (cases "?n < length s \<and> is_high (s ! (?n - 1))")
    case True
    then have n: "slice_length cap s = cap - 1" "cap < length s" "is_high (s ! (cap - 1))"
      by (auto simp: slice_length_def Let_def min_def split: if_splits)
    have "\<not> is_high (s ! (cap - 2))"
      using no_double_high [OF assms(1), of "cap - 2"] n assms(2) by (simp add: numeral_2_eq_2 Suc_diff_Suc)
    then show ?thesis by (simp add: n numeral_2_eq_2)
  next
    case False
    then show ?thesis by (auto simp: slice_length_def Let_def min_def split: if_splits)
  qed
qed

lemma concat_slices: "2 \<le> cap \<Longrightarrow> concat (slices cap s) = s"
proof (induction cap s rule: slices.induct)
  case (1 cap s)
  then show ?case by (subst slices.simps) auto
qed

lemma slices_wf: "2 \<le> cap \<Longrightarrow> list_all isWellFormed (slices cap s) = isWellFormed s"
proof
  assume c: "2 \<le> cap" and "list_all isWellFormed (slices cap s)"
  from isWellFormed_concat [OF this(2)] show "isWellFormed s" by (simp add: concat_slices [OF c])
next
  show "2 \<le> cap \<Longrightarrow> isWellFormed s \<Longrightarrow> list_all isWellFormed (slices cap s)"
  proof (induction cap s rule: slices.induct)
    case (1 cap s)
    then show ?case using slice_wf [of s cap] by (subst slices.simps) auto
  qed
qed

lemma those_map: "those (map (\<lambda>x. if P x then Some (f x) else None) xs)
    = (if list_all P xs then Some (map f xs) else None)"
  by (induction xs) auto

lemma chunk_string_text: "map_option concat (chunk_string h s) = jcs_string h s"
proof -
  have c: "2 \<le> CHUNK_UNITS" by (simp add: CHUNK_UNITS_def)
  have e: "concat (map escaped (slices CHUNK_UNITS s)) = escaped s" if "isWellFormed s"
    using escaped_concat [of "slices CHUNK_UNITS s"] that
    by (simp add: slices_wf [OF c] concat_slices [OF c])
  show ?thesis
    by (simp add: chunk_string_def jcs_string_text [abs_def] those_map slices_wf [OF c] comp_def e
        json_quote_def [of s])
qed

section \<open>One text\<close>

definition jcs_text :: "js_host \<Rightarrow> jsv \<Rightarrow> jsstr option" where
  "jcs_text h v = map_option concat (jcs_encode h v)"

definition items_text :: "js_host \<Rightarrow> bool \<Rightarrow> jsv slot list \<Rightarrow> jsstr option" where
  "items_text h later ss = map_option concat (jcs_items h later ss)"

definition members_text :: "js_host \<Rightarrow> bool \<Rightarrow> (jsstr \<times> jsv slot) list \<Rightarrow> jsstr option" where
  "members_text h later ms = map_option concat (jcs_members h later ms)"

definition comma :: "bool \<Rightarrow> jsstr" where
  "comma later = (if later then units '','' else [])"

lemma jcs_text_simps:
  "jcs_text h VUndefined = None" "jcs_text h VFunction = None" "jcs_text h VBigint = None"
  "jcs_text h VNull = Some (units ''null'')"
  "jcs_text h (VStr s) = jcs_string h s"
  "jcs_text h (VBool b) = Some (units (if b then ''true'' else ''false''))"
  "jcs_text h (VNum x) = (case x of Fin q \<Rightarrow> Some (number_text h q) | _ \<Rightarrow> None)"
  "jcs_text h (VArr plain items extra) =
     (if \<not> plain \<or> own_keys items extra \<noteq> length items + 1 then None
      else map_option (\<lambda>t. units ''['' @ t @ units '']'') (items_text h False items))"
  "jcs_text h (VObj plain ms symbols) =
     (if \<not> plain \<or> symbols then None
      else map_option (\<lambda>t. units ''{'' @ t @ units ''}'') (members_text h False (sort_key fst ms)))"
  by (auto simp: jcs_text_def items_text_def members_text_def jcs_encode.simps jcs_scalar_def
      option.map_comp comp_def map_option_case split: jsnum.splits option.splits)

lemma items_text_simps:
  "items_text h later [] = Some []"
  "items_text h later (s # ss) =
     (case read_slot s of None \<Rightarrow> None | Some v \<Rightarrow>
      (case jcs_text h v of None \<Rightarrow> None | Some t \<Rightarrow>
       map_option (\<lambda>r. comma later @ t @ r) (items_text h True ss)))"
  by (auto simp: items_text_def jcs_text_def comma_def option.map_comp comp_def split: option.splits)

lemma members_text_simps:
  "members_text h later [] = Some []"
  "members_text h later ((k, s) # ms) =
     (case jcs_string h k of None \<Rightarrow> None | Some q \<Rightarrow>
      (case read_slot s of None \<Rightarrow> None | Some v \<Rightarrow>
       (case jcs_text h v of None \<Rightarrow> None | Some t \<Rightarrow>
        map_option (\<lambda>r. comma later @ q @ units '':'' @ t @ r) (members_text h True ms))))"
  by (auto simp: members_text_def jcs_text_def comma_def option.map_comp comp_def split: option.splits)

lemma chunks_text:
  "map_option concat (jcsChunks h v) = jcs_text h v"
  "map_option concat (chunk_items h later ss) = items_text h later ss"
  "map_option concat (chunk_members h later ms) = members_text h later ms"
proof (induction h v and h later ss and h later ms rule: jcsChunks_chunk_items_chunk_members.induct)
  case (1 h item)
  show ?case
  proof (cases item)
    case (VArr plain items extra)
    have "map_option concat (chunk_items h False items) = items_text h False items"
      if "plain" "own_keys items extra = length items + 1"
      using "1.IH" VArr that by (auto simp: chunk_scalar_def)
    then show ?thesis
      by (auto simp: VArr jcs_text_simps jcsChunks.simps chunk_scalar_def option.map_comp comp_def map_option_case
          split: option.splits)
  next
    case (VObj plain ms symbols)
    have "map_option concat (chunk_members h False (sort_key fst ms)) = members_text h False (sort_key fst ms)"
      if "plain" "\<not> symbols"
      using "1.IH" VObj that by (auto simp: chunk_scalar_def)
    note this [symmetric, simp]
    show ?thesis
      by (cases "plain \<and> \<not> symbols")
         (auto simp: VObj jcs_text_simps jcsChunks.simps chunk_scalar_def option.map_comp comp_def)
  qed (auto simp: jcs_text_simps jcsChunks.simps chunk_scalar_def chunk_string_text split: jsnum.splits)
next
  case (3 h later s ss)
  show ?case
  proof (cases "read_slot s")
    case (Some v)
    note ih = "3.IH" [OF Some, symmetric]
    show ?thesis
      by (cases "jcsChunks h v")
         (auto simp: Some items_text_simps ih comma_def option.map_comp comp_def)
  qed (simp add: items_text_simps)
next
  case (5 h later k s ms)
  have k: "jcs_string h k = map_option concat (chunk_string h k)" by (simp add: chunk_string_text)
  show ?case
  proof (cases "chunk_string h k")
    case (Some qs)
    show ?thesis
    proof (cases "read_slot s")
      case (Some v)
      note ih = "5.IH" [OF \<open>chunk_string h k = Some qs\<close> Some, symmetric]
      show ?thesis
        by (cases "jcsChunks h v")
           (auto simp: Some \<open>chunk_string h k = Some qs\<close> k members_text_simps ih comma_def option.map_comp comp_def)
    qed (simp add: \<open>chunk_string h k = Some qs\<close> k members_text_simps)
  qed (simp add: k members_text_simps)
qed (auto simp: items_text_simps members_text_simps)

lemma json_text_wf:
  "jcs_text h v = Some t \<Longrightarrow> isWellFormed t"
  "items_text h later ss = Some t \<Longrightarrow> isWellFormed t"
  "members_text h later ms = Some t \<Longrightarrow> isWellFormed t"
proof (induction h v and h later ss and h later ms arbitrary: t and t and t
    rule: jcs_encode_jcs_items_jcs_members.induct)
  case (1 h item)
  show ?case
  proof (cases item)
    case (VArr plain items extra)
    then show ?thesis using "1.IH"(1) [OF _ VArr] "1.prems"
      by (auto simp: jcs_text_simps isWellFormed_append jcs_scalar_def split: if_splits)
  next
    case (VObj plain ms symbols)
    then show ?thesis using "1.IH"(2) [OF _ VObj] "1.prems"
      by (auto simp: jcs_text_simps isWellFormed_append jcs_scalar_def split: if_splits)
  qed (use "1.prems" in \<open>auto simp: jcs_text_simps jcs_string_text json_quote_wf number_text_def
      split: if_splits jsnum.splits\<close>)
next
  case (3 h later s ss)
  obtain v where v: "read_slot s = Some v" using "3.prems" by (auto simp: items_text_simps split: option.splits)
  obtain t1 where t1: "jcs_text h v = Some t1" using "3.prems" v by (auto simp: items_text_simps split: option.splits)
  then obtain cs where cs: "jcs_encode h v = Some cs" by (auto simp: jcs_text_def)
  from "3.prems" obtain r where r: "items_text h True ss = Some r" "t = comma later @ t1 @ r"
    by (auto simp: items_text_simps v t1)
  show ?case using "3.IH"(1) [OF v t1] "3.IH"(2) [OF v cs r(1)]
    by (simp add: r(2) comma_def isWellFormed_append)
next
  case (5 h later k s ms)
  obtain q where q: "jcs_string h k = Some q" using "5.prems" by (auto simp: members_text_simps split: option.splits)
  obtain v where v: "read_slot s = Some v" using "5.prems" q by (auto simp: members_text_simps split: option.splits)
  obtain t1 where t1: "jcs_text h v = Some t1" using "5.prems" q v by (auto simp: members_text_simps split: option.splits)
  then obtain cs where cs: "jcs_encode h v = Some cs" by (auto simp: jcs_text_def)
  from "5.prems" obtain r where r: "members_text h True ms = Some r" "t = comma later @ q @ units '':'' @ t1 @ r"
    by (auto simp: members_text_simps q v t1)
  have "isWellFormed q" using q by (auto simp: jcs_string_text json_quote_wf split: if_splits)
  then show ?case using "5.IH"(1) [OF q v t1] "5.IH"(2) [OF q v cs r(1)]
    by (simp add: r(2) comma_def isWellFormed_append)
qed (auto simp: items_text_simps members_text_simps)

section \<open>The byte budget\<close>

lemma utf8_length_append: "isWellFormed a \<Longrightarrow> utf8_length (a @ b) = utf8_length a + utf8_length b"
  by (simp add: utf8_length_def points_append)

lemma utf8_length_Nil [simp]: "utf8_length [] = 0"
  by (simp add: utf8_length_def)

lemma charge_points_total:
  "n \<le> mx \<Longrightarrow> charge_points mx ps n =
     (if n + sum_list (map point_bytes ps) \<le> mx then Inr (n + sum_list (map point_bytes ps))
      else Inl Byte_limit_exceeded)"
  by (induction ps arbitrary: n) (auto simp: Let_def)

lemma charge_total:
  "n \<le> mx \<Longrightarrow> charge mx t n =
     (if n + utf8_length t \<le> mx then Inr (n + utf8_length t) else Inl Byte_limit_exceeded)"
  by (simp add: charge_def charge_points_total utf8_length_def)

text \<open>An encoder started at \<open>out\<close> emits a text: it ends with it appended, or beyond the budget.\<close>

definition emits :: "nat \<Rightarrow> jcs_out \<Rightarrow> jcs_error + jcs_out \<Rightarrow> jsstr option \<Rightarrow> bool" where
  "emits mx out r text \<longleftrightarrow>
     (case text of
        None \<Rightarrow> isl r
      | Some t \<Rightarrow>
          if o_bytes out + utf8_length t \<le> mx
          then \<not> isl r \<and> o_bytes (projr r) = o_bytes out + utf8_length t
               \<and> concat (o_chunks (projr r)) = concat (o_chunks out) @ t
          else r = Inl Byte_limit_exceeded)"

lemma ebind_simps [simp]: "ebind (Inl e) f = Inl e" "ebind (Inr a) f = f a"
  by (simp_all add: ebind_def)

lemma emits_bind:
  assumes "emits mx out r (Some t)" "isWellFormed t" "o_bytes out \<le> mx"
    and "\<And>out'. o_bytes out' \<le> mx \<Longrightarrow> emits mx out' (f out') rest"
  shows "emits mx out (ebind r f) (map_option ((@) t) rest)"
proof (cases r)
  case (Inl e)
  then show ?thesis using assms
    by (auto simp: emits_def utf8_length_append split: option.splits if_splits)
next
  case (Inr o1)
  have o1: "o_bytes o1 = o_bytes out + utf8_length t" "concat (o_chunks o1) = concat (o_chunks out) @ t"
    "o_bytes o1 \<le> mx"
    using assms(1) Inr by (auto simp: emits_def split: if_splits)
  show ?thesis using assms(4) [OF o1(3)] o1 assms(2) Inr
    by (auto simp: emits_def utf8_length_append add.assoc split: option.splits if_splits)
qed

lemma emits_fail: "emits mx out r None \<Longrightarrow> emits mx out (ebind r f) None"
  by (cases r) (auto simp: emits_def)

lemma emits_append:
  "o_bytes out \<le> mx \<Longrightarrow> emits mx out (append_text mx t out) (Some t)"
  by (auto simp: emits_def append_text_def charge_total)

lemma emits_nothing: "o_bytes out \<le> mx \<Longrightarrow> emits mx out (Inr out) (Some [])"
  by (simp add: emits_def)

lemma emits_separator: "o_bytes out \<le> mx \<Longrightarrow> emits mx out (put_separator mx later out) (Some (comma later))"
  by (simp add: put_separator_def comma_def emits_append emits_nothing)

lemma comma_wf [simp]: "isWellFormed (comma later)"
  by (simp add: comma_def)

text \<open>The units of a string, with a chunk pending.\<close>

definition emits_units :: "nat \<Rightarrow> jsstr \<times> jcs_out \<Rightarrow> jcs_error + jsstr \<times> jcs_out \<Rightarrow> jsstr option \<Rightarrow> bool" where
  "emits_units mx st r text \<longleftrightarrow>
     (case text of
        None \<Rightarrow> isl r
      | Some t \<Rightarrow>
          if o_bytes (snd st) + utf8_length t \<le> mx
          then \<not> isl r \<and> o_bytes (snd (projr r)) = o_bytes (snd st) + utf8_length t
               \<and> concat (o_chunks (snd (projr r))) @ fst (projr r) = concat (o_chunks (snd st)) @ fst st @ t
          else r = Inl Byte_limit_exceeded)"

lemma emits_units_bind:
  assumes "emits_units mx st r (Some t)" "isWellFormed t" "o_bytes (snd st) \<le> mx"
    and "\<And>st'. o_bytes (snd st') \<le> mx \<Longrightarrow> emits_units mx st' (f st') rest"
  shows "emits_units mx st (ebind r f) (map_option ((@) t) rest)"
proof (cases r)
  case (Inl e)
  then show ?thesis using assms
    by (auto simp: emits_units_def utf8_length_append split: option.splits if_splits)
next
  case (Inr o1)
  have o1: "o_bytes (snd o1) = o_bytes (snd st) + utf8_length t"
    "concat (o_chunks (snd o1)) @ fst o1 = concat (o_chunks (snd st)) @ fst st @ t" "o_bytes (snd o1) \<le> mx"
    using assms(1) Inr by (auto simp: emits_units_def split: if_splits)
  show ?thesis using assms(4) [OF o1(3)] o1 assms(2) Inr
    by (auto simp: emits_units_def utf8_length_append add.assoc append_assoc [symmetric]
        simp del: append_assoc split: option.splits if_splits)
qed

lemma bounded_item_emits:
  "o_bytes (snd st) \<le> mx \<Longrightarrow> emits_units mx st (bounded_item mx p st) (Some (escaped p))"
  by (auto simp: emits_units_def bounded_item_def charge_total Let_def split: prod.splits)

lemma escaped_Nil [simp]: "escaped [] = []"
  by (simp add: escaped_def)

lemma bounded_units_emits:
  "o_bytes (snd st) \<le> mx \<Longrightarrow>
   emits_units mx st (bounded_units mx s st) (if isWellFormed s then Some (escaped s) else None)"
proof (induction mx s st rule: bounded_units.induct)
  case (1 mx st)
  then show ?case by (simp add: emits_units_def)
next
  case (2 mx u st)
  then show ?case using bounded_item_emits [of st mx "[u]"] by (auto simp: emits_units_def)
next
  case (3 mx u v us st)
  let ?rest = "\<lambda>s. if isWellFormed s then Some (escaped s) else None"
  show ?case
  proof (cases "is_high u")
    case True
    show ?thesis
    proof (cases "is_low v")
      case low: True
      have "emits_units mx st (ebind (bounded_item mx [u, v] st) (bounded_units mx us))
          (map_option ((@) (escaped [u, v])) (?rest us))"
        by (rule emits_units_bind [OF bounded_item_emits])
           (use "3.prems" "3.IH"(1) [OF True low] True low in \<open>auto intro: escaped_wf\<close>)
      moreover have "escaped (u # v # us) = escaped [u, v] @ escaped us"
        using escaped_append [of "[u, v]" us] True low by simp
      ultimately show ?thesis using True low by (auto split: if_splits)
    qed (use True in \<open>simp add: emits_units_def\<close>)
  next
    case False
    show ?thesis
    proof (cases "is_low u")
      case low: False
      have "emits_units mx st (ebind (bounded_item mx [u] st) (bounded_units mx (v # us)))
          (map_option ((@) (escaped [u])) (?rest (v # us)))"
        by (rule emits_units_bind [OF bounded_item_emits])
           (use "3.prems" "3.IH"(2) [OF False low] False low in \<open>auto intro: escaped_wf\<close>)
      moreover have "escaped (u # v # us) = escaped [u] @ escaped (v # us)"
        using escaped_append [of "[u]" "v # us"] False low by simp
      ultimately show ?thesis using False low by (auto split: if_splits)
    qed (use False in \<open>simp add: emits_units_def\<close>)
  qed
qed

lemma bounded_string_emits:
  assumes "o_bytes out \<le> mx"
  shows "emits mx out (bounded_string mx s out) (jcs_string h s)"
proof -
  have close: "emits mx out' (ebind (bounded_units mx s ([], out')) (\<lambda>(chunk, out).
        append_text mx (units [CHR 34]) (if chunk = [] then out else out\<lparr>o_chunks := o_chunks out @ [chunk]\<rparr>)))
      (if isWellFormed s then Some (escaped s @ units [CHR 34]) else None)"
    (is "emits mx out' ?r _") if o': "o_bytes out' \<le> mx" for out'
  proof -
    have e: "emits_units mx ([], out') (bounded_units mx s ([], out'))
        (if isWellFormed s then Some (escaped s) else None)"
      by (rule bounded_units_emits) (simp add: o')
    show ?thesis
    proof (cases "bounded_units mx s ([], out')")
      case (Inl x)
      with e show ?thesis
        by (auto simp: emits_def emits_units_def utf8_length_append escaped_wf split: if_splits)
    next
      case (Inr p)
      obtain chunk o2 where p: "p = (chunk, o2)" by force
      have s: "isWellFormed s" using e Inr by (auto simp: emits_units_def split: if_splits)
      let ?o = "if chunk = [] then o2 else o2\<lparr>o_chunks := o_chunks o2 @ [chunk]\<rparr>"
      have o: "o_bytes ?o = o_bytes out' + utf8_length (escaped s)" "o_bytes ?o \<le> mx"
        "concat (o_chunks ?o) = concat (o_chunks out') @ escaped s"
        using e Inr s by (auto simp: emits_units_def p split: if_splits)
      show ?thesis using emits_append [OF o(2), of "units [CHR 34]"] o s
        by (auto simp: Inr p emits_def utf8_length_append escaped_wf add.assoc split: if_splits)
    qed
  qed
  have "emits mx out (bounded_string mx s out)
      (map_option ((@) (units [CHR 34])) (if isWellFormed s then Some (escaped s @ units [CHR 34]) else None))"
    unfolding bounded_string_def by (rule emits_bind [OF emits_append]) (use assms close in auto)
  then show ?thesis by (auto simp: jcs_string_text json_quote_def split: if_splits)
qed

text \<open>Texts in sequence; a refused piece refuses the whole.\<close>

definition then_text :: "jsstr option \<Rightarrow> jsstr option \<Rightarrow> jsstr option" where
  "then_text a b = (case a of None \<Rightarrow> None | Some t \<Rightarrow> map_option ((@) t) b)"

lemma emits_seq:
  assumes "emits mx out r a" "\<And>t. a = Some t \<Longrightarrow> isWellFormed t" "o_bytes out \<le> mx"
    and "\<And>out'. o_bytes out' \<le> mx \<Longrightarrow> emits mx out' (f out') b"
  shows "emits mx out (ebind r f) (then_text a b)"
  using assms emits_fail [of mx out r f] emits_bind [of mx out r _ f b]
  by (cases a) (auto simp: then_text_def)

lemma emits_refused [simp]: "emits mx out (Inl e) None"
  by (simp add: emits_def)

lemma sequenced_text:
  "jcs_text h (VArr plain items extra) = (if \<not> plain then None else then_text (Some (units ''[''))
     (then_text (items_text h False items)
        (if own_keys items extra \<noteq> length items + 1 then None else Some (units '']''))))"
  "jcs_text h (VObj plain ms symbols) = (if \<not> plain \<or> symbols then None else then_text (Some (units ''{''))
     (then_text (members_text h False (sort_key fst ms)) (Some (units ''}''))))"
  "items_text h later (s # ss) = then_text (Some (comma later))
     (case read_slot s of None \<Rightarrow> None | Some v \<Rightarrow> then_text (jcs_text h v) (items_text h True ss))"
  "members_text h later ((k, s) # ms) = then_text (Some (comma later)) (then_text (jcs_string h k)
     (then_text (Some (units '':'')) (case read_slot s of None \<Rightarrow> None | Some v \<Rightarrow>
        then_text (jcs_text h v) (members_text h True ms))))"
  by (auto simp: jcs_text_simps items_text_simps members_text_simps then_text_def option.map_comp comp_def
      split: option.splits)

lemma jcs_string_wf: "jcs_string h s = Some t \<Longrightarrow> isWellFormed t"
  by (auto simp: jcs_string_text json_quote_wf split: if_splits)

lemma bounded_emits:
  "o_bytes out \<le> mx \<Longrightarrow> emits mx out (bounded_encode h mx v out) (jcs_text h v)"
  "o_bytes out \<le> mx \<Longrightarrow> emits mx out (bounded_items h mx later ss out) (items_text h later ss)"
  "o_bytes out \<le> mx \<Longrightarrow> emits mx out (bounded_members h mx later ms out) (members_text h later ms)"
proof (induction h mx v out and h mx later ss out and h mx later ms out
    rule: bounded_encode_bounded_items_bounded_members.induct)
  case (1 h mx item out)
  show ?case
  proof (cases item)
    case (VArr plain items extra)
    show ?thesis unfolding VArr sequenced_text
      by (subst bounded_encode.simps, cases plain)
         (auto simp del: append_Nil intro!: emits_seq emits_append "1.IH"(1) [OF VArr] "1.prems" dest: json_text_wf(2))
  next
    case (VObj plain ms symbols)
    show ?thesis unfolding VObj sequenced_text
      by (subst bounded_encode.simps, cases "plain \<and> \<not> symbols")
         (auto intro!: emits_seq emits_append "1.IH"(2) [OF VObj] "1.prems" dest: json_text_wf(3))
  qed (use "1.prems" in \<open>auto simp: jcs_text_simps bounded_encode.simps emits_append bounded_string_emits
      split: jsnum.splits\<close>)
next
  case (3 h mx later s ss out)
  have "emits mx o1 (case read_slot s of None \<Rightarrow> Inl Invalid_jcs_input | Some v \<Rightarrow>
        ebind (bounded_encode h mx v o1) (bounded_items h mx True ss))
      (case read_slot s of None \<Rightarrow> None | Some v \<Rightarrow> then_text (jcs_text h v) (items_text h True ss))"
    if "o_bytes o1 \<le> mx" for o1
    using "3.IH" that by (cases "read_slot s") (auto intro!: emits_seq dest: json_text_wf(1))
  then show ?case unfolding sequenced_text bounded_items.simps
    by (intro emits_seq emits_separator) (auto simp: "3.prems")
next
  case (5 h mx later k s ms out)
  have "emits mx o1 (case read_slot s of None \<Rightarrow> Inl Invalid_jcs_input | Some v \<Rightarrow>
        ebind (bounded_encode h mx v o1) (bounded_members h mx True ms))
      (case read_slot s of None \<Rightarrow> None | Some v \<Rightarrow> then_text (jcs_text h v) (members_text h True ms))"
    if "o_bytes o1 \<le> mx" for o1
    using "5.IH" that by (cases "read_slot s") (auto intro!: emits_seq dest: json_text_wf(1))
  then show ?case unfolding sequenced_text bounded_members.simps
    by (intro emits_seq emits_separator bounded_string_emits emits_append) (auto simp: "5.prems" dest: jcs_string_wf)
qed (auto simp: items_text_simps members_text_simps emits_nothing)

end
