(* ===== verification/Sha256Facts.thy ===== *)
theory Sha256Facts imports Sha256 JcsFacts begin

text \<open>
  The hash against the standard: its padding, its message schedule and rounds as the recurrences of
  FIPS 180-4, the shape of a digest, and the stream against hashing the whole text.
\<close>

section \<open>Padding\<close>

lemma padded_length_small:
  assumes "l + 72 < 2 ^ 31"
  shows "padded_length l = int (64 * ((l + 72) div 64))"
proof -
  let ?m = "l + 72" and ?w = "word_of_nat (l + 72) :: 32 word"
  have s: "sint (word_of_nat k :: 32 word) = int k" if "k < 2 ^ 31" for k
    using that by (simp add: signed_of_nat signed_take_bit_int_eq_self)
  have "sint (signed_drop_bit 6 ?w) = sint (word_of_nat (?m div 64) :: 32 word)"
    using assms by (simp add: sint_signed_drop_bit_eq s drop_bit_eq_div zdiv_int del: of_nat_add)
  then have d: "signed_drop_bit 6 ?w = word_of_nat (?m div 64)"
    by (rule signed_word_eqI)
  have "push_bit 6 (word_of_nat (?m div 64) :: 32 word) = word_of_nat (64 * (?m div 64))"
    unfolding of_nat_push_bit [symmetric] by (simp add: push_bit_eq_mult mult.commute)
  moreover have "64 * (?m div 64) < 2 ^ 31" using assms by (metis times_div_less_eq_dividend le_less_trans)
  moreover have "l + 9 + 63 = ?m" by simp
  ultimately show ?thesis unfolding padded_length_def by (simp only: d s)
qed

lemma padded_length_bounds:
  assumes "l + 72 < 2 ^ 31"
  shows "l + 9 \<le> nat (padded_length l)" "nat (padded_length l) < l + 73" "nat (padded_length l) mod 64 = 0"
proof -
  have p: "nat (padded_length l) = 64 * ((l + 72) div 64)" by (simp add: padded_length_small [OF assms])
  have "64 * ((l + 72) div 64) + (l + 72) mod 64 = l + 72" "(l + 72) mod 64 < 64" by simp_all
  then show "nat (padded_length l) < l + 73" "l + 9 \<le> nat (padded_length l)" unfolding p by linarith+
  show "nat (padded_length l) mod 64 = 0" unfolding p by simp
qed

lemma set_uint32_sel [simp]: "length (set_uint32 a i x) = length a"
  by (simp add: set_uint32_def)

lemma get_set_uint32:
  assumes "i + 3 < length a"
  shows "get_uint32 (set_uint32 a i x) i = x"
proof (rule bit_word_eqI)
  fix n :: nat
  assume "n < LENGTH(32)"
  with assms show "bit (get_uint32 (set_uint32 a i x) i) n = bit x n"
    by (cases "n < 8"; cases "n < 16"; cases "n < 24")
       (auto simp: get_uint32_def set_uint32_def bit_or_iff bit_push_bit_iff bit_ucast_iff bit_drop_bit_eq not_less)
qed

lemma get_set_uint32_other:
  "j + 3 < i \<or> i + 3 < j \<Longrightarrow> get_uint32 (set_uint32 a i x) j = get_uint32 a j"
  by (auto simp: get_uint32_def set_uint32_def)

lemma set_uint32_nth: "j < i \<Longrightarrow> set_uint32 a i x ! j = a ! j"
  by (simp add: set_uint32_def)

lemma padded_parts:
  assumes "length msg + 72 < 2 ^ 31"
  obtains a where "padded msg = Some a" "length a = nat (padded_length (length msg))"
    "get_uint32 a (length a - 4) = word_of_nat (length msg * 8)"
    "get_uint32 a (length a - 8) = word_of_nat (length msg * 8 div 0x100000000)"
    "\<And>j. j < length a - 8 \<Longrightarrow> a ! j = (if j < length msg then msg ! j else if j = length msg then 0x80 else 0)"
proof -
  let ?l = "length msg" and ?p = "nat (padded_length (length msg))"
  note b = padded_length_bounds [OF assms]
  let ?a0 = "(msg @ replicate (?p - ?l) 0)[?l := 0x80]"
  let ?a1 = "set_uint32 ?a0 (?p - 4) (word_of_nat (?l * 8))"
  let ?a = "set_uint32 ?a1 (?p - 8) (word_of_nat (?l * 8 div 0x100000000))"
  have len: "length ?a0 = ?p" using b(1) by simp
  have p: "padded msg = Some ?a" using b(1) by (simp add: padded_def Let_def)
  have "get_uint32 ?a (?p - 8) = word_of_nat (?l * 8 div 0x100000000)"
    using b(1) by (intro get_set_uint32) simp
  moreover have "get_uint32 ?a (?p - 4) = word_of_nat (?l * 8)"
    using b(1) len by (subst get_set_uint32_other) (auto intro!: get_set_uint32)
  moreover have "?a ! j = (if j < ?l then msg ! j else if j = ?l then 0x80 else 0)" if "j < ?p - 8" for j
    using that b(1) by (simp add: set_uint32_nth nth_list_update nth_append)
  ultimately show thesis using that [OF p] len by simp
qed

text \<open>Two messages with the same padded form are the same message.\<close>

lemma padded_inject:
  assumes "padded m = Some a" "padded m' = Some a" "length m + 72 < 2 ^ 31" "length m' + 72 < 2 ^ 31"
  shows "m = m'"
proof -
  obtain b where b: "padded m = Some b" "length b = nat (padded_length (length m))"
    "get_uint32 b (length b - 4) = word_of_nat (length m * 8)"
    "get_uint32 b (length b - 8) = word_of_nat (length m * 8 div 0x100000000)"
    "\<And>j. j < length b - 8 \<Longrightarrow> b ! j = (if j < length m then m ! j else if j = length m then 0x80 else 0)"
    using padded_parts [OF assms(3)] by blast
  obtain b' where b': "padded m' = Some b'" "length b' = nat (padded_length (length m'))"
    "get_uint32 b' (length b' - 4) = word_of_nat (length m' * 8)"
    "get_uint32 b' (length b' - 8) = word_of_nat (length m' * 8 div 0x100000000)"
    "\<And>j. j < length b' - 8 \<Longrightarrow> b' ! j = (if j < length m' then m' ! j else if j = length m' then 0x80 else 0)"
    using padded_parts [OF assms(4)] by blast
  have e: "b = a" "b' = a" using assms b(1) b'(1) by simp_all
  have w: "(word_of_nat (length m * 8) :: 32 word) = word_of_nat (length m' * 8)"
    "(word_of_nat (length m * 8 div 0x100000000) :: 32 word) = word_of_nat (length m' * 8 div 0x100000000)"
    using b(3,4) b'(3,4) e by simp_all
  have lo: "length m * 8 mod 2 ^ 32 = length m' * 8 mod 2 ^ 32"
    using arg_cong [OF w(1), of unat] by (simp add: unat_of_nat del: of_nat_mult)
  have hi: "length m * 8 div 2 ^ 32 = length m' * 8 div 2 ^ 32"
    using arg_cong [OF w(2), of unat] assms(3,4) by (simp add: unat_of_nat del: of_nat_mult)
  have "length m * 8 = length m' * 8" using lo hi by (metis div_mult_mod_eq)
  then have len: "length m = length m'" by simp
  show ?thesis
  proof (rule nth_equalityI [OF len])
    fix i
    assume i: "i < length m"
    moreover have "i < length b - 8" using i padded_length_bounds(1) [OF assms(3)] b(2) by simp
    ultimately show "m ! i = m' ! i" using b(5) [of i] b'(5) [of i] len e by simp
  qed
qed

section \<open>The recurrences of the standard\<close>

lemma rotr_word_rotr:
  assumes "0 < n" "n < 32"
  shows "rotr x n = word_rotr n x"
proof (rule bit_word_eqI)
  fix i :: nat
  assume "i < LENGTH(32)"
  then have i: "i < 32" by simp
  show "bit (rotr x n) i = bit (word_rotr n x) i"
  proof (cases "i + n < 32")
    case True
    then have "(i + n) mod 32 = n + i" by simp
    moreover have "\<not> 32 - n \<le> i" using True by simp
    ultimately show ?thesis using i
      by (simp add: rotr_def bit_or_iff bit_drop_bit_eq bit_push_bit_iff bit_word_rotr_iff add.commute [of n i])
  next
    case False
    then have "(i + n) mod 32 = i + n - 32" using i assms by (simp add: mod_if)
    moreover have "\<not> bit x (n + i)" using False bit_imp_le_length [of x "n + i"] by auto
    moreover have "i - (32 - n) = i + n - 32" "32 - n \<le> i" using False assms by simp_all
    ultimately show ?thesis using i
      by (simp add: rotr_def bit_or_iff bit_drop_bit_eq bit_push_bit_iff bit_word_rotr_iff)
  qed
qed

definition small_sigma0 :: "32 word \<Rightarrow> 32 word" where
  "small_sigma0 x = word_rotr 7 x XOR word_rotr 18 x XOR drop_bit 3 x"

definition small_sigma1 :: "32 word \<Rightarrow> 32 word" where
  "small_sigma1 x = word_rotr 17 x XOR word_rotr 19 x XOR drop_bit 10 x"

definition big_sigma0 :: "32 word \<Rightarrow> 32 word" where
  "big_sigma0 x = word_rotr 2 x XOR word_rotr 13 x XOR word_rotr 22 x"

definition big_sigma1 :: "32 word \<Rightarrow> 32 word" where
  "big_sigma1 x = word_rotr 6 x XOR word_rotr 11 x XOR word_rotr 25 x"

fun fips_W :: "(nat \<Rightarrow> 32 word) \<Rightarrow> nat \<Rightarrow> 32 word" where
  "fips_W M t =
     (if t < 16 then M t
      else small_sigma1 (fips_W M (t - 2)) + fips_W M (t - 7) + small_sigma0 (fips_W M (t - 15)) + fips_W M (t - 16))"

declare fips_W.simps [simp del]

definition fips_T1 :: "(nat \<Rightarrow> 32 word) \<Rightarrow> nat \<Rightarrow> sha_vars \<Rightarrow> 32 word" where
  "fips_T1 M t v = v_h v + big_sigma1 (v_e v) + ((v_e v AND v_f v) XOR (NOT (v_e v) AND v_g v)) + K256 ! t + fips_W M t"

definition fips_T2 :: "sha_vars \<Rightarrow> 32 word" where
  "fips_T2 v = big_sigma0 (v_a v) + ((v_a v AND v_b v) XOR (v_a v AND v_c v) XOR (v_b v AND v_c v))"

primrec fips_vars :: "(nat \<Rightarrow> 32 word) \<Rightarrow> sha_vars \<Rightarrow> nat \<Rightarrow> sha_vars" where
  "fips_vars M v0 0 = v0"
| "fips_vars M v0 (Suc t) =
     (let v = fips_vars M v0 t in
      \<lparr>v_a = fips_T1 M t v + fips_T2 v, v_b = v_a v, v_c = v_b v, v_d = v_c v,
       v_e = v_d v + fips_T1 M t v, v_f = v_e v, v_g = v_f v, v_h = v_g v\<rparr>)"

definition vars_of :: "32 word list \<Rightarrow> sha_vars" where
  "vars_of h = \<lparr>v_a = h ! 0, v_b = h ! 1, v_c = h ! 2, v_d = h ! 3, v_e = h ! 4, v_f = h ! 5, v_g = h ! 6, v_h = h ! 7\<rparr>"

definition list_of_vars :: "sha_vars \<Rightarrow> 32 word list" where
  "list_of_vars v = [v_a v, v_b v, v_c v, v_d v, v_e v, v_f v, v_g v, v_h v]"

definition fips_block :: "(nat \<Rightarrow> 32 word) \<Rightarrow> 32 word list \<Rightarrow> 32 word list" where
  "fips_block M h = map2 (+) h (list_of_vars (fips_vars M (vars_of h) 64))"

lemma schedule_upto:
  assumes "16 \<le> n"
  shows "foldl (\<lambda>w i. w @ [schedule_word w i]) (map M [0..<16]) [16..<n] = map (fips_W M) [0..<n]"
  using assms
proof (induction n rule: nat_induct_at_least)
  case base
  show ?case by (simp add: fips_W.simps)
next
  case (Suc n)
  have "schedule_word (map (fips_W M) [0..<n]) n = fips_W M n"
    using Suc.hyps
    by (simp add: fips_W.simps [of M n] schedule_word_def rotr_word_rotr small_sigma0_def small_sigma1_def
        add.commute add.left_commute)
  with Suc show ?case by simp
qed

lemma schedule_is_fips: "schedule a off = map (fips_W (\<lambda>i. get_uint32 a (off + i * 4))) [0..<64]"
  unfolding schedule_def by (rule schedule_upto) simp

lemma sha_rounds_are_fips:
  "n \<le> 64 \<Longrightarrow> foldl (sha_round (map (fips_W M) [0..<64])) v [0..<n] = fips_vars M v n"
proof (induction n)
  case (Suc n)
  then show ?case
    by (simp add: sha_round_def fips_T1_def fips_T2_def rotr_word_rotr big_sigma0_def big_sigma1_def Let_def)
qed simp

lemma sha_block_is_fips:
  assumes "length h = 8"
  shows "sha_block a h off = fips_block (\<lambda>i. get_uint32 a (off + i * 4)) h"
proof -
  have h: "h = [h ! 0, h ! 1, h ! 2, h ! 3, h ! 4, h ! 5, h ! 6, h ! 7]"
    using assms by (intro nth_equalityI) (auto simp: less_Suc_eq numeral_eq_Suc)
  have m: "map2 (+) h (list_of_vars v) = [h ! 0 + v_a v, h ! 1 + v_b v, h ! 2 + v_c v, h ! 3 + v_d v,
       h ! 4 + v_e v, h ! 5 + v_f v, h ! 6 + v_g v, h ! 7 + v_h v]" for v
    by (subst h) (simp add: list_of_vars_def)
  show ?thesis
    unfolding fips_block_def m sha_block_def schedule_is_fips vars_of_def [symmetric] by (simp add: sha_rounds_are_fips Let_def)
qed

section \<open>The shape of a digest\<close>

definition hex_chars :: string where
  "hex_chars = ''0123456789abcdef''"

lemma hex_char: "k < 16 \<Longrightarrow> ''0123456789abcdef'' ! k \<in> set hex_chars"
  unfolding hex_chars_def by (rule nth_mem) simp

lemma nat_hex_digits: "set (nat_hex n) \<subseteq> set hex_chars"
proof (induction n rule: nat_hex.induct)
  case (1 n)
  then show ?case using hex_char [of n] hex_char [of "n mod 16"]
    by (cases "n < 16") (simp_all add: nat_hex.simps [of n])
qed

lemma nat_hex_length: "n < 16 ^ Suc k \<Longrightarrow> length (nat_hex n) \<le> Suc k"
proof (induction k arbitrary: n)
  case 0
  then show ?case by (simp add: nat_hex.simps [of n])
next
  case (Suc k)
  then have "n div 16 < 16 ^ Suc k" by (simp add: less_mult_imp_div_less)
  from Suc.IH [OF this] show ?case by (simp add: nat_hex.simps [of n])
qed

lemma word_hex:
  fixes x :: "32 word"
  shows "length (padStart 8 CHR ''0'' (nat_hex (unat x))) = 8"
    and "set (padStart 8 CHR ''0'' (nat_hex (unat x))) \<subseteq> set hex_chars"
proof -
  have "unat x < 2 ^ LENGTH(32)" by (rule unsigned_less)
  then have "length (nat_hex (unat x)) \<le> 8" using nat_hex_length [of "unat x" 7] by simp
  then show "length (padStart 8 CHR ''0'' (nat_hex (unat x))) = 8" by (simp add: padStart_def)
  have "CHR ''0'' \<in> set hex_chars" by (simp add: hex_chars_def)
  then show "set (padStart 8 CHR ''0'' (nat_hex (unat x))) \<subseteq> set hex_chars"
    using nat_hex_digits [of "unat x"] by (auto simp: padStart_def)
qed

definition hex64 :: "string \<Rightarrow> bool" where
  "hex64 d \<longleftrightarrow> length d = 64 \<and> set d \<subseteq> set hex_chars"

lemma sha_block_length: "length (sha_block a h off) = 8"
  by (simp add: sha_block_def Let_def)

lemma sha_blocks_length: "length h = 8 \<Longrightarrow> length (foldl (sha_block a) h offs) = 8"
  by (induction offs arbitrary: h) (auto simp: sha_block_length)

lemma hex_words:
  "length (concat (map (\<lambda>x. padStart 8 CHR ''0'' (nat_hex (unat x))) (h :: 32 word list))) = 8 * length h"
  "set (concat (map (\<lambda>x. padStart 8 CHR ''0'' (nat_hex (unat x))) (h :: 32 word list))) \<subseteq> set hex_chars"
  using word_hex by (induction h) auto

lemma sha256_bytes_hex64:
  assumes "sha256_bytes msg = Some d"
  shows "hex64 d"
proof -
  obtain a where "d = concat (map (\<lambda>x. padStart 8 CHR ''0'' (nat_hex (unat x)))
      (foldl (sha_block a) initial_h (map (\<lambda>i. i * 64) [0..<length a div 64])))"
    using assms by (auto simp: sha256_bytes_def Let_def)
  moreover have "length (foldl (sha_block a) initial_h offs) = 8" for offs
    by (rule sha_blocks_length) (simp add: initial_h_def)
  ultimately show ?thesis using hex_words by (simp add: hex64_def)
qed

lemma sha256_bytes_short:
  assumes "length msg + 72 < 2 ^ 31"
  shows "\<exists>d. sha256_bytes msg = Some d"
proof -
  obtain a where "padded msg = Some a" by (rule padded_parts [OF assms])
  then show ?thesis unfolding sha256_bytes_def by simp
qed

section \<open>The stream\<close>

lemma place_parts_all:
  "length pre + length (concat parts) = length all \<Longrightarrow> take (length pre) all = pre
   \<Longrightarrow> place_parts all (length pre) parts = pre @ concat parts"
proof (induction parts arbitrary: all pre)
  case (Cons part parts)
  let ?all = "take (length pre) all @ part @ drop (length pre + length part) all"
  have "length (pre @ part) + length (concat parts) = length ?all" using Cons.prems by simp
  moreover have "take (length (pre @ part)) ?all = pre @ part" using Cons.prems by simp
  ultimately show ?case using Cons.IH [of "pre @ part" ?all] by simp
next
  case Nil
  then have "take (length pre) all = all" by simp
  with Nil.prems(2) show ?case by simp
qed

lemma sha_updates:
  "sha_chunks (foldl sha_update s texts) = sha_chunks s @ map utf8 texts"
  "sha_total (foldl sha_update s texts) = sha_total s + length (concat (map utf8 texts))"
  by (induction texts arbitrary: s) (auto simp: sha_update_def Let_def)

lemma utf8_append: "isWellFormed a \<Longrightarrow> utf8 (a @ b) = utf8 a @ utf8 b"
  by (simp add: utf8_def points_append)

lemma utf8_concat: "list_all isWellFormed ts \<Longrightarrow> utf8 (concat ts) = concat (map utf8 ts)"
  by (induction ts) (auto simp: utf8_append, simp add: utf8_def)

lemma stream_digest:
  "digestHex (foldl sha_update createSha256 texts) = sha256_bytes (concat (map utf8 texts))"
proof -
  let ?s = "foldl sha_update createSha256 texts"
  have "place_parts (replicate (sha_total ?s) 0) 0 (sha_chunks ?s) = concat (sha_chunks ?s)"
    using place_parts_all [of "[]" "sha_chunks ?s" "replicate (sha_total ?s) 0"]
    by (simp add: sha_updates createSha256_def)
  then show ?thesis by (simp add: digestHex_def sha_updates createSha256_def)
qed

lemma utf8_single_length: "length (utf8_point [u]) = point_bytes [u]"
proof (cases "is_high u \<or> is_low u")
  case True
  then have "0x800 \<le> uint u" "uint u < 0x10000"
    by (auto simp: is_high_def is_low_def word_le_def)
  with True show ?thesis by (simp add: utf8_point_def point_bytes_def Let_def paired_def code_point_def)
next
  case False
  have "uint u < 2 ^ LENGTH(16)" by (rule unsigned_less)
  with False show ?thesis by (simp add: utf8_point_def point_bytes_def Let_def paired_def code_point_def)
qed

lemma utf8_point_length: "p \<in> set (points s) \<Longrightarrow> length (utf8_point p) = point_bytes p"
proof (induction s rule: points.induct)
  case (2 u)
  then show ?case by (simp add: utf8_single_length)
next
  case (3 u v us)
  have "length (utf8_point [u, v]) = point_bytes [u, v]"
    by (simp add: utf8_point_def point_bytes_def Let_def paired_def)
  with 3 show ?case by (auto simp: utf8_single_length split: if_splits)
qed simp

lemma utf8_length_bytes: "length (utf8 s) = utf8_length s"
proof -
  have "map length (map utf8_point (points s)) = map point_bytes (points s)"
    using utf8_point_length by simp
  then show ?thesis unfolding utf8_def utf8_length_def length_concat by (rule arg_cong)
qed

end
