(* ===== verification/Sha256Props.thy ===== *)
theory Sha256Props imports Sha256Facts begin

text \<open>What the portable hash promises: it is SHA-256, and padding loses nothing.\<close>

definition fips_digest :: "8 word list \<Rightarrow> 32 word list" where
  "fips_digest a =
     foldl (\<lambda>h i. fips_block (\<lambda>t. get_uint32 a (64 * i + 4 * t)) h) initial_h [0..<length a div 64]"

lemma blocks_are_fips:
  "length h = 8 \<Longrightarrow> foldl (sha_block a) h (map (\<lambda>i. i * 64) is)
    = foldl (\<lambda>h i. fips_block (\<lambda>t. get_uint32 a (64 * i + 4 * t)) h) h is"
proof (induction "is" arbitrary: h)
  case (Cons i "is")
  have "length (fips_block (\<lambda>t. get_uint32 a (64 * i + 4 * t)) h) = 8"
    using sha_block_length [of a h "i * 64"] by (simp add: sha_block_is_fips [OF Cons.prems] mult.commute)
  with Cons show ?case by (simp add: sha_block_is_fips mult.commute)
qed simp


text \<open>
  C15. The padding is sound: a message shorter than 2 GiB less 72 bytes is padded to whole blocks, its
  bytes first, then a single set bit and zeros, and its length in bits in the last eight bytes, so no
  two messages share a padded form.
\<close>

theorem padding_is_sound:
  assumes "length msg + 72 < 2 ^ 31"
  shows "\<exists>a. padded msg = Some a \<and> length a mod 64 = 0 \<and> length msg + 9 \<le> length a \<and> length a < length msg + 73
    \<and> (\<forall>j < length a - 8. a ! j = (if j < length msg then msg ! j else if j = length msg then 0x80 else 0))
    \<and> unat (get_uint32 a (length a - 8)) * 2 ^ 32 + unat (get_uint32 a (length a - 4)) = 8 * length msg
    \<and> (\<forall>msg'. length msg' + 72 < 2 ^ 31 \<and> padded msg' = Some a \<longrightarrow> msg' = msg)"
proof -
  obtain a where a: "padded msg = Some a" "length a = nat (padded_length (length msg))"
    "get_uint32 a (length a - 4) = word_of_nat (length msg * 8)"
    "get_uint32 a (length a - 8) = word_of_nat (length msg * 8 div 0x100000000)"
    "\<And>j. j < length a - 8 \<Longrightarrow> a ! j = (if j < length msg then msg ! j else if j = length msg then 0x80 else 0)"
    by (rule padded_parts [OF assms]) blast
  have "unat (get_uint32 a (length a - 4)) = length msg * 8 mod 2 ^ 32"
    unfolding a(3) by (simp add: unat_of_nat del: of_nat_mult)
  moreover have "unat (get_uint32 a (length a - 8)) = length msg * 8 div 2 ^ 32"
    unfolding a(4) using assms by (simp add: unat_of_nat del: of_nat_mult)
  ultimately have "unat (get_uint32 a (length a - 8)) * 2 ^ 32 + unat (get_uint32 a (length a - 4)) = 8 * length msg"
    by (metis div_mult_mod_eq mult.commute)
  moreover have "length msg + 9 \<le> length a" "length a < length msg + 73" "length a mod 64 = 0"
    unfolding a(2) by (fact padded_length_bounds [OF assms])+
  moreover have "msg' = msg" if "length msg' + 72 < 2 ^ 31" "padded msg' = Some a" for msg'
    using padded_inject [OF that(2) a(1) that(1) assms] .
  ultimately show ?thesis using a(1,5) by (intro exI [of _ a] conjI allI impI) (assumption | blast)+
qed


lemma padding_is_sound_witness:
  "\<exists>a. padded (replicate 55 7) = Some a \<and> length a = 64 \<and> (\<exists>b. padded (replicate 56 7) = Some b \<and> length b = 128)"
proof -
  have l: "length (replicate 55 (7 :: 8 word)) + 72 < 2 ^ 31" "length (replicate 56 (7 :: 8 word)) + 72 < 2 ^ 31"
    by simp_all
  obtain a where a: "padded (replicate 55 7) = Some a" "length a mod 64 = 0" "64 \<le> length a" "length a < 128"
    using padding_is_sound [OF l(1)] by auto
  obtain b where b: "padded (replicate 56 7) = Some b" "length b mod 64 = 0" "65 \<le> length b" "length b < 129"
    using padding_is_sound [OF l(2)] by auto
  have "length a = 64" using a(2-4) by presburger
  moreover have "length b = 128" using b(2-4) by presburger
  ultimately show ?thesis using a(1) b(1) by blast
qed

end
