(* ===== verification/Integrity.thy ===== *)
theory Integrity imports Sha256Facts LedgerStore begin

text \<open>
  \<^verbatim>\<open>packages/core-ledger/src/log/integrity.ts\<close>: the digest chain over the rows of a ledger. A
  digest is taken of the canonical text of a row with what precedes it. The hash is the portable one of
  \<open>Sha256\<close>, which the source pins \<^verbatim>\<open>node:crypto\<close> to byte for byte.
\<close>

section \<open>Rows as values\<close>

fun wide :: "json \<Rightarrow> jsv" where
  "wide JNull = VNull"
| "wide (JBool b) = VBool b"
| "wide (JNum n) = VNum (num_of_int n)"
| "wide (JStr s) = VStr (units s)"
| "wide (JArr xs) = VArr True (map (\<lambda>x. Data True (wide x)) xs) 0"
| "wide (JObj kvs) = VObj True (map (\<lambda>(k, v). (units k, Data True (wide v))) kvs) False"

definition member_of :: "string \<Rightarrow> jsv \<Rightarrow> jsstr \<times> jsv slot" where
  "member_of k v = (units k, Data True v)"

definition optional_member :: "string \<Rightarrow> jsv option \<Rightarrow> (jsstr \<times> jsv slot) list" where
  "optional_member k v = (case v of None \<Rightarrow> [] | Some x \<Rightarrow> [member_of k x])"

definition int_value :: "int \<Rightarrow> jsv" where
  "int_value n = VNum (num_of_int n)"

definition event_value :: "event \<Rightarrow> jsv" where
  "event_value e = VObj True
     (optional_member ''lane'' (map_option (VStr \<circ> units) (e_lane e)) @
      optional_member ''v'' (map_option int_value (e_v e)) @
      [member_of ''type'' (VStr (units (e_type e))), member_of ''data'' (wide (e_data e)),
       member_of ''actor'' (wide (e_actor e)), member_of ''origin'' (VStr (units (e_origin e))),
       member_of ''trust'' (VStr (units (if e_trusted e then ''trusted'' else ''untrusted'')))] @
      optional_member ''register'' (map_option (VStr \<circ> units) (e_register e)) @
      optional_member ''ignorable'' (if e_ignorable e then Some (VBool True) else None) @
      optional_member ''surfaceOp'' (map_option wide (e_surfaceOp e)) @
      optional_member ''sourceEventSeqs''
        (map_option (\<lambda>ns. VArr True (map (\<lambda>n. Data True (int_value n)) ns) 0) (e_sourceEventSeqs e)) @
      [member_of ''ts'' (VStr (units (e_ts e))), member_of ''id'' (VStr (units (e_id e))),
       member_of ''seq'' (int_value (e_seq e))]) False"

definition LEDGER_INTEGRITY_ALGORITHM :: string where
  "LEDGER_INTEGRITY_ALGORITHM = ''agnes-ledger-jcs-sha256-v1''"

definition anchor_value :: "string \<Rightarrow> int \<Rightarrow> event \<Rightarrow> jsv" where
  "anchor_value key legacyThroughSeq e = VObj True
     [member_of ''algorithm'' (VStr (units LEDGER_INTEGRITY_ALGORITHM)), member_of ''sessionKey'' (VStr (units key)),
      member_of ''legacyThroughSeq'' (int_value legacyThroughSeq), member_of ''event'' (event_value e)] False"

definition chain_value :: "string \<Rightarrow> string \<Rightarrow> event \<Rightarrow> jsv" where
  "chain_value key previousDigest e = VObj True
     [member_of ''algorithm'' (VStr (units LEDGER_INTEGRITY_ALGORITHM)), member_of ''sessionKey'' (VStr (units key)),
      member_of ''previousDigest'' (VStr (units previousDigest)), member_of ''event'' (event_value e)] False"

section \<open>Digests\<close>

definition FLUSH_CHARS :: nat where
  "FLUSH_CHARS = 64 * 1024"

definition SLICE_CHARS :: nat where
  "SLICE_CHARS = 1024 * 1024"

definition updateSliced :: "sha_stream \<Rightarrow> jsstr \<Rightarrow> sha_stream" where
  "updateSliced hash text = foldl sha_update hash (slices SLICE_CHARS text)"

definition feed_chunk :: "sha_stream \<times> jsstr \<Rightarrow> jsstr \<Rightarrow> sha_stream \<times> jsstr" where
  "feed_chunk st chunk =
     (case st of (hash, pending) \<Rightarrow>
      if length chunk \<ge> FLUSH_CHARS
      then (updateSliced (if pending \<noteq> [] then sha_update hash pending else hash) chunk, [])
      else let p = pending @ chunk in
        if length p \<ge> FLUSH_CHARS then (sha_update hash p, []) else (hash, p))"

text \<open>\<open>None\<close>: the value cannot be written canonically, or its text is too long to hash.\<close>

definition digestCanonical :: "js_host \<Rightarrow> jsv \<Rightarrow> (string \<times> nat) option" where
  "digestCanonical h value =
     (case jcs_encode h value of
        None \<Rightarrow> None
      | Some chunks \<Rightarrow>
         (case foldl feed_chunk (createSha256, []) chunks of (hash, pending) \<Rightarrow>
          let hash' = (if pending \<noteq> [] then sha_update hash pending else hash) in
          map_option (\<lambda>d. (d, sha_total hash')) (digestHex hash')))"

definition anchorDigest :: "js_host \<Rightarrow> string \<Rightarrow> int \<Rightarrow> event \<Rightarrow> (string \<times> nat) option" where
  "anchorDigest h key legacyThroughSeq e = digestCanonical h (anchor_value key legacyThroughSeq e)"

definition chainDigest :: "js_host \<Rightarrow> string \<Rightarrow> string \<Rightarrow> event \<Rightarrow> (string \<times> nat) option" where
  "chainDigest h key previousDigest e = digestCanonical h (chain_value key previousDigest e)"

definition sameDigest :: "string \<Rightarrow> string \<Rightarrow> bool" where
  "sameDigest a b =
     (length a = length b \<and> foldl (\<lambda>d (x, y). d OR (of_char x XOR of_char y)) (0 :: 32 word) (zip a b) = 0)"

section \<open>The chain\<close>

record integrity_state =
  is_lastSeq :: int
  is_legacyThroughSeq :: int
  is_headDigest :: "string option"

definition EMPTY_STATE :: integrity_state where
  "EMPTY_STATE = \<lparr>is_lastSeq = 0, is_legacyThroughSeq = 0, is_headDigest = None\<rparr>"

definition integrity_fail :: "string \<Rightarrow> 'a res" where
  "integrity_fail message = throw E_LEDGER_INTEGRITY message"

text \<open>The digest a row should carry: the empty string when digests are not recomputed.\<close>

definition expected_digest :: "js_host \<Rightarrow> bool \<Rightarrow> integrity_state \<Rightarrow> integrity_row \<Rightarrow> integrity_metadata \<Rightarrow> string res" where
  "expected_digest h hash st row m =
     (if im_mode m = ''anchor'' then
        if is_headDigest st \<noteq> None \<or> im_previousDigest m \<noteq> None then integrity_fail ''invalid ledger anchor position''
        else if \<not> hash then Inr ''''
        else (case anchorDigest h (ir_sessionKey row) (is_legacyThroughSeq st) (ir_event row) of
                Some (d, _) \<Rightarrow> Inr d | None \<Rightarrow> integrity_fail ''stored event cannot be canonicalized'')
      else if im_mode m = ''chain'' then
        (case (is_headDigest st, im_previousDigest m) of
           (Some head, Some prev) \<Rightarrow>
             if \<not> hex64 prev \<or> \<not> sameDigest prev head then integrity_fail ''ledger chain predecessor mismatch''
             else if \<not> hash then Inr ''''
             else (case chainDigest h (ir_sessionKey row) prev (ir_event row) of
                     Some (d, _) \<Rightarrow> Inr d | None \<Rightarrow> integrity_fail ''stored event cannot be canonicalized'')
         | _ \<Rightarrow> integrity_fail ''ledger chain predecessor mismatch'')
      else integrity_fail ''unknown ledger integrity mode'')"

definition verify_row :: "js_host \<Rightarrow> bool \<Rightarrow> integrity_state \<Rightarrow> integrity_row \<Rightarrow> integrity_state res" where
  "verify_row h hash st row =
     (let seq = e_seq (ir_event row) in
      if seq \<noteq> is_lastSeq st + 1 then integrity_fail ''ledger sequence is not contiguous''
      else case ir_integrity row of
        None \<Rightarrow>
          if is_headDigest st \<noteq> None then integrity_fail ''legacy row follows protected history''
          else Inr \<lparr>is_lastSeq = seq, is_legacyThroughSeq = seq, is_headDigest = None\<rparr>
      | Some m \<Rightarrow>
          if \<not> hex64 (im_digest m) then integrity_fail ''malformed ledger digest''
          else rbind (expected_digest h hash st row m) (\<lambda>expected.
            if hash \<and> \<not> sameDigest (im_digest m) expected then integrity_fail ''ledger digest mismatch''
            else Inr (st\<lparr>is_lastSeq := seq, is_headDigest := Some (im_digest m)\<rparr>)))"

fun verifyIntegrityRows :: "js_host \<Rightarrow> bool \<Rightarrow> integrity_row list \<Rightarrow> integrity_state \<Rightarrow> integrity_state res" where
  "verifyIntegrityRows h hash [] st = Inr st"
| "verifyIntegrityRows h hash (row # rows) st =
     rbind (verify_row h hash st row) (verifyIntegrityRows h hash rows)"

definition next_integrity :: "js_host \<Rightarrow> string \<Rightarrow> integrity_state \<Rightarrow> event \<Rightarrow> (integrity_metadata \<times> nat) res" where
  "next_integrity h key st e =
     (case is_headDigest st of
        None \<Rightarrow>
         (case anchorDigest h key (is_legacyThroughSeq st) e of
            None \<Rightarrow> Inl (PlainError ''invalid JCS input'')
          | Some (d, n) \<Rightarrow> Inr (\<lparr>im_mode = ''anchor'', im_previousDigest = None, im_digest = d\<rparr>, n))
      | Some head \<Rightarrow>
         (case chainDigest h key head e of
            None \<Rightarrow> Inl (PlainError ''invalid JCS input'')
          | Some (d, n) \<Rightarrow> Inr (\<lparr>im_mode = ''chain'', im_previousDigest = Some head, im_digest = d\<rparr>, n)))"

fun prepareIntegrity ::
  "js_host \<Rightarrow> string \<Rightarrow> event list \<Rightarrow> integrity_state \<Rightarrow> ((int \<times> integrity_metadata) list \<times> integrity_state \<times> nat) res" where
  "prepareIntegrity h key [] st = Inr ([], st, 0)"
| "prepareIntegrity h key (e # es) st =
     (if e_seq e \<noteq> is_lastSeq st + 1 then integrity_fail ''append sequence is not contiguous''
      else rbind (next_integrity h key st e) (\<lambda>(m, n).
        rbind (prepareIntegrity h key es (st\<lparr>is_lastSeq := e_seq e, is_headDigest := Some (im_digest m)\<rparr>))
          (\<lambda>(entries, st', n'). Inr ((e_seq e, m) # entries, st', n + n'))))"

section \<open>Hashing in turns\<close>

text \<open>The tokens of the incremental encoder, flushed when enough are pending.\<close>

definition feed_token :: "sha_stream \<times> jsstr \<Rightarrow> jsstr \<Rightarrow> sha_stream \<times> jsstr" where
  "feed_token st token =
     (case st of (hash, pending) \<Rightarrow>
      let p = pending @ token in if length p \<ge> FLUSH_CHARS then (sha_update hash p, []) else (hash, p))"

definition cooperative_value :: "integrity_state \<Rightarrow> integrity_row \<Rightarrow> integrity_metadata \<Rightarrow> jsv" where
  "cooperative_value st row m =
     (if im_mode m = ''anchor'' then anchor_value (ir_sessionKey row) (is_legacyThroughSeq st) (ir_event row)
      else chain_value (ir_sessionKey row) (the (im_previousDigest m)) (ir_event row))"

definition verifyIntegrityRowCooperatively :: "js_host \<Rightarrow> integrity_row \<Rightarrow> integrity_state \<Rightarrow> integrity_state res" where
  "verifyIntegrityRowCooperatively h row st =
     rbind (verifyIntegrityRows h False [row] st) (\<lambda>st'.
       case ir_integrity row of
         None \<Rightarrow> Inr st'
       | Some m \<Rightarrow>
          (case jcsChunks h (cooperative_value st row m) of
             None \<Rightarrow> integrity_fail ''stored event cannot be canonicalized''
           | Some tokens \<Rightarrow>
              (case foldl feed_token (createSha256, []) tokens of (hash, pending) \<Rightarrow>
               (case digestHex (if pending \<noteq> [] then sha_update hash pending else hash) of
                  None \<Rightarrow> Inl (PlainError ''Invalid typed array length'')
                | Some d \<Rightarrow>
                    if \<not> sameDigest (im_digest m) d then integrity_fail ''ledger digest mismatch'' else Inr st'))))"

end
