(* ===== verification/JcsProps.thy ===== *)
theory JcsProps imports JcsFacts begin

text \<open>
  What the encoders promise: one text whichever encoder writes it, the byte budget exact, and a text
  that determines its value up to the order of members.
\<close>

section \<open>The serializer of \<^verbatim>\<open>core-common\<close>\<close>

lemma canonical_items_text:
  "jcs_text h v = Some t \<Longrightarrow> canonicalJson h v = Some t"
  "items_text h later ss = Some t \<Longrightarrow> \<exists>ts. canonical_items h ss = Some ts \<and> (ts = [] \<longleftrightarrow> ss = [])
     \<and> t = (if ts = [] then [] else comma later) @ join16 ts"
  "members_text h later ms = Some t \<Longrightarrow> \<exists>ts. canonical_members h ms = Some ts \<and> (ts = [] \<longleftrightarrow> ms = [])
     \<and> t = (if ts = [] then [] else comma later) @ join16 ts \<and> list_all kept_member ms"
proof (induction h v and h later ss and h later ms arbitrary: t and t and t
    rule: jcs_encode_jcs_items_jcs_members.induct)
  case (1 h item)
  show ?case
  proof (cases item)
    case (VArr plain items extra)
    then show ?thesis using "1.IH"(1) [OF _ VArr] "1.prems"
      by (fastforce simp: jcs_text_simps jcs_scalar_def canonicalJson.simps comma_def split: if_splits)
  next
    case (VObj plain ms symbols)
    then obtain r where r: "plain" "\<not> symbols" "members_text h False (sort_key fst ms) = Some r"
      "t = units ''{'' @ r @ units ''}''"
      using "1.prems" by (auto simp: jcs_text_simps split: if_splits)
    have *: "\<exists>ts. canonical_members h (sort_key fst ms) = Some ts \<and> r = join16 ts
        \<and> list_all kept_member (sort_key fst ms)"
      using "1.IH"(2) [OF _ VObj] r by (fastforce simp: jcs_scalar_def VObj comma_def)
    then have "filter kept_member ms = ms" by (auto simp: list_all_iff filter_id_conv)
    with * show ?thesis by (auto simp: VObj canonicalJson.simps r(4))
  qed (use "1.prems" in \<open>auto simp: jcs_text_simps jcs_string_text canonicalJson.simps
      split: if_splits jsnum.splits\<close>)
next
  case (3 h later s ss)
  obtain v where v: "read_slot s = Some v" using "3.prems" by (auto simp: items_text_simps split: option.splits)
  obtain t1 where t1: "jcs_text h v = Some t1" using "3.prems" v by (auto simp: items_text_simps split: option.splits)
  then obtain cs where cs: "jcs_encode h v = Some cs" by (auto simp: jcs_text_def)
  from "3.prems" obtain r where r: "items_text h True ss = Some r" "t = comma later @ t1 @ r"
    by (auto simp: items_text_simps v t1)
  have s: "slot_value s = Some v" "v \<noteq> VUndefined"
    using v t1 by (auto simp: read_slot_def slot_value_def jcs_text_simps split: slot.splits bool.splits)
  obtain ts where ts: "canonical_items h ss = Some ts" "(ts = [] \<longleftrightarrow> ss = [])"
    "r = (if ts = [] then [] else comma True) @ join16 ts"
    using "3.IH"(2) [OF v cs r(1)] by blast
  show ?case
    by (cases ts) (use "3.IH"(1) [OF v t1] s ts r(2) in \<open>auto simp: comma_def\<close>)
next
  case (5 h later k s ms)
  obtain q where q: "jcs_string h k = Some q" using "5.prems" by (auto simp: members_text_simps split: option.splits)
  obtain v where v: "read_slot s = Some v" using "5.prems" q by (auto simp: members_text_simps split: option.splits)
  obtain t1 where t1: "jcs_text h v = Some t1" using "5.prems" q v by (auto simp: members_text_simps split: option.splits)
  then obtain cs where cs: "jcs_encode h v = Some cs" by (auto simp: jcs_text_def)
  from "5.prems" obtain r where r: "members_text h True ms = Some r" "t = comma later @ q @ units '':'' @ t1 @ r"
    by (auto simp: members_text_simps q v t1)
  have s: "slot_value s = Some v" "v \<noteq> VUndefined" "enumerable s"
    using v t1 by (auto simp: read_slot_def slot_value_def enumerable_def jcs_text_simps split: slot.splits bool.splits)
  have qk: "q = json_quote k" using q by (simp add: jcs_string_text split: if_splits)
  obtain ts where ts: "canonical_members h ms = Some ts" "(ts = [] \<longleftrightarrow> ms = [])" "list_all kept_member ms"
    "r = (if ts = [] then [] else comma True) @ join16 ts"
    using "5.IH"(2) [OF q v cs r(1)] by blast
  show ?case
    by (cases ts) (use "5.IH"(1) [OF q v t1] s ts r(2) qk in \<open>auto simp: comma_def kept_member_def [of "(k, s)"]\<close>)
qed (auto simp: items_text_simps members_text_simps)

section \<open>A quoted string determines its content\<close>

lemma nibbles_inject:
  fixes u v :: "16 word"
  assumes "\<And>k. k \<in> {12, 8, 4, 0} \<Longrightarrow> take_bit 4 (drop_bit k u) = take_bit 4 (drop_bit k v)"
  shows "u = v"
proof (rule bit_word_eqI)
  fix n :: nat
  assume "n < LENGTH(16)"
  then have n: "n < 16" by simp
  define k where "k = 4 * (n div 4)"
  have "n div 4 \<in> {0, 1, 2, 3}" using n by auto
  then have "k \<in> {12, 8, 4, 0}" unfolding k_def by auto
  then have "bit (take_bit 4 (drop_bit k u)) (n mod 4) = bit (take_bit 4 (drop_bit k v)) (n mod 4)"
    using assms by simp
  moreover have "k + n mod 4 = n" by (simp add: k_def)
  ultimately show "bit u n = bit v n" by (simp add: bit_take_bit_iff bit_drop_bit_eq)
qed

lemma hex_unit_inject:
  assumes "hex_unit d = hex_unit d'" "unat d < 16" "unat d' < 16"
  shows "d = d'"
proof -
  have n: "unat (48 + x) = 48 + unat x" "unat (87 + x) = 87 + unat x" if "unat x < 16" for x :: "16 word"
    using that by (simp_all add: unat_word_ariths)
  have "unat (hex_unit d) = unat (hex_unit d')" using assms(1) by simp
  then have "unat d = unat d'"
    using assms(2,3) by (auto simp: hex_unit_def n word_less_nat_alt split: if_splits)
  then show ?thesis by (rule unsigned_word_eqI)
qed

lemma hex4_inject: "hex4 u = hex4 v \<Longrightarrow> u = v"
proof (rule nibbles_inject)
  fix k :: nat
  assume h: "hex4 u = hex4 v" and k: "k \<in> {12, 8, 4, 0}"
  have "hex_unit (take_bit 4 (drop_bit k u)) = hex_unit (take_bit 4 (drop_bit k v))"
    using h k by (auto simp: hex4_def)
  then show "take_bit 4 (drop_bit k u) = take_bit 4 (drop_bit k v)"
    by (rule hex_unit_inject) (simp_all add: take_bit_eq_mod unat_mod)
qed

definition escape_in_text :: "16 word \<Rightarrow> jsstr" where
  "escape_in_text u = (if is_high u \<or> is_low u then [u] else escape_unit u)"

lemma escaped_units: "isWellFormed s \<Longrightarrow> escaped s = concat (map escape_in_text s)"
proof (induction s rule: points.induct)
  case (3 u v us)
  then show ?case
    by (auto simp: escaped_def escape_point_def escape_in_text_def split: if_splits)
qed (auto simp: escaped_def escape_point_def escape_in_text_def)

lemma escape_in_text_cases:
  obtains (itself) "escape_in_text u = [u]" "u \<noteq> 0x22" "u \<noteq> 0x5c"
  | (short) c where "escape_in_text u = [0x5c, c]" "c \<noteq> 0x75"
      "(u, c) \<in> {(8, 98), (9, 116), (10, 110), (12, 102), (13, 114), (0x22, 0x22), (0x5c, 0x5c)}"
  | (hex) "escape_in_text u = [0x5c, 0x75] @ hex4 u"
proof -
  have l: "units [CHR 92, CHR ''b''] = [0x5c, 98]" "units [CHR 92, CHR ''t''] = [0x5c, 116]"
    "units [CHR 92, CHR ''n''] = [0x5c, 110]" "units [CHR 92, CHR ''f''] = [0x5c, 102]"
    "units [CHR 92, CHR ''r''] = [0x5c, 114]" "units [CHR 92, CHR ''u''] = [0x5c, 0x75]"
    by (simp_all add: units_def)
  have s: "is_high u \<or> is_low u \<Longrightarrow> u \<noteq> 0x22 \<and> u \<noteq> 0x5c"
    by (auto simp: is_high_def is_low_def)
  have n: "\<not> is_high c \<and> \<not> is_low c" if "c \<in> {8, 9, 10, 12, 13, 0x22, 0x5c}" for c
    using that by (auto simp: is_high_def is_low_def)
  note e = escape_in_text_def escape_unit_def l
  show thesis
  proof (cases "u \<in> {8, 9, 10, 12, 13, 0x22, 0x5c}")
    case True
    with n [OF True] have "\<exists>c. escape_in_text u = [0x5c, c] \<and> c \<noteq> 0x75
        \<and> (u, c) \<in> {(8, 98), (9, 116), (10, 110), (12, 102), (13, 114), (0x22, 0x22), (0x5c, 0x5c)}"
      unfolding e by auto
    then show thesis using that(2) by blast
  next
    case False
    then show thesis
      using that(1,3) by (cases "is_high u \<or> is_low u"; cases "u < 0x20") (simp_all add: e)
  qed
qed

lemma hex4_length [simp]: "length (hex4 u) = 4"
  by (simp add: hex4_def)

lemma escape_in_text_prefix:
  assumes "escape_in_text u @ a = escape_in_text v @ b"
  shows "u = v \<and> a = b"
proof (cases u rule: escape_in_text_cases)
  case itself
  show ?thesis using assms itself by (cases v rule: escape_in_text_cases) auto
next
  case (short c)
  show ?thesis
  proof (cases v rule: escape_in_text_cases)
    case (short d)
    with assms \<open>escape_in_text u = _\<close> \<open>(u, c) \<in> _\<close> show ?thesis by auto
  qed (use assms short in auto)
next
  case hex
  show ?thesis
  proof (cases v rule: escape_in_text_cases)
    case itself
    then show ?thesis using assms hex by auto
  next
    case (short d)
    then show ?thesis using assms hex by auto
  next
    case hex': hex
    have "hex4 u @ a = hex4 v @ b" using assms by (simp add: hex hex')
    then have "hex4 u = hex4 v" "a = b" by auto
    with hex4_inject show ?thesis by blast
  qed
qed

lemma escape_in_text_head: "escape_in_text u \<noteq> [] \<and> hd (escape_in_text u) \<noteq> 0x22"
  by (cases u rule: escape_in_text_cases) auto

lemma escaped_prefix:
  assumes "concat (map escape_in_text s) @ 0x22 # a = concat (map escape_in_text s') @ 0x22 # b"
  shows "s = s' \<and> a = b"
  using assms
proof (induction s arbitrary: s')
  case Nil
  show ?case
  proof (cases s')
    case (Cons v vs)
    with Nil escape_in_text_head [of v] show ?thesis by (cases "escape_in_text v") auto
  qed (use Nil in simp)
next
  case (Cons u us)
  show ?case
  proof (cases s')
    case Nil
    with Cons.prems escape_in_text_head [of u] show ?thesis by (cases "escape_in_text u") auto
  next
    case s': (Cons v vs)
    have "u = v \<and> concat (map escape_in_text us) @ 0x22 # a = concat (map escape_in_text vs) @ 0x22 # b"
      using Cons.prems by (intro escape_in_text_prefix) (simp add: s')
    with Cons.IH [of vs] s' show ?thesis by simp
  qed
qed

lemma json_quote_prefix:
  assumes "json_quote s @ a = json_quote s' @ b" "isWellFormed s" "isWellFormed s'"
  shows "s = s' \<and> a = b"
  using assms escaped_prefix [of s a s' b] by (simp add: json_quote_def escaped_units units_def)

section \<open>The text determines the value\<close>

text \<open>A value with the members of every object in the order of their keys.\<close>

primrec sorted_value :: "jsv \<Rightarrow> jsv" where
  "sorted_value VUndefined = VUndefined"
| "sorted_value VFunction = VFunction"
| "sorted_value VBigint = VBigint"
| "sorted_value VNull = VNull"
| "sorted_value (VBool b) = VBool b"
| "sorted_value (VNum x) = VNum x"
| "sorted_value (VStr s) = VStr s"
| "sorted_value (VArr plain items extra) = VArr plain (map (map_slot sorted_value) items) extra"
| "sorted_value (VObj plain ms symbols) =
     VObj plain (sort_key fst (map (map_prod (\<lambda>k. k) (map_slot sorted_value)) ms)) symbols"

abbreviation sorted_slots :: "jsv slot list \<Rightarrow> jsv slot list" where
  "sorted_slots \<equiv> map (map_slot sorted_value)"

abbreviation sorted_members :: "(jsstr \<times> jsv slot) list \<Rightarrow> (jsstr \<times> jsv slot) list" where
  "sorted_members \<equiv> map (map_prod (\<lambda>k. k) (map_slot sorted_value))"

definition number_chars :: string where
  "number_chars = ''0123456789+-.e''"

text \<open>What the code relies on of the printed numbers: distinct, and no other punctuation.\<close>

definition numbers_distinct :: "js_host \<Rightarrow> bool" where
  "numbers_distinct h \<longleftrightarrow> (\<forall>q. \<not> is_safe_integer (Fin q) \<longrightarrow>
     num_text h q \<noteq> [] \<and> set (num_text h q) \<subseteq> set number_chars \<and>
     (\<forall>q'. if is_safe_integer (Fin q') then num_text h q \<noteq> int_string \<lfloor>q'\<rfloor>
           else num_text h q = num_text h q' \<longrightarrow> q = q'))"

lemma of_char_inject16: "(of_char c :: 16 word) = of_char d \<longleftrightarrow> c = d"
proof
  assume eq: "(of_char c :: 16 word) = of_char d"
  have u: "unat (of_char x :: 16 word) = of_char x" for x
  proof -
    have "(of_char x :: nat) < 256" by (rule nat_of_char_less_256)
    then have "(of_char x :: nat) < 65536" by linarith
    then have "(of_char x :: nat) mod 65536 = of_char x" by (rule mod_less)
    then show ?thesis
      unfolding of_nat_of_char [symmetric, where 'a = "16 word"] by (simp add: unat_of_nat del: of_nat_of_char)
  qed
  have "(of_char c :: nat) = of_char d" using arg_cong [OF eq, of unat] by (simp add: u)
  then show "c = d" by simp
qed simp

lemma units_inject: "units a = units b \<longleftrightarrow> a = b"
  unfolding units_def by (rule inj_map_eq_map) (simp add: inj_def of_char_inject16)

lemma int_string_chars: "set (int_string i) \<subseteq> set number_chars \<and> int_string i \<noteq> []"
proof -
  have "c \<in> set number_chars" if "is_digit c" for c
  proof -
    have "(of_char c :: nat) = 48 \<or> (of_char c :: nat) = 49 \<or> (of_char c :: nat) = 50 \<or> (of_char c :: nat) = 51
        \<or> (of_char c :: nat) = 52 \<or> (of_char c :: nat) = 53 \<or> (of_char c :: nat) = 54 \<or> (of_char c :: nat) = 55
        \<or> (of_char c :: nat) = 56 \<or> (of_char c :: nat) = 57"
      using that unfolding is_digit_def by presburger
    then have "c \<in> set ''0123456789''"
      by (auto simp: of_char_eq_iff [symmetric, where 'a = nat])
    then show ?thesis by (auto simp: number_chars_def)
  qed
  then have "set (nat_digits n) \<subseteq> set number_chars" for n
    using nat_digits_digits [of n] by (auto simp: list_all_iff)
  moreover have "CHR ''-'' \<in> set number_chars" by (simp add: number_chars_def)
  ultimately show ?thesis by (auto simp: int_string_def)
qed

lemma number_text_units:
  assumes "numbers_distinct h"
  shows "number_text h q \<noteq> [] \<and> set (number_text h q) \<subseteq> set (units number_chars)"
proof -
  have "x \<noteq> [] \<and> set x \<subseteq> set number_chars \<Longrightarrow> units x \<noteq> [] \<and> set (units x) \<subseteq> set (units number_chars)" for x
    by (auto simp: units_def)
  then show ?thesis
    using assms int_string_chars [of "\<lfloor>q\<rfloor>"] by (simp add: number_text_def numbers_distinct_def)
qed

lemma number_text_inject:
  assumes "numbers_distinct h" "number_text h q = number_text h q'"
  shows "q = q'"
proof (cases "is_safe_integer (Fin q)")
  case True
  show ?thesis
  proof (cases "is_safe_integer (Fin q')")
    case safe: True
    then have "\<lfloor>q\<rfloor> = \<lfloor>q'\<rfloor>" using assms True by (simp add: number_text_def units_inject int_string_inject)
    moreover have "of_int \<lfloor>q\<rfloor> = q" "of_int \<lfloor>q'\<rfloor> = q'"
      using True safe by (simp_all add: is_safe_integer_def is_integral_def)
    ultimately show ?thesis by metis
  next
    case False
    with assms True show ?thesis by (auto simp: number_text_def units_inject numbers_distinct_def) metis
  qed
next
  case False
  with assms show ?thesis
    by (cases "is_safe_integer (Fin q')") (auto simp: number_text_def units_inject numbers_distinct_def)
qed

definition stops :: "jsstr \<Rightarrow> bool" where
  "stops r = (case r of [] \<Rightarrow> True | u # _ \<Rightarrow> u \<in> {0x2c, 0x5d, 0x7d})"

lemma stop_not_number: "u \<in> {0x2c, 0x5d, 0x7d} \<Longrightarrow> u \<notin> set (units number_chars)"
  by (auto simp: units_def number_chars_def)

lemma takeWhile_number:
  assumes "numbers_distinct h" "stops r"
  shows "takeWhile (\<lambda>u. u \<in> set (units number_chars)) (number_text h q @ r) = number_text h q"
proof -
  have "takeWhile (\<lambda>u. u \<in> set (units number_chars)) r = []"
    using assms(2) stop_not_number by (auto simp: stops_def split: list.splits)
  then show ?thesis using number_text_units [OF assms(1), of q] by (subst takeWhile_append2) auto
qed

lemma number_text_prefix:
  assumes "numbers_distinct h" "stops r" "stops r'" "number_text h q @ r = number_text h q' @ r'"
  shows "q = q' \<and> r = r'"
proof -
  have "number_text h q = number_text h q'"
    using takeWhile_number [OF assms(1,2), of q] takeWhile_number [OF assms(1,3), of q'] assms(4) by simp
  with number_text_inject [OF assms(1)] assms(4) show ?thesis by auto
qed

lemma insort_key_map: "insort_key fst (map_prod (\<lambda>k. k) f x) (map (map_prod (\<lambda>k. k) f) xs)
    = map (map_prod (\<lambda>k. k) f) (insort_key fst x xs)"
  by (induction xs) auto

lemma sort_members: "sort_key fst (sorted_members ms) = sorted_members (sort_key fst ms)"
  by (induction ms) (simp_all add: insort_key_map)

lemma read_slot_sorted: "read_slot s = Some v \<Longrightarrow> s = Data True v"
  by (auto simp: read_slot_def split: slot.splits bool.splits)

lemma json_head:
  assumes "numbers_distinct h" "jcs_text h v = Some t"
  shows "t \<noteq> [] \<and> (case v of VNull \<Rightarrow> hd t = 110 | VBool b \<Rightarrow> hd t = (if b then 116 else 102)
    | VStr _ \<Rightarrow> hd t = 0x22 | VNum _ \<Rightarrow> hd t \<in> set (units number_chars) | VArr _ _ _ \<Rightarrow> hd t = 0x5b
    | VObj _ _ _ \<Rightarrow> hd t = 0x7b | _ \<Rightarrow> False)"
proof (cases v)
  case (VNum x)
  with assms obtain q where q: "t = number_text h q" by (auto simp: jcs_text_simps split: jsnum.splits)
  have "t \<noteq> []" "set t \<subseteq> set (units number_chars)" unfolding q using number_text_units [OF assms(1)] by blast+
  then show ?thesis by (cases t) (auto simp: VNum)
qed (use assms(2) in \<open>auto simp: jcs_text_simps jcs_string_text json_quote_def units_def split: if_splits\<close>)

lemma number_head: "u \<in> set (units number_chars) \<Longrightarrow> u \<notin> {110, 116, 102, 0x22, 0x5b, 0x7b, 0x2c, 0x5d, 0x7d}"
  by (auto simp: units_def number_chars_def)

definition head_class :: "jsv \<Rightarrow> nat" where
  "head_class v = (case v of VNull \<Rightarrow> 1 | VBool b \<Rightarrow> if b then 2 else 3 | VStr _ \<Rightarrow> 4 | VNum _ \<Rightarrow> 5
     | VArr _ _ _ \<Rightarrow> 6 | VObj _ _ _ \<Rightarrow> 7 | _ \<Rightarrow> 0)"

lemma same_head_class:
  assumes "numbers_distinct h" "jcs_text h v = Some t" "jcs_text h w = Some t'" "t @ r = t' @ r'"
  shows "head_class v = head_class w"
proof -
  from json_head [OF assms(1,2)] json_head [OF assms(1,3)] assms(4) have "hd t = hd t'"
    by (cases t; cases t') auto
  with json_head [OF assms(1,2)] json_head [OF assms(1,3)] show ?thesis
    by (cases v; cases w) (auto simp: head_class_def dest: number_head split: if_splits)
qed

lemma json_head_not_stop:
  assumes "numbers_distinct h" "jcs_text h v = Some t"
  shows "t \<noteq> [] \<and> hd t \<notin> {0x2c, 0x5d, 0x7d}"
  using json_head [OF assms] by (cases v) (auto dest: number_head split: if_splits)

definition same_sorted :: "jsv \<Rightarrow> jsv \<Rightarrow> bool" where
  "same_sorted v w \<longleftrightarrow> sorted_value v = sorted_value w"

lemma no_extra_keys: "own_keys items extra = length items + 1 \<Longrightarrow> items_text h later items \<noteq> None \<Longrightarrow> extra = 0"
proof -
  have "items_text h later ss \<noteq> None \<Longrightarrow> \<forall>s \<in> set ss. s \<noteq> Hole" for later ss
  proof (induction ss arbitrary: later)
    case (Cons s ss)
    then show ?case
      by (auto simp: items_text_simps read_slot_def split: option.splits slot.splits bool.splits)
  qed simp
  then show "own_keys items extra = length items + 1 \<Longrightarrow> items_text h later items \<noteq> None \<Longrightarrow> extra = 0"
    by (auto simp: own_keys_def)
qed

lemma text_determines:
  assumes h: "numbers_distinct h"
  shows "jcs_text h v = Some t \<Longrightarrow> jcs_text h w = Some t' \<Longrightarrow> t @ r = t' @ r' \<Longrightarrow> stops r \<Longrightarrow> stops r'
      \<Longrightarrow> sorted_value v = sorted_value w \<and> r = r'"
    and "items_text h later ss = Some t \<Longrightarrow> items_text h later ss' = Some t' \<Longrightarrow> t @ 0x5d # r = t' @ 0x5d # r'
      \<Longrightarrow> sorted_slots ss = sorted_slots ss' \<and> r = r'"
    and "members_text h later ms = Some t \<Longrightarrow> members_text h later ms' = Some t' \<Longrightarrow> t @ 0x7d # r = t' @ 0x7d # r'
      \<Longrightarrow> sorted_members ms = sorted_members ms' \<and> r = r'"
  using h
proof (induction h v and h later ss and h later ms
    arbitrary: w t t' r r' and ss' t t' r r' and ms' t t' r r' rule: jcs_encode_jcs_items_jcs_members.induct)
  case (1 h item)
  have c: "head_class item = head_class w" using same_head_class "1.prems" by blast
  show ?case
  proof (cases item)
    case (VArr plain items extra)
    then obtain items' plain' extra' where w: "w = VArr plain' items' extra'"
      using c by (cases w) (auto simp: head_class_def split: if_splits)
    from "1.prems"(1,2) obtain u u' where u: "plain" "plain'" "items_text h False items = Some u"
      "items_text h False items' = Some u'" "t = units ''['' @ u @ units '']''" "t' = units ''['' @ u' @ units '']''"
      "own_keys items extra = length items + 1" "own_keys items' extra' = length items' + 1"
      by (auto simp: VArr w jcs_text_simps split: if_splits)
    have "extra = 0" "extra' = 0" using no_extra_keys u by blast+
    moreover have "u @ 0x5d # r = u' @ 0x5d # r'" using "1.prems"(3) u by (simp add: units_def)
    ultimately show ?thesis
      using "1.IH"(1) [OF _ VArr _ u(3,4) _ "1.prems"(6), of r r'] u by (simp add: VArr w jcs_scalar_def)
  next
    case (VObj plain ms symbols)
    then obtain plain' ms' symbols' where w: "w = VObj plain' ms' symbols'"
      using c by (cases w) (auto simp: head_class_def split: if_splits)
    from "1.prems"(1,2) obtain u u' where u: "plain" "plain'" "\<not> symbols" "\<not> symbols'"
      "members_text h False (sort_key fst ms) = Some u" "members_text h False (sort_key fst ms') = Some u'"
      "t = units ''{'' @ u @ units ''}''" "t' = units ''{'' @ u' @ units ''}''"
      by (auto simp: VObj w jcs_text_simps split: if_splits)
    have "u @ 0x7d # r = u' @ 0x7d # r'" using "1.prems"(3) u by (simp add: units_def)
    then show ?thesis
      using "1.IH"(2) [OF _ VObj _ u(5,6) _ "1.prems"(6), of r r'] u
      by (simp add: VObj w jcs_scalar_def sort_members)
  next
    case (VNum x)
    then obtain y where w: "w = VNum y"
      using c by (cases w) (auto simp: head_class_def split: if_splits)
    from "1.prems"(1,2) obtain q q' where "x = Fin q" "y = Fin q'" "t = number_text h q" "t' = number_text h q'"
      by (auto simp: VNum w jcs_text_simps split: jsnum.splits)
    with number_text_prefix [OF "1.prems"(6,4,5)] "1.prems"(3) show ?thesis by (simp add: VNum w)
  next
    case (VStr s)
    then obtain s' where w: "w = VStr s'"
      using c by (cases w) (auto simp: head_class_def split: if_splits)
    with "1.prems" json_quote_prefix [of s r s' r'] show ?thesis
      by (auto simp: VStr jcs_text_simps jcs_string_text split: if_splits)
  qed (use c "1.prems" in \<open>cases w; auto simp: head_class_def jcs_text_simps split: if_splits\<close>)+
next
  case (2 h later)
  show ?case
  proof (cases ss')
    case (Cons s ss)
    with "2.prems"(2) obtain v u where u: "read_slot s = Some v" "jcs_text h v = Some u"
      by (auto simp: items_text_simps split: option.splits)
    from json_head_not_stop [OF "2.prems"(4) u(2)] "2.prems" u Cons show ?thesis
      by (cases u) (auto simp: items_text_simps comma_def units_def split: if_splits)
  qed (use "2.prems" in \<open>simp add: items_text_simps\<close>)
next
  case (3 h later s ss)
  obtain v t1 where v: "read_slot s = Some v" "jcs_text h v = Some t1"
    using "3.prems"(1) by (auto simp: items_text_simps split: option.splits)
  then obtain cs where cs: "jcs_encode h v = Some cs" by (auto simp: jcs_text_def)
  obtain r1 where r1: "items_text h True ss = Some r1" "t = comma later @ t1 @ r1"
    using "3.prems"(1) by (auto simp: items_text_simps v)
  show ?case
  proof (cases ss')
    case Nil
    from json_head_not_stop [OF "3.prems"(4) v(2)] "3.prems" Nil r1 show ?thesis
      by (cases t1) (auto simp: items_text_simps comma_def units_def split: if_splits)
  next
    case (Cons s' tl')
    obtain v' t1' where v': "read_slot s' = Some v'" "jcs_text h v' = Some t1'"
      using "3.prems"(2) Cons by (auto simp: items_text_simps split: option.splits)
    obtain r1' where r1': "items_text h True tl' = Some r1'" "t' = comma later @ t1' @ r1'"
      using "3.prems"(2) Cons by (auto simp: items_text_simps v')
    have stop: "stops (x @ 0x5d # y)" if "items_text h True zs = Some x" for x y zs
      using that by (cases zs) (auto simp: items_text_simps stops_def comma_def units_def split: option.splits)
    have "sorted_value v = sorted_value v' \<and> r1 @ 0x5d # r = r1' @ 0x5d # r'"
      by (rule "3.IH"(1) [OF v(1) v(2) v'(2)])
         (use "3.prems"(3,4) r1 r1' stop in auto)
    moreover from this have "sorted_slots ss = sorted_slots tl' \<and> r = r'"
      using "3.IH"(2) [OF v(1) cs r1(1) r1'(1)] "3.prems"(4) by blast
    ultimately show ?thesis
      using read_slot_sorted [OF v(1)] read_slot_sorted [OF v'(1)] Cons by simp
  qed
next
  case (4 h later)
  show ?case
  proof (cases ms')
    case (Cons m ms)
    with "4.prems" show ?thesis
      by (cases m) (auto simp: members_text_simps comma_def units_def jcs_string_text json_quote_def
          split: option.splits if_splits)
  qed (use "4.prems" in \<open>simp add: members_text_simps\<close>)
next
  case (5 h later k s ms)
  obtain q v t1 where v: "jcs_string h k = Some q" "read_slot s = Some v" "jcs_text h v = Some t1"
    using "5.prems"(1) by (auto simp: members_text_simps split: option.splits)
  then obtain cs where cs: "jcs_encode h v = Some cs" by (auto simp: jcs_text_def)
  obtain r1 where r1: "members_text h True ms = Some r1" "t = comma later @ q @ units '':'' @ t1 @ r1"
    using "5.prems"(1) by (auto simp: members_text_simps v)
  show ?case
  proof (cases ms')
    case Nil
    with "5.prems" r1 v(1) show ?thesis
      by (auto simp: members_text_simps comma_def units_def jcs_string_text json_quote_def split: if_splits)
  next
    case (Cons m' tl')
    obtain k' s' where m': "m' = (k', s')" by force
    obtain q' v' t1' where v': "jcs_string h k' = Some q'" "read_slot s' = Some v'" "jcs_text h v' = Some t1'"
      using "5.prems"(2) Cons m' by (auto simp: members_text_simps split: option.splits)
    obtain r1' where r1': "members_text h True tl' = Some r1'" "t' = comma later @ q' @ units '':'' @ t1' @ r1'"
      using "5.prems"(2) Cons m' by (auto simp: members_text_simps v')
    have q: "q = json_quote k" "isWellFormed k" "q' = json_quote k'" "isWellFormed k'"
      using v(1) v'(1) by (auto simp: jcs_string_text split: if_splits)
    have "k = k' \<and> units '':'' @ t1 @ r1 @ 0x7d # r = units '':'' @ t1' @ r1' @ 0x7d # r'"
      by (rule json_quote_prefix) (use "5.prems"(3) r1 r1' q in auto)
    then have k: "k = k'" "t1 @ r1 @ 0x7d # r = t1' @ r1' @ 0x7d # r'" by auto
    have stop: "stops (x @ 0x7d # y)" if "members_text h True zs = Some x" for x y zs
      using that by (cases zs) (auto simp: members_text_simps stops_def comma_def units_def split: option.splits)
    have "sorted_value v = sorted_value v' \<and> r1 @ 0x7d # r = r1' @ 0x7d # r'"
      by (rule "5.IH"(1) [OF v(1,2) v(3) v'(3)]) (use "5.prems"(4) k r1 r1' stop in auto)
    moreover from this have "sorted_members ms = sorted_members tl' \<and> r = r'"
      using "5.IH"(2) [OF v(1,2) cs r1(1) r1'(1)] "5.prems"(4) by blast
    ultimately show ?thesis
      using read_slot_sorted [OF v(2)] read_slot_sorted [OF v'(2)] Cons m' k by simp
  qed
qed

lemma sorted_twice: "sort_key fst (sort_key fst xs :: ('a::linorder \<times> 'b) list) = sort_key fst xs"
  by (rule sort_key_id_if_sorted) simp

lemma read_sorted_slot: "read_slot (map_slot f s) = map_option f (read_slot s)"
  by (cases s) (auto simp: read_slot_def split: bool.splits)

lemma own_keys_sorted: "own_keys (map (map_slot f) items) extra = own_keys items extra"
proof -
  have "map_slot f s \<noteq> Hole \<longleftrightarrow> s \<noteq> Hole" for s by (cases s) auto
  then show ?thesis by (simp add: own_keys_def filter_map comp_def)
qed

lemma sorted_same_text:
  "jcs_text h (sorted_value v) = jcs_text h v"
  "items_text h later (sorted_slots ss) = items_text h later ss"
  "members_text h later (sorted_members ms) = members_text h later ms"
proof (induction h v and h later ss and h later ms rule: jcs_encode_jcs_items_jcs_members.induct)
  case (1 h item)
  show ?case
  proof (cases item)
    case (VArr plain items extra)
    with "1.IH"(1) [OF _ VArr] show ?thesis
      by (auto simp: jcs_text_simps own_keys_sorted jcs_scalar_def)
  next
    case (VObj plain ms symbols)
    with "1.IH"(2) [OF _ VObj] show ?thesis
      by (auto simp: jcs_text_simps jcs_scalar_def sort_members [symmetric] sorted_twice)
  qed auto
next
  case (3 h later s ss)
  show ?case
  proof (cases "read_slot s")
    case (Some v)
    show ?thesis
      by (cases "jcs_encode h v")
         (auto simp: sequenced_text(3) read_sorted_slot Some "3.IH"(1) [OF Some] "3.IH"(2) [OF Some] jcs_text_def [of h v]
            then_text_def)
  qed (simp add: sequenced_text read_sorted_slot)
next
  case (5 h later k s ms)
  show ?case
  proof (cases "jcs_string h k")
    case q: (Some q)
    show ?thesis
    proof (cases "read_slot s")
      case (Some v)
      show ?thesis
        by (cases "jcs_encode h v")
           (auto simp: sequenced_text(4) read_sorted_slot q Some "5.IH"(1) [OF q Some] "5.IH"(2) [OF q Some] jcs_text_def [of h v]
              then_text_def)
    qed (simp add: sequenced_text read_sorted_slot q)
  qed (simp add: sequenced_text then_text_def)
qed simp_all

lemma jcs_unbounded: "jcs h v None = (case jcs_text h v of Some t \<Rightarrow> Inr t | None \<Rightarrow> Inl Invalid_jcs_input)"
  by (simp add: jcs_def jcs_text_def split: option.splits)

lemma jcs_bounded:
  assumes "0 \<le> n" "n \<le> max_safe_integer"
  shows "\<exists>r. emits (nat n) \<lparr>o_bytes = 0, o_chunks = []\<rparr> r (jcs_text h v)
    \<and> jcs h v (Some (num_of_int n)) = ebind r (\<lambda>out. Inr (concat (o_chunks out)))"
proof -
  have "jcs h v (Some (num_of_int n))
      = ebind (bounded_encode h (nat n) v \<lparr>o_bytes = 0, o_chunks = []\<rparr>) (\<lambda>out. Inr (concat (o_chunks out)))"
    using assms by (simp add: jcs_def)
  moreover have "emits (nat n) \<lparr>o_bytes = 0, o_chunks = []\<rparr>
      (bounded_encode h (nat n) v \<lparr>o_bytes = 0, o_chunks = []\<rparr>) (jcs_text h v)"
    by (rule bounded_emits) simp
  ultimately show ?thesis by blast
qed

section \<open>Properties\<close>

text \<open>
  C13. The three encoders are one. Whenever the synchronous encoder accepts a value, the chunks of the
  incremental one join to the same text, \<open>canonicalJson\<close> prints it too, and the bounded encoder returns
  it exactly when its UTF-8 length is within the budget, reporting the budget otherwise. Whenever it
  refuses a value, the other two refuse it as well.
\<close>

theorem encoders_agree:
  assumes "0 \<le> n" "n \<le> max_safe_integer"
  shows "case jcs h v None of
      Inr t \<Rightarrow> map_option concat (jcsChunks h v) = Some t \<and> canonicalJson h v = Some t
        \<and> jcs h v (Some (num_of_int n))
            = (if int (utf8_length t) \<le> n then Inr t else Inl Byte_limit_exceeded)
    | Inl e \<Rightarrow> e = Invalid_jcs_input \<and> jcsChunks h v = None \<and> isl (jcs h v (Some (num_of_int n)))"
proof -
  obtain r where r: "emits (nat n) \<lparr>o_bytes = 0, o_chunks = []\<rparr> r (jcs_text h v)"
    "jcs h v (Some (num_of_int n)) = ebind r (\<lambda>out. Inr (concat (o_chunks out)))"
    using jcs_bounded [OF assms] by blast
  show ?thesis
  proof (cases "jcs_text h v")
    case None
    then show ?thesis using r chunks_text(1) [of h v] by (cases r) (auto simp: jcs_unbounded emits_def)
  next
    case (Some t)
    have b: "jcs h v (Some (num_of_int n)) = (if int (utf8_length t) \<le> n then Inr t else Inl Byte_limit_exceeded)"
      using r Some assms(1) by (cases r) (auto simp: emits_def nat_le_iff le_nat_iff split: if_splits)
    show ?thesis using chunks_text(1) [of h v] canonical_items_text(1) [OF Some]
      by (simp add: jcs_unbounded Some b)
  qed
qed

text \<open>
  C12. The text is canonical: of two accepted values, the texts are equal exactly when the values are
  equal up to the order in which the members of their objects were written.
\<close>

theorem text_is_canonical:
  assumes "numbers_distinct h" "jcs h v None = Inr t"
  shows "jcs h w None = Inr t \<longleftrightarrow> sorted_value w = sorted_value v"
proof
  assume "jcs h w None = Inr t"
  with assms(2) have "jcs_text h w = Some t" "jcs_text h v = Some t"
    by (simp_all add: jcs_unbounded split: option.splits)
  from text_determines(1) [OF assms(1) this, of "[]" "[]"] show "sorted_value w = sorted_value v"
    by (simp add: stops_def)
next
  assume "sorted_value w = sorted_value v"
  then have "jcs_text h w = jcs_text h v" by (metis sorted_same_text(1))
  with assms(2) show "jcs h w None = Inr t" by (simp add: jcs_unbounded)
qed

section \<open>Witnesses\<close>

text \<open>A host whose unsafe numbers print as a fraction between two exponent marks.\<close>

definition fraction_host :: js_host where
  "fraction_host = \<lparr>num_text = (\<lambda>q. ''e'' @ int_string (fst (quotient_of q)) @ ''e'' @ int_string (snd (quotient_of q))),
     has_isWellFormed = True\<rparr>"

lemma int_string_no_e: "CHR ''e'' \<notin> set (int_string i)"
proof -
  have "\<not> is_digit CHR ''e''" by (simp add: is_digit_def)
  then have "CHR ''e'' \<notin> set (nat_digits n)" for n
    using nat_digits_digits [of n] by (auto simp: list_all_iff)
  then show ?thesis by (auto simp: int_string_def)
qed

lemma fraction_host_distinct: "numbers_distinct fraction_host"
proof -
  have e: "CHR ''e'' \<in> set number_chars" by (simp add: number_chars_def)
  have inj: "q = q'" if "num_text fraction_host q = num_text fraction_host q'" for q q'
  proof -
    have "\<forall>x\<in>set (int_string (fst (quotient_of q))). x \<noteq> CHR ''e''"
      "\<forall>x\<in>set (int_string (fst (quotient_of q'))). x \<noteq> CHR ''e''"
      using int_string_no_e by (auto simp del: not_None_eq)
    then have "takeWhile (\<lambda>c. c \<noteq> CHR ''e'') (tl (num_text fraction_host q)) = int_string (fst (quotient_of q))"
      "takeWhile (\<lambda>c. c \<noteq> CHR ''e'') (tl (num_text fraction_host q')) = int_string (fst (quotient_of q'))"
      by (simp_all add: fraction_host_def takeWhile_append2)
    then have f: "fst (quotient_of q) = fst (quotient_of q')" using that by (metis int_string_inject)
    then have "snd (quotient_of q) = snd (quotient_of q')"
      using that by (simp add: fraction_host_def int_string_inject)
    with f show ?thesis by (metis prod_eq_iff quotient_of_inject)
  qed
  have "num_text fraction_host q \<noteq> int_string i" for q i
    using int_string_no_e [of i] by (simp add: fraction_host_def) (metis list.set_intros(1))
  moreover have "set (num_text fraction_host q) \<subseteq> set number_chars" for q
    using int_string_chars e by (auto simp: fraction_host_def)
  ultimately show ?thesis
    using inj unfolding numbers_distinct_def by (auto simp: fraction_host_def)
qed

definition written_ba :: jsv where
  "written_ba = VObj True [(units ''b'', Data True (VBool True)), (units ''a'', Data True (VStr [10, 0x20ac]))] False"

definition written_ab :: jsv where
  "written_ab = VObj True [(units ''a'', Data True (VStr [10, 0x20ac])), (units ''b'', Data True (VBool True))] False"

definition ba_text :: jsstr where
  "ba_text = units ''{\"a\":\"'' @ [0x5c, 110, 0x20ac] @ units ''\",\"b\":true}''"

lemma written_ba_text: "jcs fraction_host written_ba None = Inr ba_text"
proof -
  have s: "sort_key fst [(units ''b'', Data True (VBool True)), (units ''a'', Data True (VStr [10, 0x20ac]))]
      = [(units ''a'', Data True (VStr [10, 0x20ac])), (units ''b'', Data True (VBool True))]"
    by (simp add: units_def)
  have q: "jcs_string fraction_host [10, 0x20ac] = Some [0x22, 0x5c, 110, 0x20ac, 0x22]"
    "jcs_string fraction_host (units ''a'') = Some (units ''\"a\"'')"
    "jcs_string fraction_host (units ''b'') = Some (units ''\"b\"'')"
    by (simp_all add: jcs_string_text json_quote_def escaped_def escape_point_def escape_unit_def is_high_def
        is_low_def units_def)
  have "jcs_text fraction_host written_ba = Some (units ''{'' @ units ''\"a\"'' @ units '':'' @ [0x22, 0x5c, 110, 0x20ac, 0x22]
      @ units '','' @ units ''\"b\"'' @ units '':'' @ units ''true'' @ units ''}'')"
    unfolding written_ba_def jcs_text_simps s by (simp add: members_text_simps read_slot_def q jcs_text_simps comma_def)
  then show ?thesis by (simp add: jcs_unbounded ba_text_def units_def)
qed

lemma ba_text_length: "utf8_length ba_text = 22"
  by (simp add: ba_text_def utf8_length_def point_bytes_def code_point_def is_high_def units_def)

lemma encoders_agree_witness:
  "(0::int) \<le> 21 \<and> (21::int) \<le> max_safe_integer
   \<and> jcs fraction_host written_ba (Some (num_of_int 21)) = Inl Byte_limit_exceeded"
proof -
  have "(0::int) \<le> 21" "(21::int) \<le> max_safe_integer" by (simp_all add: max_safe_integer_def)
  with encoders_agree [OF this, of fraction_host written_ba] show ?thesis
    by (simp add: written_ba_text ba_text_length)
qed

lemma text_is_canonical_witness:
  "numbers_distinct fraction_host \<and> jcs fraction_host written_ba None = Inr ba_text
   \<and> jcs fraction_host written_ab None = Inr ba_text"
proof -
  have "sorted_value written_ab = sorted_value written_ba"
    by (simp add: written_ab_def written_ba_def units_def)
  then have "jcs fraction_host written_ab None = Inr ba_text"
    by (simp add: text_is_canonical [OF fraction_host_distinct written_ba_text, of written_ab])
  with fraction_host_distinct written_ba_text show ?thesis by blast
qed

end
