(* ===== verification/IntegrityFacts.thy ===== *)
theory IntegrityFacts imports Integrity JcsProps begin

text \<open>
  The digest chain: a digest is the hash of one canonical text however it was fed, what is prepared
  verifies, and what a verified chain says about its rows.
\<close>

section \<open>Feeding the hash\<close>

lemma chunks_wf:
  "jcs_encode h v = Some cs \<Longrightarrow> list_all isWellFormed cs"
  "jcs_items h later ss = Some cs \<Longrightarrow> list_all isWellFormed cs"
  "jcs_members h later ms = Some cs \<Longrightarrow> list_all isWellFormed cs"
proof (induction h v and h later ss and h later ms arbitrary: cs and cs and cs
    rule: jcs_encode_jcs_items_jcs_members.induct)
  case (1 h item)
  show ?case
  proof (cases item)
    case (VArr plain items extra)
    then show ?thesis using "1.IH"(1) [OF _ VArr] "1.prems"
      by (auto simp: jcs_encode.simps jcs_scalar_def split: if_splits)
  next
    case (VObj plain ms symbols)
    then show ?thesis using "1.IH"(2) [OF _ VObj] "1.prems"
      by (auto simp: jcs_encode.simps jcs_scalar_def split: if_splits)
  qed (use "1.prems" in \<open>auto simp: jcs_encode.simps jcs_scalar_def number_text_def dest: jcs_string_wf
      split: if_splits jsnum.splits\<close>)
next
  case (3 h later s ss)
  then show ?case by (auto split: option.splits if_splits)
next
  case (5 h later k s ms)
  then show ?case
    by (auto split: option.splits if_splits simp: isWellFormed_append dest!: jcs_string_wf)
qed auto

lemma chunk_string_wf: "chunk_string h s = Some ts \<Longrightarrow> list_all isWellFormed ts"
proof -
  assume "chunk_string h s = Some ts"
  moreover have "2 \<le> CHUNK_UNITS" by (simp add: CHUNK_UNITS_def)
  ultimately show ?thesis
    by (auto simp: chunk_string_def jcs_string_text [abs_def] those_map list_all_iff escaped_wf
        split: if_splits)
qed

lemma tokens_wf:
  "jcsChunks h v = Some cs \<Longrightarrow> list_all isWellFormed cs"
  "chunk_items h later ss = Some cs \<Longrightarrow> list_all isWellFormed cs"
  "chunk_members h later ms = Some cs \<Longrightarrow> list_all isWellFormed cs"
proof (induction h v and h later ss and h later ms arbitrary: cs and cs and cs
    rule: jcsChunks_chunk_items_chunk_members.induct)
  case (1 h item)
  show ?case
  proof (cases item)
    case (VArr plain items extra)
    then show ?thesis using "1.IH" "1.prems"
      by (auto simp: jcsChunks.simps chunk_scalar_def split: if_splits)
  next
    case (VObj plain ms symbols)
    then show ?thesis using "1.IH" "1.prems"
      by (auto simp: jcsChunks.simps chunk_scalar_def split: if_splits)
  qed (use "1.prems" in \<open>auto simp: jcsChunks.simps chunk_scalar_def number_text_def dest: chunk_string_wf
      split: if_splits jsnum.splits\<close>)
next
  case (3 h later s ss)
  then show ?case by (auto split: option.splits if_splits)
next
  case (5 h later k s ms)
  then show ?case by (auto split: option.splits if_splits dest!: chunk_string_wf)
qed auto

text \<open>A hash fed with well-formed pieces of a text, some of it pending.\<close>

definition fed :: "jsstr \<Rightarrow> sha_stream \<times> jsstr \<Rightarrow> bool" where
  "fed text st \<longleftrightarrow> isWellFormed (snd st) \<and>
     (\<exists>ps. fst st = foldl sha_update createSha256 ps \<and> list_all isWellFormed ps \<and> concat ps @ snd st = text)"

lemma fed_start: "fed [] (createSha256, [])"
  unfolding fed_def by (auto intro: exI [of _ "[]"])

lemma fed_update:
  assumes "fed text (hash, pending)" "list_all isWellFormed qs"
  shows "fed (text @ concat qs) (foldl sha_update (if pending \<noteq> [] then sha_update hash pending else hash) qs, [])"
proof -
  obtain ps where ps: "hash = foldl sha_update createSha256 ps" "list_all isWellFormed ps" "concat ps @ pending = text"
    "isWellFormed pending" using assms(1) by (auto simp: fed_def)
  show ?thesis
  proof (cases "pending = []")
    case True
    with ps assms(2) show ?thesis unfolding fed_def by (auto intro!: exI [of _ "ps @ qs"])
  next
    case False
    with ps assms(2) show ?thesis unfolding fed_def by (auto intro!: exI [of _ "ps @ pending # qs"])
  qed
qed

lemma fed_pending:
  assumes "fed text (hash, pending)" "isWellFormed chunk"
  shows "fed (text @ chunk) (hash, pending @ chunk)"
  using assms unfolding fed_def by (auto simp: isWellFormed_append)

lemma fed_flush: "fed text (hash, pending) \<Longrightarrow> fed text (sha_update hash pending, [])"
proof -
  assume "fed text (hash, pending)"
  then obtain ps where "hash = foldl sha_update createSha256 ps" "list_all isWellFormed ps" "concat ps @ pending = text"
    "isWellFormed pending" by (auto simp: fed_def)
  then show ?thesis unfolding fed_def by (auto intro!: exI [of _ "ps @ [pending]"])
qed

lemma feed_chunk_fed:
  assumes "fed text st" "isWellFormed chunk"
  shows "fed (text @ chunk) (feed_chunk st chunk)"
proof -
  obtain hash pending where st: "st = (hash, pending)" by force
  have c: "2 \<le> SLICE_CHARS" by (simp add: SLICE_CHARS_def)
  have "fed (text @ concat (slices SLICE_CHARS chunk))
      (updateSliced (if pending \<noteq> [] then sha_update hash pending else hash) chunk, [])"
    unfolding updateSliced_def using assms by (intro fed_update) (simp_all add: st slices_wf [OF c])
  moreover have "fed (text @ chunk) (hash, pending @ chunk)" using assms by (simp add: st fed_pending)
  ultimately show ?thesis
    by (auto simp: feed_chunk_def st Let_def concat_slices [OF c] intro: fed_flush)
qed

lemma feed_token_fed: "fed text st \<Longrightarrow> isWellFormed t \<Longrightarrow> fed (text @ t) (feed_token st t)"
  by (cases st) (auto simp: feed_token_def Let_def intro: fed_flush fed_pending)

lemma feed_all:
  assumes "\<And>tx st t. fed tx st \<Longrightarrow> isWellFormed t \<Longrightarrow> fed (tx @ t) (f st t)"
  shows "fed tx st \<Longrightarrow> list_all isWellFormed ts \<Longrightarrow> fed (tx @ concat ts) (foldl f st ts)"
proof (induction ts arbitrary: tx st)
  case (Cons t ts)
  then show ?case using Cons.IH [of "tx @ t" "f st t"] assms by simp
qed simp

lemma fed_end:
  assumes "fed text (hash, pending)"
  shows "digestHex (if pending \<noteq> [] then sha_update hash pending else hash) = sha256Hex text"
    and "sha_total (if pending \<noteq> [] then sha_update hash pending else hash) = utf8_length text"
proof -
  let ?s = "if pending \<noteq> [] then sha_update hash pending else hash"
  have "fed (text @ concat []) (foldl sha_update ?s [], [])" using fed_update [OF assms, of "[]"] by simp
  then obtain ps where ps: "?s = foldl sha_update createSha256 ps" "list_all isWellFormed ps" "concat ps = text"
    by (auto simp: fed_def)
  show "digestHex ?s = sha256Hex text"
    unfolding ps(1) stream_digest using ps by (auto simp: sha256Hex_def utf8_concat)
  show "sha_total ?s = utf8_length text"
    unfolding ps(1) sha_updates using utf8_concat [OF ps(2)] ps(3)
    by (simp add: createSha256_def utf8_length_bytes [symmetric])
qed

lemma digestCanonical_text:
  "digestCanonical h v = (case jcs_text h v of None \<Rightarrow> None
     | Some t \<Rightarrow> map_option (\<lambda>d. (d, utf8_length t)) (sha256Hex t))"
proof (cases "jcs_encode h v")
  case (Some cs)
  have "fed (concat cs) (foldl feed_chunk (createSha256, []) cs)"
    using feed_all [where f = feed_chunk, OF feed_chunk_fed fed_start chunks_wf(1) [OF Some]] by simp
  then show ?thesis
    by (cases "foldl feed_chunk (createSha256, []) cs")
       (simp add: digestCanonical_def jcs_text_def Some fed_end [simplified] Let_def)
qed (simp add: digestCanonical_def jcs_text_def)

lemma tokens_digest:
  assumes "jcsChunks h v = Some ts" "foldl feed_token (createSha256, []) ts = (hash, pending)"
  shows "\<exists>t. jcs_text h v = Some t
    \<and> digestHex (if pending \<noteq> [] then sha_update hash pending else hash) = sha256Hex t"
proof -
  have "fed (concat ts) (hash, pending)"
    using feed_all [where f = feed_token, OF feed_token_fed fed_start tokens_wf(1) [OF assms(1)]] assms(2) by simp
  moreover have "jcs_text h v = Some (concat ts)" using chunks_text(1) [of h v] assms(1) by simp
  ultimately show ?thesis using fed_end(1) by blast
qed

section \<open>Comparing digests\<close>

lemma xor_zero: "x XOR y = 0 \<longleftrightarrow> x = (y :: 32 word)"
  by (auto simp: bit_eq_iff bit_xor_iff)

lemma or_fold_zero:
  "foldl (\<lambda>d (x, y). d OR (of_char x XOR of_char y)) d zs = (0 :: 32 word)
    \<longleftrightarrow> d = 0 \<and> list_all (\<lambda>(x, y). (of_char x :: 32 word) = of_char y) zs"
  by (induction zs arbitrary: d) (auto simp: or_eq_0_iff xor_zero split: prod.splits)

lemma of_char_inject32: "(of_char c :: 32 word) = of_char d \<longleftrightarrow> c = d"
proof
  assume eq: "(of_char c :: 32 word) = of_char d"
  have u: "unat (of_char x :: 32 word) = of_char x" for x
  proof -
    have "(of_char x :: nat) < 256" by (rule nat_of_char_less_256)
    then have "(of_char x :: nat) < 4294967296" by linarith
    then have "(of_char x :: nat) mod 4294967296 = of_char x" by (rule mod_less)
    then show ?thesis
      unfolding of_nat_of_char [symmetric, where 'a = "32 word"] by (simp add: unat_of_nat del: of_nat_of_char)
  qed
  have "(of_char c :: nat) = of_char d" using arg_cong [OF eq, of unat] by (simp add: u)
  then show "c = d" by simp
qed simp

lemma sameDigest_eq [simp]: "sameDigest a b \<longleftrightarrow> a = b"
proof -
  have "list_all (\<lambda>(x, y). x = y) (zip a b) \<longleftrightarrow> a = b" if "length a = length b"
    using that by (induction a b rule: list_induct2) auto
  then show ?thesis unfolding sameDigest_def or_fold_zero by (auto simp: of_char_inject32)
qed

end
