(* ===== verification/IntegrityProps.thy ===== *)
theory IntegrityProps imports IntegrityFacts begin

text \<open>
  What the digest chain promises: rows prepared by this program verify, two histories that verify to
  the same head are the same history unless the hash collided, and hashing a row in turns decides as
  hashing it at once.
\<close>

section \<open>What is hashed\<close>

definition row_text :: "js_host \<Rightarrow> integrity_state \<Rightarrow> integrity_row \<Rightarrow> jsstr option" where
  "row_text h st row =
     (case ir_integrity row of
        None \<Rightarrow> None
      | Some m \<Rightarrow> jcs_text h (cooperative_value st row m))"

definition digest_of :: "js_host \<Rightarrow> jsv \<Rightarrow> string option" where
  "digest_of h v = (case jcs_text h v of None \<Rightarrow> None | Some t \<Rightarrow> sha256Hex t)"

lemma digestCanonical_digest: "map_option fst (digestCanonical h v) = digest_of h v"
  by (auto simp: digestCanonical_text digest_of_def option.map_comp comp_def option.map_ident split: option.splits)

lemma digest_of_hex64: "digest_of h v = Some d \<Longrightarrow> hex64 d"
  by (auto simp: digest_of_def sha256Hex_def intro: sha256_bytes_hex64 split: option.splits)

text \<open>A row that verifies, by what it is.\<close>

lemma verify_row_legacy:
  assumes "ir_integrity row = None"
  shows "verify_row h hash st row = Inr st' \<longleftrightarrow>
    e_seq (ir_event row) = is_lastSeq st + 1 \<and> is_headDigest st = None \<and>
    st' = \<lparr>is_lastSeq = e_seq (ir_event row), is_legacyThroughSeq = e_seq (ir_event row), is_headDigest = None\<rparr>"
  using assms by (auto simp: verify_row_def Let_def integrity_fail_def throw_def)

definition row_position :: "integrity_state \<Rightarrow> integrity_metadata \<Rightarrow> bool" where
  "row_position st m \<longleftrightarrow>
     (if im_mode m = ''anchor'' then is_headDigest st = None \<and> im_previousDigest m = None
      else im_mode m = ''chain'' \<and> is_headDigest st \<noteq> None \<and> im_previousDigest m = is_headDigest st
           \<and> hex64 (the (is_headDigest st)))"

lemma expected_digest_Inr:
  "expected_digest h hash st row m = Inr d \<longleftrightarrow>
     row_position st m \<and> (if hash then digest_of h (cooperative_value st row m) = Some d else d = '''')"
proof -
  have a: "map_option fst (anchorDigest h k l e) = digest_of h (anchor_value k l e)" for k l e
    by (simp add: anchorDigest_def digestCanonical_digest)
  have c: "map_option fst (chainDigest h k p e) = digest_of h (chain_value k p e)" for k p e
    by (simp add: chainDigest_def digestCanonical_digest)
  show ?thesis
  proof (cases "im_mode m = ''anchor''")
    case True
    then show ?thesis
      by (auto simp: expected_digest_def row_position_def cooperative_value_def integrity_fail_def throw_def
          a [symmetric] split: option.splits)
  next
    case False
    then show ?thesis
      by (cases "is_headDigest st"; cases "im_previousDigest m")
         (auto simp: expected_digest_def row_position_def cooperative_value_def integrity_fail_def throw_def
            c [symmetric] split: option.splits)
  qed
qed

lemma verify_row_protected:
  assumes "ir_integrity row = Some m"
  shows "verify_row h hash st row = Inr st' \<longleftrightarrow>
    e_seq (ir_event row) = is_lastSeq st + 1 \<and> hex64 (im_digest m) \<and> row_position st m \<and>
    (hash \<longrightarrow> digest_of h (cooperative_value st row m) = Some (im_digest m)) \<and>
    st' = st\<lparr>is_lastSeq := e_seq (ir_event row), is_headDigest := Some (im_digest m)\<rparr>"
proof -
  have "verify_row h hash st row = Inr st' \<longleftrightarrow>
      e_seq (ir_event row) = is_lastSeq st + 1 \<and> hex64 (im_digest m) \<and>
      (\<exists>d. expected_digest h hash st row m = Inr d \<and> (hash \<longrightarrow> im_digest m = d)) \<and>
      st' = st\<lparr>is_lastSeq := e_seq (ir_event row), is_headDigest := Some (im_digest m)\<rparr>"
    using assms by (auto simp: verify_row_def Let_def integrity_fail_def throw_def rbind_eq_Inr_iff split: if_splits)
  then show ?thesis by (auto simp: expected_digest_Inr split: if_splits)
qed

section \<open>Prepared rows verify\<close>

definition rows_of :: "string \<Rightarrow> event list \<Rightarrow> (int \<times> integrity_metadata) list \<Rightarrow> integrity_row list" where
  "rows_of key es entries =
     map2 (\<lambda>e (_, m). \<lparr>ir_sessionKey = key, ir_event = e, ir_integrity = Some m\<rparr>) es entries"

definition head_ok :: "integrity_state \<Rightarrow> bool" where
  "head_ok st \<longleftrightarrow> (case is_headDigest st of None \<Rightarrow> True | Some d \<Rightarrow> hex64 d)"

lemma next_integrity_position:
  assumes "next_integrity h key st e = Inr (m, n)" "head_ok st"
  shows "hex64 (im_digest m)" "row_position st m"
    "digest_of h (cooperative_value st \<lparr>ir_sessionKey = key, ir_event = e, ir_integrity = Some m\<rparr> m) = Some (im_digest m)"
proof -
  have "hex64 (im_digest m) \<and> row_position st m \<and>
    digest_of h (cooperative_value st \<lparr>ir_sessionKey = key, ir_event = e, ir_integrity = Some m\<rparr> m) = Some (im_digest m)"
  proof (cases "is_headDigest st")
    case None
    with assms(1) obtain d where d: "anchorDigest h key (is_legacyThroughSeq st) e = Some (d, n)"
      "m = \<lparr>im_mode = ''anchor'', im_previousDigest = None, im_digest = d\<rparr>"
      by (auto simp: next_integrity_def split: option.splits)
    then have "digest_of h (anchor_value key (is_legacyThroughSeq st) e) = Some d"
      using digestCanonical_digest [of h "anchor_value key (is_legacyThroughSeq st) e"] by (simp add: anchorDigest_def)
    with d(2) None digest_of_hex64 show ?thesis by (auto simp: row_position_def cooperative_value_def)
  next
    case (Some head)
    with assms(1) obtain d where d: "chainDigest h key head e = Some (d, n)"
      "m = \<lparr>im_mode = ''chain'', im_previousDigest = Some head, im_digest = d\<rparr>"
      by (auto simp: next_integrity_def split: option.splits)
    then have "digest_of h (chain_value key head e) = Some d"
      using digestCanonical_digest [of h "chain_value key head e"] by (simp add: chainDigest_def)
    with d(2) Some assms(2) digest_of_hex64 show ?thesis
      by (auto simp: row_position_def cooperative_value_def head_ok_def)
  qed
  then show "hex64 (im_digest m)" "row_position st m"
    "digest_of h (cooperative_value st \<lparr>ir_sessionKey = key, ir_event = e, ir_integrity = Some m\<rparr> m) = Some (im_digest m)"
    by simp_all
qed

lemma prepared_verify:
  assumes "prepareIntegrity h key es st = Inr (entries, st', n)" "head_ok st"
  shows "verifyIntegrityRows h True (rows_of key es entries) st = Inr st' \<and> map fst entries = map e_seq es \<and> head_ok st'"
  using assms
proof (induction es arbitrary: st entries st' n)
  case Nil
  then show ?case by (simp add: rows_of_def)
next
  case (Cons e es)
  then obtain m n1 entries1 n2 where p: "e_seq e = is_lastSeq st + 1" "next_integrity h key st e = Inr (m, n1)"
    "prepareIntegrity h key es (st\<lparr>is_lastSeq := e_seq e, is_headDigest := Some (im_digest m)\<rparr>) = Inr (entries1, st', n2)"
    "entries = (e_seq e, m) # entries1"
    by (auto simp: integrity_fail_def throw_def rbind_eq_Inr_iff split: if_splits prod.splits)
  let ?st = "st\<lparr>is_lastSeq := e_seq e, is_headDigest := Some (im_digest m)\<rparr>"
  let ?row = "\<lparr>ir_sessionKey = key, ir_event = e, ir_integrity = Some m\<rparr>"
  note pos = next_integrity_position [OF p(2) Cons.prems(2)]
  have "verify_row h True st ?row = Inr ?st"
    using verify_row_protected [of ?row m h True st ?st] pos p(1) by simp
  moreover have "head_ok ?st" using pos(1) by (simp add: head_ok_def)
  ultimately show ?case using Cons.IH [OF p(3)] by (simp add: p(4) rows_of_def)
qed

section \<open>What a hashed text fixes\<close>

text \<open>The values a member list gives a key.\<close>

definition member_values :: "string \<Rightarrow> (jsstr \<times> jsv slot) list \<Rightarrow> jsv slot set" where
  "member_values k ms = {s. (units k, s) \<in> set ms}"

lemma member_values_append: "member_values k (xs @ ys) = member_values k xs \<union> member_values k ys"
  by (auto simp: member_values_def)

lemma member_values_Nil: "member_values k [] = {}"
  by (simp add: member_values_def)

lemma member_values_Cons: "member_values k (member_of k' v # ms) =
    (if k = k' then {Data True v} else {}) \<union> member_values k ms"
  by (auto simp: member_values_def member_of_def units_inject)

lemma member_values_optional: "member_values k (optional_member k' v) =
    (if k = k' then Data True ` set_option v else {})"
  by (cases v) (auto simp: optional_member_def member_values_Cons member_values_Nil)

lemmas member_values_simps = member_values_append member_values_Nil member_values_Cons member_values_optional

lemma sorted_member_of: "map_prod (\<lambda>k. k) (map_slot sorted_value) (member_of k v) = member_of k (sorted_value v)"
  by (simp add: member_of_def)

lemma sorted_optional: "sorted_members (optional_member k v) = optional_member k (map_option sorted_value v)"
  by (cases v) (simp_all add: optional_member_def sorted_member_of)

lemma sorted_same_members:
  assumes "sorted_value (VObj True ms False) = sorted_value (VObj True ms' False)"
  shows "member_values k (sorted_members ms) = member_values k (sorted_members ms')"
proof -
  have "sort_key fst (sorted_members ms) = sort_key fst (sorted_members ms')" using assms by simp
  then have "set (sorted_members ms) = set (sorted_members ms')" by (metis set_sort)
  then show ?thesis by (simp add: member_values_def)
qed

definition same_json :: "json \<Rightarrow> json \<Rightarrow> bool" where
  "same_json x y \<longleftrightarrow> sorted_value (wide x) = sorted_value (wide y)"

text \<open>Two rows that differ at most in the order of members in their payload, actor and surface operation.\<close>

definition same_event :: "event \<Rightarrow> event \<Rightarrow> bool" where
  "same_event e e' \<longleftrightarrow>
     e_seq e = e_seq e' \<and> e_ts e = e_ts e' \<and> e_id e = e_id e' \<and> e_type e = e_type e' \<and> e_origin e = e_origin e'
     \<and> e_trusted e = e_trusted e' \<and> e_lane e = e_lane e' \<and> e_v e = e_v e' \<and> e_register e = e_register e'
     \<and> e_ignorable e = e_ignorable e' \<and> e_sourceEventSeqs e = e_sourceEventSeqs e'
     \<and> same_json (e_data e) (e_data e') \<and> same_json (e_actor e) (e_actor e')
     \<and> rel_option same_json (e_surfaceOp e) (e_surfaceOp e')"

lemma int_value_inject: "int_value m = int_value n \<longleftrightarrow> m = n"
  by (simp add: int_value_def num_of_int_def)

lemma sorted_int_value [simp]: "sorted_value (int_value n) = int_value n"
  by (simp add: int_value_def)

lemma Data_option_inject: "Data True ` set_option x = Data True ` set_option y \<longleftrightarrow> x = y"
  by (cases x; cases y) auto

lemma map_value_inject:
  assumes "\<And>x y. f x = f y \<Longrightarrow> x = y"
  shows "map_option f a = map_option f b \<longleftrightarrow> a = b"
  using assms by (cases a; cases b) auto

definition event_members :: "event \<Rightarrow> (jsstr \<times> jsv slot) list" where
  "event_members e =
     optional_member ''lane'' (map_option (VStr \<circ> units) (e_lane e)) @
     optional_member ''v'' (map_option int_value (e_v e)) @
     [member_of ''type'' (VStr (units (e_type e))), member_of ''data'' (sorted_value (wide (e_data e))),
      member_of ''actor'' (sorted_value (wide (e_actor e))), member_of ''origin'' (VStr (units (e_origin e))),
      member_of ''trust'' (VStr (units (if e_trusted e then ''trusted'' else ''untrusted'')))] @
     optional_member ''register'' (map_option (VStr \<circ> units) (e_register e)) @
     optional_member ''ignorable'' (if e_ignorable e then Some (VBool True) else None) @
     optional_member ''surfaceOp'' (map_option (sorted_value \<circ> wide) (e_surfaceOp e)) @
     optional_member ''sourceEventSeqs''
       (map_option (\<lambda>ns. VArr True (map (\<lambda>n. Data True (int_value n)) ns) 0) (e_sourceEventSeqs e)) @
     [member_of ''ts'' (VStr (units (e_ts e))), member_of ''id'' (VStr (units (e_id e))),
      member_of ''seq'' (int_value (e_seq e))]"

lemma sorted_event_value: "sorted_value (event_value e) = VObj True (sort_key fst (event_members e)) False"
  by (simp add: event_value_def event_members_def sorted_member_of sorted_optional option.map_comp comp_def
      if_distrib [of "map_option sorted_value"] cong: if_cong)

lemma event_member_values:
  "member_values ''type'' (event_members e) = {Data True (VStr (units (e_type e)))}"
  "member_values ''ts'' (event_members e) = {Data True (VStr (units (e_ts e)))}"
  "member_values ''id'' (event_members e) = {Data True (VStr (units (e_id e)))}"
  "member_values ''origin'' (event_members e) = {Data True (VStr (units (e_origin e)))}"
  "member_values ''seq'' (event_members e) = {Data True (int_value (e_seq e))}"
  "member_values ''trust'' (event_members e) = {Data True (VStr (units (if e_trusted e then ''trusted'' else ''untrusted'')))}"
  "member_values ''data'' (event_members e) = {Data True (sorted_value (wide (e_data e)))}"
  "member_values ''actor'' (event_members e) = {Data True (sorted_value (wide (e_actor e)))}"
  "member_values ''lane'' (event_members e) = Data True ` set_option (map_option (VStr \<circ> units) (e_lane e))"
  "member_values ''register'' (event_members e) = Data True ` set_option (map_option (VStr \<circ> units) (e_register e))"
  "member_values ''v'' (event_members e) = Data True ` set_option (map_option int_value (e_v e))"
  "member_values ''ignorable'' (event_members e) = Data True ` set_option (if e_ignorable e then Some (VBool True) else None)"
  "member_values ''surfaceOp'' (event_members e)
     = Data True ` set_option (map_option (sorted_value \<circ> wide) (e_surfaceOp e))"
  "member_values ''sourceEventSeqs'' (event_members e) = Data True ` set_option
     (map_option (\<lambda>ns. VArr True (map (\<lambda>n. Data True (int_value n)) ns) 0) (e_sourceEventSeqs e))"
  unfolding event_members_def member_values_simps by simp_all

lemma event_value_same:
  assumes "sorted_value (event_value e) = sorted_value (event_value e')"
  shows "same_event e e'"
proof -
  have "sort_key fst (event_members e) = sort_key fst (event_members e')"
    using assms unfolding sorted_event_value by (rule jsv.inject(5) [THEN iffD1, THEN conjunct2, THEN conjunct1])
  from arg_cong [OF this, of set] have "set (event_members e) = set (event_members e')"
    by (simp only: set_sort)
  then have mv: "member_values k (event_members e) = member_values k (event_members e')" for k
    by (simp only: member_values_def)
  note mv = mv [of "''type''"] mv [of "''ts''"] mv [of "''id''"] mv [of "''origin''"] mv [of "''seq''"]
    mv [of "''trust''"] mv [of "''data''"] mv [of "''actor''"] mv [of "''lane''"] mv [of "''register''"]
    mv [of "''v''"] mv [of "''ignorable''"] mv [of "''surfaceOp''"] mv [of "''sourceEventSeqs''"]
  note mv = mv [unfolded event_member_values Data_option_inject]
  have i: "VArr True (map (\<lambda>n. Data True (int_value n)) ns) 0 = VArr True (map (\<lambda>n. Data True (int_value n)) ns') 0
      \<Longrightarrow> ns = ns'" for ns ns'
    by (simp add: inj_map_eq_map [of "\<lambda>n. Data True (int_value n)"] inj_def int_value_inject)
  have u: "(VStr \<circ> units) x = (VStr \<circ> units) y \<Longrightarrow> x = y" for x y by (simp add: units_inject)
  have "e_type e = e_type e'" "e_ts e = e_ts e'" "e_id e = e_id e'" "e_origin e = e_origin e'" "e_seq e = e_seq e'"
    using mv(1-5) by (simp_all add: units_inject int_value_inject)
  moreover have "e_trusted e = e_trusted e'" using mv(6) by (simp add: units_inject split: if_splits)
  moreover have "same_json (e_data e) (e_data e')" "same_json (e_actor e) (e_actor e')"
    using mv(7,8) by (simp_all add: same_json_def)
  moreover have "e_lane e = e_lane e'" "e_register e = e_register e'"
    using mv(9,10) by (simp_all only: map_value_inject [OF u])
  moreover have "e_v e = e_v e'" using mv(11) by (simp only: map_value_inject [of int_value, OF int_value_inject [THEN iffD1]])
  moreover have "e_ignorable e = e_ignorable e'" using mv(12) by (simp split: if_splits)
  moreover have "rel_option same_json (e_surfaceOp e) (e_surfaceOp e')"
    using mv(13) by (cases "e_surfaceOp e"; cases "e_surfaceOp e'") (simp_all add: same_json_def)
  moreover have "e_sourceEventSeqs e = e_sourceEventSeqs e'" using mv(14) by (simp only: map_value_inject [OF i])
  ultimately show ?thesis by (simp add: same_event_def)
qed

definition same_protected :: "integrity_row \<Rightarrow> integrity_row \<Rightarrow> bool" where
  "same_protected r r' \<longleftrightarrow>
     ir_sessionKey r = ir_sessionKey r' \<and> same_event (ir_event r) (ir_event r') \<and> ir_integrity r = ir_integrity r'"

lemma same_hashed_value:
  assumes "sorted_value (cooperative_value st r m) = sorted_value (cooperative_value st' r' m')"
    and "row_position st m" "row_position st' m'"
  shows "ir_sessionKey r = ir_sessionKey r'" "same_event (ir_event r) (ir_event r')"
    "im_mode m = im_mode m'" "im_previousDigest m = im_previousDigest m'"
    "im_mode m = ''anchor'' \<Longrightarrow> is_legacyThroughSeq st = is_legacyThroughSeq st'"
proof -
  note ms = member_values_simps
  have inv: "\<And>ms. sorted_value (VObj True ms False) = VObj True (sort_key fst (sorted_members ms)) False" by simp
  have "ir_sessionKey r = ir_sessionKey r' \<and> same_event (ir_event r) (ir_event r') \<and>
    im_mode m = im_mode m' \<and> im_previousDigest m = im_previousDigest m' \<and>
    (im_mode m = ''anchor'' \<longrightarrow> is_legacyThroughSeq st = is_legacyThroughSeq st')"
  proof (cases "im_mode m = ''anchor''")
    case True
    show ?thesis
    proof (cases "im_mode m' = ''anchor''")
      case a': True
      have v: "sorted_value (anchor_value (ir_sessionKey r) (is_legacyThroughSeq st) (ir_event r))
          = sorted_value (anchor_value (ir_sessionKey r') (is_legacyThroughSeq st') (ir_event r'))"
        using assms(1) True a' by (simp add: cooperative_value_def)
      note mv = sorted_same_members [OF v [unfolded anchor_value_def]]
      have "ir_sessionKey r = ir_sessionKey r'"
        using mv [of "''sessionKey''"] by (simp add: sorted_member_of ms units_inject)
      moreover have "is_legacyThroughSeq st = is_legacyThroughSeq st'"
        using mv [of "''legacyThroughSeq''"] by (simp add: sorted_member_of ms int_value_inject)
      moreover have "sorted_value (event_value (ir_event r)) = sorted_value (event_value (ir_event r'))"
        using mv [of "''event''"] by (simp add: sorted_member_of ms)
      ultimately show ?thesis using True a' assms(2,3) event_value_same by (simp add: row_position_def)
    next
      case False
      have v: "sorted_value (anchor_value (ir_sessionKey r) (is_legacyThroughSeq st) (ir_event r))
          = sorted_value (chain_value (ir_sessionKey r') (the (im_previousDigest m')) (ir_event r'))"
        using assms(1) True False by (simp add: cooperative_value_def)
      show ?thesis
        using sorted_same_members [OF v [unfolded anchor_value_def chain_value_def], of "''previousDigest''"]
        by (simp add: sorted_member_of ms)
    qed
  next
    case False
    show ?thesis
    proof (cases "im_mode m' = ''anchor''")
      case True
      have v: "sorted_value (chain_value (ir_sessionKey r) (the (im_previousDigest m)) (ir_event r))
          = sorted_value (anchor_value (ir_sessionKey r') (is_legacyThroughSeq st') (ir_event r'))"
        using assms(1) True False by (simp add: cooperative_value_def)
      show ?thesis
        using sorted_same_members [OF v [unfolded anchor_value_def chain_value_def], of "''previousDigest''"]
        by (simp add: sorted_member_of ms)
    next
      case c': False
      have v: "sorted_value (chain_value (ir_sessionKey r) (the (im_previousDigest m)) (ir_event r))
          = sorted_value (chain_value (ir_sessionKey r') (the (im_previousDigest m')) (ir_event r'))"
        using assms(1) False c' by (simp add: cooperative_value_def)
      note mv = sorted_same_members [OF v [unfolded chain_value_def]]
      have "ir_sessionKey r = ir_sessionKey r'"
        using mv [of "''sessionKey''"] by (simp add: sorted_member_of ms units_inject)
      moreover have "the (im_previousDigest m) = the (im_previousDigest m')"
        using mv [of "''previousDigest''"] by (simp add: sorted_member_of ms units_inject)
      moreover have "sorted_value (event_value (ir_event r)) = sorted_value (event_value (ir_event r'))"
        using mv [of "''event''"] by (simp add: sorted_member_of ms)
      ultimately show ?thesis using False c' assms(2,3) event_value_same by (auto simp: row_position_def)
    qed
  qed
  then show "ir_sessionKey r = ir_sessionKey r'" "same_event (ir_event r) (ir_event r')"
    "im_mode m = im_mode m'" "im_previousDigest m = im_previousDigest m'"
    "im_mode m = ''anchor'' \<Longrightarrow> is_legacyThroughSeq st = is_legacyThroughSeq st'" by auto
qed

section \<open>Two histories with one head\<close>

abbreviation protected_rows :: "integrity_row list \<Rightarrow> integrity_row list" where
  "protected_rows \<equiv> filter (\<lambda>r. ir_integrity r \<noteq> None)"

text \<open>The canonical texts hashed while rows are verified.\<close>

fun hashed_texts :: "js_host \<Rightarrow> integrity_state \<Rightarrow> integrity_row list \<Rightarrow> jsstr list" where
  "hashed_texts h st [] = []"
| "hashed_texts h st (r # rs) =
     (case row_text h st r of None \<Rightarrow> [] | Some t \<Rightarrow> [t]) @
     (case verify_row h True st r of Inl _ \<Rightarrow> [] | Inr st' \<Rightarrow> hashed_texts h st' rs)"

lemma verify_append:
  "verifyIntegrityRows h hash (rs @ rs') st = rbind (verifyIntegrityRows h hash rs st) (verifyIntegrityRows h hash rs')"
proof (induction rs arbitrary: st)
  case (Cons r rs)
  then show ?case by (cases "verify_row h hash st r") simp_all
qed simp

lemma hashed_append:
  "verifyIntegrityRows h True rs st = Inr st' \<Longrightarrow>
   hashed_texts h st (rs @ rs') = hashed_texts h st rs @ hashed_texts h st' rs'"
proof (induction rs arbitrary: st)
  case (Cons r rs)
  then show ?case by (cases "verify_row h True st r") simp_all
qed simp

lemma headless_unprotected:
  "verifyIntegrityRows h hash rs st = Inr st' \<Longrightarrow> is_headDigest st' = None \<Longrightarrow> protected_rows rs = []"
proof (induction rs arbitrary: st' rule: rev_induct)
  case (snoc r rs)
  then obtain s where s: "verifyIntegrityRows h hash rs st = Inr s" "verify_row h hash s r = Inr st'"
    by (auto simp: verify_append rbind_eq_Inr_iff)
  have r: "ir_integrity r = None"
    using s(2) snoc.prems(2) by (cases "ir_integrity r") (auto simp: verify_row_protected)
  with s(2) have "is_headDigest s = None" by (simp add: verify_row_legacy)
  with snoc.IH [OF s(1)] r show ?case by simp
qed simp

lemma last_protected:
  assumes "verifyIntegrityRows h True rs EMPTY_STATE = Inr st" "is_headDigest st = Some d"
  obtains rs0 r m s where "rs = rs0 @ [r]" "ir_integrity r = Some m" "im_digest m = d"
    "verifyIntegrityRows h True rs0 EMPTY_STATE = Inr s" "verify_row h True s r = Inr st" "row_position s m"
    "digest_of h (cooperative_value s r m) = Some d" "is_legacyThroughSeq s = is_legacyThroughSeq st"
proof (cases rs rule: rev_cases)
  case Nil
  with assms show ?thesis by (auto simp: EMPTY_STATE_def)
next
  case (snoc rs0 r)
  with assms(1) obtain s where s: "verifyIntegrityRows h True rs0 EMPTY_STATE = Inr s" "verify_row h True s r = Inr st"
    by (auto simp: verify_append rbind_eq_Inr_iff)
  obtain m where m: "ir_integrity r = Some m"
    using s(2) assms(2) by (cases "ir_integrity r") (auto simp: verify_row_legacy)
  show ?thesis using that [OF snoc m _ s] s(2) assms(2) by (simp add: verify_row_protected [OF m])
qed

text \<open>Two different texts, one of each list, with one digest.\<close>

definition collision :: "jsstr list \<Rightarrow> jsstr list \<Rightarrow> bool" where
  "collision ts us \<longleftrightarrow> (\<exists>t \<in> set ts. \<exists>u \<in> set us. t \<noteq> u \<and> sha256Hex t = sha256Hex u \<and> sha256Hex t \<noteq> None)"

lemma collision_mono: "collision ts us \<Longrightarrow> collision (ts @ ts') (us @ us')"
  by (auto simp: collision_def)

lemma same_head_same_history:
  assumes "numbers_distinct h"
  shows "verifyIntegrityRows h True rs EMPTY_STATE = Inr st \<Longrightarrow> verifyIntegrityRows h True rs' EMPTY_STATE = Inr st'
    \<Longrightarrow> is_headDigest st = Some d \<Longrightarrow> is_headDigest st' = Some d
    \<Longrightarrow> collision (hashed_texts h EMPTY_STATE rs) (hashed_texts h EMPTY_STATE rs')
      \<or> list_all2 same_protected (protected_rows rs) (protected_rows rs')
        \<and> is_legacyThroughSeq st = is_legacyThroughSeq st'"
proof (induction "length rs" arbitrary: rs rs' st st' d rule: less_induct)
  case less
  obtain rs0 r m s where 1: "rs = rs0 @ [r]" "ir_integrity r = Some m" "im_digest m = d"
    "verifyIntegrityRows h True rs0 EMPTY_STATE = Inr s" "verify_row h True s r = Inr st" "row_position s m"
    "digest_of h (cooperative_value s r m) = Some d" "is_legacyThroughSeq s = is_legacyThroughSeq st"
    by (rule last_protected [OF less.prems(1,3)])
  obtain rs0' r' m' s' where 2: "rs' = rs0' @ [r']" "ir_integrity r' = Some m'" "im_digest m' = d"
    "verifyIntegrityRows h True rs0' EMPTY_STATE = Inr s'" "verify_row h True s' r' = Inr st'" "row_position s' m'"
    "digest_of h (cooperative_value s' r' m') = Some d" "is_legacyThroughSeq s' = is_legacyThroughSeq st'"
    by (rule last_protected [OF less.prems(2,4)])
  obtain t where t: "jcs_text h (cooperative_value s r m) = Some t" "sha256Hex t = Some d"
    using 1(7) by (auto simp: digest_of_def split: option.splits)
  obtain t' where t': "jcs_text h (cooperative_value s' r' m') = Some t'" "sha256Hex t' = Some d"
    using 2(7) by (auto simp: digest_of_def split: option.splits)
  have texts: "hashed_texts h EMPTY_STATE rs = hashed_texts h EMPTY_STATE rs0 @ [t]"
    "hashed_texts h EMPTY_STATE rs' = hashed_texts h EMPTY_STATE rs0' @ [t']"
    using t t' 1 2 by (simp_all add: hashed_append row_text_def)
  show ?case
  proof (cases "t = t'")
    case False
    then have "collision (hashed_texts h EMPTY_STATE rs) (hashed_texts h EMPTY_STATE rs')"
      using t(2) t'(2) by (auto simp: collision_def texts)
    then show ?thesis by blast
  next
    case True
    have "sorted_value (cooperative_value s r m) = sorted_value (cooperative_value s' r' m')"
      using text_determines(1) [OF assms t(1) t'(1), of "[]" "[]"] True by (simp add: stops_def)
    note same = same_hashed_value [OF this 1(6) 2(6)]
    have meta: "m = m'" using same(3,4) 1(3) 2(3) by (cases m; cases m') simp
    have row: "same_protected r r'" using same(1,2) meta 1(2) 2(2) by (simp add: same_protected_def)
    show ?thesis
    proof (cases "is_headDigest s")
      case None
      then have "im_mode m = ''anchor''" using 1(6) by (auto simp: row_position_def split: if_splits)
      with 2(6) meta have "is_headDigest s' = None" by (simp add: row_position_def)
      then have "protected_rows rs0 = []" "protected_rows rs0' = []"
        using headless_unprotected 1(4) 2(4) None by blast+
      moreover have "is_legacyThroughSeq st = is_legacyThroughSeq st'"
        using same(5) \<open>im_mode m = ''anchor''\<close> 1(8) 2(8) by simp
      ultimately show ?thesis using 1(1,2) 2(1,2) row by simp
    next
      case (Some d0)
      then have "im_mode m \<noteq> ''anchor''" "im_previousDigest m = Some d0"
        using 1(6) by (auto simp: row_position_def split: if_splits)
      with 2(6) meta have head': "is_headDigest s' = Some d0" by (simp add: row_position_def)
      have "collision (hashed_texts h EMPTY_STATE rs0) (hashed_texts h EMPTY_STATE rs0')
          \<or> list_all2 same_protected (protected_rows rs0) (protected_rows rs0')
            \<and> is_legacyThroughSeq s = is_legacyThroughSeq s'"
        using less.hyps [OF _ 1(4) 2(4) Some head'] 1(1) by simp
      then show ?thesis
      proof
        assume "collision (hashed_texts h EMPTY_STATE rs0) (hashed_texts h EMPTY_STATE rs0')"
        from collision_mono [OF this] show ?thesis unfolding texts by blast
      next
        assume "list_all2 same_protected (protected_rows rs0) (protected_rows rs0')
            \<and> is_legacyThroughSeq s = is_legacyThroughSeq s'"
        then show ?thesis using 1(1,2,8) 2(1,2,8) row by (auto intro: list_all2_appendI)
      qed
    qed
  qed
qed

section \<open>Hashing in turns\<close>

lemma expected_strict:
  "expected_digest h True st row m =
     rbind (expected_digest h False st row m) (\<lambda>_.
       case digestCanonical h (cooperative_value st row m) of
         None \<Rightarrow> integrity_fail ''stored event cannot be canonicalized'' | Some (d, _) \<Rightarrow> Inr d)"
proof (cases "im_mode m = ''anchor''")
  case True
  then show ?thesis
    by (simp add: expected_digest_def integrity_fail_def throw_def cooperative_value_def anchorDigest_def)
next
  case False
  then show ?thesis
    by (cases "is_headDigest st"; cases "im_previousDigest m")
       (auto simp: expected_digest_def integrity_fail_def throw_def cooperative_value_def chainDigest_def)
qed

lemma verify_row_strict:
  "verify_row h True st row =
     (case ir_integrity row of
        None \<Rightarrow> verify_row h False st row
      | Some m \<Rightarrow> rbind (verify_row h False st row) (\<lambda>st'.
          case digestCanonical h (cooperative_value st row m) of
            None \<Rightarrow> integrity_fail ''stored event cannot be canonicalized''
          | Some (d, _) \<Rightarrow> if im_digest m = d then Inr st' else integrity_fail ''ledger digest mismatch''))"
proof (cases "ir_integrity row")
  case (Some m)
  show ?thesis
  proof (cases "expected_digest h False st row m")
    case (Inl e)
    then show ?thesis
      by (simp add: Some verify_row_def Let_def expected_strict) (simp add: integrity_fail_def throw_def)
  next
    case (Inr x)
    then show ?thesis
      by (cases "digestCanonical h (cooperative_value st row m)")
         (auto simp add: Some verify_row_def Let_def expected_strict integrity_fail_def throw_def)
  qed
qed (simp add: verify_row_def Let_def)

lemma cooperative_row:
  assumes "\<And>m t. ir_integrity row = Some m \<Longrightarrow> jcs_text h (cooperative_value st row m) = Some t \<Longrightarrow> sha256Hex t \<noteq> None"
  shows "verifyIntegrityRowCooperatively h row st = verify_row h True st row"
proof (cases "verify_row h False st row")
  case (Inl e)
  then show ?thesis by (cases "ir_integrity row") (simp_all add: verifyIntegrityRowCooperatively_def verify_row_strict)
next
  case (Inr st')
  show ?thesis
  proof (cases "ir_integrity row")
    case None
    then show ?thesis using Inr by (simp add: verifyIntegrityRowCooperatively_def verify_row_strict)
  next
    case (Some m)
    let ?v = "cooperative_value st row m"
    show ?thesis
    proof (cases "jcsChunks h ?v")
      case None
      then have "jcs_text h ?v = None" using chunks_text(1) [of h ?v] by simp
      then show ?thesis using Inr None
        by (simp add: verifyIntegrityRowCooperatively_def Some verify_row_strict digestCanonical_text)
    next
      case ts: (Some ts)
      obtain hash pending where f: "foldl feed_token (createSha256, []) ts = (hash, pending)" by force
      obtain t where t: "jcs_text h ?v = Some t"
        "digestHex (if pending \<noteq> [] then sha_update hash pending else hash) = sha256Hex t"
        using tokens_digest [OF ts f] by blast
      obtain d where "sha256Hex t = Some d" using assms [OF Some t(1)] by auto
      then show ?thesis using Inr t(2)
        by (simp add: verifyIntegrityRowCooperatively_def Some verify_row_strict digestCanonical_text ts f t(1))
    qed
  qed
qed

end
