(* ===== verification/HistoryVerification.thy ===== *)
theory HistoryVerification imports IntegrityProps LedgerStoreOps begin

text \<open>
  Reading a whole ledger back: \<^verbatim>\<open>verifyLedger\<close> of
  \<^verbatim>\<open>packages/core-ledger/src/log/integrity.ts\<close>, the checkpoint of
  \<^verbatim>\<open>verified-head.ts\<close> and the background rehash of
  \<^verbatim>\<open>history-verification.ts\<close>. The storage is the reader of a page; the clock and the abort
  signal are the argument \<open>interrupt\<close>, which says of every check in turn whether it throws. The loops
  take fuel; one round more than there are rows is enough.
\<close>

section \<open>\<^verbatim>\<open>verifyLedger\<close>\<close>

definition INTEGRITY_PAGE_SIZE :: nat where
  "INTEGRITY_PAGE_SIZE = 500"

definition COLD_TAIL_ROWS :: int where
  "COLD_TAIL_ROWS = 32"

record checkpoint_prefix =
  cp_throughSeq :: int
  cp_headDigest :: string
  cp_legacyThroughSeq :: int

type_synonym row_reader = "int \<Rightarrow> int \<Rightarrow> nat \<Rightarrow> integrity_row list res"

record verify_env =
  ve_host :: js_host
  ve_read :: row_reader
  ve_lastSeq :: int
  ve_checkpoint :: "checkpoint_prefix option"
  ve_foldUntil :: int
  ve_interrupt :: "nat \<Rightarrow> js_error option"

definition checkpoint_state :: "checkpoint_prefix \<Rightarrow> integrity_state" where
  "checkpoint_state c = \<lparr>is_lastSeq = cp_throughSeq c, is_legacyThroughSeq = cp_legacyThroughSeq c,
     is_headDigest = Some (cp_headDigest c)\<rparr>"

text \<open>The rows a checkpoint vouches for: contiguity only.\<close>

fun contiguous :: "int \<Rightarrow> integrity_row list \<Rightarrow> int res" where
  "contiguous pos [] = Inr pos"
| "contiguous pos (r # rs) =
     (if e_seq (ir_event r) \<noteq> pos + 1 then integrity_fail ''ledger sequence is not contiguous''
      else contiguous (e_seq (ir_event r)) rs)"

definition verify_page :: "verify_env \<Rightarrow> integrity_row list \<Rightarrow> integrity_state \<Rightarrow> int \<Rightarrow> (integrity_state \<times> int) res" where
  "verify_page env rows st pos =
     (let folding = pos < ve_foldUntil env in
      case (folding, ve_checkpoint env) of
        (True, Some c) \<Rightarrow> rbind (contiguous pos rows) (\<lambda>pos'.
          Inr (if pos' = ve_foldUntil env
               then checkpoint_state c\<lparr>is_lastSeq := ve_foldUntil env\<rparr> else st, pos'))
      | _ \<Rightarrow> rbind (verifyIntegrityRows (ve_host env) (\<not> folding) rows st) (\<lambda>st'. Inr (st', is_lastSeq st')))"

definition page_overflow :: "integrity_row list \<Rightarrow> int \<Rightarrow> nat \<Rightarrow> bool" where
  "page_overflow rows toSeq limit \<longleftrightarrow>
     length rows > limit \<or> (rows \<noteq> [] \<and> e_seq (ir_event (last rows)) > toSeq)"

fun verify_pages ::
  "nat \<Rightarrow> verify_env \<Rightarrow> ('s \<Rightarrow> event list \<Rightarrow> 's res) \<Rightarrow> nat \<Rightarrow> 's \<Rightarrow> integrity_state \<Rightarrow> int
   \<Rightarrow> ('s \<times> integrity_state res) option" where
  "verify_pages 0 env onPage c s st pos = None"
| "verify_pages (Suc k) env onPage c s st pos =
     (if pos < ve_lastSeq env then
        (case ve_interrupt env c of Some e \<Rightarrow> Some (s, Inl e) | None \<Rightarrow>
         (let toSeq = (if pos < ve_foldUntil env then ve_foldUntil env else ve_lastSeq env) in
          case (case ve_interrupt env (c + 1) of Some e \<Rightarrow> Inl e
                | None \<Rightarrow> ve_read env (pos + 1) toSeq INTEGRITY_PAGE_SIZE) of
            Inl e \<Rightarrow> Some (s, Inl e)
          | Inr rows \<Rightarrow>
              if rows = [] then Some (s, integrity_fail ''ledger ended before advertised sequence'')
              else if page_overflow rows toSeq INTEGRITY_PAGE_SIZE
              then Some (s, integrity_fail ''ledger exceeds advertised page or sequence'')
              else case verify_page env rows st pos of
                Inl e \<Rightarrow> Some (s, Inl e)
              | Inr (st', pos') \<Rightarrow>
                 (case ve_interrupt env (c + 2) of Some e \<Rightarrow> Some (s, Inl e) | None \<Rightarrow>
                  (case onPage s (map ir_event rows) of
                     Inl e \<Rightarrow> Some (s, Inl e)
                   | Inr s' \<Rightarrow>
                      (case ve_interrupt env (c + 3) of Some e \<Rightarrow> Some (s', Inl e)
                       | None \<Rightarrow> verify_pages k env onPage (c + 4) s' st' pos')))))
      else Some (s, if pos \<noteq> ve_lastSeq env \<or> is_lastSeq st \<noteq> ve_lastSeq env
                    then integrity_fail ''ledger exceeds advertised sequence'' else Inr st))"

definition positive_safe :: "jsnum \<Rightarrow> bool" where
  "positive_safe x \<longleftrightarrow> is_safe_integer x \<and> js_lt (num_of_int 0) x"

text \<open>\<open>onPage = None\<close>: no consumer, so the prefix a checkpoint vouches for is not read at all.\<close>

definition verifyLedger ::
  "nat \<Rightarrow> js_host \<Rightarrow> row_reader \<Rightarrow> (nat \<Rightarrow> js_error option) \<Rightarrow> jsnum \<times> jsnum \<Rightarrow> int
   \<Rightarrow> ('s \<Rightarrow> event list \<Rightarrow> 's res) option \<Rightarrow> 's \<Rightarrow> checkpoint_prefix option \<Rightarrow> bool
   \<Rightarrow> ('s \<times> integrity_state res) option" where
  "verifyLedger k h read interrupt timeouts final onPage s checkpoint hashPrefix =
     (let st = (case (checkpoint, onPage) of (Some c, None) \<Rightarrow> checkpoint_state c | _ \<Rightarrow> EMPTY_STATE);
          adopt = (checkpoint = None \<and> \<not> hashPrefix \<and> final > COLD_TAIL_ROWS);
          foldUntil = (case checkpoint of Some c \<Rightarrow> cp_throughSeq c
                       | None \<Rightarrow> if adopt then final - COLD_TAIL_ROWS else 0);
          env = \<lparr>ve_host = h, ve_read = read, ve_lastSeq = final, ve_checkpoint = checkpoint,
                 ve_foldUntil = foldUntil, ve_interrupt = interrupt\<rparr> in
      if \<not> positive_safe (fst timeouts) \<or> \<not> positive_safe (snd timeouts)
      then Some (s, Inl (PlainError ''verification timeouts must be positive safe integers''))
      else case interrupt 0 of
        Some e \<Rightarrow> Some (s, Inl e)
      | None \<Rightarrow> verify_pages k env (case onPage of Some f \<Rightarrow> f | None \<Rightarrow> \<lambda>s _. Inr s) 1 s st (is_lastSeq st))"

section \<open>The checkpoint\<close>

definition VERIFIED_HEAD_ALGORITHM :: string where
  "VERIFIED_HEAD_ALGORITHM = ''agnes-ledger-checkpoint-v1''"

definition verifiedHeadDigest :: "js_host \<Rightarrow> verified_head \<Rightarrow> string option" where
  "verifiedHeadDigest h v =
     (case jcs h (VObj True
        [member_of ''algorithm'' (VStr (units VERIFIED_HEAD_ALGORITHM)),
         member_of ''ledgerAlgorithm'' (VStr (units (vh_algorithm v))),
         member_of ''sessionKey'' (VStr (units (vh_sessionKey v))),
         member_of ''throughSeq'' (int_value (vh_throughSeq v)),
         member_of ''headDigest'' (VStr (units (vh_headDigest v))),
         member_of ''legacyThroughSeq'' (int_value (vh_legacyThroughSeq v)),
         member_of ''verifiedFullAtMs'' (int_value (vh_verifiedFullAtMs v))] False) None of
        Inl _ \<Rightarrow> None | Inr t \<Rightarrow> sha256Hex t)"

definition makeVerifiedHead :: "js_host \<Rightarrow> verified_head \<Rightarrow> verified_head option" where
  "makeVerifiedHead h v = map_option (\<lambda>d. v\<lparr>vh_checkpointDigest := d\<rparr>) (verifiedHeadDigest h v)"

datatype checkpoint_decision = Use_checkpoint verified_head | Skip_checkpoint string

text \<open>The adapter of \<open>LedgerStore\<close> keeps verified heads, so both reads it needs are there.\<close>

definition decideCheckpoint ::
  "js_host \<Rightarrow> 'a ledger_store_scheme \<Rightarrow> string \<Rightarrow> int \<Rightarrow> 'a ledger_store_scheme \<times> checkpoint_decision res" where
  "decideCheckpoint h st key final =
     (case readVerifiedHead st key of
        None \<Rightarrow> (st, Inr (Skip_checkpoint ''absent''))
      | Some head \<Rightarrow>
         if vh_sessionKey head \<noteq> key then (st, Inr (Skip_checkpoint ''absent''))
         else if vh_algorithm head \<noteq> LEDGER_INTEGRITY_ALGORITHM then (st, Inr (Skip_checkpoint ''algorithm''))
         else case verifiedHeadDigest h head of
           None \<Rightarrow> (st, Inl (PlainError ''invalid JCS input''))
         | Some d \<Rightarrow>
            if d \<noteq> vh_checkpointDigest head \<or> \<not> hex64 (vh_headDigest head)
               \<or> \<not> is_safe_integer (num_of_int (vh_legacyThroughSeq head)) \<or> vh_legacyThroughSeq head < 0
               \<or> vh_legacyThroughSeq head \<ge> vh_throughSeq head
            then (st, Inr (Skip_checkpoint ''self-check''))
            else if \<not> is_safe_integer (num_of_int (vh_throughSeq head)) \<or> vh_throughSeq head > final
               \<or> vh_throughSeq head < 1
            then (st, Inr (Skip_checkpoint ''beyond-head''))
            else case integrityDigestAt st key (vh_throughSeq head) of
              (st', Inl e) \<Rightarrow> (st', Inl e)
            | (st', Inr d) \<Rightarrow>
                (st', Inr (if d \<noteq> Some (Some (vh_headDigest head)) then Skip_checkpoint ''row-mismatch''
                           else Use_checkpoint head)))"

definition prefix_of_head :: "verified_head \<Rightarrow> checkpoint_prefix" where
  "prefix_of_head v = \<lparr>cp_throughSeq = vh_throughSeq v, cp_headDigest = vh_headDigest v,
     cp_legacyThroughSeq = vh_legacyThroughSeq v\<rparr>"

text \<open>The reader of one ledger in the store.\<close>

definition store_reader :: "'a ledger_store_scheme \<Rightarrow> string \<Rightarrow> row_reader" where
  "store_reader st key fromSeq toSeq limit =
     snd (scanIntegrity st key fromSeq toSeq (num_of_int (int limit)))"

definition verifyCheckpointHistory ::
  "nat \<Rightarrow> js_host \<Rightarrow> 'a ledger_store_scheme \<Rightarrow> string \<Rightarrow> (nat \<Rightarrow> js_error option) \<Rightarrow> jsnum \<times> jsnum \<Rightarrow> int
   \<Rightarrow> ('s \<Rightarrow> event list \<Rightarrow> 's res) option \<Rightarrow> 's \<Rightarrow> bool
   \<Rightarrow> ('s \<times> (checkpoint_decision \<times> integrity_state) res) option" where
  "verifyCheckpointHistory k h st key interrupt timeouts final onPage s hashPrefix =
     (case decideCheckpoint h st key final of
        (st', r) \<Rightarrow>
          let decision = (case r of Inr d \<Rightarrow> d | Inl _ \<Rightarrow> Skip_checkpoint ''unsupported'');
              checkpoint = (case decision of Use_checkpoint v \<Rightarrow> Some (prefix_of_head v) | _ \<Rightarrow> None) in
          map_option (\<lambda>(s', r). (s', rbind r (\<lambda>state. Inr (decision, state))))
            (verifyLedger k h (store_reader st' key) interrupt timeouts final onPage s checkpoint hashPrefix))"

section \<open>The background rehash\<close>

definition REHASH_PAGE :: nat where
  "REHASH_PAGE = 32"

fun rehash_rows ::
  "js_host \<Rightarrow> (nat \<Rightarrow> js_error option) \<Rightarrow> nat \<Rightarrow> integrity_row list \<Rightarrow> integrity_state \<Rightarrow> nat \<times> integrity_state res" where
  "rehash_rows h interrupt c [] st = (c, Inr st)"
| "rehash_rows h interrupt c (r # rs) st =
     (case verifyIntegrityRowCooperatively h r st of
        Inl e \<Rightarrow> (c, Inl e)
      | Inr st' \<Rightarrow>
         (case interrupt c of Some e \<Rightarrow> (c, Inl e) | None \<Rightarrow> rehash_rows h interrupt (c + 1) rs st'))"

fun rehash_pages ::
  "nat \<Rightarrow> js_host \<Rightarrow> row_reader \<Rightarrow> (nat \<Rightarrow> js_error option) \<Rightarrow> int \<Rightarrow> nat \<Rightarrow> integrity_state \<Rightarrow> integrity_state res option" where
  "rehash_pages 0 h read interrupt throughSeq c st = None"
| "rehash_pages (Suc k) h read interrupt throughSeq c st =
     (if is_lastSeq st < throughSeq then
        (case interrupt c of Some e \<Rightarrow> Some (Inl e) | None \<Rightarrow>
         (case read (is_lastSeq st + 1) throughSeq REHASH_PAGE of
            Inl e \<Rightarrow> Some (Inl e)
          | Inr page \<Rightarrow>
              if page = [] then Some (integrity_fail ''ledger ended before advertised sequence'')
              else if page_overflow page throughSeq REHASH_PAGE
              then Some (integrity_fail ''ledger exceeds advertised page or sequence'')
              else case rehash_rows h interrupt (c + 1) page st of
                (c', Inl e) \<Rightarrow> Some (Inl e)
              | (c', Inr st') \<Rightarrow> rehash_pages k h read interrupt throughSeq c' st'))
      else Some (Inr st))"

definition verifyCheckpointPrefix ::
  "nat \<Rightarrow> js_host \<Rightarrow> row_reader \<Rightarrow> (nat \<Rightarrow> js_error option) \<Rightarrow> integrity_state \<Rightarrow> unit res option" where
  "verifyCheckpointPrefix k h read interrupt head =
     map_option (\<lambda>r. rbind r (\<lambda>st.
       if is_lastSeq st \<noteq> is_lastSeq head \<or> is_headDigest st \<noteq> is_headDigest head
          \<or> is_legacyThroughSeq st \<noteq> is_legacyThroughSeq head
       then integrity_fail ''ledger head differs from its checkpoint'' else Inr ()))
     (rehash_pages k h read interrupt (is_lastSeq head) 0 EMPTY_STATE)"

end
