(* ===== verification/IntegrityClaims.thy ===== *)
theory IntegrityClaims imports IntegrityProps begin

text \<open>
  What holds of the digest chain as a whole: an appended batch verifies, a head digest fixes the
  history, and the background check decides as the strict one.
\<close>

section \<open>How long a canonical text is\<close>

definition slot_weight :: "nat slot \<Rightarrow> nat" where
  "slot_weight s = (case read_slot s of None \<Rightarrow> 0 | Some n \<Rightarrow> n)"

primrec text_bound :: "js_host \<Rightarrow> jsv \<Rightarrow> nat" where
  "text_bound h VUndefined = 0"
| "text_bound h VFunction = 0"
| "text_bound h VBigint = 0"
| "text_bound h VNull = 4"
| "text_bound h (VBool b) = 5"
| "text_bound h (VNum x) = (case x of Fin q \<Rightarrow> length (number_text h q) | _ \<Rightarrow> 0)"
| "text_bound h (VStr s) = 2 + 6 * length s"
| "text_bound h (VArr plain items extra) =
     2 + sum_list (map Suc (map slot_weight (map (map_slot (text_bound h)) items)))"
| "text_bound h (VObj plain ms symbols) =
     2 + sum_list (map (\<lambda>(k, s). 4 + 6 * length k + slot_weight s) (map (map_prod id (map_slot (text_bound h))) ms))"

definition items_bound :: "js_host \<Rightarrow> jsv slot list \<Rightarrow> nat" where
  "items_bound h ss = sum_list (map (\<lambda>s. Suc (case read_slot s of None \<Rightarrow> 0 | Some v \<Rightarrow> text_bound h v)) ss)"

definition members_bound :: "js_host \<Rightarrow> (jsstr \<times> jsv slot) list \<Rightarrow> nat" where
  "members_bound h ms =
     sum_list (map (\<lambda>(k, s). 4 + 6 * length k + (case read_slot s of None \<Rightarrow> 0 | Some v \<Rightarrow> text_bound h v)) ms)"

lemma slot_weight_map: "slot_weight (map_slot f s) = (case read_slot s of None \<Rightarrow> 0 | Some v \<Rightarrow> f v)"
  by (simp add: slot_weight_def read_sorted_slot split: option.splits)

lemma text_bound_nested:
  "text_bound h (VArr plain items extra) = 2 + items_bound h items"
  "text_bound h (VObj plain ms symbols) = 2 + members_bound h ms"
  by (simp_all add: items_bound_def members_bound_def slot_weight_map comp_def case_prod_unfold)

lemma items_bound_simps [simp]:
  "items_bound h [] = 0"
  "items_bound h (s # ss) = 1 + (case read_slot s of None \<Rightarrow> 0 | Some v \<Rightarrow> text_bound h v) + items_bound h ss"
  by (simp_all add: items_bound_def)

lemma members_bound_simps [simp]:
  "members_bound h [] = 0"
  "members_bound h ((k, s) # ms) =
     4 + 6 * length k + (case read_slot s of None \<Rightarrow> 0 | Some v \<Rightarrow> text_bound h v) + members_bound h ms"
  by (simp_all add: members_bound_def)

lemma members_bound_append [simp]: "members_bound h (xs @ ys) = members_bound h xs + members_bound h ys"
  by (simp add: members_bound_def)

lemma sum_list_sort_key: "sum_list (map f (sort_key g xs)) = (sum_list (map f xs) :: nat)"
  by (metis mset_map mset_sort sum_mset_sum_list)

lemma members_bound_sort: "members_bound h (sort_key f ms) = members_bound h ms"
  unfolding members_bound_def by (rule sum_list_sort_key)

lemma units_length [simp]: "length (units s) = length s"
  by (simp add: units_def)

lemma escape_unit_length: "length (escape_unit u) \<le> 6"
  by (simp add: escape_unit_def)

lemma escaped_length: "length (escaped s) \<le> 6 * length s"
proof (induction s rule: points.induct)
  case (2 u)
  show ?case using escape_unit_length [of u] by (simp add: escaped_def escape_point_def)
next
  case (3 u v us)
  then show ?case using escape_unit_length [of u]
    by (auto simp: escaped_def escape_point_def)
qed (simp add: escaped_def)

lemma json_quote_length: "length (json_quote s) \<le> 2 + 6 * length s"
  using escaped_length [of s] by (simp add: json_quote_def)

lemma jcs_string_length: "jcs_string h s = Some t \<Longrightarrow> length t \<le> 2 + 6 * length s"
  using json_quote_length [of s] by (auto simp: jcs_string_text split: if_splits)

lemma comma_length: "length (comma later) \<le> 1"
  by (simp add: comma_def)

lemma text_length:
  "jcs_text h v = Some t \<Longrightarrow> length t \<le> text_bound h v"
  "items_text h later ss = Some t \<Longrightarrow> length t \<le> items_bound h ss"
  "members_text h later ms = Some t \<Longrightarrow> length t \<le> members_bound h ms"
proof (induction h v and h later ss and h later ms arbitrary: t and t and t
    rule: jcs_encode_jcs_items_jcs_members.induct)
  case (1 h item)
  show ?case
  proof (cases item)
    case (VStr s)
    then show ?thesis using "1.prems" jcs_string_length by (auto simp: jcs_text_simps)
  next
    case (VNum x)
    then show ?thesis using "1.prems" by (auto simp: jcs_text_simps split: jsnum.splits)
  next
    case (VArr plain items extra)
    then obtain u where u: "items_text h False items = Some u" "t = units ''['' @ u @ units '']''"
      "plain" "own_keys items extra = length items + 1"
      using "1.prems" by (auto simp: jcs_text_simps split: if_splits)
    have "length u \<le> items_bound h items"
      by (rule "1.IH"(1) [OF _ VArr _ u(1)]) (simp_all add: jcs_scalar_def VArr u)
    then show ?thesis unfolding VArr text_bound_nested by (simp add: u(2))
  next
    case (VObj plain ms symbols)
    then obtain u where u: "members_text h False (sort_key fst ms) = Some u" "t = units ''{'' @ u @ units ''}''"
      "plain" "\<not> symbols"
      using "1.prems" by (auto simp: jcs_text_simps split: if_splits)
    have "length u \<le> members_bound h (sort_key fst ms)"
      by (rule "1.IH"(2) [OF _ VObj _ u(1)]) (simp_all add: jcs_scalar_def VObj u)
    then show ?thesis unfolding VObj text_bound_nested by (simp add: u(2) members_bound_sort)
  qed (use "1.prems" in \<open>auto simp: jcs_text_simps split: if_splits\<close>)
next
  case (3 h later s ss)
  then obtain v u r where u: "read_slot s = Some v" "jcs_text h v = Some u" "items_text h True ss = Some r"
    "t = comma later @ u @ r" by (auto simp: items_text_simps split: option.splits)
  have "length u \<le> text_bound h v" "length r \<le> items_bound h ss"
    using "3.IH"(1) [OF u(1,2)] "3.IH"(2) [OF u(1) _ u(3)] u(2) by (auto simp: jcs_text_def)
  then show ?case using comma_length [of later] by (simp add: u)
next
  case (5 h later k s ms)
  then obtain q v u r where u: "jcs_string h k = Some q" "read_slot s = Some v" "jcs_text h v = Some u"
    "members_text h True ms = Some r" "t = comma later @ q @ units '':'' @ u @ r"
    by (auto simp: members_text_simps split: option.splits)
  have "length u \<le> text_bound h v" "length r \<le> members_bound h ms"
    using "5.IH"(1) [OF u(1,2,3)] "5.IH"(2) [OF u(1,2) _ u(4)] u(3) by (auto simp: jcs_text_def)
  then show ?case using comma_length [of later] jcs_string_length [OF u(1)] by (simp add: u)
qed (auto simp: items_text_simps members_text_simps)

lemma utf8_length_le: "utf8_length s \<le> 3 * length s"
proof (induction s rule: points.induct)
  case (2 u)
  have "code_point [u] < 0x10000" using uint_lt2p [of u] by (simp add: code_point_def)
  then show ?case by (simp add: utf8_length_def point_bytes_def Let_def)
next
  case (3 u v us)
  have "code_point [u] < 0x10000" using uint_lt2p [of u] by (simp add: code_point_def)
  then have "point_bytes [u] \<le> 3" "point_bytes [u, v] \<le> 4" by (simp_all add: point_bytes_def Let_def)
  with 3 show ?case by (auto simp: utf8_length_def)
qed simp
section \<open>Every row can be hashed\<close>

definition encodable :: "js_host \<Rightarrow> jsv \<Rightarrow> bool" where
  "encodable h v \<longleftrightarrow> jcs_text h v \<noteq> None"

lemma items_encodable:
  "(\<And>s. s \<in> set ss \<Longrightarrow> \<exists>v. s = Data True v \<and> encodable h v) \<Longrightarrow> items_text h later ss \<noteq> None"
proof (induction ss arbitrary: later)
  case (Cons s ss)
  obtain v where v: "s = Data True v" "encodable h v" using Cons.prems [of s] by auto
  moreover have "items_text h True ss \<noteq> None" using Cons.IH Cons.prems by simp
  ultimately show ?case by (auto simp: items_text_simps read_slot_def encodable_def)
qed (simp add: items_text_simps)

lemma members_encodable:
  "(\<And>k s. (k, s) \<in> set ms \<Longrightarrow> isWellFormed k \<and> (\<exists>v. s = Data True v \<and> encodable h v))
    \<Longrightarrow> members_text h later ms \<noteq> None"
proof (induction ms arbitrary: later)
  case (Cons m ms)
  obtain k s where m: "m = (k, s)" by force
  obtain v where v: "isWellFormed k" "s = Data True v" "encodable h v" using Cons.prems [of k s] m by auto
  moreover have "members_text h True ms \<noteq> None" by (rule Cons.IH, rule Cons.prems) simp
  ultimately show ?case by (auto simp: m members_text_simps read_slot_def encodable_def jcs_string_text)
qed (simp add: members_text_simps)

lemma encodable_VArr: "(\<And>x. x \<in> set xs \<Longrightarrow> encodable h (f x)) \<Longrightarrow> encodable h (VArr True (map (\<lambda>x. Data True (f x)) xs) 0)"
proof -
  assume e: "\<And>x. x \<in> set xs \<Longrightarrow> encodable h (f x)"
  have "items_text h False (map (\<lambda>x. Data True (f x)) xs) \<noteq> None"
    by (rule items_encodable) (use e in auto)
  moreover have "filter (\<lambda>s. s \<noteq> Hole) (map (\<lambda>x. Data True (f x)) xs) = map (\<lambda>x. Data True (f x)) xs"
    by (induction xs) simp_all
  ultimately show ?thesis by (simp add: encodable_def jcs_text_simps own_keys_def)
qed

lemma encodable_VObj:
  "(\<And>k s. (k, s) \<in> set ms \<Longrightarrow> isWellFormed k \<and> (\<exists>v. s = Data True v \<and> encodable h v)) \<Longrightarrow> encodable h (VObj True ms False)"
  using members_encodable [of "sort_key fst ms" h False] by (simp add: encodable_def jcs_text_simps)

lemma encodable_base [simp]:
  "encodable h VNull" "encodable h (VBool b)" "encodable h (VStr (units s))" "encodable h (int_value n)"
  "encodable h (VNum (num_of_int n))"
  by (simp_all add: encodable_def jcs_text_simps jcs_string_text int_value_def num_of_int_def)

lemma wide_encodable [simp]: "encodable h (wide j)"
proof (induction j)
  case (JArr xs)
  then show ?case by (simp add: encodable_VArr)
next
  case (JObj kvs)
  then show ?case by (auto intro!: encodable_VObj)
qed simp_all

lemma member_of_encodable: "(k, s) \<in> set [member_of k' v] \<Longrightarrow> encodable h v \<Longrightarrow> isWellFormed k \<and> (\<exists>v. s = Data True v \<and> encodable h v)"
  by (auto simp: member_of_def)

lemma event_encodable [simp]: "encodable h (event_value e)"
  unfolding event_value_def
  by (rule encodable_VObj)
     (auto simp: member_of_def optional_member_def encodable_VArr split: option.splits if_splits)

lemma anchor_encodable: "encodable h (anchor_value key l e)"
  unfolding anchor_value_def by (rule encodable_VObj) (auto simp: member_of_def)

lemma chain_encodable: "encodable h (chain_value key p e)"
  unfolding chain_value_def by (rule encodable_VObj) (auto simp: member_of_def)

text \<open>A bound on what is hashed for a row.\<close>

definition row_bound :: "js_host \<Rightarrow> string \<Rightarrow> int \<Rightarrow> event \<Rightarrow> nat" where
  "row_bound h key legacyThroughSeq e =
     1000 + 6 * length key + text_bound h (int_value legacyThroughSeq) + text_bound h (event_value e)"

lemma short_digest:
  assumes "encodable h v" "text_bound h v < 2 ^ 29"
  shows "\<exists>d n. digestCanonical h v = Some (d, n)"
proof -
  obtain t where t: "jcs_text h v = Some t" using assms(1) by (auto simp: encodable_def)
  have "length t < 2 ^ 29" using text_length(1) [OF t] assms(2) by simp
  then have "length (utf8 t) + 72 < 2 ^ 31"
    using utf8_length_le [of t] utf8_length_bytes [of t] json_text_wf(1) [OF t] by simp
  then obtain d where "sha256Hex t = Some d" using sha256_bytes_short unfolding sha256Hex_def by blast
  then show ?thesis by (simp add: digestCanonical_text t)
qed

lemma anchor_bound: "row_bound h key l e < 2 ^ 29 \<Longrightarrow> text_bound h (anchor_value key l e) < 2 ^ 29"
  unfolding anchor_value_def text_bound_nested
  by (simp add: row_bound_def member_of_def read_slot_def LEDGER_INTEGRITY_ALGORITHM_def
      del: text_bound.simps(8,9))

lemma chain_bound: "row_bound h key l e < 2 ^ 29 \<Longrightarrow> length p = 64 \<Longrightarrow> text_bound h (chain_value key p e) < 2 ^ 29"
  unfolding chain_value_def text_bound_nested
  by (simp add: row_bound_def member_of_def read_slot_def LEDGER_INTEGRITY_ALGORITHM_def
      del: text_bound.simps(8,9))

lemma next_integrity_short:
  assumes "row_bound h key (is_legacyThroughSeq st) e < 2 ^ 29" "head_ok st"
  shows "\<exists>m n. next_integrity h key st e = Inr (m, n)"
proof (cases "is_headDigest st")
  case None
  obtain d n where "anchorDigest h key (is_legacyThroughSeq st) e = Some (d, n)"
    using short_digest [OF anchor_encodable anchor_bound [OF assms(1)]] by (auto simp: anchorDigest_def)
  then show ?thesis by (simp add: next_integrity_def None)
next
  case (Some p)
  then have p: "length p = 64" using assms(2) by (simp add: head_ok_def hex64_def)
  then obtain d n where "chainDigest h key p e = Some (d, n)"
    using short_digest [OF chain_encodable chain_bound [OF assms(1) p]] by (auto simp: chainDigest_def)
  then show ?thesis by (simp add: next_integrity_def Some)
qed

lemma prepare_short:
  assumes "map e_seq es = [is_lastSeq st + 1..is_lastSeq st + int (length es)]" "head_ok st"
    "\<forall>e \<in> set es. row_bound h key (is_legacyThroughSeq st) e < 2 ^ 29"
  shows "\<exists>entries st' n. prepareIntegrity h key es st = Inr (entries, st', n) \<and> is_lastSeq st' = is_lastSeq st + int (length es)"
  using assms
proof (induction es arbitrary: st)
  case (Cons e es)
  have seq: "e_seq e = is_lastSeq st + 1"
    and rest: "map e_seq es = [is_lastSeq st + 1 + 1..is_lastSeq st + 1 + int (length es)]"
    using Cons.prems(1) by (simp_all add: upto_rec1 add.assoc)
  obtain m n where m: "next_integrity h key st e = Inr (m, n)"
    using next_integrity_short [of h key st e] Cons.prems by auto
  let ?st = "st\<lparr>is_lastSeq := e_seq e, is_headDigest := Some (im_digest m)\<rparr>"
  have "head_ok ?st" using next_integrity_position(1) [OF m Cons.prems(2)] by (simp add: head_ok_def)
  with Cons.IH [of ?st] rest Cons.prems(3) obtain entries st' n' where
    "prepareIntegrity h key es ?st = Inr (entries, st', n')" "is_lastSeq st' = is_lastSeq ?st + int (length es)"
    by (auto simp: seq)
  then show ?case by (simp add: m seq)
qed simp
section \<open>The properties\<close>


text \<open>
  C4. A head digest fixes the history: when two row lists both pass the full verification and end in the
  same head digest, either two different hashed texts, one of each list, have one SHA-256 digest, or
  their protected rows agree one by one in session, event and chain entry, up to the order of members in
  a payload, and the legacy prefixes end at the same sequence number. Dropping, adding, editing or
  reordering protected rows is detected, down to the session a row belongs to.
\<close>

theorem head_fixes_history:
  assumes "numbers_distinct h"
    "verifyIntegrityRows h True rs EMPTY_STATE = Inr st" "verifyIntegrityRows h True rs' EMPTY_STATE = Inr st'"
    "is_headDigest st = Some d" "is_headDigest st' = Some d"
  shows "collision (hashed_texts h EMPTY_STATE rs) (hashed_texts h EMPTY_STATE rs')
    \<or> list_all2 same_protected (filter (\<lambda>r. ir_integrity r \<noteq> None) rs) (filter (\<lambda>r. ir_integrity r \<noteq> None) rs')
      \<and> is_legacyThroughSeq st = is_legacyThroughSeq st'"
  by (rule same_head_same_history [OF assms])

text \<open>
  C26. Hashing a row in turns decides as hashing it at once: the background check writes the row token by
  token and flushes when enough is pending, the strict one writes it whole and slices large pieces, and
  on every row whose text the hash accepts both give the same state or the same error.
\<close>

theorem cooperative_is_strict:
  assumes "\<forall>m t. ir_integrity row = Some m \<and> jcs_text h (cooperative_value st row m) = Some t \<longrightarrow> sha256Hex t \<noteq> None"
  shows "verifyIntegrityRowCooperatively h row st = verifyIntegrityRows h True [row] st"
proof -
  have "verifyIntegrityRowCooperatively h row st = verify_row h True st row"
    using assms by (intro cooperative_row) blast
  then show ?thesis by (cases "verify_row h True st row") simp_all
qed
definition logged :: "int \<Rightarrow> json \<Rightarrow> event" where
  "logged n x = stamp n \<lparr>e_ts = ''t'', e_id = ''i'', e_type = ''x/note'', e_data = x, e_actor = JNull,
     e_origin = ''system'', e_trusted = True, e_lane = None, e_v = None, e_register = None, e_ignorable = False,
     e_surfaceOp = None, e_sourceEventSeqs = None\<rparr>"

definition note_ab :: json where
  "note_ab = JObj [(''a'', JNull), (''b'', JBool True)]"

definition note_ba :: json where
  "note_ba = JObj [(''b'', JBool True), (''a'', JNull)]"

lemma logged_fields [simp]:
  "e_seq (logged n x) = n" "e_type (logged n x) = ''x/note''" "e_data (logged n x) = x" "e_actor (logged n x) = JNull"
  "e_origin (logged n x) = ''system''" "e_trusted (logged n x)" "e_lane (logged n x) = None" "e_v (logged n x) = None"
  "e_register (logged n x) = None" "e_ignorable (logged n x) = False" "e_surfaceOp (logged n x) = None"
  "e_sourceEventSeqs (logged n x) = None" "e_ts (logged n x) = ''t''" "e_id (logged n x) = ''i''"
  by (simp_all add: logged_def stamp_def prepared_event.extend_def event.fields_def)

lemma small_text: "text_bound h (int_value 0) = 1" "text_bound h (int_value 1) = 1" "text_bound h (int_value 2) = 1"
  by (simp_all add: int_value_def num_of_int_def number_text_def is_safe_integer_def max_safe_integer_def
      int_string_def nat_digits.simps is_integral_def)

lemma logged_bound:
  assumes "n \<in> {1, 2}" "x \<in> {note_ab, note_ba}"
  shows "row_bound h ''k'' 0 (logged n x) < 2 ^ 29"
proof -
  have w: "text_bound h (wide x) \<le> 100"
    using assms(2) by (auto simp: note_ab_def note_ba_def slot_weight_def read_slot_def)
  have "text_bound h (int_value n) = 1" using assms(1) small_text by auto
  then show ?thesis using w
    by (simp add: row_bound_def event_value_def text_bound_nested small_text member_of_def optional_member_def
        read_slot_def del: text_bound.simps(8,9))
qed


definition one_row :: "json \<Rightarrow> string \<Rightarrow> integrity_row list" where
  "one_row x d = [\<lparr>ir_sessionKey = ''k'', ir_event = logged 1 x,
     ir_integrity = Some \<lparr>im_mode = ''anchor'', im_previousDigest = None, im_digest = d\<rparr>\<rparr>]"

lemma one_row_verifies:
  assumes "digest_of h (anchor_value ''k'' 0 (logged 1 x)) = Some d"
  shows "verifyIntegrityRows h True (one_row x d) EMPTY_STATE = Inr \<lparr>is_lastSeq = 1, is_legacyThroughSeq = 0, is_headDigest = Some d\<rparr>"
proof -
  let ?r = "\<lparr>ir_sessionKey = ''k'', ir_event = logged 1 x,
     ir_integrity = Some \<lparr>im_mode = ''anchor'', im_previousDigest = None, im_digest = d\<rparr>\<rparr>"
  have "verify_row h True EMPTY_STATE ?r = Inr \<lparr>is_lastSeq = 1, is_legacyThroughSeq = 0, is_headDigest = Some d\<rparr>"
    using assms digest_of_hex64 [OF assms]
    by (subst verify_row_protected) (auto simp: EMPTY_STATE_def row_position_def cooperative_value_def)
  then show ?thesis by (simp add: one_row_def)
qed

lemma notes_same_digest:
  "digest_of h (anchor_value ''k'' 0 (logged 1 note_ab)) = digest_of h (anchor_value ''k'' 0 (logged 1 note_ba))"
proof -
  have "sorted_value (wide note_ab) = sorted_value (wide note_ba)" by (simp add: note_ab_def note_ba_def units_def)
  then have "event_members (logged 1 note_ab) = event_members (logged 1 note_ba)" by (simp add: event_members_def)
  then have "sorted_value (anchor_value ''k'' 0 (logged 1 note_ab)) = sorted_value (anchor_value ''k'' 0 (logged 1 note_ba))"
    by (simp add: anchor_value_def member_of_def sorted_event_value)
  then show ?thesis using sorted_same_text(1) unfolding digest_of_def by metis
qed

lemma head_fixes_history_witness:
  "\<exists>d. is_headDigest \<lparr>is_lastSeq = 1, is_legacyThroughSeq = 0, is_headDigest = Some d\<rparr> = Some d
    \<and> verifyIntegrityRows fraction_host True (one_row note_ab d) EMPTY_STATE
        = verifyIntegrityRows fraction_host True (one_row note_ba d) EMPTY_STATE
    \<and> one_row note_ab d \<noteq> one_row note_ba d
    \<and> (collision (hashed_texts fraction_host EMPTY_STATE (one_row note_ab d)) (hashed_texts fraction_host EMPTY_STATE (one_row note_ba d))
      \<or> list_all2 same_protected (filter (\<lambda>r. ir_integrity r \<noteq> None) (one_row note_ab d))
          (filter (\<lambda>r. ir_integrity r \<noteq> None) (one_row note_ba d)))"
proof -
  have "row_bound fraction_host ''k'' 0 (logged 1 note_ab) < 2 ^ 29" by (rule logged_bound) simp_all
  then obtain d where d: "digest_of fraction_host (anchor_value ''k'' 0 (logged 1 note_ab)) = Some d"
    using short_digest [OF anchor_encodable anchor_bound] digestCanonical_digest by (metis option.simps(9))
  note v = one_row_verifies [OF d] one_row_verifies [OF d [unfolded notes_same_digest]]
  have "logged 1 note_ab \<noteq> logged 1 note_ba"
    using logged_fields(3) [of 1 note_ab] logged_fields(3) [of 1 note_ba] by (metis note_ab_def note_ba_def json.inject(5) list.inject prod.inject list.distinct(1) json.distinct(1))
  then have "one_row note_ab d \<noteq> one_row note_ba d" by (simp add: one_row_def)
  then show ?thesis
    using head_fixes_history [OF fraction_host_distinct v, of d] v by (intro exI [of _ d]) auto
qed

lemma cooperative_is_strict_witness:
  "\<exists>d. verifyIntegrityRowCooperatively fraction_host (hd (one_row note_ab d)) EMPTY_STATE
      = Inr \<lparr>is_lastSeq = 1, is_legacyThroughSeq = 0, is_headDigest = Some d\<rparr>"
proof -
  have "row_bound fraction_host ''k'' 0 (logged 1 note_ab) < 2 ^ 29" by (rule logged_bound) simp_all
  then obtain d where d: "digest_of fraction_host (anchor_value ''k'' 0 (logged 1 note_ab)) = Some d"
    using short_digest [OF anchor_encodable anchor_bound] digestCanonical_digest by (metis option.simps(9))
  have "cooperative_value EMPTY_STATE (hd (one_row note_ab d)) \<lparr>im_mode = ''anchor'', im_previousDigest = None, im_digest = d\<rparr>
      = anchor_value ''k'' 0 (logged 1 note_ab)"
    by (simp add: cooperative_value_def one_row_def EMPTY_STATE_def)
  then have "\<forall>m t. ir_integrity (hd (one_row note_ab d)) = Some m
      \<and> jcs_text fraction_host (cooperative_value EMPTY_STATE (hd (one_row note_ab d)) m) = Some t \<longrightarrow> sha256Hex t \<noteq> None"
    using d by (auto simp: one_row_def digest_of_def)
  from cooperative_is_strict [OF this] one_row_verifies [OF d] show ?thesis
    by (auto simp: one_row_def)
qed

end
