(* ===== verification/HistoryProps.thy ===== *)
theory HistoryProps imports HistoryVerification IntegrityClaims begin

text \<open>
  Reading a ledger back in pages decides as reading it at once; a checkpoint changes which rows are
  hashed and nothing else; and an open through a checkpoint with the background rehash of its prefix is
  a full verification.
\<close>

section \<open>Pages\<close>

abbreviation row_seq :: "integrity_row \<Rightarrow> int" where
  "row_seq r \<equiv> e_seq (ir_event r)"

text \<open>A reader of the rows \<open>rs\<close>, numbered from 1.\<close>

definition reads_rows :: "row_reader \<Rightarrow> integrity_row list \<Rightarrow> bool" where
  "reads_rows read rs \<longleftrightarrow> map row_seq rs = [1..int (length rs)]
     \<and> (\<forall>a b n. 0 < n \<and> n \<le> INTEGRITY_PAGE_SIZE \<longrightarrow> read a b n = Inr (take n (filter (\<lambda>r. row_seq r \<ge> a \<and> row_seq r \<le> b) rs)))"

lemma filter_numbered:
  "map f rs = [a..b] \<Longrightarrow> filter (\<lambda>r. f r \<ge> a + int p \<and> f r \<le> a + int p + int n - 1) rs = take n (drop p rs)"
proof (induction rs arbitrary: a p n)
  case (Cons r rs)
  have r: "f r = a" "map f rs = [a + 1..b]" using Cons.prems by (auto simp: upto.simps [of a b] split: if_splits)
  note IH = Cons.IH [OF r(2)]
  show ?case
  proof (cases p)
    case 0
    show ?thesis
    proof (cases n)
      case (Suc m)
      have "filter (\<lambda>r. f r \<ge> a \<and> f r \<le> a + int n - 1) rs = filter (\<lambda>r. f r \<ge> a + 1 + int 0 \<and> f r \<le> a + 1 + int 0 + int m - 1) rs"
      proof (rule filter_cong [OF refl])
        fix x assume "x \<in> set rs"
        then have "f x \<in> set [a + 1..b]" using r(2) by (metis image_eqI list.set_map)
        then show "(f x \<ge> a \<and> f x \<le> a + int n - 1) = (f x \<ge> a + 1 + int 0 \<and> f x \<le> a + 1 + int 0 + int m - 1)"
          by (auto simp: Suc)
      qed
      then show ?thesis using IH [of 0 m] r(1) by (simp add: 0 Suc)
    next
      case z: 0
      have "\<not> (f x \<ge> a \<and> f x \<le> a - 1)" for x by simp
      then show ?thesis by (simp add: 0 z)
    qed
  next
    case (Suc q)
    then show ?thesis using IH [of q n] r(1) by (simp add: algebra_simps)
  qed
qed simp

lemma read_page:
  assumes "reads_rows read rs" "p \<le> t" "t \<le> length rs" "0 < n" "n \<le> INTEGRITY_PAGE_SIZE"
  shows "read (int p + 1) (int t) n = Inr (take (min n (t - p)) (drop p rs))"
proof -
  have "filter (\<lambda>r. row_seq r \<ge> int p + 1 \<and> row_seq r \<le> int t) rs = take (t - p) (drop p rs)"
    using filter_numbered [of row_seq rs 1 "int (length rs)" p "t - p"] assms
    by (simp add: reads_rows_def add.commute of_nat_diff)
  then show ?thesis using assms by (simp add: reads_rows_def)
qed

lemma row_seq_nth: "reads_rows read rs \<Longrightarrow> i < length rs \<Longrightarrow> row_seq (rs ! i) = int i + 1"
proof -
  assume "reads_rows read rs" "i < length rs"
  then have "map row_seq rs ! i = [1..int (length rs)] ! i" by (simp add: reads_rows_def)
  then show ?thesis using \<open>i < length rs\<close> by (simp add: nth_upto)
qed

text \<open>The page at \<open>p\<close>: rows \<open>p + 1\<close> to \<open>p + m\<close>.\<close>

lemma page_facts:
  assumes "reads_rows read rs" "p < t" "t \<le> length rs" "0 < n"
  defines "rows \<equiv> take (min n (t - p)) (drop p rs)"
  shows "rows \<noteq> []" "length rows = min n (t - p)" "\<not> page_overflow rows (int t) n"
    "row_seq (last rows) = int (p + length rows)" "drop p rs = rows @ drop (p + length rows) rs"
    "map row_seq rows = [int p + 1..int (p + length rows)]"
proof -
  show l: "length rows = min n (t - p)" using assms by (simp add: rows_def)
  then show ne: "rows \<noteq> []" using assms by auto
  have "last rows = rs ! (p + length rows - 1)"
  proof -
    define m where "m = min n (t - p)"
    have "0 < m" "p + (m - 1) < length rs" using assms by (auto simp: m_def)
    then have "take m (drop p rs) ! (m - 1) = rs ! (p + (m - 1))" by simp
    then show ?thesis using ne l \<open>0 < m\<close> by (simp add: last_conv_nth rows_def m_def [symmetric])
  qed
  moreover have "p + length rows - 1 < length rs" using l ne assms by auto
  ultimately show ls: "row_seq (last rows) = int (p + length rows)"
    using row_seq_nth [OF assms(1)] l assms by auto
  show "\<not> page_overflow rows (int t) n" using ls l by (auto simp: page_overflow_def)
  show "drop p rs = rows @ drop (p + length rows) rs"
    unfolding rows_def by (metis add.commute append_take_drop_id drop_drop l rows_def)
  show "map row_seq rows = [int p + 1..int (p + length rows)]"
    by (rule nth_equalityI) (use l assms row_seq_nth [OF assms(1)] in \<open>auto simp: rows_def nth_upto\<close>)
qed

lemma verified_lastSeq:
  "verifyIntegrityRows h hash rows st = Inr st' \<Longrightarrow> rows \<noteq> [] \<Longrightarrow> is_lastSeq st' = row_seq (last rows)"
proof (induction rows arbitrary: st' rule: rev_induct)
  case (snoc r rows)
  then obtain s where "verify_row h hash s r = Inr st'" by (auto simp: verify_append rbind_eq_Inr_iff)
  then show ?case by (cases "ir_integrity r") (auto simp: verify_row_legacy verify_row_protected)
qed simp

lemma contiguous_page: "map row_seq rows = [pos + 1..pos + int (length rows)] \<Longrightarrow> contiguous pos rows = Inr (pos + int (length rows))"
proof (induction rows arbitrary: pos)
  case (Cons r rows)
  then have "row_seq r = pos + 1" "map row_seq rows = [pos + 1 + 1..pos + 1 + int (length rows)]"
    by (simp_all add: upto_rec1 add.assoc)
  then show ?case using Cons.IH [of "pos + 1"] by simp
qed simp

section \<open>\<open>verifyLedger\<close>\<close>

text \<open>What an uninterrupted verification from row \<open>p\<close> on decides, without pages.\<close>

definition verdict :: "verify_env \<Rightarrow> integrity_row list \<Rightarrow> nat \<Rightarrow> integrity_state \<Rightarrow> integrity_state res" where
  "verdict env rs p st =
     (let fu = nat (ve_foldUntil env) in
      if p < fu then
        (case ve_checkpoint env of
           None \<Rightarrow> rbind (verifyIntegrityRows (ve_host env) False (take (fu - p) (drop p rs)) st)
                     (verifyIntegrityRows (ve_host env) True (drop fu rs))
         | Some c \<Rightarrow> verifyIntegrityRows (ve_host env) True (drop fu rs) (checkpoint_state c\<lparr>is_lastSeq := int fu\<rparr>))
      else verifyIntegrityRows (ve_host env) True (drop p rs) st)"

text \<open>A consumer that does not care where a page ends.\<close>

definition consumer :: "('s \<Rightarrow> event list \<Rightarrow> 's res) \<Rightarrow> bool" where
  "consumer f \<longleftrightarrow> (\<forall>s. f s [] = Inr s) \<and> (\<forall>s xs ys. f s (xs @ ys) = rbind (f s xs) (\<lambda>s'. f s' ys))"

definition interrupted :: "(nat \<Rightarrow> js_error option) \<Rightarrow> 'a res \<Rightarrow> bool" where
  "interrupted interrupt r \<longleftrightarrow> (\<exists>c e. interrupt c = Some e \<and> r = Inl e)"

definition consumer_threw :: "('s \<Rightarrow> event list \<Rightarrow> 's res) \<Rightarrow> 'a res \<Rightarrow> bool" where
  "consumer_threw f r \<longleftrightarrow> (\<exists>s es e. f s es = Inl e \<and> r = Inl e)"

definition page_end :: "verify_env \<Rightarrow> nat \<Rightarrow> nat" where
  "page_end env p = (if p < nat (ve_foldUntil env) then nat (ve_foldUntil env) else nat (ve_lastSeq env))"

text \<open>One page on: the verdict is unchanged.\<close>

definition in_step :: "verify_env \<Rightarrow> nat \<Rightarrow> integrity_state \<Rightarrow> bool" where
  "in_step env p st \<longleftrightarrow> p < nat (ve_foldUntil env) \<and> ve_checkpoint env \<noteq> None \<or> is_lastSeq st = int p"

lemma verify_page_verdict:
  assumes "reads_rows (ve_read env) rs" "ve_lastSeq env = int (length rs)" "0 \<le> ve_foldUntil env"
    "ve_foldUntil env \<le> int (length rs)" "p < length rs" "in_step env p st"
  defines "rows \<equiv> take (min INTEGRITY_PAGE_SIZE (page_end env p - p)) (drop p rs)"
  shows "(case verify_page env rows st (int p) of
      Inl e \<Rightarrow> verdict env rs p st = Inl e
    | Inr (st', pos') \<Rightarrow> pos' = int (p + length rows) \<and> in_step env (p + length rows) st'
        \<and> verdict env rs p st = verdict env rs (p + length rows) st')"
proof -
  define fu where "fu = nat (ve_foldUntil env)"
  have fu: "ve_foldUntil env = int fu" "fu \<le> length rs" using assms(3,4) by (simp_all add: fu_def)
  have pe: "p < page_end env p" "page_end env p \<le> length rs"
    using assms(2,5) fu by (auto simp: page_end_def)
  have sz: "0 < INTEGRITY_PAGE_SIZE" by (simp add: INTEGRITY_PAGE_SIZE_def)
  note pf = page_facts [OF assms(1) pe sz, folded rows_def]
  define q where "q = p + length rows"
  have q: "p < q" "q \<le> page_end env p" using pf(1,2) pe sz by (auto simp: q_def)
  note dp = pf(5) [folded q_def] and ls = pf(4) [folded q_def]
  show ?thesis unfolding q_def [symmetric]
  proof (cases "p < fu")
    case True
    then have pq: "q \<le> fu" using q(2) by (simp add: page_end_def fu_def)
    show "case verify_page env rows st (int p) of
        Inl e \<Rightarrow> verdict env rs p st = Inl e
      | Inr (st', pos') \<Rightarrow> pos' = int q \<and> in_step env q st' \<and> verdict env rs p st = verdict env rs q st'"
    proof (cases "ve_checkpoint env")
      case (Some c)
      have "contiguous (int p) rows = Inr (int q)"
        using contiguous_page [of rows "int p"] pf(6) by (simp add: q_def)
      then show ?thesis using True pq
        by (auto simp: verify_page_def fu Some in_step_def verdict_def fu_def [symmetric] Let_def)
    next
      case None
      have tk: "take (fu - p) (drop p rs) = rows @ take (fu - q) (drop q rs)"
        unfolding dp using pq by (simp add: q_def)
      show ?thesis
      proof (cases "verifyIntegrityRows (ve_host env) False rows st")
        case (Inl e)
        then show ?thesis using True None
          by (simp add: verify_page_def fu verdict_def tk verify_append Let_def)
      next
        case (Inr st')
        then have "is_lastSeq st' = int q" using verified_lastSeq pf(1) ls by simp
        then show ?thesis using True None Inr pq
          by (auto simp: verify_page_def fu in_step_def verdict_def tk verify_append Let_def)
      qed
    qed
  next
    case False
    have "is_lastSeq st = int p" using assms(6) False by (simp add: in_step_def fu_def)
    show "case verify_page env rows st (int p) of
        Inl e \<Rightarrow> verdict env rs p st = Inl e
      | Inr (st', pos') \<Rightarrow> pos' = int q \<and> in_step env q st' \<and> verdict env rs p st = verdict env rs q st'"
    proof (cases "verifyIntegrityRows (ve_host env) True rows st")
      case (Inl e)
      then show ?thesis using False by (simp add: verify_page_def fu verdict_def dp verify_append Let_def)
    next
      case (Inr st')
      then have "is_lastSeq st' = int q" using verified_lastSeq pf(1) ls by simp
      then show ?thesis using False Inr q(1)
        by (auto simp: verify_page_def fu in_step_def verdict_def dp verify_append Let_def)
    qed
  qed
qed

lemma consumer_append: "consumer f \<Longrightarrow> f s (xs @ ys) = rbind (f s xs) (\<lambda>s'. f s' ys)"
  by (simp add: consumer_def)

text \<open>One round either ends the loop or hands one page to the consumer and goes on behind it.\<close>

definition stopped :: "verify_env \<Rightarrow> integrity_row list \<Rightarrow> nat \<Rightarrow> integrity_state \<Rightarrow> ('s \<Rightarrow> event list \<Rightarrow> 's res)
    \<Rightarrow> integrity_state res \<Rightarrow> bool" where
  "stopped env rs p st f r \<longleftrightarrow> r = verdict env rs p st \<or> interrupted (ve_interrupt env) r \<or> consumer_threw f r"

lemma stoppedI:
  "ve_interrupt env c = Some e \<Longrightarrow> stopped env rs p st f (Inl e)"
  "f s es = Inl e \<Longrightarrow> stopped env rs p st f (Inl e)"
  "verdict env rs p st = Inl e \<Longrightarrow> stopped env rs p st f (Inl e)"
  by (auto simp: stopped_def interrupted_def consumer_threw_def)

declare verify_pages.simps(2) [simp del]

lemma first_interrupt:
  obtains e where "I c = Some e"
  | e where "I c = None" "I (c + 1) = Some e"
  | e where "I c = None" "I (c + 1) = None" "I (c + 2) = Some e"
  | e where "I c = None" "I (c + 1) = None" "I (c + 2) = None" "I (c + 3) = Some e"
  | "I c = None" "I (c + 1) = None" "I (c + 2) = None" "I (c + (3 :: nat)) = None"
  by (metis not_None_eq)

lemma verify_pages_round:
  assumes env: "reads_rows (ve_read env) rs" "ve_lastSeq env = int (length rs)" "0 \<le> ve_foldUntil env"
    "ve_foldUntil env \<le> int (length rs)" and p: "p < length rs" "in_step env p st"
  obtains (ends) s' e where "verify_pages (Suc k) env f c s st (int p) = Some (s', Inl e)" "stopped env rs p st f (Inl e)"
  | (goes_on) rows s1 st' where "rows \<noteq> []" "p + length rows \<le> length rs" "in_step env (p + length rows) st'"
      "verdict env rs p st = verdict env rs (p + length rows) st'" "f s (map ir_event rows) = Inr s1"
      "drop p rs = rows @ drop (p + length rows) rs"
      "verify_pages (Suc k) env f c s st (int p) = verify_pages k env f (c + 4) s1 st' (int (p + length rows))"
proof -
  define rows where "rows = take (min INTEGRITY_PAGE_SIZE (page_end env p - p)) (drop p rs)"
  have pe: "p < page_end env p" "page_end env p \<le> length rs"
    using env(2,4) p(1) by (auto simp: page_end_def)
  have sz: "0 < INTEGRITY_PAGE_SIZE" by (simp add: INTEGRITY_PAGE_SIZE_def)
  have to: "(if int p < ve_foldUntil env then ve_foldUntil env else ve_lastSeq env) = int (page_end env p)"
    using env(2,3) by (auto simp: page_end_def)
  have rd: "ve_read env (int p + 1) (int (page_end env p)) INTEGRITY_PAGE_SIZE = Inr rows"
    unfolding rows_def by (rule read_page [OF env(1) _ pe(2) sz]) (use pe in simp_all)
  note pf = page_facts [OF env(1) pe sz, folded rows_def]
  note vp = verify_page_verdict [OF env(1,2,3,4) p, folded rows_def]
  have lt: "int p < ve_lastSeq env" using p(1) env(2) by simp
  have run: "verify_pages (Suc k) env f c s st (int p) =
      (case ve_interrupt env c of Some e \<Rightarrow> Some (s, Inl e) | None \<Rightarrow>
       (case ve_interrupt env (c + 1) of Some e \<Rightarrow> Some (s, Inl e) | None \<Rightarrow>
        (case verify_page env rows st (int p) of Inl e \<Rightarrow> Some (s, Inl e) | Inr (st', pos') \<Rightarrow>
         (case ve_interrupt env (c + 2) of Some e \<Rightarrow> Some (s, Inl e) | None \<Rightarrow>
          (case f s (map ir_event rows) of Inl e \<Rightarrow> Some (s, Inl e) | Inr s' \<Rightarrow>
           (case ve_interrupt env (c + 3) of Some e \<Rightarrow> Some (s', Inl e)
            | None \<Rightarrow> verify_pages k env f (c + 4) s' st' pos'))))))"
    unfolding verify_pages.simps(2) if_P [OF lt] to Let_def
    by (cases "ve_interrupt env (c + 1)") (simp_all only: option.case sum.case rd pf(1,3) if_False)
  have len: "p + length rows \<le> length rs" using pf(2) pe by simp
  show thesis
  proof (cases "verify_page env rows st (int p)")
    case (Inl e)
    then show ?thesis using ends vp run by (auto split: option.splits intro: stoppedI)
  next
    case (Inr sp)
    then obtain st' where v: "verify_page env rows st (int p) = Inr (st', int (p + length rows))"
      "in_step env (p + length rows) st'" "verdict env rs p st = verdict env rs (p + length rows) st'"
      using vp by (cases sp) simp
    show ?thesis
    proof (cases "f s (map ir_event rows)")
      case (Inl e)
      then show ?thesis using ends run v(1) by (auto split: option.splits intro: stoppedI)
    next
      case (Inr s1)
      show ?thesis
      proof (rule first_interrupt [of "ve_interrupt env" c])
        fix e assume i: "ve_interrupt env c = Some e"
        then have "verify_pages (Suc k) env f c s st (int p) = Some (s, Inl e)" using run by simp
        then show ?thesis using ends i by (blast intro: stoppedI(1))
      next
        fix e assume i: "ve_interrupt env c = None" "ve_interrupt env (c + 1) = Some e"
        then have "verify_pages (Suc k) env f c s st (int p) = Some (s, Inl e)" using run by simp
        then show ?thesis using ends i by (blast intro: stoppedI(1))
      next
        fix e assume i: "ve_interrupt env c = None" "ve_interrupt env (c + 1) = None" "ve_interrupt env (c + 2) = Some e"
        then have "verify_pages (Suc k) env f c s st (int p) = Some (s, Inl e)" using run v(1) by simp
        then show ?thesis using ends i by (blast intro: stoppedI(1))
      next
        fix e assume i: "ve_interrupt env c = None" "ve_interrupt env (c + 1) = None" "ve_interrupt env (c + 2) = None"
          "ve_interrupt env (c + 3) = Some e"
        then have "verify_pages (Suc k) env f c s st (int p) = Some (s1, Inl e)" using run v(1) Inr by simp
        then show ?thesis using ends i by (blast intro: stoppedI(1))
      next
        assume "ve_interrupt env c = None" "ve_interrupt env (c + 1) = None" "ve_interrupt env (c + 2) = None"
          "ve_interrupt env (c + 3) = None"
        then show ?thesis using goes_on [OF pf(1) len v(2,3) Inr pf(5)] run v(1) Inr by simp
      qed
    qed
  qed
qed

lemma verify_pages_verdict:
  assumes env: "reads_rows (ve_read env) rs" "ve_lastSeq env = int (length rs)" "0 \<le> ve_foldUntil env"
    "ve_foldUntil env \<le> int (length rs)" and f: "consumer f"
  shows "p \<le> length rs \<Longrightarrow> in_step env p st \<Longrightarrow> length rs - p < k \<Longrightarrow>
    \<exists>s' r. verify_pages k env f c s st (int p) = Some (s', r) \<and> stopped env rs p st f r
      \<and> (\<forall>st'. r = Inr st' \<longrightarrow> r = verdict env rs p st \<and> f s (map ir_event (drop p rs)) = Inr s')"
proof (induction k arbitrary: c s st p)
  case (Suc k)
  show ?case
  proof (cases "p < length rs")
    case False
    then have p: "p = length rs" using Suc.prems(1) by simp
    have fu: "\<not> p < nat (ve_foldUntil env)" using env(4) p by linarith
    then have "is_lastSeq st = int p" using Suc.prems(2) by (simp add: in_step_def)
    then show ?thesis using f fu by (simp add: verify_pages.simps(2) env(2) p verdict_def consumer_def stopped_def)
  next
    case True
    show ?thesis
    proof (rule verify_pages_round [OF env True Suc.prems(2), of k f c s])
      fix s' e
      assume "verify_pages (Suc k) env f c s st (int p) = Some (s', Inl e)" "stopped env rs p st f (Inl e)"
      then show ?thesis by simp
    next
      fix rows s1 st'
      assume r: "rows \<noteq> []" "p + length rows \<le> length rs" "in_step env (p + length rows) st'"
        "verdict env rs p st = verdict env rs (p + length rows) st'" "f s (map ir_event rows) = Inr s1"
        "drop p rs = rows @ drop (p + length rows) rs"
        "verify_pages (Suc k) env f c s st (int p) = verify_pages k env f (c + 4) s1 st' (int (p + length rows))"
      have "length rs - (p + length rows) < k" using Suc.prems(3) r(1) True by (cases rows) auto
      from Suc.IH [OF r(2,3) this, of "c + 4" s1] obtain s' r' where
        ih: "verify_pages k env f (c + 4) s1 st' (int (p + length rows)) = Some (s', r')"
          "stopped env rs (p + length rows) st' f r'"
          "\<forall>st''. r' = Inr st'' \<longrightarrow> r' = verdict env rs (p + length rows) st'
             \<and> f s1 (map ir_event (drop (p + length rows) rs)) = Inr s'"
        by blast
      have "map ir_event (drop p rs) = map ir_event rows @ map ir_event (drop (p + length rows) rs)"
        using arg_cong [OF r(6), of "map ir_event"] by simp
      then have "f s (map ir_event (drop p rs)) = f s1 (map ir_event (drop (p + length rows) rs))"
        using f r(5) by (simp add: consumer_append)
      with ih r(4,7) show ?thesis by (simp add: stopped_def)
    qed
  qed
qed simp

text \<open>The rows a verification reads and the state it starts from.\<close>

definition fold_until :: "checkpoint_prefix option \<Rightarrow> bool \<Rightarrow> nat \<Rightarrow> nat" where
  "fold_until checkpoint hashPrefix n =
     (case checkpoint of Some c \<Rightarrow> nat (cp_throughSeq c)
      | None \<Rightarrow> if hashPrefix then 0 else n - nat COLD_TAIL_ROWS)"

text \<open>What \<^verbatim>\<open>verifyLedger\<close> decides when nothing interrupts it.\<close>

definition ledger_verdict :: "js_host \<Rightarrow> checkpoint_prefix option \<Rightarrow> bool \<Rightarrow> integrity_row list \<Rightarrow> integrity_state res" where
  "ledger_verdict h checkpoint hashPrefix rs =
     (let n = fold_until checkpoint hashPrefix (length rs) in
      rbind (case checkpoint of Some c \<Rightarrow> Inr (checkpoint_state c)
             | None \<Rightarrow> verifyIntegrityRows h False (take n rs) EMPTY_STATE)
        (verifyIntegrityRows h True (drop n rs)))"

definition checkpoint_fits :: "checkpoint_prefix option \<Rightarrow> integrity_row list \<Rightarrow> bool" where
  "checkpoint_fits checkpoint rs \<longleftrightarrow>
     (case checkpoint of None \<Rightarrow> True | Some c \<Rightarrow> 1 \<le> cp_throughSeq c \<and> cp_throughSeq c \<le> int (length rs))"

lemma nothing_threw: "consumer_threw (\<lambda>s es. Inr s) r = False"
  by (simp add: consumer_threw_def)

lemma verifyLedger_decides:
  assumes rs: "reads_rows read rs" and fits: "checkpoint_fits checkpoint rs"
    and t: "positive_safe (fst timeouts)" "positive_safe (snd timeouts)"
    and f: "\<And>g. onPage = Some g \<Longrightarrow> consumer g" and k: "length rs < k"
  shows "\<exists>s' r. verifyLedger k h read interrupt timeouts (int (length rs)) onPage s checkpoint hashPrefix = Some (s', r)
    \<and> (r = ledger_verdict h checkpoint hashPrefix rs \<or> interrupted interrupt r
        \<or> (\<exists>g. onPage = Some g \<and> consumer_threw g r))
    \<and> (\<forall>st. r = Inr st \<longrightarrow> r = ledger_verdict h checkpoint hashPrefix rs
         \<and> (case onPage of None \<Rightarrow> s' = s | Some g \<Rightarrow> g s (map ir_event rs) = Inr s'))"
proof (cases "interrupt 0")
  case (Some e)
  then show ?thesis using t by (auto simp: verifyLedger_def Let_def interrupted_def)
next
  case None
  define n where "n = fold_until checkpoint hashPrefix (length rs)"
  define env where "env = \<lparr>ve_host = h, ve_read = read, ve_lastSeq = int (length rs), ve_checkpoint = checkpoint,
    ve_foldUntil = int n, ve_interrupt = interrupt\<rparr>"
  define g where "g = (case onPage of Some f \<Rightarrow> f | None \<Rightarrow> \<lambda>s _. Inr s)"
  define st where "st = (case (checkpoint, onPage) of (Some c, None) \<Rightarrow> checkpoint_state c | _ \<Rightarrow> EMPTY_STATE)"
  have n: "n \<le> length rs" using fits by (auto simp: n_def fold_until_def checkpoint_fits_def split: option.splits)
  have fu: "(case checkpoint of Some c \<Rightarrow> cp_throughSeq c
      | None \<Rightarrow> if checkpoint = None \<and> \<not> hashPrefix \<and> int (length rs) > COLD_TAIL_ROWS
          then int (length rs) - COLD_TAIL_ROWS else 0) = int n"
    using fits by (auto simp: n_def fold_until_def checkpoint_fits_def COLD_TAIL_ROWS_def split: option.splits)
  have run: "verifyLedger k h read interrupt timeouts (int (length rs)) onPage s checkpoint hashPrefix
      = verify_pages k env g 1 s st (is_lastSeq st)"
    using t None fu by (simp add: verifyLedger_def Let_def env_def g_def st_def)
  have e: "reads_rows (ve_read env) rs" "ve_lastSeq env = int (length rs)" "0 \<le> ve_foldUntil env"
    "ve_foldUntil env \<le> int (length rs)" using rs n by (simp_all add: env_def)
  have g: "consumer g" using f by (auto simp: g_def consumer_def split: option.splits)
  define p where "p = nat (is_lastSeq st)"
  have p: "is_lastSeq st = int p" "p \<le> length rs"
    using fits by (auto simp: p_def st_def EMPTY_STATE_def checkpoint_state_def checkpoint_fits_def split: option.splits)
  have lv: "ledger_verdict h checkpoint hashPrefix rs =
      rbind (case checkpoint of Some c \<Rightarrow> Inr (checkpoint_state c) | None \<Rightarrow> verifyIntegrityRows h False (take n rs) EMPTY_STATE)
        (verifyIntegrityRows h True (drop n rs))"
    unfolding ledger_verdict_def n_def Let_def by (cases checkpoint) simp_all
  have v: "verdict env rs p st = ledger_verdict h checkpoint hashPrefix rs"
  proof (cases checkpoint)
    case None
    then have "p = 0" "st = EMPTY_STATE" by (simp_all add: p_def st_def EMPTY_STATE_def)
    then show ?thesis
      unfolding lv using None by (cases "n = 0") (simp_all add: verdict_def env_def)
  next
    case (Some c)
    then have nc: "int n = cp_throughSeq c" "0 < n" using fits by (simp_all add: n_def fold_until_def checkpoint_fits_def)
    show ?thesis
    proof (cases onPage)
      case None
      then have "st = checkpoint_state c" "p = n" using Some nc by (simp_all add: st_def p_def checkpoint_state_def)
      then show ?thesis unfolding lv using Some by (simp add: verdict_def env_def)
    next
      case (Some g)
      then have "st = EMPTY_STATE" "p = 0" by (simp_all add: st_def p_def EMPTY_STATE_def split: option.splits)
      moreover have "checkpoint_state c\<lparr>is_lastSeq := int n\<rparr> = checkpoint_state c"
        using nc by (simp add: checkpoint_state_def)
      ultimately show ?thesis unfolding lv using \<open>checkpoint = Some c\<close> nc(2)
        by (simp add: verdict_def env_def nc(1) [symmetric])
    qed
  qed
  have "in_step env p st" using p by (simp add: in_step_def)
  moreover have "length rs - p < k" using k by linarith
  ultimately obtain s' r where
    r: "verify_pages k env g 1 s st (int p) = Some (s', r)" "stopped env rs p st g r"
      "\<forall>st'. r = Inr st' \<longrightarrow> r = verdict env rs p st \<and> g s (map ir_event (drop p rs)) = Inr s'"
    using verify_pages_verdict [OF e g p(2), of st k 1 s] by blast
  have "case onPage of None \<Rightarrow> s' = s | Some f \<Rightarrow> f s (map ir_event rs) = Inr s'" if "r = Inr st'" for st'
  proof (cases onPage)
    case (Some f)
    then have "p = 0" by (simp add: p_def st_def EMPTY_STATE_def split: option.splits)
    then show ?thesis using r(3) that Some by (simp add: g_def)
  qed (use r(3) that in \<open>simp add: g_def\<close>)
  moreover have "consumer_threw g r \<Longrightarrow> \<exists>f. onPage = Some f \<and> consumer_threw f r"
    by (cases onPage) (simp_all add: g_def nothing_threw)
  moreover have "ve_interrupt env = interrupt" by (simp add: env_def)
  ultimately show ?thesis using r run p(1) v by (auto simp: stopped_def)
qed

section \<open>The background rehash\<close>

fun coop_rows :: "js_host \<Rightarrow> integrity_row list \<Rightarrow> integrity_state \<Rightarrow> integrity_state res" where
  "coop_rows h [] st = Inr st"
| "coop_rows h (r # rs) st = rbind (verifyIntegrityRowCooperatively h r st) (coop_rows h rs)"

lemma coop_append: "coop_rows h (rs @ rs') st = rbind (coop_rows h rs st) (coop_rows h rs')"
proof (induction rs arbitrary: st)
  case (Cons r rs)
  then show ?case by (cases "verifyIntegrityRowCooperatively h r st") simp_all
qed simp

text \<open>Both accept the same rows, whatever error they give for the others.\<close>

lemma cooperative_accepts: "verifyIntegrityRowCooperatively h row st = Inr st' \<longleftrightarrow> verify_row h True st row = Inr st'"
proof (cases "\<exists>m t. ir_integrity row = Some m \<and> jcs_text h (cooperative_value st row m) = Some t \<and> sha256Hex t = None")
  case False
  then show ?thesis using cooperative_row [of row h st] by auto
next
  case True
  then obtain m t where m: "ir_integrity row = Some m" "jcs_text h (cooperative_value st row m) = Some t" "sha256Hex t = None"
    by blast
  have "verify_row h True st row \<noteq> Inr st'" using m by (simp add: verify_row_protected [OF m(1)] digest_of_def)
  moreover have "verifyIntegrityRowCooperatively h row st \<noteq> Inr st'"
  proof (cases "jcsChunks h (cooperative_value st row m)")
    case None
    then show ?thesis by (cases "verify_row h False st row")
      (simp_all add: verifyIntegrityRowCooperatively_def m(1) integrity_fail_def throw_def)
  next
    case ts: (Some ts)
    obtain hash pending where f: "foldl feed_token (createSha256, []) ts = (hash, pending)" by force
    from tokens_digest [OF ts f] m(2,3)
    have "digestHex (if pending \<noteq> [] then sha_update hash pending else hash) = None" by auto
    then show ?thesis by (cases "verify_row h False st row")
      (simp_all add: verifyIntegrityRowCooperatively_def m(1) ts f)
  qed
  ultimately show ?thesis by blast
qed

lemma coop_rows_accept: "coop_rows h rs st = Inr st' \<longleftrightarrow> verifyIntegrityRows h True rs st = Inr st'"
  by (induction rs arbitrary: st) (simp_all add: rbind_eq_Inr_iff cooperative_accepts)

lemma rehash_rows_decides:
  "\<exists>c' r. rehash_rows h interrupt c rows st = (c', r) \<and> (r = coop_rows h rows st \<or> interrupted interrupt r)"
proof (induction rows arbitrary: c st)
  case (Cons row rows)
  show ?case
  proof (cases "verifyIntegrityRowCooperatively h row st")
    case (Inr st')
    then show ?thesis using Cons.IH [of "c + 1" st']
      by (cases "interrupt c") (auto simp: interrupted_def)
  qed simp
qed simp

lemma rehash_pages_decides:
  assumes rs: "reads_rows read rs" and t: "t \<le> length rs"
  shows "is_lastSeq st = int p \<Longrightarrow> p \<le> t \<Longrightarrow> t - p < k \<Longrightarrow>
    \<exists>r. rehash_pages k h read interrupt (int t) c st = Some r
      \<and> (r = coop_rows h (take (t - p) (drop p rs)) st \<or> interrupted interrupt r)"
proof (induction k arbitrary: c st p)
  case (Suc k)
  show ?case
  proof (cases "p < t")
    case False
    then show ?thesis using Suc.prems by simp
  next
    case True
    define rows where "rows = take (min REHASH_PAGE (t - p)) (drop p rs)"
    have sz: "0 < REHASH_PAGE" by (simp add: REHASH_PAGE_def)
    note pf = page_facts [OF rs True t sz, folded rows_def]
    have rd: "read (int p + 1) (int t) REHASH_PAGE = Inr rows"
      unfolding rows_def by (rule read_page [OF rs _ t sz]) (use True in \<open>simp_all add: REHASH_PAGE_def INTEGRITY_PAGE_SIZE_def\<close>)
    have tk: "take (t - p) (drop p rs) = rows @ take (t - (p + length rows)) (drop (p + length rows) rs)"
      using pf(2) True by (subst pf(5)) auto
    show ?thesis
    proof (cases "interrupt c")
      case (Some e)
      then show ?thesis using Suc.prems(1) True by (simp add: interrupted_def) blast
    next
      case None
      obtain c' r where r: "rehash_rows h interrupt (c + 1) rows st = (c', r)"
        "r = coop_rows h rows st \<or> interrupted interrupt r" using rehash_rows_decides by blast
      show ?thesis
      proof (cases r)
        case (Inl e)
        have "rehash_pages (Suc k) h read interrupt (int t) c st = Some (Inl e)"
          using Inl r Suc.prems(1) True None rd pf(1,3) by simp
        moreover have "Inl e = coop_rows h (take (t - p) (drop p rs)) st \<or> interrupted interrupt (Inl e :: integrity_state res)"
          using r(2) unfolding Inl tk coop_append by (cases "coop_rows h rows st") simp_all
        ultimately show ?thesis by blast
      next
        case (Inr st')
        then have c: "coop_rows h rows st = Inr st'" using r(2) by (auto simp: interrupted_def)
        then have "is_lastSeq st' = int (p + length rows)"
          using verified_lastSeq pf(1,4) coop_rows_accept by metis
        moreover have "p + length rows \<le> t" "t - (p + length rows) < k"
          using pf(1,2) True Suc.prems(3) by (cases rows; auto)+
        ultimately obtain r' where "rehash_pages k h read interrupt (int t) c' st' = Some r'"
          "r' = coop_rows h (take (t - (p + length rows)) (drop (p + length rows) rs)) st' \<or> interrupted interrupt r'"
          using Suc.IH [of st' "p + length rows" c'] by blast
        then show ?thesis using r Inr c Suc.prems(1) True None rd pf(1,3) by (simp add: tk coop_append)
      qed
    qed
  qed
qed simp

lemma head_differs_iff:
  "(is_lastSeq st \<noteq> is_lastSeq head \<or> is_headDigest st \<noteq> is_headDigest head
     \<or> is_legacyThroughSeq st \<noteq> is_legacyThroughSeq head) \<longleftrightarrow> st \<noteq> (head :: integrity_state)"
  by (cases st; cases head) auto

lemma verifyCheckpointPrefix_decides:
  assumes "reads_rows read rs" "0 \<le> is_lastSeq head" "is_lastSeq head \<le> int (length rs)" "length rs < k"
  shows "\<exists>r. verifyCheckpointPrefix k h read interrupt head = Some r
    \<and> (r = Inr () \<longrightarrow> verifyIntegrityRows h True (take (nat (is_lastSeq head)) rs) EMPTY_STATE = Inr head)
    \<and> (r \<noteq> Inr () \<longrightarrow> interrupted interrupt r
        \<or> verifyIntegrityRows h True (take (nat (is_lastSeq head)) rs) EMPTY_STATE \<noteq> Inr head)"
proof -
  define t where "t = nat (is_lastSeq head)"
  have t: "is_lastSeq head = int t" "t \<le> length rs" using assms(2,3) by (simp_all add: t_def)
  obtain r where r: "rehash_pages k h read interrupt (int t) 0 EMPTY_STATE = Some r"
    "r = coop_rows h (take t rs) EMPTY_STATE \<or> interrupted interrupt r"
    using rehash_pages_decides [OF assms(1) t(2), of EMPTY_STATE 0 k h interrupt 0] assms(4) t(2)
    by (auto simp: EMPTY_STATE_def)
  show ?thesis
  proof (cases r)
    case (Inl e)
    then have "interrupted interrupt (Inl e :: unit res) \<or> verifyIntegrityRows h True (take t rs) EMPTY_STATE \<noteq> Inr head"
      using r(2) coop_rows_accept [of h "take t rs" EMPTY_STATE head] by (auto simp: interrupted_def)
    then show ?thesis using Inl r(1) by (simp add: verifyCheckpointPrefix_def t(1))
  next
    case (Inr st)
    then have "verifyIntegrityRows h True (take t rs) EMPTY_STATE = Inr st"
      using r(2) coop_rows_accept [of h "take t rs" EMPTY_STATE st] by (auto simp: interrupted_def)
    then show ?thesis using Inr r(1)
      by (auto simp: verifyCheckpointPrefix_def t(1) [symmetric] head_differs_iff t_def [symmetric] integrity_fail_def throw_def)
  qed
qed

section \<open>A sound ledger\<close>

text \<open>Recomputing digests only refuses more.\<close>

lemma strict_row_is_lax: "verify_row h True st r = Inr st' \<Longrightarrow> verify_row h False st r = Inr st'"
  by (cases "ir_integrity r") (auto simp: verify_row_legacy verify_row_protected)

lemma strict_is_lax: "verifyIntegrityRows h True rs st = Inr st' \<Longrightarrow> verifyIntegrityRows h False rs st = Inr st'"
  by (induction rs arbitrary: st) (auto simp: rbind_eq_Inr_iff dest: strict_row_is_lax)

text \<open>A checkpoint taken from a ledger that verified.\<close>

definition checkpoint_true :: "js_host \<Rightarrow> checkpoint_prefix option \<Rightarrow> integrity_row list \<Rightarrow> bool" where
  "checkpoint_true h checkpoint rs \<longleftrightarrow>
     (case checkpoint of None \<Rightarrow> True
      | Some c \<Rightarrow> verifyIntegrityRows h True (take (nat (cp_throughSeq c)) rs) EMPTY_STATE = Inr (checkpoint_state c))"

lemma sound_verdict:
  assumes "verifyIntegrityRows h True rs EMPTY_STATE = Inr st" "checkpoint_true h checkpoint rs"
  shows "ledger_verdict h checkpoint hashPrefix rs = Inr st"
proof -
  define n where "n = fold_until checkpoint hashPrefix (length rs)"
  have "rbind (verifyIntegrityRows h True (take n rs) EMPTY_STATE) (verifyIntegrityRows h True (drop n rs)) = Inr st"
    using assms(1) verify_append [of h True "take n rs" "drop n rs" EMPTY_STATE] by simp
  then obtain st0 where st0: "verifyIntegrityRows h True (take n rs) EMPTY_STATE = Inr st0"
    "verifyIntegrityRows h True (drop n rs) st0 = Inr st" by (auto simp: rbind_eq_Inr_iff)
  show ?thesis
  proof (cases checkpoint)
    case None
    then show ?thesis
      using strict_is_lax [OF st0(1)] st0(2) by (simp add: ledger_verdict_def n_def Let_def)
  next
    case (Some c)
    then have "st0 = checkpoint_state c" using st0(1) assms(2) by (simp add: n_def fold_until_def checkpoint_true_def)
    then show ?thesis using st0(2) Some by (simp add: ledger_verdict_def n_def Let_def)
  qed
qed

lemma strict_lastSeq:
  assumes "verifyIntegrityRows h hash rs EMPTY_STATE = Inr st" "reads_rows read rs"
  shows "is_lastSeq st = int (length rs)"
proof (cases rs rule: rev_cases)
  case (snoc rs0 r)
  then have "row_seq (last rs) = int (length rs)" using row_seq_nth [OF assms(2), of "length rs0"] by (simp add: nth_append)
  then show ?thesis using verified_lastSeq [OF assms(1)] snoc by simp
qed (use assms(1) in \<open>auto simp: EMPTY_STATE_def\<close>)

lemma verdict_lastSeq:
  assumes "ledger_verdict h checkpoint hashPrefix rs = Inr st" "reads_rows read rs" "checkpoint_fits checkpoint rs"
  shows "is_lastSeq st = int (length rs)"
proof -
  define n where "n = fold_until checkpoint hashPrefix (length rs)"
  have n: "n \<le> length rs" using assms(3) by (auto simp: n_def fold_until_def checkpoint_fits_def split: option.splits)
  obtain st0 where st0: "(case checkpoint of Some c \<Rightarrow> Inr (checkpoint_state c)
      | None \<Rightarrow> verifyIntegrityRows h False (take n rs) EMPTY_STATE) = Inr st0"
    "verifyIntegrityRows h True (drop n rs) st0 = Inr st"
    using assms(1) unfolding ledger_verdict_def Let_def n_def [symmetric] by (auto simp: rbind_eq_Inr_iff)
  show ?thesis
  proof (cases "n = length rs")
    case True
    show ?thesis
    proof (cases checkpoint)
      case None
      then show ?thesis using st0 True strict_lastSeq [OF _ assms(2)] by simp
    next
      case (Some c)
      then have "nat (cp_throughSeq c) = length rs" "1 \<le> cp_throughSeq c"
        using True assms(3) by (simp_all add: n_def fold_until_def checkpoint_fits_def)
      then have "cp_throughSeq c = int (length rs)" by linarith
      moreover have "st = checkpoint_state c" using st0 Some True by simp
      ultimately show ?thesis by (simp add: checkpoint_state_def)
    qed
  next
    case False
    then have "rs \<noteq> []" "drop n rs \<noteq> []" using n by auto
    moreover from this have "row_seq (last rs) = int (length rs)"
      using row_seq_nth [OF assms(2), of "length rs - 1"] by (simp add: last_conv_nth Suc_leI)
    ultimately show ?thesis using verified_lastSeq [OF st0(2)] n False by simp
  qed
qed

section \<open>The properties\<close>

text \<open>
  C16. Paging decides nothing: whatever the page boundaries, the two page sizes of a folded prefix and a
  hashed tail, and the places where the check for a deadline or an abort runs, the verification of a
  numbered ledger ends within one round per row, and its result is the one-pass verdict on the rows, an
  interruption, or an error of the consumer; on success the consumer has been handed exactly the rows of
  the ledger, once and in order.
\<close>

theorem paging_decides_nothing:
  assumes "reads_rows read rs" "checkpoint_fits checkpoint rs" "positive_safe (fst timeouts)"
    "positive_safe (snd timeouts)" "\<forall>g. onPage = Some g \<longrightarrow> consumer g" "length rs < k"
  shows "\<exists>s' r. verifyLedger k h read interrupt timeouts (int (length rs)) onPage s checkpoint hashPrefix = Some (s', r)
    \<and> (r = ledger_verdict h checkpoint hashPrefix rs \<or> interrupted interrupt r
        \<or> (\<exists>g. onPage = Some g \<and> consumer_threw g r))
    \<and> (\<forall>st. r = Inr st \<longrightarrow> r = ledger_verdict h checkpoint hashPrefix rs
         \<and> (case onPage of None \<Rightarrow> s' = s | Some g \<Rightarrow> g s (map ir_event rs) = Inr s'))"
  using assms by (intro verifyLedger_decides) simp_all

text \<open>A checkpoint the store vouches for lies inside the ledger.\<close>

lemma used_checkpoint:
  assumes "decideCheckpoint h st key final = (st', Inr (Use_checkpoint v))"
  shows "1 \<le> vh_throughSeq v" "vh_throughSeq v \<le> final" "vh_sessionKey v = key"
    "verifiedHeadDigest h v = Some (vh_checkpointDigest v)" "vh_legacyThroughSeq v < vh_throughSeq v"
    "integrityDigestAt st key (vh_throughSeq v) = (st', Inr (Some (Some (vh_headDigest v))))"
  using assms by (auto simp: decideCheckpoint_def split: option.splits if_splits prod.splits sum.splits)

lemma history_steps:
  assumes "verifyCheckpointHistory k h st key interrupt timeouts final onPage s hashPrefix = Some (s', Inr (decision, head))"
  obtains checkpoint where "verifyLedger k h (store_reader (fst (decideCheckpoint h st key final)) key) interrupt timeouts
      final onPage s checkpoint hashPrefix = Some (s', Inr head)"
    "\<And>c. checkpoint = Some c \<Longrightarrow> 1 \<le> cp_throughSeq c \<and> cp_throughSeq c \<le> final"
proof -
  obtain st' r where d: "decideCheckpoint h st key final = (st', r)" by force
  define checkpoint where "checkpoint = (case r of Inr (Use_checkpoint v) \<Rightarrow> Some (prefix_of_head v) | _ \<Rightarrow> None)"
  have c: "(case (case r of Inr d \<Rightarrow> d | Inl _ \<Rightarrow> Skip_checkpoint ''unsupported'') of
      Use_checkpoint v \<Rightarrow> Some (prefix_of_head v) | _ \<Rightarrow> None) = checkpoint"
    by (auto simp: checkpoint_def split: sum.splits checkpoint_decision.splits)
  have "verifyLedger k h (store_reader st' key) interrupt timeouts final onPage s checkpoint hashPrefix = Some (s', Inr head)"
    using assms by (auto simp: verifyCheckpointHistory_def d Let_def c rbind_eq_Inr_iff)
  moreover have "1 \<le> cp_throughSeq c \<and> cp_throughSeq c \<le> final" if "checkpoint = Some c" for c
    using that d used_checkpoint [of h st key final st']
    by (auto simp: checkpoint_def prefix_of_head_def split: sum.splits checkpoint_decision.splits)
  ultimately show thesis using that d by simp
qed

text \<open>
  C5. A fast open with its background check is a full verification: a cold open consults the stored
  checkpoint and hashes only the rows behind it, or the last few, but when it succeeds and the background
  rehash from the first row reaches the head it reported, then hashing every row from the start in one
  pass succeeds with that very head, whatever the checkpoint claimed and however either run was paged.
\<close>

theorem fast_open_plus_rehash:
  assumes "reads_rows (store_reader (fst (decideCheckpoint h st key (int (length rs)))) key) rs"
    "positive_safe (fst timeouts)" "positive_safe (snd timeouts)" "\<forall>g. onPage = Some g \<longrightarrow> consumer g" "length rs < k"
    and "verifyCheckpointHistory k h st key interrupt timeouts (int (length rs)) onPage s hashPrefix
      = Some (s', Inr (decision, head))"
    and "verifyCheckpointPrefix k h (store_reader (fst (decideCheckpoint h st key (int (length rs)))) key) interrupt' head
      = Some (Inr ())"
  shows "verifyIntegrityRows h True rs EMPTY_STATE = Inr head"
proof -
  obtain checkpoint where run: "verifyLedger k h (store_reader (fst (decideCheckpoint h st key (int (length rs)))) key)
      interrupt timeouts (int (length rs)) onPage s checkpoint hashPrefix = Some (s', Inr head)"
    and c: "\<And>c. checkpoint = Some c \<Longrightarrow> 1 \<le> cp_throughSeq c \<and> cp_throughSeq c \<le> int (length rs)"
    using history_steps [OF assms(6)] by blast
  have fits: "checkpoint_fits checkpoint rs" using c by (auto simp: checkpoint_fits_def split: option.splits)
  have "ledger_verdict h checkpoint hashPrefix rs = Inr head"
    using verifyLedger_decides [OF assms(1) fits assms(2,3) _ assms(5), of onPage h interrupt s hashPrefix] assms(4) run by auto
  then have last: "is_lastSeq head = int (length rs)" by (rule verdict_lastSeq [OF _ assms(1) fits])
  then show ?thesis
    using verifyCheckpointPrefix_decides [OF assms(1) _ _ assms(5), of head h interrupt'] assms(7) by simp
qed

text \<open>
  C25. A sound ledger opens however it is opened: when the one-pass verification accepts the rows and the
  checkpoint, if any, was taken from them, the open with or without a checkpoint, with or without
  hashing the prefix hands the consumer every row and reaches the same head, and the background rehash
  then accepts it.
\<close>

theorem sound_ledger_opens:
  assumes "reads_rows read rs" "checkpoint_fits checkpoint rs" "checkpoint_true h checkpoint rs"
    "positive_safe (fst timeouts)" "positive_safe (snd timeouts)" "length rs < k"
    and "verifyIntegrityRows h True rs EMPTY_STATE = Inr st"
  shows "verifyLedger k h read (\<lambda>_. None) timeouts (int (length rs)) (Some (\<lambda>es page. Inr (es @ page))) [] checkpoint hashPrefix
      = Some (map ir_event rs, Inr st)
    \<and> verifyCheckpointPrefix k h read (\<lambda>_. None) st = Some (Inr ())"
proof -
  have c: "consumer (\<lambda>es page. Inr (es @ page) :: event list res)" by (simp add: consumer_def)
  have v: "ledger_verdict h checkpoint hashPrefix rs = Inr st" by (rule sound_verdict [OF assms(7,3)])
  from verifyLedger_decides [OF assms(1,2,4,5) _ assms(6), of "Some (\<lambda>es page. Inr (es @ page))" h "\<lambda>_. None" "[]" hashPrefix] c
  have run: "verifyLedger k h read (\<lambda>_. None) timeouts (int (length rs)) (Some (\<lambda>es page. Inr (es @ page))) [] checkpoint hashPrefix
      = Some (map ir_event rs, Inr st)"
    by (auto simp: v interrupted_def consumer_threw_def)
  have "is_lastSeq st = int (length rs)" by (rule strict_lastSeq [OF assms(7,1)])
  then have "verifyCheckpointPrefix k h read (\<lambda>_. None) st = Some (Inr ())"
    using verifyCheckpointPrefix_decides [OF assms(1) _ _ assms(6), of st h "\<lambda>_. None"] assms(7)
    by (auto simp: interrupted_def)
  with run show ?thesis ..
qed

text \<open>One protected row in a store, under a checkpoint of another session.\<close>

definition one_row_store :: "string \<Rightarrow> ledger_store" where
  "one_row_store d =
     \<lparr>books = [(''k'', new_book\<lparr>b_events := [logged 1 note_ab],
        b_integrity := [(1, \<lparr>im_mode = ''anchor'', im_previousDigest = None, im_digest = d\<rparr>)]\<rparr>)],
      controlFormat = 1, integrityFailures = [], verifiedHeads = []\<rparr>"

definition small_timeouts :: "jsnum \<times> jsnum" where
  "small_timeouts = (num_of_int 30000, num_of_int 600000)"

lemma small_timeouts_ok: "positive_safe (fst small_timeouts)" "positive_safe (snd small_timeouts)"
  by (simp_all add: small_timeouts_def positive_safe_def num_of_int_def is_safe_integer_def max_safe_integer_def is_integral_def)

lemma one_row_store_decides: "decideCheckpoint h (one_row_store d) key final = (one_row_store d, Inr (Skip_checkpoint ''absent''))"
  by (simp add: decideCheckpoint_def readVerifiedHead_def one_row_store_def)

lemma one_row_reads: "reads_rows (store_reader (one_row_store d) ''k'') (one_row note_ab d)"
proof -
  have s: "is_safe_integer (num_of_int (int n)) \<and> js_lt (num_of_int 0) (num_of_int (int n)) \<and> nat (int_of_num (num_of_int (int n))) = n"
    if "0 < n" "n \<le> INTEGRITY_PAGE_SIZE" for n
  proof -
    have "js_lt (num_of_int 0) (num_of_int (int n))" using that by (simp add: num_of_int_def)
    then show ?thesis using that by (simp add: INTEGRITY_PAGE_SIZE_def max_safe_integer_def)
  qed
  have "prefixedIntegrity (chain_fuel (one_row_store d)) (one_row_store d) ''k'' (get_book (one_row_store d) ''k'')
      = Some (one_row_store d, one_row note_ab d)"
    by (simp add: chain_fuel_def one_row_store_def get_book_def new_book_def one_row_def)
  moreover have "touch_book (one_row_store d) ''k'' = one_row_store d"
    by (simp add: touch_book_def one_row_store_def)
  ultimately have "store_reader (one_row_store d) ''k'' a b n
      = Inr (take n (filter (\<lambda>r. row_seq r \<ge> a \<and> row_seq r \<le> b) (one_row note_ab d)))"
    if "0 < n" "n \<le> INTEGRITY_PAGE_SIZE" for a b n
    using s [OF that] by (simp add: store_reader_def scanIntegrity_def Let_def)
  then show ?thesis by (simp add: reads_rows_def one_row_def)
qed

definition note_events :: "event list \<Rightarrow> event list \<Rightarrow> event list res" where
  "note_events es page = Inr (es @ page)"

lemma paging_decides_nothing_witness:
  "\<exists>s' r. verifyLedger 2 fraction_host (store_reader (one_row_store '''') ''k'') (\<lambda>_. None) small_timeouts 1
      (Some note_events) [] None False = Some (s', r)
    \<and> r = ledger_verdict fraction_host None False (one_row note_ab '''')"
proof -
  have c: "\<forall>g. Some note_events = Some g \<longrightarrow> consumer g" by (simp add: consumer_def note_events_def)
  have l: "int (length (one_row note_ab '''')) = 1" "length (one_row note_ab '''') < 2" by (simp_all add: one_row_def)
  have f: "checkpoint_fits None (one_row note_ab '''')" by (simp add: checkpoint_fits_def)
  have n: "\<not> interrupted (\<lambda>_. None) r" "\<not> consumer_threw note_events r" for r :: "integrity_state res"
    by (simp_all add: interrupted_def consumer_threw_def note_events_def)
  from paging_decides_nothing [OF one_row_reads [of "''''"] f small_timeouts_ok c l(2), of fraction_host "\<lambda>_. None" "[]" False]
  show ?thesis using n unfolding l(1) by auto
qed

lemma one_row_digest: "\<exists>d. verifyIntegrityRows fraction_host True (one_row note_ab d) EMPTY_STATE
    = Inr \<lparr>is_lastSeq = 1, is_legacyThroughSeq = 0, is_headDigest = Some d\<rparr>"
proof -
  have "row_bound fraction_host ''k'' 0 (logged 1 note_ab) < 2 ^ 29" by (rule logged_bound) simp_all
  then obtain d where "digest_of fraction_host (anchor_value ''k'' 0 (logged 1 note_ab)) = Some d"
    using short_digest [OF anchor_encodable anchor_bound] digestCanonical_digest by (metis option.simps(9))
  from one_row_verifies [OF this] show ?thesis by blast
qed

lemma sound_ledger_opens_witness:
  "\<exists>d. verifyLedger 2 fraction_host (store_reader (one_row_store d) ''k'') (\<lambda>_. None) small_timeouts 1
      (Some (\<lambda>es page. Inr (es @ page))) [] (Some \<lparr>cp_throughSeq = 1, cp_headDigest = d, cp_legacyThroughSeq = 0\<rparr>) False
      = Some ([logged 1 note_ab], Inr \<lparr>is_lastSeq = 1, is_legacyThroughSeq = 0, is_headDigest = Some d\<rparr>)"
proof -
  obtain d where d: "verifyIntegrityRows fraction_host True (one_row note_ab d) EMPTY_STATE
      = Inr \<lparr>is_lastSeq = 1, is_legacyThroughSeq = 0, is_headDigest = Some d\<rparr>" using one_row_digest by blast
  let ?c = "Some \<lparr>cp_throughSeq = 1, cp_headDigest = d, cp_legacyThroughSeq = 0\<rparr>"
  have l: "int (length (one_row note_ab d)) = 1" "length (one_row note_ab d) < 2"
    "map ir_event (one_row note_ab d) = [logged 1 note_ab]" by (simp_all add: one_row_def)
  have f: "checkpoint_fits ?c (one_row note_ab d)" by (simp add: checkpoint_fits_def one_row_def)
  have t: "checkpoint_true fraction_host ?c (one_row note_ab d)"
    using d by (simp add: checkpoint_true_def checkpoint_state_def one_row_def)
  from sound_ledger_opens [OF one_row_reads f t small_timeouts_ok l(2) d, of False]
  show ?thesis unfolding l by blast
qed

lemma fast_open_plus_rehash_witness:
  "\<exists>d decision. verifyCheckpointHistory 2 fraction_host (one_row_store d) ''k'' (\<lambda>_. None) small_timeouts 1 None () False
      = Some ((), Inr (decision, \<lparr>is_lastSeq = 1, is_legacyThroughSeq = 0, is_headDigest = Some d\<rparr>))
    \<and> verifyIntegrityRows fraction_host True (one_row note_ab d) EMPTY_STATE
      = Inr \<lparr>is_lastSeq = 1, is_legacyThroughSeq = 0, is_headDigest = Some d\<rparr>"
proof -
  obtain d where d: "verifyIntegrityRows fraction_host True (one_row note_ab d) EMPTY_STATE
      = Inr \<lparr>is_lastSeq = 1, is_legacyThroughSeq = 0, is_headDigest = Some d\<rparr>" using one_row_digest by blast
  let ?st = "\<lparr>is_lastSeq = 1, is_legacyThroughSeq = 0, is_headDigest = Some d\<rparr>"
  have l: "int (length (one_row note_ab d)) = 1" "length (one_row note_ab d) < 2" by (simp_all add: one_row_def)
  have v: "ledger_verdict fraction_host None False (one_row note_ab d) = Inr ?st"
    by (rule sound_verdict [OF d]) (simp add: checkpoint_true_def)
  have f: "checkpoint_fits None (one_row note_ab d)" by (simp add: checkpoint_fits_def)
  from verifyLedger_decides [OF one_row_reads f small_timeouts_ok _ l(2), of None fraction_host "\<lambda>_. None" "()" False]
  have "verifyLedger 2 fraction_host (store_reader (one_row_store d) ''k'') (\<lambda>_. None) small_timeouts 1
      (None :: (unit \<Rightarrow> event list \<Rightarrow> unit res) option) () None False = Some ((), Inr ?st)"
    by (auto simp: v l(1) interrupted_def)
  then have run: "verifyCheckpointHistory 2 fraction_host (one_row_store d) ''k'' (\<lambda>_. None) small_timeouts
      (int (length (one_row note_ab d))) (None :: (unit \<Rightarrow> event list \<Rightarrow> unit res) option) () False
      = Some ((), Inr (Skip_checkpoint ''absent'', ?st))"
    by (simp add: verifyCheckpointHistory_def one_row_store_decides l(1))
  have "verifyCheckpointPrefix 2 fraction_host (store_reader (one_row_store d) ''k'') (\<lambda>_. None) ?st = Some (Inr ())"
    using verifyCheckpointPrefix_decides [OF one_row_reads _ _ l(2), of ?st fraction_host "\<lambda>_. None"] d
    by (auto simp: interrupted_def one_row_def)
  with fast_open_plus_rehash [OF _ small_timeouts_ok _ l(2) run, of "\<lambda>_. None"] one_row_reads
  have "verifyIntegrityRows fraction_host True (one_row note_ab d) EMPTY_STATE = Inr ?st"
    by (simp add: one_row_store_decides)
  with run show ?thesis unfolding l(1) by blast
qed

end
