(* ===== verification/Spec2Isabelle.thy ===== *)
theory Spec2Isabelle
  imports TurnCapsProps Scheduler ChildProps Permits EffectScope LedgerWitness Sha256Props HistoryProps
begin

text \<open>
  A verification library for the agent harness under \<^verbatim>\<open>src/packages\<close>. The library translates the
  program's core logic, the append-only session ledger and what is decided on top of it, into
  executable definitions, and proves the properties those parts promise.

  \<^bold>\<open>Conventions.\<close> An asynchronous method is a function from the state to the state and a result; the
  bodies modelled do not suspend between reading and writing the state they own. A call that can
  throw returns a \<^typ>\<open>'a res\<close>, an error value on the left; the state is kept when an error is thrown,
  so that what a failed call leaves behind can be stated. JavaScript maps are association lists in
  insertion order. Sequence numbers and clock readings are integers; where a value may be any
  JavaScript number it is a \<^typ>\<open>jsnum\<close> (exact for finite values). The clock is an argument
  \<^verbatim>\<open>now\<close>. Recursion the code bounds only by its stack takes fuel, and the theorems show
  how much is enough.

  \<^bold>\<open>Theories.\<close>
  \<^item> Prelude: errors and results, JavaScript maps, the contract of a keyed store and its interpretation
    on them. Js: JSON values, JavaScript numbers and their conversions. Lifecycle: the contract of a
    state machine with final states and of one with a fence.
  \<^item> Storage: \<^verbatim>\<open>core-ledger/src/log/storage.ts\<close>. LedgerStore: the storage calls of the memory adapter,
    \<^verbatim>\<open>memory-storage.ts\<close> and \<^verbatim>\<open>memory-storage-base.ts\<close>. LedgerStoreFacts, LedgerStoreInv and
    LedgerStoreOps carry the invariant of a book, of the whole store, and each call's effect on it;
    LedgerStoreProps states what the store promises. The recursion over parent sessions takes as
    much fuel as there are sessions; parents are older than their children, so it is enough.
  \<^item> ScanPages: \<^verbatim>\<open>scan-pages.ts\<close>, the paged read built on scans.
  \<^item> ChildControl: records, state table, admission, credits and allowlist of delegated children.
    ChildStore: the child-control calls of the memory adapter. Budget, BudgetProps: the budget tree.
    ChildProps: creation attempts, states, fan-out, recovery.
  \<^item> The fold of the ledger, \<^verbatim>\<open>core-ledger/src/reduce\<close>. ChunkedMap: the persistent map it uses, refined
    to a plain map. RefinementRun, EntryMeta and RefinementSave: the rows of a background refinement run
    as the moves of a lifecycle, what an entry is valid for, the receipt of a save. Decision: the
    snapshots of a question put to a person. Migrate: event types and row versions
    (\<^verbatim>\<open>packages/protocol/src/migrate.ts\<close>). LedgerState and Reducer: \<^verbatim>\<open>state.ts\<close>, \<^verbatim>\<open>anchor.ts\<close> and
    \<^verbatim>\<open>reducer.ts\<close>, one definition per case of the switch; ReducerFacts says what a row does to each table.
  \<^item> Relations: \<^verbatim>\<open>log/relations.ts\<close>, the check of a batch before it is written. RelationFacts: what it
    keeps of the state. LedgerProps, LedgerRegs and LedgerWitness: an accepted batch can be folded and
    leaves a well-formed state, steps are numbered in sequence, lanes do not meet, taint lasts, the
    folded registers are the cells storage keeps, and the tree of effects is complete. A row is taken at
    the current version, the only one the envelope's schema admits.
  \<^item> Surface: \<^verbatim>\<open>project/surface.ts\<close>, what the model sees of a lane: the incremental cache equals the whole
    recomputation, what an accepted replace does, and how two of them part a call from its result.
  \<^item> Jcs, JcsFacts, JcsProps: \<^verbatim>\<open>packages/protocol/src/jcs.ts\<close> and \<^verbatim>\<open>canonicalJson\<close>, the encoders of everything
    that is hashed: they agree, and the text determines the value. Sha256, Sha256Facts, Sha256Props:
    \<^verbatim>\<open>request/sha256-portable.ts\<close> against the recurrences of FIPS 180-4, and its padding.
  \<^item> Integrity and HistoryVerification: \<^verbatim>\<open>log/integrity.ts\<close>, \<^verbatim>\<open>verified-head.ts\<close> and
    \<^verbatim>\<open>history-verification.ts\<close>, the digest chain over a ledger, the checkpoint that shortens an open and
    the background rehash. IntegrityFacts, IntegrityProps, IntegrityClaims: appended rows verify, a head
    digest fixes the history up to a collision. HistoryProps: pages decide nothing, and a fast open with
    its rehash is a full verification. The loops over pages take fuel; one round more than there are rows
    is enough.
  \<^item> Permits: \<^verbatim>\<open>core-effects/src/effects/execute-permits.ts\<close>, the registry that lets an effect run at
    most once. EffectScope: \<^verbatim>\<open>effect-scope.ts\<close> and \<^verbatim>\<open>effect.ts\<close>, the proof that a rejected tool call had
    no effect, with its asynchronous ports split where they wait.
  \<^item> Admission and Scheduler: \<^verbatim>\<open>scheduler.ts\<close>. Admission is the sibling queue and the gate both
    classes pump, with its barrier and progress; Scheduler is the hierarchy of leases, the invariant
    that an unsafe lease holds the gate alone, and a trace after which a lease stays suspended. The
    walk over the ancestors takes fuel; the theorems hold for any.
  \<^item> Regex, CommandSplit, HardBlock, CommandPrefix: \<^verbatim>\<open>core-common/src/command-table\<close>. Regular
    expressions by derivatives, the shell splitter, the commands no approval can allow, and what a
    granted prefix covers.
  \<^item> TurnCaps and TurnCapsProps: the limits a queued prompt carries for its turn and the messages it
    becomes, \<^verbatim>\<open>core/src/step/step-cap.ts\<close>, \<^verbatim>\<open>time-limit.ts\<close>, \<^verbatim>\<open>turn-budget.ts\<close>,
    \<^verbatim>\<open>inbox.ts\<close>: the readers are proved against the contract of an ordered log, which the memory
    adapter's ledger meets; one round of paging more than there are rows is enough.

  \<^bold>\<open>Not modelled.\<close> The asynchronous session loop, processes, sockets, the user interfaces and the
  durable adapters; conversions between binary floating point and micro-credits. Schema checks of
  payloads and date parsing are arguments, and so are the digests a decision and a refinement name. A \<^verbatim>\<open>session/start\<close> row is taken to be
  an object, as its schema has it; a sum of a number and a text, which the schema of a cost row rules
  out, is a \<^verbatim>\<open>NaN\<close> where the source would concatenate.
\<close>

end
